(* ===== verification/Prelude.thy ===== *)
theory Prelude
  imports Main "HOL-Library.Word" "HOL-Library.AList"
begin

section \<open>Prelude: shared types and lemmas\<close>

text \<open>
  What the component theories share: Go's byte slices, the big- and little-endian integer
  codecs of \<^verbatim>\<open>encoding/binary\<close>, the unsigned 64-bit counter arithmetic of the
  sequence numbers (a natural number below \<open>2 ^ 64\<close> with the wrap-around of \<open>+ 1\<close>
  written out), results of fallible operations as sums, and a few generic list lemmas.
  The collection \<open>codec_simps\<close> carries the codec proofs, \<open>u64_simps\<close> the
  counter arithmetic.
\<close>

named_theorems codec_simps \<open>length and round-trip facts of the byte codecs\<close>
named_theorems u64_simps \<open>facts about wrapping 64-bit counters\<close>

type_synonym byte = "8 word"
type_synonym bytes = "byte list"

text \<open>A fallible Go call \<^verbatim>\<open>(T, error)\<close>: \<open>Inl\<close> is the error, \<open>Inr\<close> the value.\<close>
type_synonym ('e, 'a) result = "'e + 'a"

subsection \<open>encoding/binary\<close>

text \<open>
  \<open>nat_be k v\<close> are the \<open>k\<close> low-order bytes of \<open>v\<close>, most significant first, and
  \<open>be_nat\<close> reads them back; the little-endian forms are their reversals. The typed
  functions below are \<^verbatim>\<open>binary.BigEndian.PutUint16\<close> and so on.
\<close>

fun nat_be :: "nat \<Rightarrow> nat \<Rightarrow> bytes" where
  "nat_be 0 v = []"
| "nat_be (Suc k) v = nat_be k (v div 256) @ [word_of_nat (v mod 256)]"

definition be_nat :: "bytes \<Rightarrow> nat" where
  "be_nat bs = foldl (\<lambda>a b. a * 256 + unat b) 0 bs"

definition PutUint16 :: "16 word \<Rightarrow> bytes" where
  "PutUint16 w = nat_be 2 (unat w)"

definition PutUint32 :: "32 word \<Rightarrow> bytes" where
  "PutUint32 w = nat_be 4 (unat w)"

definition PutUint64 :: "64 word \<Rightarrow> bytes" where
  "PutUint64 w = nat_be 8 (unat w)"

definition Uint16 :: "bytes \<Rightarrow> 16 word" where
  "Uint16 bs = word_of_nat (be_nat bs)"

definition Uint32 :: "bytes \<Rightarrow> 32 word" where
  "Uint32 bs = word_of_nat (be_nat bs)"

definition Uint64 :: "bytes \<Rightarrow> 64 word" where
  "Uint64 bs = word_of_nat (be_nat bs)"

definition LEPutUint16 :: "16 word \<Rightarrow> bytes" where
  "LEPutUint16 w = rev (PutUint16 w)"

definition LEPutUint32 :: "32 word \<Rightarrow> bytes" where
  "LEPutUint32 w = rev (PutUint32 w)"

definition LEUint16 :: "bytes \<Rightarrow> 16 word" where
  "LEUint16 bs = Uint16 (rev bs)"

definition LEUint32 :: "bytes \<Rightarrow> 32 word" where
  "LEUint32 bs = Uint32 (rev bs)"

text \<open>A Go slice expression \<^verbatim>\<open>bs[i:j]\<close> with both bounds in range.\<close>

definition slice :: "nat \<Rightarrow> nat \<Rightarrow> 'a list \<Rightarrow> 'a list" where
  "slice i j bs = take (j - i) (drop i bs)"

subsection \<open>Decimal text\<close>

text \<open>\<^verbatim>\<open>strconv\<close>'s base-10 form of a non-negative integer, and reading it back.\<close>

definition digit_char :: "nat \<Rightarrow> char" where
  "digit_char d = char_of (48 + d)"

definition is_digit :: "char \<Rightarrow> bool" where
  "is_digit c \<longleftrightarrow> 48 \<le> (of_char c :: nat) \<and> (of_char c :: nat) \<le> 57"

definition digit_val :: "char \<Rightarrow> nat" where
  "digit_val c = of_char c - 48"

fun dec_text :: "nat \<Rightarrow> string" where
  "dec_text n = (if n < 10 then [digit_char n] else dec_text (n div 10) @ [digit_char (n mod 10)])"

declare dec_text.simps [simp del]

definition dec_value :: "string \<Rightarrow> nat" where
  "dec_value cs = foldl (\<lambda>a c. a * 10 + digit_val c) 0 cs"

subsection \<open>64-bit counters\<close>

definition max64 :: nat where
  "max64 = 18446744073709551615"

definition inc64 :: "nat \<Rightarrow> nat" where
  "inc64 n = (n + 1) mod (max64 + 1)"

definition add64 :: "nat \<Rightarrow> nat \<Rightarrow> nat" where
  "add64 a b = (a + b) mod (max64 + 1)"

text \<open>The Go idiom \<^verbatim>\<open>x++; if x == 0 { x++ }\<close>: the next value that is not zero.\<close>

definition next_nonzero64 :: "nat \<Rightarrow> nat" where
  "next_nonzero64 n = (if inc64 n = 0 then inc64 (inc64 n) else inc64 n)"

subsection \<open>Codec lemmas\<close>

lemma unat_bound: "unat (w :: 'a::len word) < 2 ^ LENGTH('a)"
  by (rule unsigned_less)

lemma length_nat_be [simp, codec_simps]: "length (nat_be k v) = k"
  by (induction k arbitrary: v) auto

lemma be_nat_Nil [simp]: "be_nat [] = 0"
  by (simp add: be_nat_def)

lemma be_nat_snoc: "be_nat (bs @ [b]) = be_nat bs * 256 + unat b"
  by (simp add: be_nat_def)

lemma be_nat_bound: "be_nat bs < 256 ^ length bs"
proof (induction bs rule: rev_induct)
  case Nil
  show ?case by simp
next
  case (snoc b bs)
  have "unat b < 256" using unat_bound [of b] by simp
  with snoc show ?case by (simp add: be_nat_snoc)
qed

lemma be_nat_nat_be: "be_nat (nat_be k v) = v mod 256 ^ k"
proof (induction k arbitrary: v)
  case 0
  show ?case by simp
next
  case (Suc k)
  have "unat (word_of_nat (v mod 256) :: byte) = v mod 256"
    by (simp add: unat_of_nat)
  then show ?case
    by (simp add: be_nat_snoc Suc.IH mod_mult2_eq mult.commute add.commute)
qed

lemma nat_be_be_nat: "nat_be (length bs) (be_nat bs) = bs"
proof (induction bs rule: rev_induct)
  case Nil
  show ?case by simp
next
  case (snoc b bs)
  have b: "unat b < 256" using unat_bound [of b] by simp
  then show ?case by (simp add: be_nat_snoc snoc.IH)
qed

lemma length_Put [simp, codec_simps]:
  "length (PutUint16 w) = 2" "length (PutUint32 u) = 4" "length (PutUint64 v) = 8"
  "length (LEPutUint16 w) = 2" "length (LEPutUint32 u) = 4"
  by (simp_all add: PutUint16_def PutUint32_def PutUint64_def LEPutUint16_def LEPutUint32_def)

lemma Uint16_Put [simp, codec_simps]: "Uint16 (PutUint16 w) = w"
  using unat_bound [of w] by (simp add: Uint16_def PutUint16_def be_nat_nat_be)

lemma Uint32_Put [simp, codec_simps]: "Uint32 (PutUint32 w) = w"
  using unat_bound [of w] by (simp add: Uint32_def PutUint32_def be_nat_nat_be)

lemma Uint64_Put [simp, codec_simps]: "Uint64 (PutUint64 w) = w"
  using unat_bound [of w] by (simp add: Uint64_def PutUint64_def be_nat_nat_be)

lemma LEUint16_Put [simp, codec_simps]: "LEUint16 (LEPutUint16 w) = w"
  by (simp add: LEUint16_def LEPutUint16_def)

lemma LEUint32_Put [simp, codec_simps]: "LEUint32 (LEPutUint32 w) = w"
  by (simp add: LEUint32_def LEPutUint32_def)

lemma Put_Uint16: "length bs = 2 \<Longrightarrow> PutUint16 (Uint16 bs) = bs"
  using be_nat_bound [of bs] nat_be_be_nat [of bs]
  by (simp add: PutUint16_def Uint16_def unat_of_nat)

lemma Put_Uint32: "length bs = 4 \<Longrightarrow> PutUint32 (Uint32 bs) = bs"
  using be_nat_bound [of bs] nat_be_be_nat [of bs]
  by (simp add: PutUint32_def Uint32_def unat_of_nat)

lemma Put_Uint64: "length bs = 8 \<Longrightarrow> PutUint64 (Uint64 bs) = bs"
  using be_nat_bound [of bs] nat_be_be_nat [of bs]
  by (simp add: PutUint64_def Uint64_def unat_of_nat)

lemma length_slice [simp, codec_simps]: "j \<le> length bs \<Longrightarrow> length (slice i j bs) = j - i"
  by (simp add: slice_def)

lemma slice_append_left: "j \<le> length xs \<Longrightarrow> slice i j (xs @ ys) = slice i j xs"
  by (cases "i \<le> j") (simp_all add: slice_def)

lemma slice_append_right: "length xs \<le> i \<Longrightarrow> slice i j (xs @ ys) = slice (i - length xs) (j - length xs) ys"
  by (simp add: slice_def)

lemma slice_all: "slice 0 (length xs) xs = xs"
  by (simp add: slice_def)

subsection \<open>Decimal lemmas\<close>

lemma of_char_digit: "d < 10 \<Longrightarrow> (of_char (digit_char d) :: nat) = 48 + d"
  by (simp add: digit_char_def)

lemma is_digit_char [simp]: "d < 10 \<Longrightarrow> is_digit (digit_char d)"
  by (simp add: is_digit_def of_char_digit)

lemma digit_val_char [simp]: "d < 10 \<Longrightarrow> digit_val (digit_char d) = d"
  by (simp add: digit_val_def of_char_digit)

lemma dec_value_Nil [simp]: "dec_value [] = 0"
  by (simp add: dec_value_def)

lemma dec_value_snoc: "dec_value (cs @ [c]) = dec_value cs * 10 + digit_val c"
  by (simp add: dec_value_def)

lemma dec_value_dec_text [simp]: "dec_value (dec_text n) = n"
proof (induction n rule: dec_text.induct)
  case (1 n)
  show ?case
  proof (cases "n < 10")
    case True
    then show ?thesis using dec_value_snoc [of "[]"] by (simp add: dec_text.simps [of n])
  next
    case False
    with 1 show ?thesis by (simp add: dec_text.simps [of n] dec_value_snoc)
  qed
qed

lemma dec_text_digits: "c \<in> set (dec_text n) \<Longrightarrow> is_digit c"
proof (induction n rule: dec_text.induct)
  case (1 n)
  then show ?case by (cases "n < 10") (auto simp: dec_text.simps [of n])
qed

lemma dec_text_nonempty [simp]: "dec_text n \<noteq> []"
  by (subst dec_text.simps) simp

lemma length_dec_text: "n < 10 ^ k \<Longrightarrow> 0 < k \<Longrightarrow> length (dec_text n) \<le> k"
proof (induction n arbitrary: k rule: dec_text.induct)
  case (1 n)
  show ?case
  proof (cases "n < 10")
    case True
    with 1(3) show ?thesis by (simp add: dec_text.simps [of n])
  next
    case False
    from 1(3) obtain j where k: "k = Suc j" by (cases k) auto
    with 1(2) False have "0 < j" by (cases j) auto
    from 1(2) k have "n div 10 < 10 ^ j" by auto
    with False 1(1) k \<open>0 < j\<close> show ?thesis by (simp add: dec_text.simps [of n])
  qed
qed

subsection \<open>Counter lemmas\<close>

lemma inc64_eq [u64_simps]: "n < max64 \<Longrightarrow> inc64 n = n + 1"
  by (simp add: inc64_def)

lemma inc64_wrap [u64_simps]: "inc64 max64 = 0"
  by (simp add: inc64_def)

lemma inc64_bound [u64_simps]: "inc64 n \<le> max64"
proof -
  have "(n + 1) mod (max64 + 1) < max64 + 1" by (simp add: max64_def)
  then show ?thesis by (simp add: inc64_def)
qed

lemma inc64_less: "n < m \<Longrightarrow> m \<le> max64 \<Longrightarrow> inc64 n = Suc n"
  by (simp add: inc64_eq)

lemma inc64_nonzero: "n < max64 \<Longrightarrow> inc64 n > 0"
  by (simp add: inc64_eq)

lemma next_nonzero64_pos: "next_nonzero64 n > 0"
  by (simp add: next_nonzero64_def inc64_def max64_def)

lemma next_nonzero64_eq [u64_simps]: "n < max64 \<Longrightarrow> next_nonzero64 n = n + 1"
  by (simp add: next_nonzero64_def inc64_eq)

lemma next_nonzero64_bound: "next_nonzero64 n \<le> max64"
  by (simp add: next_nonzero64_def inc64_bound)

subsection \<open>Runs and simulations\<close>

text \<open>
  A component is driven by a list of operations; \<open>run\<close> threads its state through them and
  collects the results. The locale \<open>simulation\<close> is the contract between an implementation
  and its specification: one operation at a time, related states give equal results and
  related states. Its lemma lifts that to whole runs.
\<close>

fun run :: "('o \<Rightarrow> 's \<Rightarrow> 'r \<times> 's) \<Rightarrow> 'o list \<Rightarrow> 's \<Rightarrow> 'r list \<times> 's" where
  "run f [] s = ([], s)"
| "run f (x # xs) s = (let (r, s1) = f x s; (rs, s2) = run f xs s1 in (r # rs, s2))"

lemma run_Cons_fst: "fst (run f (x # xs) s) = fst (f x s) # fst (run f xs (snd (f x s)))"
  by (simp add: case_prod_beta Let_def)

lemma run_Cons_snd: "snd (run f (x # xs) s) = snd (run f xs (snd (f x s)))"
  by (simp add: case_prod_beta Let_def)

lemma run_append_snd: "snd (run f (xs @ ys) s) = snd (run f ys (snd (run f xs s)))"
  by (induction xs arbitrary: s) (simp_all add: run_Cons_snd del: run.simps(2))

lemma run_append_fst: "fst (run f (xs @ ys) s) = fst (run f xs s) @ fst (run f ys (snd (run f xs s)))"
  by (induction xs arbitrary: s) (simp_all add: run_Cons_snd run_Cons_fst del: run.simps(2))

lemma length_run [simp]: "length (fst (run f xs s)) = length xs"
  by (induction xs arbitrary: s) (simp_all add: run_Cons_fst del: run.simps(2))

lemma run_invariant:
  assumes "P s" and "\<And>x s. P s \<Longrightarrow> P (snd (f x s))"
  shows "P (snd (run f xs s))"
  using assms(1) by (induction xs arbitrary: s) (simp_all add: run_Cons_snd assms(2) del: run.simps(2))

locale simulation =
  fixes R :: "'c \<Rightarrow> 'a \<Rightarrow> bool"
    and cstep :: "'o \<Rightarrow> 'c \<Rightarrow> 'r \<times> 'c"
    and astep :: "'o \<Rightarrow> 'a \<Rightarrow> 'r \<times> 'a"
  assumes step_result: "R c a \<Longrightarrow> fst (cstep x c) = fst (astep x a)"
    and step_related: "R c a \<Longrightarrow> R (snd (cstep x c)) (snd (astep x a))"
begin

lemma run_related: "R c a \<Longrightarrow> R (snd (run cstep xs c)) (snd (run astep xs a))"
  by (induction xs arbitrary: c a) (simp_all add: run_Cons_snd step_related del: run.simps(2))

lemma run_results: "R c a \<Longrightarrow> fst (run cstep xs c) = fst (run astep xs a)"
  by (induction xs arbitrary: c a)
    (simp_all add: run_Cons_fst step_result step_related del: run.simps(2))

end

end
