(* ===== verification/Frame.thy ===== *)
theory Frame
  imports Prelude
begin

section \<open>The Sauron wire protocol: frames, encoder, decoder, connection\<close>

text \<open>
  The model of \<^verbatim>\<open>SauronAgent/internal/protocol\<close>: the 20-byte frame header
  (\<^verbatim>\<open>frame.go\<close>), the encoder and decoder (\<^verbatim>\<open>encoder.go\<close>, \<^verbatim>\<open>decoder.go\<close>) and the
  connection that refuses to write after a torn frame (\<^verbatim>\<open>conn.go\<close>).
  A reader is the bytes still to come and the error that ends them. A writer is the bytes
  already on the wire; what a \<^verbatim>\<open>Write\<close> does is an input of the operation (it succeeds, or
  fails after some of the bytes). The JSON text of a payload is a parameter.
\<close>

subsection \<open>frame.go\<close>

definition Magic :: bytes where
  "Magic = [0x53, 0x41, 0x55, 0x52]"

definition Version :: byte where
  "Version = 1"

definition HeaderSize :: nat where
  "HeaderSize = 20"

definition DefaultMaxPayloadSize :: "32 word" where
  "DefaultMaxPayloadSize = 0x100000"

definition MsgHello :: byte where "MsgHello = 1"
definition MsgReady :: byte where "MsgReady = 2"
definition MsgEvent :: byte where "MsgEvent = 3"
definition MsgAck :: byte where "MsgAck = 4"
definition MsgPing :: byte where "MsgPing = 5"
definition MsgPong :: byte where "MsgPong = 6"
definition MsgError :: byte where "MsgError = 7"
definition MsgShutdown :: byte where "MsgShutdown = 8"

definition MessageType_String :: "byte \<Rightarrow> string" where
  "MessageType_String t =
     (if t = MsgHello then ''HELLO''
      else if t = MsgReady then ''READY''
      else if t = MsgEvent then ''EVENT''
      else if t = MsgAck then ''ACK''
      else if t = MsgPing then ''PING''
      else if t = MsgPong then ''PONG''
      else if t = MsgError then ''ERROR''
      else if t = MsgShutdown then ''SHUTDOWN''
      else ''UNKNOWN('' @ dec_text (unat t) @ '')'')"

definition Valid :: "byte \<Rightarrow> bool" where
  "Valid t \<longleftrightarrow> t \<ge> MsgHello \<and> t \<le> MsgShutdown"

definition FlagsNone :: "16 word" where
  "FlagsNone = 0"

record header =
  hVersion :: byte
  hType :: byte
  hFlags :: "16 word"
  hSequence :: "64 word"
  hPayloadLen :: "32 word"

record frame =
  fHeader :: header
  fPayload :: bytes

text \<open>
  Errors of \<^verbatim>\<open>io.Reader\<close>s, and the errors the package returns. The constructors that carry
  an \<open>io_error\<close> are the \<^verbatim>\<open>%w\<close>-wrapped transport failures; \<open>ErrEOF\<close> is the bare
  \<^verbatim>\<open>io.EOF\<close> of a clean close.
\<close>

datatype io_error = IoEOF | IoUnexpectedEOF | IoErr nat

datatype proto_error =
    ErrBadMagic | ErrBadVersion | ErrBadType | ErrReservedFlags | ErrPayloadTooLarge
  | ErrShortHeader | ErrMalformedPayload | ErrTrailingData
  | JsonSyntaxError | JsonUnmarshalTypeError
  | ErrEOF | ErrReadHeader io_error | ErrReadPayload byte io_error
  | ErrEncodePayload | WriteError byte | ErrAbandoned | ErrSetDeadline

definition MarshalHeader :: "bytes \<Rightarrow> header \<Rightarrow> (proto_error, bytes) result" where
  "MarshalHeader buf h =
     (if length buf < HeaderSize then Inl ErrShortHeader
      else Inr (Magic @ [hVersion h, hType h] @ PutUint16 (hFlags h) @ PutUint64 (hSequence h)
                @ PutUint32 (hPayloadLen h) @ drop HeaderSize buf))"

definition UnmarshalHeader :: "bytes \<Rightarrow> 32 word \<Rightarrow> (proto_error, header) result" where
  "UnmarshalHeader buf maxPayload =
     (if length buf < HeaderSize then Inl ErrShortHeader
      else if slice 0 4 buf \<noteq> Magic then Inl ErrBadMagic
      else if buf ! 4 \<noteq> Version then Inl ErrBadVersion
      else if \<not> Valid (buf ! 5) then Inl ErrBadType
      else if Uint16 (slice 6 8 buf) \<noteq> FlagsNone then Inl ErrReservedFlags
      else if Uint32 (slice 16 20 buf) > maxPayload then Inl ErrPayloadTooLarge
      else Inr \<lparr>hVersion = buf ! 4, hType = buf ! 5, hFlags = Uint16 (slice 6 8 buf),
                hSequence = Uint64 (slice 8 16 buf), hPayloadLen = Uint32 (slice 16 20 buf)\<rparr>)"

subsection \<open>decoder.go\<close>

definition MaxPayloadCeiling :: "32 word" where
  "MaxPayloadCeiling = DefaultMaxPayloadSize * 64"

definition normalizeMaxPayload :: "32 word \<Rightarrow> 32 word" where
  "normalizeMaxPayload maxPayload =
     (if maxPayload = 0 then DefaultMaxPayloadSize
      else if maxPayload > MaxPayloadCeiling then MaxPayloadCeiling
      else maxPayload)"

definition IsProtocolError :: "proto_error option \<Rightarrow> bool" where
  "IsProtocolError err =
     (case err of None \<Rightarrow> False
      | Some e \<Rightarrow> e \<in> {ErrBadMagic, ErrBadVersion, ErrBadType, ErrReservedFlags,
                        ErrPayloadTooLarge, ErrShortHeader, ErrMalformedPayload, ErrTrailingData}
                  \<or> e \<in> {JsonSyntaxError, JsonUnmarshalTypeError})"

record reader =
  rData :: bytes
  rEnd :: io_error

text \<open>\<^verbatim>\<open>io.ReadFull\<close>: a clean end before the first byte is \<^verbatim>\<open>io.EOF\<close>, one after some bytes
  is \<^verbatim>\<open>io.ErrUnexpectedEOF\<close>, any other error is passed on.\<close>

definition ReadFull :: "nat \<Rightarrow> reader \<Rightarrow> (io_error, bytes) result \<times> reader" where
  "ReadFull n r =
     (if n \<le> length (rData r) then (Inr (take n (rData r)), r\<lparr>rData := drop n (rData r)\<rparr>)
      else (Inl (if rEnd r = IoEOF \<and> rData r \<noteq> [] then IoUnexpectedEOF else rEnd r),
            r\<lparr>rData := []\<rparr>))"

record decoder =
  dR :: reader
  dMaxPayload :: "32 word"
  dCap :: nat \<comment> \<open>the capacity of the payload buffer kept between frames\<close>

definition NewDecoder :: "reader \<Rightarrow> 32 word \<Rightarrow> decoder" where
  "NewDecoder r maxPayload = \<lparr>dR = r, dMaxPayload = normalizeMaxPayload maxPayload, dCap = 0\<rparr>"

definition grow_cap :: "nat \<Rightarrow> nat \<Rightarrow> nat \<Rightarrow> nat" where
  "grow_cap cap n maxPayload =
     (if n > cap then
        (let grown = cap * 2; grown = (if grown < n then n else grown)
         in if grown > maxPayload then maxPayload else grown)
      else cap)"

definition ReadFrameInto :: "decoder \<Rightarrow> (proto_error, frame) result \<times> decoder" where
  "ReadFrameInto d =
     (case ReadFull HeaderSize (dR d) of
        (Inl e, r) \<Rightarrow> (Inl (if e = IoEOF then ErrEOF else ErrReadHeader e), d\<lparr>dR := r\<rparr>)
      | (Inr hdr, r) \<Rightarrow>
          (case UnmarshalHeader hdr (dMaxPayload d) of
             Inl e \<Rightarrow> (Inl e, d\<lparr>dR := r\<rparr>)
           | Inr h \<Rightarrow>
               if hPayloadLen h > dMaxPayload d then (Inl ErrPayloadTooLarge, d\<lparr>dR := r\<rparr>)
               else
                 let n = unat (hPayloadLen h);
                     d' = d\<lparr>dR := r, dCap := grow_cap (dCap d) n (unat (dMaxPayload d))\<rparr>
                 in if n > 0 then
                      (case ReadFull n r of
                         (Inl e, r') \<Rightarrow> (Inl (ErrReadPayload (hType h) e), d'\<lparr>dR := r'\<rparr>)
                       | (Inr payload, r') \<Rightarrow>
                           (Inr \<lparr>fHeader = h, fPayload = payload\<rparr>, d'\<lparr>dR := r'\<rparr>))
                    else (Inr \<lparr>fHeader = h, fPayload = []\<rparr>, d')))"

text \<open>
  \<^verbatim>\<open>DecodePayload\<close>. \<open>decode\<close> is \<^verbatim>\<open>json.Decoder.Decode\<close> on the payload: the first JSON
  value, or the error, and the bytes after it. The following \<^verbatim>\<open>Token\<close> call returns
  \<^verbatim>\<open>io.EOF\<close> exactly when only JSON whitespace is left.
\<close>

definition json_space :: "byte \<Rightarrow> bool" where
  "json_space b \<longleftrightarrow> b = 0x20 \<or> b = 0x09 \<or> b = 0x0a \<or> b = 0x0d"

definition DecodePayload ::
    "(bytes \<Rightarrow> ('v \<times> bytes) option) \<Rightarrow> frame option \<Rightarrow> (proto_error, 'v) result" where
  "DecodePayload decode f =
     (case f of None \<Rightarrow> Inl ErrMalformedPayload
      | Some fr \<Rightarrow>
          (case decode (fPayload fr) of
             None \<Rightarrow> Inl ErrMalformedPayload
           | Some (v, rest) \<Rightarrow> if list_all json_space rest then Inr v else Inl ErrTrailingData))"

subsection \<open>encoder.go\<close>

text \<open>\<open>WriteOk\<close>: the writer took every byte. \<open>WriteFail n\<close>: it failed with \<open>n\<close> bytes
  already on the wire.\<close>

datatype write_outcome = WriteOk | WriteFail nat

record encoder =
  eMaxPayload :: "32 word"
  eWire :: bytes

definition NewEncoder :: "32 word \<Rightarrow> encoder" where
  "NewEncoder maxPayload = \<lparr>eMaxPayload = normalizeMaxPayload maxPayload, eWire = []\<rparr>"

definition headerPlaceholder :: bytes where
  "headerPlaceholder = replicate HeaderSize 0"

definition flush :: "write_outcome \<Rightarrow> byte \<Rightarrow> 64 word \<Rightarrow> bytes \<Rightarrow> encoder \<Rightarrow> (proto_error, unit) result \<times> encoder" where
  "flush w t seq b e =
     (case MarshalHeader b \<lparr>hVersion = Version, hType = t, hFlags = FlagsNone, hSequence = seq,
                            hPayloadLen = word_of_nat (length b - HeaderSize)\<rparr> of
        Inl err \<Rightarrow> (Inl err, e)
      | Inr b' \<Rightarrow>
          (case w of
             WriteOk \<Rightarrow> (Inr (), e\<lparr>eWire := eWire e @ b'\<rparr>)
           | WriteFail n \<Rightarrow> (Inl (WriteError t), e\<lparr>eWire := eWire e @ take n b'\<rparr>)))"

definition WriteFrame :: "write_outcome \<Rightarrow> byte \<Rightarrow> 64 word \<Rightarrow> bytes \<Rightarrow> encoder \<Rightarrow> (proto_error, unit) result \<times> encoder" where
  "WriteFrame w t seq payload e =
     (if \<not> Valid t then (Inl ErrBadType, e)
      else if length payload > unat (eMaxPayload e) then (Inl ErrPayloadTooLarge, e)
      else flush w t seq (headerPlaceholder @ payload) e)"

text \<open>\<open>marshal v\<close> is the JSON text of \<open>v\<close>, or \<open>None\<close> where \<^verbatim>\<open>json.Encoder\<close> fails; the
  encoder ends the value with a newline, which \<^verbatim>\<open>WriteMessage\<close> takes off again.\<close>

definition WriteMessage ::
    "('v \<Rightarrow> bytes option) \<Rightarrow> write_outcome \<Rightarrow> byte \<Rightarrow> 64 word \<Rightarrow> 'v \<Rightarrow> encoder
      \<Rightarrow> (proto_error, unit) result \<times> encoder" where
  "WriteMessage marshal w t seq v e =
     (if \<not> Valid t then (Inl ErrBadType, e)
      else
        (case marshal v of
           None \<Rightarrow> (Inl ErrEncodePayload, e)
         | Some js \<Rightarrow>
             let b = headerPlaceholder @ js @ [0x0a];
                 b = (if length b > HeaderSize \<and> last b = 0x0a then butlast b else b)
             in if length b - HeaderSize > unat (eMaxPayload e) then (Inl ErrPayloadTooLarge, e)
                else flush w t seq b e))"

subsection \<open>conn.go\<close>

record conn =
  cEnc :: encoder
  cDec :: decoder
  cTorn :: "proto_error option"

definition NewConn :: "reader \<Rightarrow> 32 word \<Rightarrow> conn" where
  "NewConn r maxPayload = \<lparr>cEnc = NewEncoder maxPayload, cDec = NewDecoder r maxPayload, cTorn = None\<rparr>"

fun is_write_error :: "proto_error \<Rightarrow> bool" where
  "is_write_error (WriteError t) = True"
| "is_write_error _ = False"

definition Send ::
    "('v \<Rightarrow> bytes option) \<Rightarrow> bool \<Rightarrow> write_outcome \<Rightarrow> byte \<Rightarrow> 64 word \<Rightarrow> 'v \<Rightarrow> conn
      \<Rightarrow> (proto_error, unit) result \<times> conn" where
  "Send marshal deadline_ok w t seq v c =
     (if cTorn c \<noteq> None then (Inl ErrAbandoned, c)
      else if \<not> deadline_ok then (Inl ErrSetDeadline, c)
      else
        (case WriteMessage marshal w t seq v (cEnc c) of
           (Inl err, e) \<Rightarrow>
             (Inl err, c\<lparr>cEnc := e, cTorn := (if is_write_error err then Some err else cTorn c)\<rparr>)
         | (Inr _, e) \<Rightarrow> (Inr (), c\<lparr>cEnc := e\<rparr>)))"

definition Receive :: "bool \<Rightarrow> conn \<Rightarrow> (proto_error, frame) result \<times> conn" where
  "Receive deadline_ok c =
     (if \<not> deadline_ok then (Inl ErrSetDeadline, c)
      else (case ReadFrameInto (cDec c) of (r, d) \<Rightarrow> (r, c\<lparr>cDec := d\<rparr>)))"

subsection \<open>Reading a whole stream\<close>

text \<open>The bytes of a frame, the frame a header and a payload make, and the receive loop: frames
  until the first error.\<close>

definition header_bytes :: "header \<Rightarrow> bytes" where
  "header_bytes h = Magic @ [hVersion h, hType h] @ PutUint16 (hFlags h) @ PutUint64 (hSequence h)
                    @ PutUint32 (hPayloadLen h)"

definition frame_bytes :: "frame \<Rightarrow> bytes" where
  "frame_bytes f = header_bytes (fHeader f) @ fPayload f"

definition mk_frame :: "byte \<Rightarrow> 64 word \<Rightarrow> bytes \<Rightarrow> frame" where
  "mk_frame t seq payload =
     \<lparr>fHeader = \<lparr>hVersion = Version, hType = t, hFlags = FlagsNone, hSequence = seq,
                 hPayloadLen = word_of_nat (length payload)\<rparr>,
      fPayload = payload\<rparr>"

text \<open>A frame a version 1 receiver with limit \<open>m\<close> accepts.\<close>

definition frame_ok :: "32 word \<Rightarrow> frame \<Rightarrow> bool" where
  "frame_ok m f \<longleftrightarrow>
     hVersion (fHeader f) = Version \<and> Valid (hType (fHeader f)) \<and> hFlags (fHeader f) = FlagsNone
     \<and> hPayloadLen (fHeader f) \<le> m \<and> length (fPayload f) = unat (hPayloadLen (fHeader f))"

lemma ReadFull_Inr: "ReadFull n r = (Inr bs, r') \<Longrightarrow>
    n \<le> length (rData r) \<and> bs = take n (rData r) \<and> r' = r\<lparr>rData := drop n (rData r)\<rparr>"
  by (auto simp: ReadFull_def split: if_splits)

lemma ReadFull_length: "ReadFull n r = (res, r') \<Longrightarrow> length (rData r') \<le> length (rData r)"
  by (auto simp: ReadFull_def split: if_splits)

lemma ReadFrameInto_consumes:
  assumes "ReadFrameInto d = (Inr f, d')"
  shows "length (rData (dR d')) + HeaderSize \<le> length (rData (dR d))"
proof -
  obtain hdr r where r: "ReadFull HeaderSize (dR d) = (Inr hdr, r)"
    using assms by (auto simp: ReadFrameInto_def split: prod.splits sum.splits)
  with ReadFull_Inr [OF r] have "length (rData r) + HeaderSize = length (rData (dR d))" by simp
  moreover from assms r have "length (rData (dR d')) \<le> length (rData r)"
    by (auto simp: ReadFrameInto_def Let_def dest!: ReadFull_length
             split: prod.splits sum.splits if_splits)
  ultimately show ?thesis by simp
qed

function read_frames :: "decoder \<Rightarrow> frame list \<times> proto_error" where
  "read_frames d =
     (case ReadFrameInto d of
        (Inl e, d') \<Rightarrow> ([], e)
      | (Inr f, d') \<Rightarrow> (case read_frames d' of (fs, e) \<Rightarrow> (f # fs, e)))"
  by pat_completeness auto
termination
  by (relation "measure (\<lambda>d. length (rData (dR d)))")
     (auto dest!: sym [of "(Inr _, _)"] ReadFrameInto_consumes simp: HeaderSize_def)

declare read_frames.simps [simp del]

text \<open>One call of \<^verbatim>\<open>Conn.Send\<close> and a sequence of calls; the frames are those whose \<^verbatim>\<open>Send\<close>
  returned nil.\<close>

record 'v send_op =
  opDeadlineOk :: bool
  opWrite :: write_outcome
  opType :: byte
  opSeq :: "64 word"
  opVal :: 'v

fun send_all :: "('v \<Rightarrow> bytes option) \<Rightarrow> 'v send_op list \<Rightarrow> conn \<Rightarrow> frame list \<times> conn" where
  "send_all marshal [] c = ([], c)"
| "send_all marshal (x # xs) c =
     (case Send marshal (opDeadlineOk x) (opWrite x) (opType x) (opSeq x) (opVal x) c of
        (Inl _, c') \<Rightarrow> send_all marshal xs c'
      | (Inr _, c') \<Rightarrow>
          (case send_all marshal xs c' of
             (fs, c'') \<Rightarrow> (mk_frame (opType x) (opSeq x) (the (marshal (opVal x))) # fs, c'')))"

subsection \<open>The header codec\<close>

lemma length_Magic [simp]: "length Magic = 4"
  by (simp add: Magic_def)

lemma length_header_bytes [simp, codec_simps]: "length (header_bytes h) = HeaderSize"
  by (simp add: header_bytes_def HeaderSize_def)

lemma MarshalHeader_bytes:
  "HeaderSize \<le> length buf \<Longrightarrow> MarshalHeader buf h = Inr (header_bytes h @ drop HeaderSize buf)"
  by (simp add: MarshalHeader_def header_bytes_def)

lemma header_fields:
  "slice 0 4 (header_bytes h @ rest) = Magic"
  "(header_bytes h @ rest) ! 4 = hVersion h"
  "(header_bytes h @ rest) ! 5 = hType h"
  "slice 6 8 (header_bytes h @ rest) = PutUint16 (hFlags h)"
  "slice 8 16 (header_bytes h @ rest) = PutUint64 (hSequence h)"
  "slice 16 20 (header_bytes h @ rest) = PutUint32 (hPayloadLen h)"
  by (simp_all add: header_bytes_def slice_def nth_append drop_append take_append Magic_def
      nth_Cons')

lemma UnmarshalHeader_header_bytes:
  "UnmarshalHeader (header_bytes h @ rest) m =
     (if hVersion h \<noteq> Version then Inl ErrBadVersion
      else if \<not> Valid (hType h) then Inl ErrBadType
      else if hFlags h \<noteq> FlagsNone then Inl ErrReservedFlags
      else if hPayloadLen h > m then Inl ErrPayloadTooLarge
      else Inr h)"
  by (simp add: UnmarshalHeader_def header_fields)

text \<open>A buffer splits at the header's field boundaries.\<close>

lemma slices_split:
  assumes "length buf = 20"
  shows "buf = slice 0 4 buf @ [buf ! 4, buf ! 5] @ slice 6 8 buf @ slice 8 16 buf @ slice 16 20 buf"
proof (rule nth_equalityI)
  show "length buf = length (slice 0 4 buf @ [buf ! 4, buf ! 5] @ slice 6 8 buf @ slice 8 16 buf @ slice 16 20 buf)"
    using assms by simp
next
  fix i assume "i < length buf"
  with assms show "buf ! i = (slice 0 4 buf @ [buf ! 4, buf ! 5] @ slice 6 8 buf @ slice 8 16 buf @ slice 16 20 buf) ! i"
    by (auto simp: slice_def nth_append nth_Cons' less_Suc_eq numeral_eq_Suc)
qed

lemma UnmarshalHeader_Inr:
  assumes "UnmarshalHeader buf m = Inr h"
  shows "take HeaderSize buf = header_bytes h" "hVersion h = Version" "Valid (hType h)"
    "hFlags h = FlagsNone" "hPayloadLen h \<le> m"
proof -
  from assms have len: "20 \<le> length buf" and magic: "slice 0 4 buf = Magic"
    and h: "h = \<lparr>hVersion = buf ! 4, hType = buf ! 5, hFlags = Uint16 (slice 6 8 buf),
                hSequence = Uint64 (slice 8 16 buf), hPayloadLen = Uint32 (slice 16 20 buf)\<rparr>"
    by (auto simp: UnmarshalHeader_def HeaderSize_def not_less split: if_splits)
  have "take 20 buf = slice 0 4 buf @ [buf ! 4, buf ! 5] @ slice 6 8 buf @ slice 8 16 buf @ slice 16 20 buf"
    using slices_split [of "take 20 buf"] len by (simp add: slice_def drop_take min_def)
  with magic h len show "take HeaderSize buf = header_bytes h"
    by (simp add: HeaderSize_def header_bytes_def Put_Uint16 Put_Uint32 Put_Uint64)
  show "hVersion h = Version" "Valid (hType h)" "hFlags h = FlagsNone" "hPayloadLen h \<le> m"
    using assms h by (auto simp: UnmarshalHeader_def not_less split: if_splits)
qed

subsection \<open>Reading frames\<close>

lemma ReadFull_append [simp]:
  "rData r = xs @ ys \<Longrightarrow> length xs = n \<Longrightarrow> ReadFull n r = (Inr xs, r\<lparr>rData := ys\<rparr>)"
  by (simp add: ReadFull_def)

lemma ReadFrameInto_frame:
  assumes ok: "frame_ok (dMaxPayload d) f" and data: "rData (dR d) = frame_bytes f @ rest"
  shows "ReadFrameInto d =
     (Inr f, d\<lparr>dR := (dR d)\<lparr>rData := rest\<rparr>,
               dCap := grow_cap (dCap d) (length (fPayload f)) (unat (dMaxPayload d))\<rparr>)"
proof -
  have hd: "ReadFull HeaderSize (dR d) =
      (Inr (header_bytes (fHeader f)), (dR d)\<lparr>rData := fPayload f @ rest\<rparr>)"
    using data by (simp add: frame_bytes_def)
  have um: "UnmarshalHeader (header_bytes (fHeader f)) (dMaxPayload d) = Inr (fHeader f)"
    using ok UnmarshalHeader_header_bytes [of "fHeader f" "[]"] by (auto simp: frame_ok_def)
  from ok have n: "unat (hPayloadLen (fHeader f)) = length (fPayload f)" "\<not> hPayloadLen (fHeader f) > dMaxPayload d"
    by (auto simp: frame_ok_def)
  show ?thesis
    by (cases "fPayload f = []") (simp_all add: ReadFrameInto_def hd um n Let_def)
qed

lemma read_frames_frame:
  assumes "frame_ok (dMaxPayload d) f" and "rData (dR d) = frame_bytes f @ rest"
  shows "read_frames d =
     (case read_frames (d\<lparr>dR := (dR d)\<lparr>rData := rest\<rparr>,
               dCap := grow_cap (dCap d) (length (fPayload f)) (unat (dMaxPayload d))\<rparr>) of
        (fs, e) \<Rightarrow> (f # fs, e))"
  by (subst read_frames.simps) (simp add: ReadFrameInto_frame [OF assms])

text \<open>What a reader sees of a frame that was cut off after \<open>n\<close> bytes.\<close>

lemma ReadFrameInto_cut:
  assumes ok: "frame_ok (dMaxPayload d) f" and cut: "n < length (frame_bytes f)"
    and data: "rData (dR d) = take n (frame_bytes f)" and fin: "rEnd (dR d) = IoEOF"
  shows "\<exists>d'. ReadFrameInto d =
     (Inl (if n = 0 then ErrEOF
           else if n < HeaderSize then ErrReadHeader IoUnexpectedEOF
           else ErrReadPayload (hType (fHeader f)) (if n = HeaderSize then IoEOF else IoUnexpectedEOF)), d')"
proof (cases "n < HeaderSize")
  case True
  then have "ReadFull HeaderSize (dR d) =
      (Inl (if n = 0 then IoEOF else IoUnexpectedEOF), (dR d)\<lparr>rData := []\<rparr>)"
    using data fin cut by (auto simp: ReadFull_def)
  with True show ?thesis by (auto simp: ReadFrameInto_def HeaderSize_def)
next
  case False
  then have data': "rData (dR d) = header_bytes (fHeader f) @ take (n - HeaderSize) (fPayload f)"
    using data by (simp add: frame_bytes_def)
  then have hd: "ReadFull HeaderSize (dR d) = (Inr (header_bytes (fHeader f)),
      (dR d)\<lparr>rData := take (n - HeaderSize) (fPayload f)\<rparr>)"
    by simp
  have um: "UnmarshalHeader (header_bytes (fHeader f)) (dMaxPayload d) = Inr (fHeader f)"
    using ok UnmarshalHeader_header_bytes [of "fHeader f" "[]"] by (auto simp: frame_ok_def)
  have len: "n - HeaderSize < length (fPayload f)"
    using cut False by (simp add: frame_bytes_def)
  have pl: "unat (hPayloadLen (fHeader f)) = length (fPayload f)" "\<not> hPayloadLen (fHeader f) > dMaxPayload d"
    using ok by (auto simp: frame_ok_def)
  have rf: "ReadFull (length (fPayload f)) ((dR d)\<lparr>rData := take (n - HeaderSize) (fPayload f)\<rparr>) =
      (Inl (if n = HeaderSize then IoEOF else IoUnexpectedEOF), (dR d)\<lparr>rData := []\<rparr>)"
    using len fin False by (auto simp: ReadFull_def)
  from len have "fPayload f \<noteq> []" by auto
  moreover from False have "n \<noteq> 0" by (simp add: HeaderSize_def)
  ultimately show ?thesis using False by (simp add: ReadFrameInto_def hd um pl rf Let_def)
qed

lemma read_frames_stream:
  assumes "list_all (frame_ok (dMaxPayload d)) fs"
    and "rData (dR d) = concat (map frame_bytes fs) @ tail"
  shows "\<exists>d'. dMaxPayload d' = dMaxPayload d \<and> dR d' = (dR d)\<lparr>rData := tail\<rparr>
     \<and> read_frames d = (case read_frames d' of (gs, e) \<Rightarrow> (fs @ gs, e))"
  using assms
proof (induction fs arbitrary: d)
  case Nil
  then show ?case by (auto intro!: exI [of _ d] simp: split_beta)
next
  case (Cons f fs)
  let ?d = "d\<lparr>dR := (dR d)\<lparr>rData := concat (map frame_bytes fs) @ tail\<rparr>,
               dCap := grow_cap (dCap d) (length (fPayload f)) (unat (dMaxPayload d))\<rparr>"
  have rf: "read_frames d = (case read_frames ?d of (gs, e) \<Rightarrow> (f # gs, e))"
    using Cons.prems by (intro read_frames_frame) simp_all
  obtain d' where "dMaxPayload d' = dMaxPayload ?d" "dR d' = (dR ?d)\<lparr>rData := tail\<rparr>"
      "read_frames ?d = (case read_frames d' of (gs, e) \<Rightarrow> (fs @ gs, e))"
    using Cons.IH [of ?d] Cons.prems(1) by auto
  with rf show ?case by (intro exI [of _ d']) (simp add: split_beta)
qed

subsection \<open>Writing frames\<close>

lemma mk_frame_ok:
  "Valid t \<Longrightarrow> length payload \<le> unat m \<Longrightarrow> frame_ok m (mk_frame t seq payload)"
proof -
  assume v: "Valid t" and l: "length payload \<le> unat m"
  from l have "length payload < 2 ^ 32" using unat_bound [of m] by simp
  then have "unat (word_of_nat (length payload) :: 32 word) = length payload"
    by (simp add: unat_of_nat)
  with v l show ?thesis
    by (simp add: frame_ok_def mk_frame_def word_le_nat_alt)
qed

lemma flush_frame:
  "flush w t seq (headerPlaceholder @ payload) e =
     (case w of
        WriteOk \<Rightarrow> (Inr (), e\<lparr>eWire := eWire e @ frame_bytes (mk_frame t seq payload)\<rparr>)
      | WriteFail n \<Rightarrow>
          (Inl (WriteError t), e\<lparr>eWire := eWire e @ take n (frame_bytes (mk_frame t seq payload))\<rparr>))"
  by (simp add: flush_def MarshalHeader_bytes headerPlaceholder_def frame_bytes_def mk_frame_def
      split: write_outcome.splits)

lemma WriteMessage_cases:
  "WriteMessage marshal w t seq v e =
     (if \<not> Valid t then (Inl ErrBadType, e)
      else
        (case marshal v of
           None \<Rightarrow> (Inl ErrEncodePayload, e)
         | Some js \<Rightarrow>
             if length js > unat (eMaxPayload e) then (Inl ErrPayloadTooLarge, e)
             else flush w t seq (headerPlaceholder @ js) e))"
proof -
  have b: "butlast (headerPlaceholder @ js @ [0x0a]) = headerPlaceholder @ js" for js
    using butlast_snoc [of "headerPlaceholder @ js"] by simp
  have l: "last (headerPlaceholder @ js @ [0x0a]) = 0x0a" for js
    using last_snoc [of "headerPlaceholder @ js"] by simp
  have h: "length headerPlaceholder = HeaderSize" by (simp add: headerPlaceholder_def)
  show ?thesis by (simp add: WriteMessage_def b l h Let_def split: option.splits)
qed

text \<open>The wire after any sequence of sends: the complete frames of the sends that succeeded, and
  after a failed write a prefix of the frame it tore.\<close>

definition wire_inv :: "frame list \<Rightarrow> conn \<Rightarrow> bool" where
  "wire_inv fs c \<longleftrightarrow>
     list_all (frame_ok (eMaxPayload (cEnc c))) fs
     \<and> (\<exists>f n. frame_ok (eMaxPayload (cEnc c)) f
          \<and> eWire (cEnc c) = concat (map frame_bytes fs) @ take n (frame_bytes f)
          \<and> (cTorn c = None \<longrightarrow> n = 0))"

lemma wire_inv_NewConn: "wire_inv [] (NewConn r m)"
proof -
  have "frame_ok (normalizeMaxPayload m) (mk_frame MsgAck 0 [])"
    by (rule mk_frame_ok) (simp_all add: Valid_def MsgAck_def MsgHello_def MsgShutdown_def)
  then show ?thesis by (auto simp: wire_inv_def NewConn_def NewEncoder_def)
qed

lemma Send_cases:
  "Send marshal dl w t seq v c =
     (if cTorn c \<noteq> None then (Inl ErrAbandoned, c)
      else if \<not> dl then (Inl ErrSetDeadline, c)
      else if \<not> Valid t then (Inl ErrBadType, c)
      else
        (case marshal v of
           None \<Rightarrow> (Inl ErrEncodePayload, c)
         | Some js \<Rightarrow>
             if length js > unat (eMaxPayload (cEnc c)) then (Inl ErrPayloadTooLarge, c)
             else
               (case w of
                  WriteOk \<Rightarrow>
                    (Inr (), c\<lparr>cEnc := (cEnc c)\<lparr>eWire := eWire (cEnc c) @ frame_bytes (mk_frame t seq js)\<rparr>\<rparr>)
                | WriteFail n \<Rightarrow>
                    (Inl (WriteError t),
                     c\<lparr>cEnc := (cEnc c)\<lparr>eWire := eWire (cEnc c) @ take n (frame_bytes (mk_frame t seq js))\<rparr>,
                       cTorn := Some (WriteError t)\<rparr>))))"
proof -
  have same: "c\<lparr>cEnc := cEnc c, cTorn := None\<rparr> = c" if "cTorn c = None"
    using that by simp
  show ?thesis
    by (simp add: Send_def WriteMessage_cases flush_frame same split: option.split write_outcome.split)
qed

lemma Send_max [simp]:
  "eMaxPayload (cEnc (snd (Send marshal dl w t seq v c))) = eMaxPayload (cEnc c)"
  by (simp add: Send_cases split: option.split write_outcome.split)

lemma Send_Inr:
  assumes "Send marshal dl w t seq v c = (Inr u, c')" and "wire_inv fs c"
  shows "wire_inv (fs @ [mk_frame t seq (the (marshal v))]) c'"
proof -
  from assms(1) obtain js where js: "marshal v = Some js" "length js \<le> unat (eMaxPayload (cEnc c))"
      and t: "Valid t" "cTorn c = None" "w = WriteOk"
      and c': "c' = c\<lparr>cEnc := (cEnc c)\<lparr>eWire := eWire (cEnc c) @ frame_bytes (mk_frame t seq js)\<rparr>\<rparr>"
    by (auto simp: Send_cases split: if_splits option.splits write_outcome.splits)
  have ok: "frame_ok (eMaxPayload (cEnc c)) (mk_frame t seq js)"
    using t js by (intro mk_frame_ok)
  have "eWire (cEnc c) = concat (map frame_bytes fs)"
    using assms(2) t by (auto simp: wire_inv_def)
  with assms(2) ok js c' t show ?thesis by (auto simp: wire_inv_def)
qed

lemma Send_Inl:
  assumes "Send marshal dl w t seq v c = (Inl err, c')" and "wire_inv fs c"
  shows "wire_inv fs c'"
proof (cases "c' = c")
  case True
  with assms show ?thesis by simp
next
  case False
  with assms(1) obtain js n where js: "marshal v = Some js" "length js \<le> unat (eMaxPayload (cEnc c))"
      and t: "Valid t" "cTorn c = None" "w = WriteFail n"
      and c': "c' = c\<lparr>cEnc := (cEnc c)\<lparr>eWire := eWire (cEnc c) @ take n (frame_bytes (mk_frame t seq js))\<rparr>,
                      cTorn := Some (WriteError t)\<rparr>"
    by (auto simp: Send_cases split: if_splits option.splits write_outcome.splits)
  have ok: "frame_ok (eMaxPayload (cEnc c)) (mk_frame t seq js)"
    using t js by (intro mk_frame_ok)
  have "eWire (cEnc c) = concat (map frame_bytes fs)"
    using assms(2) t by (auto simp: wire_inv_def)
  with assms(2) ok js c' t show ?thesis by (auto simp: wire_inv_def)
qed

lemma send_all_wire_inv:
  "send_all marshal xs c = (gs, c') \<Longrightarrow> wire_inv fs c
    \<Longrightarrow> wire_inv (fs @ gs) c' \<and> eMaxPayload (cEnc c') = eMaxPayload (cEnc c)"
proof (induction xs arbitrary: c fs gs)
  case Nil
  then show ?case by simp
next
  case (Cons x xs)
  obtain res c1 where s: "Send marshal (opDeadlineOk x) (opWrite x) (opType x) (opSeq x) (opVal x) c = (res, c1)"
    by fastforce
  then have m: "eMaxPayload (cEnc c1) = eMaxPayload (cEnc c)" by (metis Send_max snd_conv)
  show ?case
  proof (cases res)
    case (Inl err)
    with s Cons.prems have "wire_inv fs c1" "send_all marshal xs c1 = (gs, c')"
      by (auto intro: Send_Inl)
    with Cons.IH [of c1 gs fs] m show ?thesis by simp
  next
    case (Inr u)
    with s Cons.prems obtain hs where hs: "send_all marshal xs c1 = (hs, c')"
        "gs = mk_frame (opType x) (opSeq x) (the (marshal (opVal x))) # hs"
      by (auto split: prod.splits)
    from Inr s Cons.prems(2) have "wire_inv (fs @ [mk_frame (opType x) (opSeq x) (the (marshal (opVal x)))]) c1"
      by (auto intro: Send_Inr)
    from Cons.IH [OF hs(1) this] hs(2) m show ?thesis by simp
  qed
qed

lemma frame_ok_mono: "frame_ok m f \<Longrightarrow> m \<le> m' \<Longrightarrow> frame_ok m' f"
  by (auto simp: frame_ok_def)

lemma grow_cap_bound: "cap \<le> m \<Longrightarrow> n \<le> m \<Longrightarrow> grow_cap cap n m \<le> m \<and> n \<le> grow_cap cap n m"
  by (auto simp: grow_cap_def Let_def)

lemma ReadFrameInto_cap:
  assumes "dCap d \<le> unat (dMaxPayload d)"
  shows "dCap (snd (ReadFrameInto d)) \<le> unat (dMaxPayload d)"
    and "dMaxPayload (snd (ReadFrameInto d)) = dMaxPayload d"
  using assms grow_cap_bound [of "dCap d" "unat (dMaxPayload d)"]
  by (auto simp: ReadFrameInto_def Let_def not_less word_le_nat_alt
      split: prod.splits sum.splits if_splits)

lemma normalizeMaxPayload_ceiling: "normalizeMaxPayload m \<le> MaxPayloadCeiling"
  by (simp add: normalizeMaxPayload_def MaxPayloadCeiling_def DefaultMaxPayloadSize_def not_less)

subsection \<open>Properties of the protocol layer\<close>

text \<open>
  C26: The header codec is canonical. A buffer decodes to a header exactly when writing that
  header over the buffer gives the buffer back and the header is one a version 1 receiver
  with this payload limit accepts; no two headers share an encoding and no accepted header
  has a second one.
\<close>
theorem header_codec:
  "UnmarshalHeader buf m = Inr h \<longleftrightarrow>
     MarshalHeader buf h = Inr buf \<and> hVersion h = Version \<and> Valid (hType h)
     \<and> hFlags h = FlagsNone \<and> hPayloadLen h \<le> m"
proof
  assume u: "UnmarshalHeader buf m = Inr h"
  then have "HeaderSize \<le> length buf" by (auto simp: UnmarshalHeader_def not_less split: if_splits)
  with UnmarshalHeader_Inr [OF u]
  show "MarshalHeader buf h = Inr buf \<and> hVersion h = Version \<and> Valid (hType h)
     \<and> hFlags h = FlagsNone \<and> hPayloadLen h \<le> m"
    by (metis MarshalHeader_bytes append_take_drop_id)
next
  assume r: "MarshalHeader buf h = Inr buf \<and> hVersion h = Version \<and> Valid (hType h)
     \<and> hFlags h = FlagsNone \<and> hPayloadLen h \<le> m"
  then have "HeaderSize \<le> length buf" by (auto simp: MarshalHeader_def split: if_splits)
  with r have "buf = header_bytes h @ drop HeaderSize buf" by (simp add: MarshalHeader_bytes)
  then show "UnmarshalHeader buf m = Inr h"
    using r UnmarshalHeader_header_bytes [of h "drop HeaderSize buf" m] by (auto simp: not_less)
qed


definition demo_ops :: "bool send_op list" where
  "demo_ops =
     [\<lparr>opDeadlineOk = True, opWrite = WriteOk, opType = MsgEvent, opSeq = 7, opVal = True\<rparr>,
      \<lparr>opDeadlineOk = True, opWrite = WriteOk, opType = MsgEvent, opSeq = 8, opVal = False\<rparr>,
      \<lparr>opDeadlineOk = True, opWrite = WriteFail 21, opType = MsgEvent, opSeq = 9, opVal = True\<rparr>,
      \<lparr>opDeadlineOk = True, opWrite = WriteOk, opType = MsgEvent, opSeq = 10, opVal = True\<rparr>]"

definition demo_marshal :: "bool \<Rightarrow> bytes option" where
  "demo_marshal b = (if b then Some [0x7b, 0x7d] else None)"


text \<open>
  C27: Whatever bytes a peer sends, and however many frames are read, the decoder's payload
  buffer never grows past the configured limit, which is never above 64 MiB.
\<close>
theorem decoder_buffer_bounded:
  "dCap (((\<lambda>d. snd (ReadFrameInto d)) ^^ n) (NewDecoder r m)) \<le> unat (normalizeMaxPayload m)
   \<and> unat (normalizeMaxPayload m) \<le> 67108864"
proof -
  have "dCap (((\<lambda>d. snd (ReadFrameInto d)) ^^ n) (NewDecoder r m)) \<le> unat (normalizeMaxPayload m)
     \<and> dMaxPayload (((\<lambda>d. snd (ReadFrameInto d)) ^^ n) (NewDecoder r m)) = normalizeMaxPayload m"
  proof (induction n)
    case 0
    show ?case by (simp add: NewDecoder_def)
  next
    case (Suc n)
    then show ?case
      using ReadFrameInto_cap [of "((\<lambda>d. snd (ReadFrameInto d)) ^^ n) (NewDecoder r m)"] by simp
  qed
  moreover have "unat (normalizeMaxPayload m) \<le> unat MaxPayloadCeiling"
    using normalizeMaxPayload_ceiling by (simp add: word_le_nat_alt)
  ultimately show ?thesis by (simp add: MaxPayloadCeiling_def DefaultMaxPayloadSize_def)
qed

text \<open>
  C28: How a stream that ends inside a frame is reported. An end on the frame boundary is the
  bare end-of-file, an end inside the header is an unexpected end of file, and an end inside
  the payload is too, except that a stream ending exactly between header and payload reports
  a wrapped end-of-file, contrary to the comment in \<^verbatim>\<open>ReadFrameInto\<close> that it has already been
  turned into an unexpected one.
\<close>
theorem truncated_frame_error:
  assumes "frame_ok (dMaxPayload d) f" and "n < length (frame_bytes f)"
    and "dR d = \<lparr>rData = take n (frame_bytes f), rEnd = IoEOF\<rparr>"
  shows "fst (ReadFrameInto d) =
     Inl (if n = 0 then ErrEOF
          else if n < HeaderSize then ErrReadHeader IoUnexpectedEOF
          else ErrReadPayload (hType (fHeader f)) (if n = HeaderSize then IoEOF else IoUnexpectedEOF))"
  using ReadFrameInto_cut [OF assms(1,2)] assms(3) by auto

theorem truncated_frame_error_witness:
  "fst (ReadFrameInto (NewDecoder
      \<lparr>rData = take 20 (frame_bytes (mk_frame MsgAck 3 [0x7b, 0x7d])), rEnd = IoEOF\<rparr> 0))
   = Inl (ErrReadPayload MsgAck IoEOF)"
proof -
  let ?f = "mk_frame MsgAck 3 [0x7b, 0x7d]"
  let ?d = "NewDecoder \<lparr>rData = take 20 (frame_bytes ?f), rEnd = IoEOF\<rparr> 0"
  have ok: "frame_ok (dMaxPayload ?d) ?f"
    by (rule mk_frame_ok) (simp_all add: Valid_def MsgAck_def MsgHello_def MsgShutdown_def
        NewDecoder_def normalizeMaxPayload_def DefaultMaxPayloadSize_def)
  show ?thesis
    using truncated_frame_error [OF ok, of 20]
    by (simp add: NewDecoder_def HeaderSize_def frame_bytes_def mk_frame_def)
qed

end
