(* ===== verification/Events.thy ===== *)
theory Events
  imports Prelude
begin

section \<open>The normalized event model\<close>

text \<open>
  \<^verbatim>\<open>SauronAgent/internal/event/event.go\<close>, \<^verbatim>\<open>categories.go\<close> and \<^verbatim>\<open>internal.go\<close>: the event record
  that agent and host exchange and the agent's own events. A Go pointer field (\<^verbatim>\<open>PID *int\<close>) is
  an option, a Go string a list of byte-valued characters, and a value stored in the
  \<^verbatim>\<open>Fields\<close> map one of the dynamic types the code stores there; the map itself is an association
  list without duplicate keys. \<^verbatim>\<open>time.Now\<close> is an argument. Text that the code renders from a time
  or a duration is kept as the value it is rendered from: \<open>FSeconds\<close> a duration in seconds,
  \<open>FDuration\<close> its \<^verbatim>\<open>String()\<close>, \<open>FTime\<close> an instant in RFC 3339 form.
\<close>

datatype field_value =
    FBool bool
  | FInt int
  | FUint nat
  | FStr string
  | FStrs "string list"
  | FMap "(string \<times> field_value) list"
  | FMaps "(string \<times> field_value) list list"
  | FSeconds int
  | FDuration int
  | FTime int

record event =
  Version :: nat
  Sequence :: nat
  Timestamp :: int
  Type :: string
  Severity :: string
  AuditID :: string
  BootID :: string
  PID :: "int option"
  PPID :: "int option"
  UID :: "int option"
  GID :: "int option"
  AUID :: "int option"
  Executable :: string
  Command :: string
  CWD :: string
  Paths :: "string list"
  Result :: string
  RecordTypes :: "string list"
  Fields :: "(string \<times> field_value) list"
  Raw :: "string list"

text \<open>
  \<^verbatim>\<open>SauronAgent/internal/output/sink.go\<close>: where an event came from. \<^verbatim>\<open>Reported\<close> holds what the guest
  claims about itself, the other fields are the host's own view.
\<close>

record reported_source =
  repHostname :: string
  repMachineID :: string
  repBootID :: string
  repKernel :: string
  repAgentVersion :: string

record source =
  srcCID :: nat
  srcVM :: string
  srcHost :: string
  srcUUID :: string
  srcEnvironment :: string
  srcSecurityDomain :: string
  srcVLAN :: string
  srcLabels :: "(string \<times> string) list"
  srcKnown :: bool
  srcReported :: "reported_source option"

record envelope =
  envReceivedAt :: int
  envSource :: source
  envEvent :: event

definition SchemaVersion :: nat where
  "SchemaVersion = 1"

text \<open>The composite literal \<^verbatim>\<open>Event{}\<close>: every field its zero value.\<close>

definition zero_event :: event where
  "zero_event = \<lparr> Version = 0, Sequence = 0, Timestamp = 0, Type = [], Severity = [], AuditID = [],
     BootID = [], PID = None, PPID = None, UID = None, GID = None, AUID = None, Executable = [],
     Command = [], CWD = [], Paths = [], Result = [], RecordTypes = [], Fields = [], Raw = [] \<rparr>"

definition SetField :: "string \<Rightarrow> field_value \<Rightarrow> event \<Rightarrow> event" where
  "SetField key v e = e\<lparr> Fields := AList.update key v (Fields e) \<rparr>"

definition SeverityInfo :: string where "SeverityInfo = ''info''"
definition SeverityNotice :: string where "SeverityNotice = ''notice''"
definition SeverityWarning :: string where "SeverityWarning = ''warning''"
definition SeverityCritical :: string where "SeverityCritical = ''critical''"

definition TypeParseFailure :: string where "TypeParseFailure = ''sauron.parse.failure''"
definition TypeQueueOverflow :: string where "TypeQueueOverflow = ''sauron.queue.overflow''"
definition TypeSpoolFull :: string where "TypeSpoolFull = ''sauron.spool.full''"
definition TypeSpoolError :: string where "TypeSpoolError = ''sauron.spool.error''"
definition TypeTransportDisconnect :: string where
  "TypeTransportDisconnect = ''sauron.transport.disconnected''"
definition TypeTransportConnected :: string where
  "TypeTransportConnected = ''sauron.transport.connected''"
definition TypeAgentStarted :: string where "TypeAgentStarted = ''sauron.agent.started''"
definition TypeAgentStopping :: string where "TypeAgentStopping = ''sauron.agent.stopping''"
definition TypeAuditKernelLost :: string where "TypeAuditKernelLost = ''sauron.audit.lost''"
definition TypeStreamLost :: string where "TypeStreamLost = ''sauron.stream.lost''"
definition TypeStreamResumed :: string where "TypeStreamResumed = ''sauron.stream.resumed''"
definition TypeProtocolViolation :: string where
  "TypeProtocolViolation = ''sauron.protocol.violation''"

definition internalSeverity :: "string \<Rightarrow> string" where
  "internalSeverity typ =
     (if typ \<in> {TypeQueueOverflow, TypeSpoolFull, TypeAuditKernelLost, TypeStreamLost}
      then SeverityCritical
      else if typ \<in> {TypeParseFailure, TypeSpoolError, TypeTransportDisconnect, TypeProtocolViolation}
      then SeverityWarning
      else if typ \<in> {TypeTransportConnected, TypeAgentStarted, TypeAgentStopping, TypeStreamResumed}
      then SeverityNotice
      else SeverityInfo)"

text \<open>The fields map is copied entry by entry into the new event.\<close>

definition NewInternal :: "int \<Rightarrow> string \<Rightarrow> string \<Rightarrow> (string \<times> field_value) list \<Rightarrow> event" where
  "NewInternal now typ severity flds =
     fold (\<lambda>(k, v). SetField k v) flds
       (zero_event\<lparr> Version := SchemaVersion, Timestamp := now, Type := typ,
          Severity := (if severity = [] then internalSeverity typ else severity) \<rparr>)"

definition NewQueueOverflow :: "int \<Rightarrow> nat \<Rightarrow> nat \<Rightarrow> nat \<Rightarrow> event" where
  "NewQueueOverflow now dropped firstMissing lastMissing =
     NewInternal now TypeQueueOverflow SeverityCritical
       [(''events_dropped'', FUint dropped), (''first_missing_sequence'', FUint firstMissing),
        (''last_missing_sequence'', FUint lastMissing)]"

definition NewSpoolFull :: "int \<Rightarrow> nat \<Rightarrow> nat \<Rightarrow> nat \<Rightarrow> event" where
  "NewSpoolFull now dropped firstMissing lastMissing =
     NewInternal now TypeSpoolFull SeverityCritical
       [(''events_dropped'', FUint dropped), (''first_missing_sequence'', FUint firstMissing),
        (''last_missing_sequence'', FUint lastMissing)]"

definition NewKernelRecordsLost :: "int \<Rightarrow> nat \<Rightarrow> event" where
  "NewKernelRecordsLost now lost =
     NewInternal now TypeAuditKernelLost SeverityCritical [(''records_lost'', FUint lost)]"

definition maxInternalRawBytes :: nat where
  "maxInternalRawBytes = 4096"

definition NewParseFailure :: "int \<Rightarrow> string \<Rightarrow> string \<Rightarrow> event" where
  "NewParseFailure now raw reason =
     NewInternal now TypeParseFailure SeverityWarning
       ([(''reason'', FStr reason)] @
        (if length raw > maxInternalRawBytes
         then [(''raw'', FStr (take maxInternalRawBytes raw)), (''raw_truncated'', FBool True),
               (''raw_original_bytes'', FInt (int (length raw)))]
         else [(''raw'', FStr raw)]))"

definition NewTransportDisconnected :: "int \<Rightarrow> string \<Rightarrow> int \<Rightarrow> event" where
  "NewTransportDisconnected now reason attempt =
     NewInternal now TypeTransportDisconnect SeverityWarning
       [(''reason'', FStr reason), (''attempt'', FInt attempt)]"

definition NewTransportConnected :: "int \<Rightarrow> string \<Rightarrow> int \<Rightarrow> event" where
  "NewTransportConnected now peer attempt =
     NewInternal now TypeTransportConnected SeverityNotice
       [(''peer'', FStr peer), (''attempt'', FInt attempt)]"

subsection \<open>Lemmas\<close>

lemma SetField_lookup: "map_of (Fields (SetField k v e)) k' = (if k' = k then Some v else map_of (Fields e) k')"
  by (simp add: SetField_def update_conv')

lemma SetField_Sequence [simp]:
  "Sequence (SetField k v e) = Sequence e" "BootID (SetField k v e) = BootID e"
  "Type (SetField k v e) = Type e" "Severity (SetField k v e) = Severity e"
  by (simp_all add: SetField_def)

lemma fold_SetField_Sequence [simp]:
  "Sequence (fold (\<lambda>(k, v). SetField k v) fs e) = Sequence e"
  "BootID (fold (\<lambda>(k, v). SetField k v) fs e) = BootID e"
  "Type (fold (\<lambda>(k, v). SetField k v) fs e) = Type e"
  "Severity (fold (\<lambda>(k, v). SetField k v) fs e) = Severity e"
  by (induction fs arbitrary: e) auto

text \<open>
  An internal event leaves the constructor unnumbered and unscoped: the sequencer gives it
  both its sequence and its boot id.
\<close>

lemma NewInternal_unnumbered [simp]:
  "Sequence (NewInternal now typ sev fs) = 0" "BootID (NewInternal now typ sev fs) = []"
  "Type (NewInternal now typ sev fs) = typ"
  by (simp_all add: NewInternal_def zero_event_def)

end
