(* ===== verification/Sequencer.thy ===== *)
theory Sequencer
  imports Events
begin

section \<open>The sequence counter\<close>

text \<open>
  \<^verbatim>\<open>SauronAgent/internal/agent/sequencer.go\<close>. The counter is an atomic 64-bit word that several
  goroutines use without a lock: \<open>assign\<close> is one atomic add, \<open>advanceTo\<close> a loop of an atomic
  load and a compare-and-swap. The sequential functions give the behaviour of each call alone;
  the step relation \<open>seq_step\<close> interleaves the atomic accesses of any number of calls, and the
  invariant proved for it shows that the numbers stay distinct and increasing until the counter
  wraps.
\<close>

record sequencer =
  next_seq :: nat
  bootID :: string

definition newSequencer :: "nat \<Rightarrow> string \<Rightarrow> sequencer" where
  "newSequencer start boot = \<lparr> next_seq = (if start = 0 then 1 else start), bootID = boot \<rparr>"

text \<open>\<^verbatim>\<open>next.Add(1) - 1\<close>: the counter wraps, the issued number is its old value.\<close>

definition assign :: "event option \<Rightarrow> sequencer \<Rightarrow> nat \<times> event option \<times> sequencer" where
  "assign ev s = (case ev of
     None \<Rightarrow> (0, None, s)
   | Some e \<Rightarrow>
       let (e1, s1) =
             (if Sequence e = 0
              then (e\<lparr> Sequence := next_seq s \<rparr>, s\<lparr> next_seq := inc64 (next_seq s) \<rparr>)
              else (e, s));
           e2 = (if BootID e1 = [] then e1\<lparr> BootID := bootID s \<rparr> else e1)
       in (Sequence e2, Some e2, s1))"

definition advanceTo :: "nat \<Rightarrow> sequencer \<Rightarrow> nat \<times> sequencer" where
  "advanceTo nxt s =
     (let nxt = (if nxt = 0 then 1 else nxt) in
      if nxt \<le> next_seq s then (next_seq s, s) else (nxt, s\<lparr> next_seq := nxt \<rparr>))"

definition peek :: "sequencer \<Rightarrow> nat" where
  "peek s = next_seq s"

subsection \<open>Interleaved calls\<close>

text \<open>
  \<open>shNext\<close> is the shared counter and \<open>shCalls\<close> the \<open>advanceTo\<close> calls in progress, each with
  its target and the value it last loaded (\<open>None\<close> before the load). The history fields record
  what happened: the numbers issued, newest first; the targets of the calls that returned, with
  the value returned; and whether the counter has wrapped.
\<close>

record shared_seq =
  shNext :: nat
  shCalls :: "(nat \<times> nat option) list"
  shIssued :: "nat list"
  shReturned :: "(nat \<times> nat) list"
  shWrapped :: bool

definition shared_init :: "nat \<Rightarrow> shared_seq" where
  "shared_init start = \<lparr> shNext = next_seq (newSequencer start []), shCalls = [], shIssued = [],
     shReturned = [], shWrapped = False \<rparr>"

inductive seq_step :: "shared_seq \<Rightarrow> shared_seq \<Rightarrow> bool" where
  assign_add:
    "seq_step s (s\<lparr> shNext := inc64 (shNext s), shIssued := shNext s # shIssued s,
                    shWrapped := (shWrapped s \<or> shNext s = max64) \<rparr>)"
| advance_call:
    "nxt \<le> max64 \<Longrightarrow>
     seq_step s (s\<lparr> shCalls := (if nxt = 0 then 1 else nxt, None) # shCalls s \<rparr>)"
| advance_load:
    "i < length (shCalls s) \<Longrightarrow> shCalls s ! i = (nxt, None) \<Longrightarrow> nxt > shNext s \<Longrightarrow>
     seq_step s (s\<lparr> shCalls := (shCalls s)[i := (nxt, Some (shNext s))] \<rparr>)"
| advance_return_cur:
    "i < length (shCalls s) \<Longrightarrow> shCalls s ! i = (nxt, None) \<Longrightarrow> nxt \<le> shNext s \<Longrightarrow>
     seq_step s (s\<lparr> shCalls := take i (shCalls s) @ drop (Suc i) (shCalls s),
                    shReturned := (nxt, shNext s) # shReturned s \<rparr>)"
| advance_cas_ok:
    "i < length (shCalls s) \<Longrightarrow> shCalls s ! i = (nxt, Some cur) \<Longrightarrow> shNext s = cur \<Longrightarrow>
     seq_step s (s\<lparr> shNext := nxt, shCalls := take i (shCalls s) @ drop (Suc i) (shCalls s),
                    shReturned := (nxt, nxt) # shReturned s \<rparr>)"
| advance_cas_fail:
    "i < length (shCalls s) \<Longrightarrow> shCalls s ! i = (nxt, Some cur) \<Longrightarrow> shNext s \<noteq> cur \<Longrightarrow>
     seq_step s (s\<lparr> shCalls := (shCalls s)[i := (nxt, None)] \<rparr>)"

inductive_cases seq_stepE: "seq_step s t"

definition call_ok :: "nat \<times> nat option \<Rightarrow> bool" where
  "call_ok c \<longleftrightarrow> 0 < fst c \<and> fst c \<le> max64 \<and> (case snd c of None \<Rightarrow> True | Some cur \<Rightarrow> cur < fst c)"

definition seq_inv :: "shared_seq \<Rightarrow> bool" where
  "seq_inv s \<longleftrightarrow> shNext s \<le> max64 \<and> (\<forall>c \<in> set (shCalls s). call_ok c) \<and>
     (\<not> shWrapped s \<longrightarrow>
        0 < shNext s \<and> sorted_wrt (>) (shNext s # shIssued s) \<and> 0 \<notin> set (shIssued s) \<and>
        (\<forall>(nxt, r) \<in> set (shReturned s). nxt \<le> r \<and> r \<le> shNext s))"

subsection \<open>Lemmas\<close>

lemma seq_inv_init: "start \<le> max64 \<Longrightarrow> seq_inv (shared_init start)"
  by (simp add: seq_inv_def shared_init_def newSequencer_def max64_def)

lemma set_remove_nth: "set (take i xs @ drop (Suc i) xs) \<subseteq> set xs"
  using set_take_subset [of i xs] set_drop_subset [of "Suc i" xs] by auto

lemma sorted_wrt_raise: "sorted_wrt (>) (n # xs) \<Longrightarrow> n \<le> m \<Longrightarrow> sorted_wrt (>) (m # xs)" for m :: nat
  by auto

lemma seq_inv_calls:
  "seq_inv s \<Longrightarrow> set cs \<subseteq> insert c (set (shCalls s)) \<Longrightarrow> call_ok c \<Longrightarrow> seq_inv (s\<lparr> shCalls := cs \<rparr>)"
  unfolding seq_inv_def by (simp, blast)

lemma seq_inv_call_at: "seq_inv s \<Longrightarrow> i < length (shCalls s) \<Longrightarrow> call_ok (shCalls s ! i)"
  by (simp add: seq_inv_def)

lemma seq_inv_assign:
  "seq_inv s \<Longrightarrow> seq_inv (s\<lparr> shNext := inc64 (shNext s), shIssued := shNext s # shIssued s,
                    shWrapped := (shWrapped s \<or> shNext s = max64) \<rparr>)"
  by (cases "shNext s < max64") (auto simp: seq_inv_def inc64_eq inc64_wrap)

lemma seq_inv_return:
  assumes "seq_inv s" "set cs \<subseteq> set (shCalls s)" "shNext s \<le> n" "n \<le> max64" "nxt \<le> n"
  shows "seq_inv (s\<lparr> shNext := n, shCalls := cs, shReturned := (nxt, n) # shReturned s \<rparr>)"
proof -
  have "\<forall>c \<in> set cs. call_ok c" using assms(1,2) by (auto simp: seq_inv_def)
  moreover have "\<not> shWrapped s \<Longrightarrow> sorted_wrt (>) (n # shIssued s)"
    using assms(1,3) sorted_wrt_raise [of "shNext s" "shIssued s" n] by (simp add: seq_inv_def)
  moreover have "\<not> shWrapped s \<Longrightarrow> \<forall>(m, r) \<in> set (shReturned s). m \<le> r \<and> r \<le> n"
    using assms(1,3) by (auto simp: seq_inv_def)
  ultimately show ?thesis using assms by (simp add: seq_inv_def) linarith
qed

lemma seq_step_inv:
  assumes "seq_step s t" and inv: "seq_inv s"
  shows "seq_inv t"
  using assms(1)
proof cases
  case assign_add
  then show ?thesis using seq_inv_assign [OF inv] by simp
next
  case (advance_call nxt)
  have "call_ok (if nxt = 0 then 1 else nxt, None)"
    using advance_call(2) by (simp add: call_ok_def max64_def)
  then show ?thesis unfolding advance_call(1) by (intro seq_inv_calls [OF inv]) auto
next
  case (advance_load i nxt)
  have "call_ok (nxt, Some (shNext s))"
    using seq_inv_call_at [OF inv advance_load(2)] advance_load(3,4) by (simp add: call_ok_def)
  then show ?thesis
    unfolding advance_load(1) by (rule seq_inv_calls [OF inv set_update_subset_insert])
next
  case (advance_return_cur i nxt)
  have "shNext s \<le> max64" using inv by (simp add: seq_inv_def)
  with seq_inv_return [OF inv set_remove_nth [of i], of "shNext s" nxt] advance_return_cur
  show ?thesis by simp
next
  case (advance_cas_ok i nxt cur)
  have "shNext s \<le> nxt" "nxt \<le> max64"
    using seq_inv_call_at [OF inv advance_cas_ok(2)] advance_cas_ok(3,4) by (auto simp: call_ok_def)
  then show ?thesis
    unfolding advance_cas_ok(1) by (intro seq_inv_return [OF inv set_remove_nth]) auto
next
  case (advance_cas_fail i nxt cur)
  have "call_ok (nxt, None)"
    using seq_inv_call_at [OF inv advance_cas_fail(2)] advance_cas_fail(3) by (simp add: call_ok_def)
  then show ?thesis
    unfolding advance_cas_fail(1) by (rule seq_inv_calls [OF inv set_update_subset_insert])
qed

lemma seq_run_inv: "seq_step\<^sup>*\<^sup>* s t \<Longrightarrow> seq_inv s \<Longrightarrow> seq_inv t"
  by (induction rule: rtranclp_induct) (auto intro: seq_step_inv)

lemma sorted_wrt_gr_distinct: "sorted_wrt (>) xs \<Longrightarrow> distinct (xs :: nat list)"
  by (induction xs) auto

text \<open>
  The sequential functions are the step relation run without interference: a call of
  \<open>assign\<close> on an unnumbered event is one \<open>assign_add\<close>, and an undisturbed \<open>advanceTo\<close> is the
  call, one load and one successful swap (or the early return).
\<close>

lemma assign_is_step:
  assumes "Sequence e = 0"
  shows "fst (assign (Some e) sq) = next_seq sq"
    "next_seq (snd (snd (assign (Some e) sq))) = inc64 (next_seq sq)"
  using assms by (auto simp: assign_def Let_def)

lemma advanceTo_runs:
  assumes "nxt \<le> max64" and sq: "next_seq sq = shNext s"
  shows "seq_step\<^sup>*\<^sup>* s (s\<lparr> shNext := next_seq (snd (advanceTo nxt sq)),
            shReturned := ((if nxt = 0 then 1 else nxt), fst (advanceTo nxt sq)) # shReturned s \<rparr>)"
proof -
  let ?n = "if nxt = 0 then 1 else nxt"
  let ?s1 = "s\<lparr> shCalls := (?n, None) # shCalls s \<rparr>"
  have call: "seq_step s ?s1" using assms(1) by (rule advance_call)
  show ?thesis
  proof (cases "?n \<le> shNext s")
    case True
    then have "seq_step ?s1 (?s1\<lparr> shCalls := take 0 (shCalls ?s1) @ drop (Suc 0) (shCalls ?s1),
                  shReturned := (?n, shNext ?s1) # shReturned ?s1 \<rparr>)"
      by (intro advance_return_cur) auto
    with call True sq show ?thesis
      by (auto simp: advanceTo_def Let_def intro: converse_rtranclp_into_rtranclp)
  next
    case False
    let ?s2 = "?s1\<lparr> shCalls := (shCalls ?s1)[0 := (?n, Some (shNext ?s1))] \<rparr>"
    have load: "seq_step ?s1 ?s2" using False by (intro advance_load) auto
    have "seq_step ?s2 (?s2\<lparr> shNext := ?n, shCalls := take 0 (shCalls ?s2) @ drop (Suc 0) (shCalls ?s2),
                  shReturned := (?n, ?n) # shReturned ?s2 \<rparr>)"
      by (intro advance_cas_ok) auto
    with call load False sq show ?thesis
      by (auto simp: advanceTo_def Let_def intro: converse_rtranclp_into_rtranclp)
  qed
qed

subsection \<open>Property\<close>

text \<open>
  C20: However the atomic steps of concurrent \<open>assign\<close> and \<open>advanceTo\<close> calls interleave, as long
  as the 64-bit counter has not wrapped the issued sequence numbers are pairwise distinct,
  each later one is larger than every earlier one, none of them is the reserved 0, every
  completed \<open>advanceTo n\<close> returned at least \<open>n\<close>, and no number issued from now on is below a
  value a completed \<open>advanceTo\<close> returned.
\<close>

theorem sequencer_unique:
  assumes "start \<le> max64" and "seq_step\<^sup>*\<^sup>* (shared_init start) s" and "\<not> shWrapped s"
  shows "sorted_wrt (>) (shIssued s) \<and> distinct (shIssued s) \<and> 0 \<notin> set (shIssued s) \<and>
         (\<forall>i \<in> set (shIssued s). i < shNext s) \<and>
         (\<forall>(nxt, r) \<in> set (shReturned s). nxt \<le> r \<and> r \<le> shNext s)"
proof -
  from assms(1,2) have inv: "seq_inv s" by (blast intro: seq_run_inv seq_inv_init)
  with assms(3) have so: "sorted_wrt (>) (shNext s # shIssued s)"
    and z: "0 \<notin> set (shIssued s)"
    and ret: "\<forall>(nxt, r) \<in> set (shReturned s). nxt \<le> r \<and> r \<le> shNext s"
    by (auto simp: seq_inv_def)
  from sorted_wrt_gr_distinct [OF so] so z ret show ?thesis by auto
qed

text \<open>Two events numbered around an \<open>advanceTo 10\<close> that loses its first compare-and-swap.\<close>

theorem sequencer_unique_witness:
  "\<exists>s. seq_step\<^sup>*\<^sup>* (shared_init 0) s \<and> shIssued s = [10, 1] \<and> shReturned s = [(10, 10)] \<and>
       \<not> shWrapped s \<and> distinct (shIssued s) \<and> (\<forall>i \<in> set (shIssued s). i < shNext s)"
proof -
  let ?st = "\<lambda>n cs is rs. \<lparr> shNext = n, shCalls = cs, shIssued = is, shReturned = rs, shWrapped = False \<rparr>"
  note ev = inc64_def max64_def
  have i: "shared_init 0 = ?st 1 [] [] []" by (simp add: shared_init_def newSequencer_def)
  have "seq_step (?st 1 [] [] []) (?st 1 [(10, None)] [] [])"
    using advance_call [of 10 "?st 1 [] [] []"] by (simp add: ev)
  then have "seq_step\<^sup>*\<^sup>* (?st 1 [] [] []) (?st 1 [(10, None)] [] [])" ..
  also have "seq_step (?st 1 [(10, None)] [] []) (?st 1 [(10, Some 1)] [] [])"
    using advance_load [of 0 "?st 1 [(10, None)] [] []" 10] by simp
  also (rtranclp.rtrancl_into_rtrancl)
  have "seq_step (?st 1 [(10, Some 1)] [] []) (?st 2 [(10, Some 1)] [1] [])"
    using assign_add [of "?st 1 [(10, Some 1)] [] []"] by (simp add: ev numeral_2_eq_2)
  also (rtranclp.rtrancl_into_rtrancl)
  have "seq_step (?st 2 [(10, Some 1)] [1] []) (?st 2 [(10, None)] [1] [])"
    using advance_cas_fail [of 0 "?st 2 [(10, Some 1)] [1] []" 10 1] by simp
  also (rtranclp.rtrancl_into_rtrancl)
  have "seq_step (?st 2 [(10, None)] [1] []) (?st 2 [(10, Some 2)] [1] [])"
    using advance_load [of 0 "?st 2 [(10, None)] [1] []" 10] by simp
  also (rtranclp.rtrancl_into_rtrancl)
  have "seq_step (?st 2 [(10, Some 2)] [1] []) (?st 10 [] [1] [(10, 10)])"
    using advance_cas_ok [of 0 "?st 2 [(10, Some 2)] [1] []" 10 2] by simp
  also (rtranclp.rtrancl_into_rtrancl)
  have "seq_step (?st 10 [] [1] [(10, 10)]) (?st 11 [] [10, 1] [(10, 10)])"
    using assign_add [of "?st 10 [] [1] [(10, 10)]"] by (simp add: ev)
  finally (rtranclp.rtrancl_into_rtrancl)
  have run: "seq_step\<^sup>*\<^sup>* (shared_init 0) (?st 11 [] [10, 1] [(10, 10)])" unfolding i .
  moreover have "\<not> shWrapped (?st 11 [] [10, 1] [(10, 10)])" by simp
  moreover note sequencer_unique [OF _ calculation]
  ultimately show ?thesis by (intro exI [of _ "?st 11 [] [10, 1] [(10, 10)]"]) simp
qed

end
