(* ===== verification/Event_Queue.thy ===== *)
theory Event_Queue
  imports Events "HOL-Library.Multiset" "HOL-Library.Sublist"
begin

section \<open>The bounded event queue\<close>

text \<open>
  \<^verbatim>\<open>SauronAgent/internal/queue/queue.go\<close>. The state is the Go struct: a ring of \<^verbatim>\<open>len(buf)\<close> slots with
  a head index and a count, the overflow counters, and the wake-up channel, which is
  represented by the number of channels closed so far (\<open>qNotify\<close> is the identity of the open
  one, every smaller number is a closed channel). The mutex makes each method, and each locked
  section of the blocking \<open>Get\<close>, one atomic step.

  The ring refines a bounded list with an explicit list of lost events (\<open>spec_step\<close>); the
  consumers parked in \<open>Get\<close> are added by the step relation \<open>get_step\<close>.
\<close>

record queue_metrics =
  EventsDropped :: nat
  QueueDepth :: int

record queue =
  qBuf :: "event option list"
  qHead :: nat
  qN :: nat
  qClosed :: bool
  qNotify :: nat
  qWaiters :: nat
  qDropped :: nat
  qFirstMissing :: nat
  qLastMissing :: nat
  qMetrics :: "queue_metrics option"

definition defaultCapacity :: nat where
  "defaultCapacity = 10000"

definition New :: "int \<Rightarrow> queue_metrics option \<Rightarrow> queue" where
  "New capacity metrics =
     \<lparr> qBuf = replicate (if capacity \<le> 0 then defaultCapacity else nat capacity) None,
       qHead = 0, qN = 0, qClosed = False, qNotify = 0, qWaiters = 0,
       qDropped = 0, qFirstMissing = 0, qLastMissing = 0, qMetrics = metrics \<rparr>"

definition recordDropLocked :: "event option \<Rightarrow> queue \<Rightarrow> queue" where
  "recordDropLocked ev q =
     (let q1 = q\<lparr> qDropped := inc64 (qDropped q),
                  qMetrics := map_option (\<lambda>m. m\<lparr> EventsDropped := inc64 (EventsDropped m) \<rparr>) (qMetrics q) \<rparr>
      in case ev of
           None \<Rightarrow> q1
         | Some e \<Rightarrow>
             if Sequence e = 0 then q1
             else let q2 = (if qFirstMissing q1 = 0 \<or> Sequence e < qFirstMissing q1
                            then q1\<lparr> qFirstMissing := Sequence e \<rparr> else q1)
                  in if Sequence e > qLastMissing q2
                     then q2\<lparr> qLastMissing := Sequence e \<rparr> else q2)"

definition wakeLocked :: "queue \<Rightarrow> queue" where
  "wakeLocked q = (if qWaiters q = 0 then q else q\<lparr> qNotify := qNotify q + 1 \<rparr>)"

definition updateDepthLocked :: "queue \<Rightarrow> queue" where
  "updateDepthLocked q = q\<lparr> qMetrics := map_option (\<lambda>m. m\<lparr> QueueDepth := int (qN q) \<rparr>) (qMetrics q) \<rparr>"

definition Put :: "event option \<Rightarrow> queue \<Rightarrow> nat \<times> queue" where
  "Put ev q = (case ev of
     None \<Rightarrow> (0, q)
   | Some e \<Rightarrow>
       if qClosed q then (1, recordDropLocked (Some e) q)
       else
         let (d, q1) =
               (if qN q = length (qBuf q)
                then let oldest = qBuf q ! qHead q in
                  (1, recordDropLocked oldest
                        (q\<lparr> qBuf := (qBuf q)[qHead q := None],
                            qHead := (qHead q + 1) mod length (qBuf q), qN := qN q - 1 \<rparr>))
                else (0, q));
             q2 = q1\<lparr> qBuf := (qBuf q1)[(qHead q1 + qN q1) mod length (qBuf q1) := Some e],
                      qN := qN q1 + 1 \<rparr>
         in (d, updateDepthLocked (wakeLocked q2)))"

definition popLocked :: "queue \<Rightarrow> event option \<times> queue" where
  "popLocked q =
     (if qN q = 0 then (None, q)
      else let e = qBuf q ! qHead q;
               q1 = q\<lparr> qBuf := (qBuf q)[qHead q := None],
                       qHead := (qHead q + 1) mod length (qBuf q), qN := qN q - 1 \<rparr>
           in (e, updateDepthLocked q1))"

definition TryGet :: "queue \<Rightarrow> event option \<times> queue" where
  "TryGet q = popLocked q"

definition Len :: "queue \<Rightarrow> nat" where
  "Len q = qN q"

definition Cap :: "queue \<Rightarrow> nat" where
  "Cap q = length (qBuf q)"

definition DrainOverflow :: "queue \<Rightarrow> (nat \<times> nat \<times> nat) option \<times> queue" where
  "DrainOverflow q =
     (if qDropped q = 0 then (None, q)
      else (Some (qDropped q, qFirstMissing q, qLastMissing q),
            q\<lparr> qDropped := 0, qFirstMissing := 0, qLastMissing := 0 \<rparr>))"

definition Close :: "queue \<Rightarrow> queue" where
  "Close q = (if qClosed q then q else q\<lparr> qClosed := True, qNotify := qNotify q + 1 \<rparr>)"

text \<open>
  One locked section of the loop of \<open>Get\<close>: it returns an event, reports the closed and drained
  queue, or parks on the channel that is open now. \<open>get_unpark\<close> is the section after the wait.
\<close>

datatype get_outcome = Got event | GotClosed | Parked nat

definition get_poll :: "queue \<Rightarrow> get_outcome \<times> queue" where
  "get_poll q =
     (case popLocked q of
        (Some e, q1) \<Rightarrow> (Got e, q1)
      | (None, q1) \<Rightarrow>
          if qClosed q1 then (GotClosed, q1)
          else (Parked (qNotify q1), q1\<lparr> qWaiters := qWaiters q1 + 1 \<rparr>))"

definition get_unpark :: "queue \<Rightarrow> queue" where
  "get_unpark q = q\<lparr> qWaiters := qWaiters q - 1 \<rparr>"

subsection \<open>Operations and the specification\<close>

datatype queue_op = OpPut "event option" | OpTryGet | OpDrain | OpClose | OpLen

datatype queue_result =
    RPut nat
  | RGet "event option"
  | RDrain "(nat \<times> nat \<times> nat) option"
  | RUnit
  | RLen nat

definition queue_step :: "queue_op \<Rightarrow> queue \<Rightarrow> queue_result \<times> queue" where
  "queue_step x q = (case x of
     OpPut ev \<Rightarrow> let (d, q1) = Put ev q in (RPut d, q1)
   | OpTryGet \<Rightarrow> let (r, q1) = TryGet q in (RGet r, q1)
   | OpDrain \<Rightarrow> let (r, q1) = DrainOverflow q in (RDrain r, q1)
   | OpClose \<Rightarrow> (RUnit, Close q)
   | OpLen \<Rightarrow> (RLen (Len q), q))"

text \<open>
  The specification: a list of at most \<open>sCap\<close> events from which the oldest is dropped on
  overflow, and the list of the events lost since the last drain.
\<close>

record spec_queue =
  sItems :: "event list"
  sCap :: nat
  sClosed :: bool
  sLost :: "event list"

definition lost_seqs :: "event list \<Rightarrow> nat list" where
  "lost_seqs es = filter (\<lambda>s. s \<noteq> 0) (map Sequence es)"

definition lost_first :: "event list \<Rightarrow> nat" where
  "lost_first es = (if lost_seqs es = [] then 0 else Min (set (lost_seqs es)))"

definition lost_last :: "event list \<Rightarrow> nat" where
  "lost_last es = (if lost_seqs es = [] then 0 else Max (set (lost_seqs es)))"

definition spec_step :: "queue_op \<Rightarrow> spec_queue \<Rightarrow> queue_result \<times> spec_queue" where
  "spec_step x s = (case x of
     OpPut None \<Rightarrow> (RPut 0, s)
   | OpPut (Some e) \<Rightarrow>
       if sClosed s then (RPut 1, s\<lparr> sLost := sLost s @ [e] \<rparr>)
       else if length (sItems s) = sCap s
       then (RPut 1, s\<lparr> sItems := tl (sItems s) @ [e], sLost := sLost s @ [hd (sItems s)] \<rparr>)
       else (RPut 0, s\<lparr> sItems := sItems s @ [e] \<rparr>)
   | OpTryGet \<Rightarrow> (case sItems s of [] \<Rightarrow> (RGet None, s) | e # es \<Rightarrow> (RGet (Some e), s\<lparr> sItems := es \<rparr>))
   | OpDrain \<Rightarrow>
       (if length (sLost s) mod (max64 + 1) = 0 then (RDrain None, s)
        else (RDrain (Some (length (sLost s) mod (max64 + 1), lost_first (sLost s), lost_last (sLost s))),
              s\<lparr> sLost := [] \<rparr>))
   | OpClose \<Rightarrow> (RUnit, s\<lparr> sClosed := True \<rparr>)
   | OpLen \<Rightarrow> (RLen (length (sItems s)), s))"

definition spec_init :: "nat \<Rightarrow> spec_queue" where
  "spec_init c = \<lparr> sItems = [], sCap = c, sClosed = False, sLost = [] \<rparr>"

text \<open>The events a ring holds, oldest first, and the refinement relation.\<close>

definition contents :: "queue \<Rightarrow> event option list" where
  "contents q = map (\<lambda>i. qBuf q ! ((qHead q + i) mod length (qBuf q))) [0..<qN q]"

definition queue_inv :: "queue \<Rightarrow> bool" where
  "queue_inv q \<longleftrightarrow> 0 < length (qBuf q) \<and> qHead q < length (qBuf q) \<and> qN q \<le> length (qBuf q) \<and>
     None \<notin> set (contents q)"

definition queue_rel :: "queue \<Rightarrow> spec_queue \<Rightarrow> bool" where
  "queue_rel q s \<longleftrightarrow> queue_inv q \<and> contents q = map Some (sItems s) \<and>
     length (qBuf q) = sCap s \<and> qClosed q = sClosed s \<and>
     qDropped q = length (sLost s) mod (max64 + 1) \<and>
     qFirstMissing q = lost_first (sLost s) \<and> qLastMissing q = lost_last (sLost s)"

text \<open>
  What a run was given and what came out of it: the events put, the events handed out, the
  events still held, and the overflow reports (those drained, and the one a drain would give now).
\<close>

definition puts :: "queue_op list \<Rightarrow> event list" where
  "puts ops = concat (map (\<lambda>x. case x of OpPut (Some e) \<Rightarrow> [e] | _ \<Rightarrow> []) ops)"

definition gots :: "queue_result list \<Rightarrow> event list" where
  "gots rs = concat (map (\<lambda>r. case r of RGet (Some e) \<Rightarrow> [e] | _ \<Rightarrow> []) rs)"

definition drained :: "queue_result list \<Rightarrow> (nat \<times> nat \<times> nat) list" where
  "drained rs = concat (map (\<lambda>r. case r of RDrain (Some d) \<Rightarrow> [d] | _ \<Rightarrow> []) rs)"

definition held :: "queue \<Rightarrow> event list" where
  "held q = concat (map (\<lambda>x. case x of Some e \<Rightarrow> [e] | None \<Rightarrow> []) (contents q))"

definition overflow_reports :: "queue_result list \<Rightarrow> queue \<Rightarrow> (nat \<times> nat \<times> nat) list" where
  "overflow_reports rs q = drained rs @ (case fst (DrainOverflow q) of None \<Rightarrow> [] | Some d \<Rightarrow> [d])"

definition reported_in :: "(nat \<times> nat \<times> nat) list \<Rightarrow> event \<Rightarrow> bool" where
  "reported_in ds e \<longleftrightarrow> Sequence e = 0 \<or> (\<exists>(d, f, l) \<in> set ds. f \<le> Sequence e \<and> Sequence e \<le> l)"

text \<open>The invariant of a run of the specification; \<open>old\<close> are the lost events already drained.\<close>

definition conserved :: "queue_op list \<Rightarrow> queue_result list \<Rightarrow> spec_queue \<Rightarrow> event list \<Rightarrow> bool" where
  "conserved ops rs s old \<longleftrightarrow>
     0 < sCap s \<and> mset (puts ops) = mset (gots rs) + mset (sItems s) + mset old + mset (sLost s) \<and>
     subseq (gots rs @ sItems s) (puts ops) \<and>
     sum_list (map fst (drained rs)) = length old \<and>
     (\<forall>e \<in> set old. reported_in (drained rs) e)"

text \<open>
  The consumers waiting in \<open>Get\<close>: \<open>gWaiting\<close> lists the channels they wait on. A consumer whose
  channel has been closed can run on (\<open>wake\<close>), one whose context ends leaves (\<open>cancel\<close>).
\<close>

record get_state =
  gQueue :: queue
  gWaiting :: "nat list"

inductive get_step :: "get_state \<Rightarrow> get_state \<Rightarrow> bool" where
  producer: "get_step g (g\<lparr> gQueue := snd (queue_step x (gQueue g)) \<rparr>)"
| poll_return:
    "get_poll (gQueue g) = (r, q) \<Longrightarrow> r = Got e \<or> r = GotClosed \<Longrightarrow> get_step g (g\<lparr> gQueue := q \<rparr>)"
| poll_park:
    "get_poll (gQueue g) = (Parked c, q) \<Longrightarrow> get_step g (g\<lparr> gQueue := q, gWaiting := c # gWaiting g \<rparr>)"
| wake:
    "i < length (gWaiting g) \<Longrightarrow> gWaiting g ! i < qNotify (gQueue g) \<Longrightarrow>
     get_step g (g\<lparr> gQueue := get_unpark (gQueue g),
                    gWaiting := take i (gWaiting g) @ drop (Suc i) (gWaiting g) \<rparr>)"
| cancel:
    "i < length (gWaiting g) \<Longrightarrow>
     get_step g (g\<lparr> gQueue := get_unpark (gQueue g),
                    gWaiting := take i (gWaiting g) @ drop (Suc i) (gWaiting g) \<rparr>)"

definition get_init :: "int \<Rightarrow> queue_metrics option \<Rightarrow> get_state" where
  "get_init c m = \<lparr> gQueue = New c m, gWaiting = [] \<rparr>"

definition get_inv :: "get_state \<Rightarrow> bool" where
  "get_inv g \<longleftrightarrow> (\<exists>s. queue_rel (gQueue g) s) \<and> qWaiters (gQueue g) = length (gWaiting g) \<and>
     (\<forall>c \<in> set (gWaiting g). c \<le> qNotify (gQueue g)) \<and>
     (0 < qN (gQueue g) \<or> qClosed (gQueue g) \<longrightarrow> (\<forall>c \<in> set (gWaiting g). c < qNotify (gQueue g)))"

subsection \<open>The ring\<close>

lemma mod_ring_neq: "i < j \<Longrightarrow> j < L \<Longrightarrow> (h + i) mod L \<noteq> (h + j) mod L" for h i j L :: nat
proof
  assume ij: "i < j" "j < L" and eq: "(h + i) mod L = (h + j) mod L"
  from eq have "L dvd (h + j) - (h + i)"
    using mod_eq_dvd_iff_nat [of "h + i" "h + j" L] ij(1) by simp
  with ij show False by (auto dest: dvd_imp_le)
qed

lemma length_contents [simp]: "length (contents q) = qN q"
  by (simp add: contents_def)

lemma contents_nth: "i < qN q \<Longrightarrow> contents q ! i = qBuf q ! ((qHead q + i) mod length (qBuf q))"
  by (simp add: contents_def)

text \<open>What the methods do to the fields the ring does not use leaves the contents alone.\<close>

lemma contents_cong: "qBuf p = qBuf q \<Longrightarrow> qHead p = qHead q \<Longrightarrow> qN p = qN q \<Longrightarrow> contents p = contents q"
  by (simp add: contents_def)

lemma contents_push:
  assumes "0 < length (qBuf q)" "qN q < length (qBuf q)"
  shows "contents (q\<lparr> qBuf := (qBuf q)[(qHead q + qN q) mod length (qBuf q) := x], qN := qN q + 1 \<rparr>)
           = contents q @ [x]"
  by (rule nth_equalityI)
    (use assms in \<open>auto simp: contents_nth nth_append nth_list_update less_Suc_eq mod_ring_neq
                        dest: mod_ring_neq [of _ "qN q" "length (qBuf q)" "qHead q"]\<close>)

lemma contents_pop:
  assumes "0 < qN q" "qN q \<le> length (qBuf q)" "qHead q < length (qBuf q)"
  shows "contents q = qBuf q ! qHead q #
           contents (q\<lparr> qBuf := (qBuf q)[qHead q := x], qHead := (qHead q + 1) mod length (qBuf q),
                        qN := qN q - 1 \<rparr>)"
proof (rule nth_equalityI)
  show "length (contents q) = length (qBuf q ! qHead q #
           contents (q\<lparr> qBuf := (qBuf q)[qHead q := x], qHead := (qHead q + 1) mod length (qBuf q),
                        qN := qN q - 1 \<rparr>))"
    using assms(1) by simp
next
  fix i assume i: "i < length (contents q)"
  show "contents q ! i = (qBuf q ! qHead q #
           contents (q\<lparr> qBuf := (qBuf q)[qHead q := x], qHead := (qHead q + 1) mod length (qBuf q),
                        qN := qN q - 1 \<rparr>)) ! i"
  proof (cases i)
    case 0
    with i assms show ?thesis by (simp add: contents_nth)
  next
    case (Suc j)
    with i assms have ne: "(qHead q + Suc j) mod length (qBuf q) \<noteq> qHead q"
      using mod_ring_neq [of 0 "Suc j" "length (qBuf q)" "qHead q"] by simp
    have "((qHead q + 1) mod length (qBuf q) + j) mod length (qBuf q) = (qHead q + Suc j) mod length (qBuf q)"
      by (simp add: mod_add_left_eq)
    with ne i Suc show ?thesis by (simp add: contents_nth)
  qed
qed

subsection \<open>The overflow accounting\<close>

lemma lost_seqs_simps [simp]:
  "lost_seqs [] = []"
  "lost_seqs (es @ [e]) = lost_seqs es @ (if Sequence e = 0 then [] else [Sequence e])"
  by (simp_all add: lost_seqs_def)

lemma lost_first_0: "lost_first es = 0 \<longleftrightarrow> lost_seqs es = []"
proof (cases "lost_seqs es = []")
  case False
  then have "Min (set (lost_seqs es)) \<in> set (lost_seqs es)" by simp
  then have "Min (set (lost_seqs es)) \<noteq> 0" by (simp add: lost_seqs_def)
  with False show ?thesis by (simp add: lost_first_def)
qed (simp add: lost_first_def)

lemma lost_first_snoc:
  "lost_first (es @ [e]) =
     (if Sequence e \<noteq> 0 \<and> (lost_first es = 0 \<or> Sequence e < lost_first es) then Sequence e else lost_first es)"
  unfolding lost_first_0
  by (cases "lost_seqs es = []") (auto simp: lost_first_def min_def simp del: Min_gr_iff Min_ge_iff)

lemma lost_last_snoc:
  "lost_last (es @ [e]) = (if Sequence e \<noteq> 0 \<and> lost_last es < Sequence e then Sequence e else lost_last es)"
  by (cases "lost_seqs es = []") (auto simp: lost_last_def max_def simp del: Max_less_iff Max_le_iff)

lemma recordDropLocked_fields:
  "qBuf (recordDropLocked ev q) = qBuf q" "qHead (recordDropLocked ev q) = qHead q"
  "qN (recordDropLocked ev q) = qN q" "qClosed (recordDropLocked ev q) = qClosed q"
  "qNotify (recordDropLocked ev q) = qNotify q" "qWaiters (recordDropLocked ev q) = qWaiters q"
  "qDropped (recordDropLocked ev q) = inc64 (qDropped q)"
  by (auto simp: recordDropLocked_def Let_def split: option.split)

lemma recordDropLocked_range:
  "qFirstMissing (recordDropLocked (Some e) q) =
     (if Sequence e \<noteq> 0 \<and> (qFirstMissing q = 0 \<or> Sequence e < qFirstMissing q)
      then Sequence e else qFirstMissing q)"
  "qLastMissing (recordDropLocked (Some e) q) =
     (if Sequence e \<noteq> 0 \<and> qLastMissing q < Sequence e then Sequence e else qLastMissing q)"
  by (auto simp: recordDropLocked_def Let_def)

lemma wakeLocked_fields:
  "qBuf (wakeLocked q) = qBuf q" "qHead (wakeLocked q) = qHead q" "qN (wakeLocked q) = qN q"
  "qClosed (wakeLocked q) = qClosed q" "qDropped (wakeLocked q) = qDropped q"
  "qFirstMissing (wakeLocked q) = qFirstMissing q" "qLastMissing (wakeLocked q) = qLastMissing q"
  "qWaiters (wakeLocked q) = qWaiters q"
  by (simp_all add: wakeLocked_def)

lemma updateDepthLocked_fields:
  "qBuf (updateDepthLocked q) = qBuf q" "qHead (updateDepthLocked q) = qHead q"
  "qN (updateDepthLocked q) = qN q" "qClosed (updateDepthLocked q) = qClosed q"
  "qDropped (updateDepthLocked q) = qDropped q" "qFirstMissing (updateDepthLocked q) = qFirstMissing q"
  "qLastMissing (updateDepthLocked q) = qLastMissing q" "qNotify (updateDepthLocked q) = qNotify q"
  "qWaiters (updateDepthLocked q) = qWaiters q"
  by (simp_all add: updateDepthLocked_def)

lemmas queue_fields = recordDropLocked_fields wakeLocked_fields updateDepthLocked_fields

lemma inc64_mod: "inc64 (n mod Suc max64) = Suc n mod Suc max64"
  by (simp add: inc64_def mod_Suc_eq)

subsection \<open>The ring refines the bounded list\<close>

lemma queue_rel_len: "queue_rel q s \<Longrightarrow> qN q = length (sItems s)"
  unfolding queue_rel_def using length_contents [of q] by (metis length_map)

lemma queue_rel_drop:
  assumes "queue_rel q s"
  shows "queue_rel (recordDropLocked (Some e) q) (s\<lparr> sLost := sLost s @ [e] \<rparr>)"
proof -
  have "contents (recordDropLocked (Some e) q) = contents q"
    by (rule contents_cong) (simp_all add: queue_fields)
  with assms show ?thesis
    by (simp add: queue_rel_def queue_inv_def queue_fields recordDropLocked_range lost_first_snoc
        lost_last_snoc inc64_mod del: mod_Suc_eq)
qed

lemma queue_rel_push:
  assumes rel: "queue_rel q s" and room: "length (sItems s) < sCap s"
  shows "queue_rel (updateDepthLocked (wakeLocked
           (q\<lparr> qBuf := (qBuf q)[(qHead q + qN q) mod length (qBuf q) := Some e], qN := qN q + 1 \<rparr>)))
           (s\<lparr> sItems := sItems s @ [e] \<rparr>)" (is "queue_rel (updateDepthLocked (wakeLocked ?q)) _")
proof -
  have "contents (updateDepthLocked (wakeLocked ?q)) = contents ?q"
    by (rule contents_cong) (simp_all add: queue_fields)
  also have "\<dots> = contents q @ [Some e]"
    using rel room queue_rel_len [OF rel] by (intro contents_push) (auto simp: queue_rel_def queue_inv_def)
  finally show ?thesis
    using rel room queue_rel_len [OF rel]
    by (auto simp: queue_rel_def queue_inv_def queue_fields)
qed

lemma queue_rel_pop:
  assumes rel: "queue_rel q s" and it: "sItems s = e # es"
  defines "q1 \<equiv> q\<lparr> qBuf := (qBuf q)[qHead q := None],
                    qHead := (qHead q + 1) mod length (qBuf q), qN := qN q - 1 \<rparr>"
  shows "qBuf q ! qHead q = Some e" "queue_rel q1 (s\<lparr> sItems := es \<rparr>)" "qN q > 0"
proof -
  show n: "qN q > 0" using queue_rel_len [OF rel] it by simp
  have c: "contents q = qBuf q ! qHead q # contents q1"
    unfolding q1_def using rel n by (intro contents_pop) (auto simp: queue_rel_def queue_inv_def)
  have m: "contents q = Some e # map Some es" using rel it by (simp add: queue_rel_def)
  from c m show "qBuf q ! qHead q = Some e" by simp
  from c m have "contents q1 = map Some es" by simp
  with rel n show "queue_rel q1 (s\<lparr> sItems := es \<rparr>)"
    by (auto simp: queue_rel_def queue_inv_def q1_def)
qed

lemma queue_rel_depth: "queue_rel q s \<Longrightarrow> queue_rel (updateDepthLocked q) s"
  using contents_cong [of "updateDepthLocked q" q] by (simp add: queue_rel_def queue_inv_def queue_fields)

lemma Put_refines:
  assumes rel: "queue_rel q s"
  shows "RPut (fst (Put ev q)) = fst (spec_step (OpPut ev) s) \<and>
         queue_rel (snd (Put ev q)) (snd (spec_step (OpPut ev) s))"
proof (cases ev)
  case None
  then show ?thesis using rel by (simp add: Put_def spec_step_def)
next
  case (Some e)
  have cl: "qClosed q = sClosed s" and cap: "length (qBuf q) = sCap s" and pos: "sCap s > 0"
    using rel by (auto simp: queue_rel_def queue_inv_def)
  show ?thesis
  proof (cases "sClosed s \<or> length (sItems s) \<noteq> sCap s")
    case True
    have "\<not> sClosed s \<Longrightarrow> length (sItems s) < sCap s"
      using True rel queue_rel_len [OF rel] by (auto simp: queue_rel_def queue_inv_def)
    with True show ?thesis
      using queue_rel_drop [OF rel, of e] queue_rel_push [OF rel, of e] cl cap queue_rel_len [OF rel]
      by (auto simp: Some Put_def spec_step_def)
  next
    case False
    then obtain e0 es where it: "sItems s = e0 # es" using pos by (cases "sItems s") auto
    let ?q1 = "q\<lparr> qBuf := (qBuf q)[qHead q := None],
                   qHead := (qHead q + 1) mod length (qBuf q), qN := qN q - 1 \<rparr>"
    note pop = queue_rel_pop [OF rel it]
    have rel2: "queue_rel (recordDropLocked (Some e0) ?q1) (s\<lparr> sItems := es, sLost := sLost s @ [e0] \<rparr>)"
      using queue_rel_drop [OF pop(2), of e0] by simp
    let ?q2 = "recordDropLocked (Some e0) ?q1"
    have put: "Put ev q = (1, updateDepthLocked (wakeLocked
        (?q2\<lparr> qBuf := (qBuf ?q2)[(qHead ?q2 + qN ?q2) mod length (qBuf ?q2) := Some e], qN := qN ?q2 + 1 \<rparr>)))"
      using False cl cap queue_rel_len [OF rel] by (simp add: Some Put_def pop(1) Let_def)
    have spec: "spec_step (OpPut ev) s =
        (RPut 1, s\<lparr> sItems := es, sLost := sLost s @ [e0], sItems := es @ [e] \<rparr>)"
      using False it by (simp add: Some spec_step_def)
    have "length es < sCap s" using False it by simp
    with queue_rel_push [OF rel2, of e] show ?thesis unfolding put spec by simp
  qed
qed

lemma popLocked_refines:
  assumes rel: "queue_rel q s"
  shows "RGet (fst (popLocked q)) = fst (spec_step OpTryGet s) \<and>
         queue_rel (snd (popLocked q)) (snd (spec_step OpTryGet s))"
proof (cases "sItems s")
  case Nil
  then show ?thesis using rel queue_rel_len [OF rel] by (simp add: popLocked_def spec_step_def)
next
  case (Cons e es)
  note pop = queue_rel_pop [OF rel Cons]
  show ?thesis
    using pop(1,3) queue_rel_depth [OF pop(2)] Cons by (simp add: popLocked_def spec_step_def Let_def)
qed

interpretation ring: simulation queue_rel queue_step spec_step
proof
  fix q s x assume rel: "queue_rel q s"
  have "fst (queue_step x q) = fst (spec_step x s) \<and> queue_rel (snd (queue_step x q)) (snd (spec_step x s))"
  proof (cases x)
    case (OpPut ev)
    with Put_refines [OF rel, of ev] show ?thesis by (simp add: queue_step_def case_prod_beta Let_def)
  next
    case OpTryGet
    with popLocked_refines [OF rel] show ?thesis
      by (simp add: queue_step_def TryGet_def case_prod_beta Let_def)
  next
    case OpDrain
    have "contents (q\<lparr> qDropped := 0, qFirstMissing := 0, qLastMissing := 0 \<rparr>) = contents q"
      by (rule contents_cong) simp_all
    with OpDrain rel show ?thesis
      by (auto simp: queue_step_def spec_step_def DrainOverflow_def queue_rel_def queue_inv_def
          lost_first_def lost_last_def)
  next
    case OpClose
    have "contents (Close q) = contents q" by (rule contents_cong) (simp_all add: Close_def)
    with OpClose rel show ?thesis
      by (auto simp: queue_step_def spec_step_def Close_def queue_rel_def queue_inv_def)
  next
    case OpLen
    with rel queue_rel_len [OF rel] show ?thesis by (simp add: queue_step_def spec_step_def Len_def)
  qed
  then show "fst (queue_step x q) = fst (spec_step x s)"
    and "queue_rel (snd (queue_step x q)) (snd (spec_step x s))" by simp_all
qed

lemma queue_rel_New: "queue_rel (New c m) (spec_init (Cap (New c m)))"
  by (auto simp: queue_rel_def queue_inv_def New_def spec_init_def contents_def lost_first_def
      lost_last_def Cap_def defaultCapacity_def)

subsection \<open>Conservation\<close>

lemma trace_append [simp]:
  "puts (xs @ ys) = puts xs @ puts ys" "gots (rs @ ss) = gots rs @ gots ss"
  "drained (rs @ ss) = drained rs @ drained ss"
  by (simp_all add: puts_def gots_def drained_def)

lemma reported_in_mono: "reported_in ds e \<Longrightarrow> reported_in (ds @ ds') e"
  by (auto simp: reported_in_def)

lemma reported_in_lost: "e \<in> set es \<Longrightarrow> reported_in (ds @ [(d, lost_first es, lost_last es)]) e"
  by (auto simp: reported_in_def lost_first_def lost_last_def lost_seqs_def filter_empty_conv)

lemma length_puts: "length (puts ops) \<le> length ops"
  by (induction ops) (auto simp: puts_def split: queue_op.split option.split)

lemma conserved_lost_bound:
  assumes "conserved ops rs s old"
  shows "length old + length (sLost s) \<le> length ops"
proof -
  have "length (puts ops) = length (gots rs) + length (sItems s) + length old + length (sLost s)"
    using assms unfolding conserved_def by (metis size_mset size_union)
  with length_puts [of ops] show ?thesis by simp
qed

lemma subseq_drop_mid: "subseq (xs @ y # ys) zs \<Longrightarrow> subseq (xs @ ys) zs"
  by (rule subseq_order.trans [rotated], assumption) (rule list_emb_append_mono, auto)

lemma conserved_step:
  assumes c: "conserved ops rs s old" and len: "length ops < max64"
  shows "\<exists>old'. conserved (ops @ [x]) (rs @ [fst (spec_step x s)]) (snd (spec_step x s)) old'"
proof (cases x)
  case (OpPut ev)
  show ?thesis
  proof (cases ev)
    case None
    with c OpPut have "conserved (ops @ [x]) (rs @ [fst (spec_step x s)]) (snd (spec_step x s)) old"
      by (simp add: conserved_def spec_step_def puts_def gots_def drained_def)
    then show ?thesis ..
  next
    case (Some e)
    have sub: "subseq (gots rs @ sItems s @ [e]) (puts ops @ [e])"
      using c by (simp add: conserved_def list_emb_append_mono flip: append_assoc)
    have sub2: "subseq (gots rs @ sItems s) (puts ops @ [e])"
      using c by (auto simp: conserved_def intro: subseq_order.trans [OF _ prefix_imp_subseq])
    have sub3: "sItems s = y # ys \<Longrightarrow> subseq (gots rs @ ys @ [e]) (puts ops @ [e])" for y ys
      using sub subseq_drop_mid [of "gots rs" y "ys @ [e]"] by simp
    have "conserved (ops @ [x]) (rs @ [fst (spec_step x s)]) (snd (spec_step x s)) old"
      using c sub sub2 sub3 OpPut Some
      by (cases "sItems s")
        (auto simp: conserved_def spec_step_def puts_def gots_def drained_def)
    then show ?thesis ..
  qed
next
  case OpDrain
  have b: "length (sLost s) mod Suc max64 = length (sLost s)"
    using conserved_lost_bound [OF c] len by simp
  let ?d = "(length (sLost s), lost_first (sLost s), lost_last (sLost s))"
  show ?thesis
  proof (cases "sLost s = []")
    case True
    with c OpDrain have "conserved (ops @ [x]) (rs @ [fst (spec_step x s)]) (snd (spec_step x s)) old"
      by (simp add: conserved_def spec_step_def puts_def gots_def drained_def)
    then show ?thesis ..
  next
    case False
    with c OpDrain b have "conserved (ops @ [x]) (rs @ [fst (spec_step x s)]) (snd (spec_step x s)) (old @ sLost s)"
      using reported_in_lost [of _ "sLost s" "drained rs" "length (sLost s)"]
        reported_in_mono [of "drained rs" _ "[?d]"]
      by (auto simp: conserved_def spec_step_def puts_def gots_def drained_def)
    then show ?thesis ..
  qed
next
  case OpTryGet
  with c have "conserved (ops @ [x]) (rs @ [fst (spec_step x s)]) (snd (spec_step x s)) old"
    by (cases "sItems s") (auto simp: conserved_def spec_step_def puts_def gots_def drained_def)
  then show ?thesis ..
next
  case OpClose
  with c have "conserved (ops @ [x]) (rs @ [fst (spec_step x s)]) (snd (spec_step x s)) old"
    by (simp add: conserved_def spec_step_def puts_def gots_def drained_def)
  then show ?thesis ..
next
  case OpLen
  with c have "conserved (ops @ [x]) (rs @ [fst (spec_step x s)]) (snd (spec_step x s)) old"
    by (simp add: conserved_def spec_step_def puts_def gots_def drained_def)
  then show ?thesis ..
qed

lemma conserved_run:
  "0 < c \<Longrightarrow> length ops \<le> max64 \<Longrightarrow>
     \<exists>old. conserved ops (fst (run spec_step ops (spec_init c))) (snd (run spec_step ops (spec_init c))) old"
proof (induction ops rule: rev_induct)
  case Nil
  then show ?case by (simp add: conserved_def spec_init_def puts_def gots_def drained_def)
next
  case (snoc x ops)
  then obtain old where
    "conserved ops (fst (run spec_step ops (spec_init c))) (snd (run spec_step ops (spec_init c))) old"
    by auto
  from conserved_step [OF this] snoc.prems show ?case
    by (simp add: run_append_fst run_append_snd case_prod_beta Let_def)
qed

lemma held_rel: "queue_rel q s \<Longrightarrow> held q = sItems s"
  by (simp add: held_def queue_rel_def comp_def)

subsection \<open>Parked consumers\<close>

lemma queue_step_signal:
  "qWaiters (snd (queue_step x q)) = qWaiters q"
  "qNotify q \<le> qNotify (snd (queue_step x q))"
  "0 < qN (snd (queue_step x q)) \<or> qClosed (snd (queue_step x q)) \<Longrightarrow>
     0 < qN q \<or> qClosed q \<or> qWaiters q = 0 \<or> qNotify q < qNotify (snd (queue_step x q))"
proof -
  have wake: "qNotify r \<le> qNotify (wakeLocked r)" "qWaiters r \<noteq> 0 \<Longrightarrow> qNotify r < qNotify (wakeLocked r)"
    for r by (auto simp: wakeLocked_def)
  show "qWaiters (snd (queue_step x q)) = qWaiters q"
    by (cases x) (auto simp: queue_step_def Put_def TryGet_def popLocked_def DrainOverflow_def
        Close_def queue_fields Let_def split: option.split)
  show "qNotify q \<le> qNotify (snd (queue_step x q))"
    by (cases x) (auto simp: queue_step_def Put_def TryGet_def popLocked_def DrainOverflow_def
        Close_def queue_fields Let_def wakeLocked_def split: option.split)
  show "0 < qN q \<or> qClosed q \<or> qWaiters q = 0 \<or> qNotify q < qNotify (snd (queue_step x q))"
    if "0 < qN (snd (queue_step x q)) \<or> qClosed (snd (queue_step x q))"
    using that
    by (cases x) (auto simp: queue_step_def Put_def TryGet_def popLocked_def DrainOverflow_def
        Close_def queue_fields Let_def wakeLocked_def split: option.splits if_splits)
qed

lemma queue_rel_signal: "queue_rel q s \<Longrightarrow> queue_rel (q\<lparr> qWaiters := w \<rparr>) s"
  using contents_cong [of "q\<lparr> qWaiters := w \<rparr>" q] by (simp add: queue_rel_def queue_inv_def)

lemma popLocked_signal:
  "qWaiters (snd (popLocked q)) = qWaiters q" "qNotify (snd (popLocked q)) = qNotify q"
  "qClosed (snd (popLocked q)) = qClosed q" "qN (snd (popLocked q)) = qN q - 1"
  by (auto simp: popLocked_def queue_fields Let_def)

lemma get_inv_unpark:
  assumes "get_inv g" "i < length (gWaiting g)"
  shows "get_inv (g\<lparr> gQueue := get_unpark (gQueue g),
                     gWaiting := take i (gWaiting g) @ drop (Suc i) (gWaiting g) \<rparr>)"
  using assms queue_rel_signal
  by (fastforce simp: get_inv_def get_unpark_def dest: in_set_takeD in_set_dropD)

lemma get_inv_pop:
  assumes "get_inv g" "popLocked (gQueue g) = (r, q)"
  shows "get_inv (g\<lparr> gQueue := q \<rparr>)"
proof -
  from assms(1) obtain s where "queue_rel (gQueue g) s" by (auto simp: get_inv_def)
  from popLocked_refines [OF this] assms(2) have "\<exists>s. queue_rel q s" by auto
  with assms popLocked_signal [of "gQueue g"] show ?thesis by (auto simp: get_inv_def)
qed

lemma get_inv_producer:
  assumes "get_inv g"
  shows "get_inv (g\<lparr> gQueue := snd (queue_step x (gQueue g)) \<rparr>)"
proof -
  let ?q = "gQueue g" and ?q1 = "snd (queue_step x (gQueue g))"
  from assms obtain s where "queue_rel ?q s" by (auto simp: get_inv_def)
  then have rel: "\<exists>s. queue_rel ?q1 s" using ring.step_related by blast
  have "c < qNotify ?q1" if "0 < qN ?q1 \<or> qClosed ?q1" "c \<in> set (gWaiting g)" for c
  proof -
    from that(2) assms have "qWaiters ?q \<noteq> 0" "c \<le> qNotify ?q" by (auto simp: get_inv_def)
    with queue_step_signal(3) [OF that(1)] queue_step_signal(2) [of ?q x] that(2) assms
    show ?thesis by (fastforce simp: get_inv_def)
  qed
  with assms rel queue_step_signal(1) [of x ?q] queue_step_signal(2) [of ?q x] show ?thesis
    by (auto simp: get_inv_def intro: order_trans)
qed

lemma get_step_inv: "get_step g h \<Longrightarrow> get_inv g \<Longrightarrow> get_inv h"
proof (induction rule: get_step.induct)
  case (producer g x)
  then show ?case by (rule get_inv_producer)
next
  case (poll_return g r q e)
  then obtain r' where "popLocked (gQueue g) = (r', q)"
    by (auto simp: get_poll_def split: prod.splits option.splits if_splits)
  with poll_return(3) show ?case by (rule get_inv_pop)
next
  case (poll_park g c q)
  let ?q = "gQueue g"
  from poll_park(1) have n: "fst (popLocked ?q) = None" "c = qNotify (snd (popLocked ?q))"
      "\<not> qClosed (snd (popLocked ?q))" "q = (snd (popLocked ?q))\<lparr> qWaiters := qWaiters (snd (popLocked ?q)) + 1 \<rparr>"
    by (auto simp: get_poll_def split: prod.splits option.splits if_splits)
  from poll_park(2) obtain s where rel: "queue_rel ?q s" by (auto simp: get_inv_def)
  from popLocked_refines [OF rel] n(1) have "sItems s = []"
    by (cases "sItems s") (auto simp: spec_step_def)
  with queue_rel_len [OF rel] have "qN ?q = 0" by simp
  then have "popLocked ?q = (None, ?q)" by (simp add: popLocked_def)
  with n \<open>qN ?q = 0\<close> poll_park(2) queue_rel_signal [OF rel] show ?case by (auto simp: get_inv_def)
next
  case (wake i g)
  then show ?case by (intro get_inv_unpark) auto
next
  case (cancel i g)
  then show ?case by (intro get_inv_unpark) auto
qed

lemma get_run_inv: "get_step\<^sup>*\<^sup>* (get_init c m) g \<Longrightarrow> get_inv g"
proof (induction rule: rtranclp_induct)
  case base
  show ?case using queue_rel_New [of c m] by (auto simp: get_inv_def get_init_def New_def)
next
  case (step g h)
  then show ?case by (blast intro: get_step_inv)
qed

subsection \<open>Properties\<close>

text \<open>
  C18: The ring buffer is a bounded drop-oldest list: for every capacity and every sequence of
  \<open>Put\<close>, \<open>TryGet\<close>, \<open>DrainOverflow\<close>, \<open>Close\<close> and \<open>Len\<close> calls the code returns exactly what the list
  specification returns, its overflow reports included.
\<close>

theorem queue_refines_list:
  "fst (run queue_step ops (New c m)) = fst (run spec_step ops (spec_init (Cap (New c m))))"
  by (rule ring.run_results [OF queue_rel_New])

text \<open>
  C17: No event disappears silently. After any sequence of calls, the events put are exactly the
  events handed out, the events still held and a collection of lost events; what was handed out
  and what is held are in the order they were put; the counts of the overflow reports (the
  drained ones and the one a drain would give now) add up to the number of lost events; and
  every lost event that carries a sequence number lies in the range of one of those reports.
\<close>

theorem queue_conservation:
  fixes c :: int and m :: "queue_metrics option"
  assumes "length ops \<le> max64"
  defines "rs \<equiv> fst (run queue_step ops (New c m))" and "q \<equiv> snd (run queue_step ops (New c m))"
  shows "\<exists>lost. mset (puts ops) = mset (gots rs) + mset (held q) + mset lost \<and>
           subseq (gots rs @ held q) (puts ops) \<and>
           sum_list (map fst (overflow_reports rs q)) = length lost \<and>
           (\<forall>e \<in> set lost. reported_in (overflow_reports rs q) e)"
proof -
  let ?ini = "spec_init (Cap (New c m))"
  let ?s = "snd (run spec_step ops ?ini)"
  have rel: "queue_rel q ?s" unfolding q_def by (rule ring.run_related [OF queue_rel_New])
  have rs: "rs = fst (run spec_step ops ?ini)" unfolding rs_def by (rule ring.run_results [OF queue_rel_New])
  have "0 < Cap (New c m)" by (simp add: Cap_def New_def defaultCapacity_def)
  from conserved_run [OF this assms(1)] obtain old where c: "conserved ops rs ?s old"
    unfolding rs by blast
  have "length (sLost ?s) \<le> max64" using conserved_lost_bound [OF c] assms(1) by simp
  with rel have rep: "overflow_reports rs q = drained rs @
      (if sLost ?s = [] then [] else [(length (sLost ?s), lost_first (sLost ?s), lost_last (sLost ?s))])"
    by (simp add: overflow_reports_def DrainOverflow_def queue_rel_def)
  have "\<forall>e \<in> set (old @ sLost ?s). reported_in (overflow_reports rs q) e"
    using c reported_in_lost [of _ "sLost ?s" "drained rs"]
    by (auto simp: rep conserved_def intro: reported_in_mono)
  with c rep held_rel [OF rel] show ?thesis
    by (intro exI [of _ "old @ sLost ?s"]) (auto simp: conserved_def)
qed

text \<open>A queue of two events given three and drained: the first is lost and reported as such.\<close>

definition ev_at :: "nat \<Rightarrow> event" where
  "ev_at n = zero_event\<lparr> Sequence := n \<rparr>"

theorem queue_conservation_witness:
  "let ops = [OpPut (Some (ev_at 1)), OpPut (Some (ev_at 2)), OpPut (Some (ev_at 3)), OpTryGet, OpDrain];
       rs = fst (run queue_step ops (New 2 None)); q = snd (run queue_step ops (New 2 None))
   in overflow_reports rs q = [(1, 1, 1)] \<and> gots rs = [ev_at 2] \<and> held q = [ev_at 3] \<and>
      (\<exists>lost. mset (puts ops) = mset (gots rs) + mset (held q) + mset lost \<and> length lost = 1)"
proof -
  let ?ops = "[OpPut (Some (ev_at 1)), OpPut (Some (ev_at 2)), OpPut (Some (ev_at 3)), OpTryGet, OpDrain]"
  have "length ?ops \<le> max64" by (simp add: max64_def)
  note c = queue_conservation [OF this, of 2 None]
  have r: "run queue_step ?ops (New 2 None) =
      ([RPut 0, RPut 0, RPut 1, RGet (Some (ev_at 2)), RDrain (Some (1, 1, 1))],
       \<lparr> qBuf = [Some (ev_at 3), None], qHead = 0, qN = 1, qClosed = False, qNotify = 0, qWaiters = 0,
         qDropped = 0, qFirstMissing = 0, qLastMissing = 0, qMetrics = None \<rparr>)"
    by (simp add: queue_step_def Put_def TryGet_def popLocked_def DrainOverflow_def New_def
        recordDropLocked_def wakeLocked_def updateDepthLocked_def inc64_def max64_def ev_at_def
        numeral_2_eq_2)
  show ?thesis using c
    unfolding r Let_def
    by (auto simp: overflow_reports_def drained_def gots_def held_def contents_def DrainOverflow_def)
qed

text \<open>
  C19: No wake-up is lost. Whatever the interleaving of producers, consumers and cancellations,
  whenever the queue holds an event or has been closed, every consumer parked in \<open>Get\<close> waits on
  a channel that has already been closed, so it can run on and look at the queue again; and
  the waiter count the producers consult is the number of consumers in the wait.
\<close>

theorem get_no_lost_wakeup:
  assumes "get_step\<^sup>*\<^sup>* (get_init c m) g" "0 < qN (gQueue g) \<or> qClosed (gQueue g)"
    "i < length (gWaiting g)"
  shows "gWaiting g ! i < qNotify (gQueue g) \<and> qWaiters (gQueue g) = length (gWaiting g) \<and>
         get_step g (g\<lparr> gQueue := get_unpark (gQueue g),
                        gWaiting := take i (gWaiting g) @ drop (Suc i) (gWaiting g) \<rparr>)"
  using get_run_inv [OF assms(1)] assms(2,3) by (auto simp: get_inv_def intro: get_step.wake)

text \<open>A consumer parks on an empty queue, then a producer puts an event.\<close>

theorem get_no_lost_wakeup_witness:
  "\<exists>g. get_step\<^sup>*\<^sup>* (get_init 4 None) g \<and> 0 < qN (gQueue g) \<and> gWaiting g = [0] \<and>
       0 < qNotify (gQueue g) \<and> qWaiters (gQueue g) = 1"
proof -
  let ?q0 = "New 4 None"
  let ?g1 = "\<lparr> gQueue = ?q0\<lparr> qWaiters := 1 \<rparr>, gWaiting = [0] \<rparr>"
  let ?g2 = "?g1\<lparr> gQueue := snd (queue_step (OpPut (Some (ev_at 1))) (gQueue ?g1)) \<rparr>"
  have "get_step (get_init 4 None) ?g1"
    using poll_park [of "get_init 4 None" 0 "?q0\<lparr> qWaiters := 1 \<rparr>"]
    by (simp add: get_init_def get_poll_def popLocked_def New_def)
  moreover have "get_step ?g1 ?g2" by (rule producer)
  ultimately have run: "get_step\<^sup>*\<^sup>* (get_init 4 None) ?g2" by auto
  have n: "0 < qN (gQueue ?g2)"
    by (simp add: queue_step_def Put_def New_def queue_fields)
  have "0 < length (gWaiting ?g2)" by simp
  from get_no_lost_wakeup [OF run _ this] n run show ?thesis by (intro exI [of _ ?g2]) simp
qed

end
