(* ===== verification/Write_Gates.thy ===== *)
theory Write_Gates
  imports Prelude
begin

section \<open>Output write gates\<close>

text \<open>
  \<^verbatim>\<open>SauronAgent/internal/host/stream_write.go\<close>: the collector serializes the acceptance of events
  per peer and per VM without holding the table's mutex during output. A gate is a channel with
  one slot (\<open>token\<close>: is it full?) and a count of the sessions that hold it or wait for it; a gate
  nobody references is removed from the table. Go pointers to gates are numbers: a session keeps
  the gate it referenced even if the table later gets a new gate under the same key.

  A session runs \<open>lockEventWrite\<close>, writes, and unlocks. Its steps are those at which other
  sessions can interfere: the two critical sections on the table (\<open>lockWrite_enter\<close> and
  \<open>releaseWrite\<close>), sending to and receiving from the token channel, and giving up when the
  context ends. \<open>gate_step\<close> interleaves the steps of any number of sessions.
\<close>

record streamWriteGate =
  token :: bool
  refs :: int

record gate_table =
  nextGate :: nat
  writes :: "(string \<times> nat) list"
  gates :: "nat \<Rightarrow> streamWriteGate"

definition gate_table_init :: gate_table where
  "gate_table_init = \<lparr> nextGate = 0, writes = [], gates = (\<lambda>_. \<lparr> token = False, refs = 0 \<rparr>) \<rparr>"

text \<open>The first critical section of \<open>lockWrite\<close>: find or create the gate and reference it.\<close>

definition lockWrite_enter :: "string \<Rightarrow> gate_table \<Rightarrow> nat \<times> gate_table" where
  "lockWrite_enter key t =
     (let (g, t1) = (case map_of (writes t) key of
            Some g \<Rightarrow> (g, t)
          | None \<Rightarrow> (nextGate t, t\<lparr> nextGate := Suc (nextGate t), writes := AList.update key (nextGate t) (writes t),
              gates := (gates t)(nextGate t := \<lparr> token = False, refs = 0 \<rparr>) \<rparr>))
      in (g, t1\<lparr> gates := (gates t1)(g := (gates t1 g)\<lparr> refs := refs (gates t1 g) + 1 \<rparr>) \<rparr>))"

definition releaseWrite :: "string \<Rightarrow> nat \<Rightarrow> gate_table \<Rightarrow> gate_table" where
  "releaseWrite key g t =
     (let t1 = t\<lparr> gates := (gates t)(g := (gates t g)\<lparr> refs := refs (gates t g) - 1 \<rparr>) \<rparr> in
      if refs (gates t1 g) = 0 then t1\<lparr> writes := AList.delete key (writes t1) \<rparr> else t1)"

definition set_token :: "nat \<Rightarrow> bool \<Rightarrow> gate_table \<Rightarrow> gate_table" where
  "set_token g b t = t\<lparr> gates := (gates t)(g := (gates t g)\<lparr> token := b \<rparr>) \<rparr>"

text \<open>The keys \<open>lockEventWrite\<close> acquires, in order.\<close>

definition gate_keys :: "string \<Rightarrow> bool \<Rightarrow> string \<Rightarrow> string list" where
  "gate_keys bucket known uuid =
     (''peer:'' @ bucket) # (if \<not> known \<or> uuid = [] then [] else [''uuid:'' @ uuid])"

text \<open>
  Where a session stands: the gates it holds (latest first), the gate it waits for, the keys it
  has yet to lock. \<open>Writing\<close> is the part of \<open>handleEvent\<close> between \<open>lockEventWrite\<close> and \<open>unlock\<close>.
\<close>

type_synonym held = "(string \<times> nat) list"

datatype writer =
    Idle
  | Locking held "string list"
  | Waiting held string nat "string list"
  | Writing held
  | Unwinding held
  | Dropping string nat held

fun refs_of :: "writer \<Rightarrow> held" where
  "refs_of Idle = []"
| "refs_of (Locking hs ks) = hs"
| "refs_of (Waiting hs k g ks) = (k, g) # hs"
| "refs_of (Writing hs) = hs"
| "refs_of (Unwinding hs) = hs"
| "refs_of (Dropping k g hs) = (k, g) # hs"

fun tokens_of :: "writer \<Rightarrow> held" where
  "tokens_of Idle = []"
| "tokens_of (Locking hs ks) = hs"
| "tokens_of (Waiting hs k g ks) = hs"
| "tokens_of (Writing hs) = hs"
| "tokens_of (Unwinding hs) = hs"
| "tokens_of (Dropping k g hs) = hs"

text \<open>One step of one session; the last argument is the table before and after.\<close>

inductive writer_step :: "bool \<Rightarrow> writer \<Rightarrow> gate_table \<Rightarrow> writer \<Rightarrow> gate_table \<Rightarrow> bool" where
  start: "writer_step True Idle t (Locking [] (gate_keys bucket known uuid)) t"
| enter: "lockWrite_enter k t = (g, t') \<Longrightarrow> writer_step False (Locking hs (k # ks)) t (Waiting hs k g ks) t'"
| expired: "writer_step True (Locking hs (k # ks)) t (Unwinding hs) t"
| locked: "writer_step False (Locking hs []) t (Writing hs) t"
| acquire: "\<not> token (gates t g) \<Longrightarrow>
    writer_step False (Waiting hs k g ks) t (Locking ((k, g) # hs) ks) (set_token g True t)"
| cancel: "writer_step True (Waiting hs k g ks) t (Unwinding hs) (releaseWrite k g t)"
| written: "writer_step False (Writing hs) t (Unwinding hs) t"
| receive: "token (gates t g) \<Longrightarrow>
    writer_step False (Unwinding ((k, g) # hs)) t (Dropping k g hs) (set_token g False t)"
| drop: "writer_step False (Dropping k g hs) t (Unwinding hs) (releaseWrite k g t)"
| finished: "writer_step False (Unwinding []) t Idle t"

record gate_state =
  table :: gate_table
  writers :: "writer list"

text \<open>The flag of a step tells the external choices (a new event, an expired context) apart.\<close>

inductive gate_step :: "bool \<Rightarrow> gate_state \<Rightarrow> gate_state \<Rightarrow> bool" where
  "i < length (writers s) \<Longrightarrow> writer_step x (writers s ! i) (table s) w t \<Longrightarrow>
     gate_step x s \<lparr> table = t, writers = (writers s)[i := w] \<rparr>"

inductive gates_reachable :: "nat \<Rightarrow> gate_state \<Rightarrow> bool" for n :: nat where
  init: "gates_reachable n \<lparr> table = gate_table_init, writers = replicate n Idle \<rparr>"
| step: "gates_reachable n s \<Longrightarrow> gate_step x s s' \<Longrightarrow> gates_reachable n s'"

subsection \<open>The invariant\<close>

definition occurs :: "nat \<Rightarrow> held \<Rightarrow> int" where
  "occurs g hs = int (length (filter (\<lambda>h. snd h = g) hs))"

definition holders :: "(writer \<Rightarrow> held) \<Rightarrow> nat \<Rightarrow> writer list \<Rightarrow> int" where
  "holders f g ws = sum_list (map (\<lambda>w. occurs g (f w)) ws)"

fun keys_of :: "writer \<Rightarrow> string list" where
  "keys_of (Locking hs ks) = rev (map fst hs) @ ks"
| "keys_of (Waiting hs k g ks) = rev (map fst hs) @ k # ks"
| "keys_of (Writing hs) = rev (map fst hs)"
| "keys_of w = []"

fun acquiring :: "writer \<Rightarrow> bool" where
  "acquiring (Locking hs ks) = True"
| "acquiring (Waiting hs k g ks) = True"
| "acquiring (Writing hs) = True"
| "acquiring w = False"

definition well_keyed :: "writer \<Rightarrow> bool" where
  "well_keyed w \<longleftrightarrow> (acquiring w \<longrightarrow> (\<exists>b kn u. keys_of w = gate_keys b kn u)) \<and> length (refs_of w) \<le> 2"

definition gate_inv :: "gate_state \<Rightarrow> bool" where
  "gate_inv s \<longleftrightarrow>
     (\<forall>g. holders refs_of g (writers s) = refs (gates (table s) g)) \<and>
     (\<forall>g. holders tokens_of g (writers s) = (if token (gates (table s) g) then 1 else 0)) \<and>
     (\<forall>w \<in> set (writers s). \<forall>(k, g) \<in> set (refs_of w). map_of (writes (table s)) k = Some g) \<and>
     (\<forall>k g. map_of (writes (table s)) k = Some g \<longrightarrow> g < nextGate (table s) \<and> 0 < refs (gates (table s) g)) \<and>
     (\<forall>k k' g. map_of (writes (table s)) k = Some g \<longrightarrow> map_of (writes (table s)) k' = Some g \<longrightarrow> k = k') \<and>
     (\<forall>g \<ge> nextGate (table s). gates (table s) g = \<lparr> token = False, refs = 0 \<rparr>) \<and>
     (\<forall>w \<in> set (writers s). well_keyed w)"

lemma occurs_simps [simp]:
  "occurs g [] = 0" "occurs g ((k, g') # hs) = (if g' = g then 1 else 0) + occurs g hs" "0 \<le> occurs g hs"
  by (simp_all add: occurs_def)

lemma holders_update:
  "i < length ws \<Longrightarrow> holders f g (ws[i := w]) = holders f g ws + occurs g (f w) - occurs g (f (ws ! i))"
proof (induction ws arbitrary: i)
  case (Cons w' ws)
  then show ?case by (cases i) (simp_all add: holders_def)
qed simp

lemma holders_member:
  assumes "i < length ws"
  shows "occurs g (f (ws ! i)) \<le> holders f g ws"
proof -
  have "0 \<le> sum_list (map (\<lambda>w. occurs g (f w)) ws)" for ws by (induction ws) auto
  with assms show ?thesis
  proof (induction ws arbitrary: i)
    case (Cons w ws)
    then show ?case by (cases i) (auto simp: holders_def add_increasing)
  qed simp
qed

lemma holders_pos:
  assumes "0 < holders f g ws"
  obtains i where "i < length ws" "0 < occurs g (f (ws ! i))"
proof -
  have "\<exists>i < length ws. 0 < occurs g (f (ws ! i))"
    using assms
  proof (induction ws)
    case (Cons w ws)
    show ?case
    proof (cases "0 < occurs g (f w)")
      case True
      then show ?thesis by (intro exI [of _ 0]) simp
    next
      case False
      then have "occurs g (f w) = 0" using occurs_simps(3) [of g "f w"] by linarith
      with Cons show ?thesis by (auto simp: holders_def)
    qed
  qed (simp add: holders_def)
  then show thesis using that by blast
qed

lemma occurs_pos: "0 < occurs g hs \<longleftrightarrow> (\<exists>k. (k, g) \<in> set hs)"
  by (induction hs) (auto simp: occurs_def)


lemma occurs_member: "(k, g) \<in> set hs \<Longrightarrow> 0 < occurs g hs"
  using occurs_pos by blast

text \<open>The frame rule: one session moves, the counters follow.\<close>

lemma inv_update:
  fixes s :: gate_state
  assumes inv: "gate_inv s" and i: "i < length (writers s)"
    and rf: "\<And>g. refs (gates t g) = refs (gates (table s) g) + occurs g (refs_of w) - occurs g (refs_of (writers s ! i))"
    and tk: "\<And>g. (if token (gates t g) then 1 else 0 :: int) =
      (if token (gates (table s) g) then 1 else 0) + occurs g (tokens_of w) - occurs g (tokens_of (writers s ! i))"
    and keep: "\<And>k g. map_of (writes (table s)) k = Some g \<Longrightarrow> 0 < refs (gates t g) \<Longrightarrow> map_of (writes t) k = Some g"
    and new: "\<And>k g. (k, g) \<in> set (refs_of w) \<Longrightarrow> map_of (writes t) k = Some g"
    and live: "\<And>k g. map_of (writes t) k = Some g \<Longrightarrow> g < nextGate t \<and> 0 < refs (gates t g)"
    and inj: "\<And>k k' g. map_of (writes t) k = Some g \<Longrightarrow> map_of (writes t) k' = Some g \<Longrightarrow> k = k'"
    and fresh: "\<And>g. nextGate t \<le> g \<Longrightarrow> gates t g = \<lparr> token = False, refs = 0 \<rparr>"
    and keys: "well_keyed w"
  shows "gate_inv \<lparr> table = t, writers = (writers s)[i := w] \<rparr>"
proof -
  let ?ws = "(writers s)[i := w]"
  have 1: "holders refs_of g ?ws = refs (gates t g)" for g
    using inv i rf by (simp add: gate_inv_def holders_update)
  have 2: "holders tokens_of g ?ws = (if token (gates t g) then 1 else 0)" for g
    using inv i tk by (simp add: gate_inv_def holders_update)
  have 3: "map_of (writes t) k = Some g" if "j < length ?ws" "(k, g) \<in> set (refs_of (?ws ! j))" for j k g
  proof (cases "j = i")
    case True
    then show ?thesis using new that by simp
  next
    case False
    have "0 < refs (gates t g)"
      using occurs_member [OF that(2)] holders_member [OF that(1), of g refs_of] by (simp add: 1)
    moreover have "writers s ! j \<in> set (writers s)" "(k, g) \<in> set (refs_of (writers s ! j))" using that False by auto
    then have "map_of (writes (table s)) k = Some g" using inv unfolding gate_inv_def by blast
    ultimately show ?thesis using keep by blast
  qed
  have 4: "well_keyed w'" if "w' \<in> set ?ws" for w'
    using that keys inv set_update_subset_insert [of "writers s" i w] unfolding gate_inv_def by blast
  have 5: "map_of (writes t) k = Some g" if "w' \<in> set ?ws" "(k, g) \<in> set (refs_of w')" for w' k g
    using 3 that by (metis in_set_conv_nth)
  show ?thesis
    using 1 2 5 4 live inj fresh unfolding gate_inv_def by auto
qed

lemma inv_init: "gate_inv \<lparr> table = gate_table_init, writers = replicate n Idle \<rparr>"
  by (auto simp: gate_inv_def gate_table_init_def holders_def sum_list_replicate well_keyed_def)

lemma enter_cases:
  assumes "lockWrite_enter k t = (g, t')"
  obtains (found) "map_of (writes t) k = Some g" "t' = t\<lparr> gates := (gates t)(g := (gates t g)\<lparr> refs := refs (gates t g) + 1 \<rparr>) \<rparr>"
  | (created) "map_of (writes t) k = None" "g = nextGate t"
      "t' = t\<lparr> nextGate := Suc g, writes := AList.update k g (writes t), gates := (gates t)(g := \<lparr> token = False, refs = 1 \<rparr>) \<rparr>"
  using assms by (cases "map_of (writes t) k") (auto simp: lockWrite_enter_def Let_def)

lemma inv_enter:
  assumes inv: "gate_inv s" and i: "i < length (writers s)" and w: "writers s ! i = Locking hs (k # ks)"
    and e: "lockWrite_enter k (table s) = (g, t)"
  shows "gate_inv \<lparr> table = t, writers = (writers s)[i := Waiting hs k g ks] \<rparr>"
proof -
  let ?t = "table s"
  have mem: "writers s ! i \<in> set (writers s)" using i by simp
  have keys: "well_keyed (Waiting hs k g ks)"
  proof -
    have "well_keyed (Locking hs (k # ks))" using inv mem w unfolding gate_inv_def by metis
    then obtain b kn u where "rev (map fst hs) @ k # ks = gate_keys b kn u" by (auto simp: well_keyed_def)
    moreover from this have "length (rev (map fst hs) @ k # ks) \<le> 2" by (simp add: gate_keys_def)
    then have "length hs + 1 \<le> 2" by simp
    ultimately show ?thesis by (auto simp: well_keyed_def)
  qed
  have hs: "map_of (writes ?t) k' = Some g'" if "(k', g') \<in> set hs" for k' g'
    using inv mem that unfolding gate_inv_def w [symmetric] by (fastforce simp: w)
  have live: "g' < nextGate ?t \<and> 0 < refs (gates ?t g')" if "map_of (writes ?t) k' = Some g'" for k' g'
    using inv that unfolding gate_inv_def by blast
  have inj: "k1 = k2" if "map_of (writes ?t) k1 = Some g'" "map_of (writes ?t) k2 = Some g'" for k1 k2 g'
    using inv that unfolding gate_inv_def by blast
  have fresh: "gates ?t g' = \<lparr> token = False, refs = 0 \<rparr>" if "nextGate ?t \<le> g'" for g'
    using inv that unfolding gate_inv_def by blast
  from e show ?thesis
  proof (cases rule: enter_cases)
    case found
    show ?thesis
    proof (rule inv_update [OF inv i _ _ _ _ _ _ _ keys])
      show "g' < nextGate t \<and> 0 < refs (gates t g')" if "map_of (writes t) k' = Some g'" for k' g'
        using live [of k' g'] that found(2) by auto
      show "gates t g' = \<lparr> token = False, refs = 0 \<rparr>" if "nextGate t \<le> g'" for g'
        using fresh [of g'] live [OF found(1)] that found(2) by auto
      show "k1 = k2" if "map_of (writes t) k1 = Some g'" "map_of (writes t) k2 = Some g'" for k1 k2 g'
        using inj that found(2) by simp
      show "map_of (writes t) k' = Some g'" if "(k', g') \<in> set (refs_of (Waiting hs k g ks))" for k' g'
        using hs that found by auto
    qed (simp_all add: found(2) w)
  next
    case created
    note f = fresh [of g, unfolded created(2), OF order_refl]
    show ?thesis
    proof (rule inv_update [OF inv i _ _ _ _ _ _ _ keys])
      show "g' < nextGate t \<and> 0 < refs (gates t g')" if "map_of (writes t) k' = Some g'" for k' g'
        using live that created by (fastforce simp: update_conv' split: if_splits)
      show "gates t g' = \<lparr> token = False, refs = 0 \<rparr>" if "nextGate t \<le> g'" for g'
        using fresh [of g'] that created by auto
      show "k1 = k2" if "map_of (writes t) k1 = Some g'" "map_of (writes t) k2 = Some g'" for k1 k2 g'
        using inj that live created by (fastforce simp: update_conv' split: if_splits)
      show "map_of (writes t) k' = Some g'" if "(k', g') \<in> set (refs_of (Waiting hs k g ks))" for k' g'
        using hs that created by (auto simp: update_conv')
      show "map_of (writes t) k' = Some g'" if "map_of (writes ?t) k' = Some g'" for k' g'
        using that created by (auto simp: update_conv')
      show "refs (gates t g') = refs (gates ?t g') + occurs g' (refs_of (Waiting hs k g ks)) - occurs g' (refs_of (writers s ! i))" for g'
        using f created by (auto simp: w)
      show "(if token (gates t g') then 1 else 0 :: int) =
          (if token (gates ?t g') then 1 else 0) + occurs g' (tokens_of (Waiting hs k g ks)) - occurs g' (tokens_of (writers s ! i))" for g'
        using f created by (auto simp: w)
    qed
  qed
qed


lemma inv_refs:
  assumes "gate_inv s" "i < length (writers s)" "(k, g) \<in> set (refs_of (writers s ! i))"
  shows "map_of (writes (table s)) k = Some g" "0 < refs (gates (table s) g)"
proof -
  have "writers s ! i \<in> set (writers s)" using assms(2) by simp
  with assms show "map_of (writes (table s)) k = Some g" unfolding gate_inv_def by blast
  with assms(1) show "0 < refs (gates (table s) g)" unfolding gate_inv_def by blast
qed

lemma inv_facts:
  assumes "gate_inv s"
  shows "map_of (writes (table s)) k = Some g \<Longrightarrow> g < nextGate (table s) \<and> 0 < refs (gates (table s) g)"
    "map_of (writes (table s)) k = Some g \<Longrightarrow> map_of (writes (table s)) k' = Some g \<Longrightarrow> k = k'"
    "nextGate (table s) \<le> g \<Longrightarrow> gates (table s) g = \<lparr> token = False, refs = 0 \<rparr>"
  using assms unfolding gate_inv_def by blast+

lemma inv_release:
  assumes inv: "gate_inv s" and i: "i < length (writers s)"
    and w: "refs_of (writers s ! i) = (k, g) # refs_of w" "tokens_of w = tokens_of (writers s ! i)" "\<not> acquiring w"
  shows "gate_inv \<lparr> table = releaseWrite k g (table s), writers = (writers s)[i := w] \<rparr>"
proof -
  let ?t = "table s" and ?t' = "releaseWrite k g (table s)"
  have kg: "map_of (writes ?t) k = Some g" using inv_refs(1) [OF inv i] w(1) by simp
  note f = inv_facts [OF inv]
  have rf: "refs (gates ?t' g') = refs (gates ?t g') - (if g' = g then 1 else 0)"
    "token (gates ?t' g') = token (gates ?t g')" "nextGate ?t' = nextGate ?t" for g'
    by (simp_all add: releaseWrite_def Let_def)
  have m: "map_of (writes ?t') k' = (if k' = k \<and> refs (gates ?t g) = 1 then None else map_of (writes ?t) k')" for k'
    by (simp add: releaseWrite_def Let_def delete_conv')
  show ?thesis
  proof (rule inv_update [OF inv i])
    show "map_of (writes ?t') k' = Some g'" if "map_of (writes ?t) k' = Some g'" "0 < refs (gates ?t' g')" for k' g'
      using that kg by (auto simp: m rf(1))
    show "map_of (writes ?t') k' = Some g'" if e: "(k', g') \<in> set (refs_of w)" for k' g'
    proof -
      have "map_of (writes ?t) k' = Some g'" using inv_refs(1) [OF inv i] w(1) e by simp
      moreover have "refs (gates ?t g) \<noteq> 1" if "k' = k"
      proof -
        have "2 \<le> occurs g (refs_of (writers s ! i))"
          using occurs_member [OF e] calculation that kg by (simp add: w(1))
        also have "\<dots> \<le> refs (gates ?t g)" using inv holders_member [OF i, of g refs_of] unfolding gate_inv_def by simp
        finally show ?thesis by simp
      qed
      ultimately show ?thesis by (auto simp: m)
    qed
    show "g' < nextGate ?t' \<and> 0 < refs (gates ?t' g')" if "map_of (writes ?t') k' = Some g'" for k' g'
    proof -
      have old: "map_of (writes ?t) k' = Some g'" using that by (simp add: m split: if_splits)
      have "refs (gates ?t g) \<noteq> 1" if "g' = g"
        using f(2) [OF old [unfolded that] kg] \<open>map_of (writes ?t') k' = Some g'\<close> by (auto simp: m)
      with f(1) [OF old] show ?thesis by (auto simp: rf)
    qed
    show "k1 = k2" if "map_of (writes ?t') k1 = Some g'" "map_of (writes ?t') k2 = Some g'" for k1 k2 g'
      using that f(2) [of k1 g' k2] by (simp add: m split: if_splits)
    show "gates ?t' g' = \<lparr> token = False, refs = 0 \<rparr>" if "nextGate ?t' \<le> g'" for g'
      using f(3) [of g'] f(1) [OF kg] that [unfolded rf(3)] by (auto simp: releaseWrite_def Let_def)
    have "well_keyed (writers s ! i)" using inv i unfolding gate_inv_def by simp
    then show "well_keyed w" by (simp add: well_keyed_def w)
  qed (simp_all add: rf w)
qed

lemma inv_token:
  assumes inv: "gate_inv s" and i: "i < length (writers s)" and w: "refs_of w = refs_of (writers s ! i)"
    and k: "(k, g) \<in> set (refs_of w)" and b: "token (gates (table s) g) \<noteq> b"
    and tk: "\<And>g'. occurs g' (tokens_of w) = occurs g' (tokens_of (writers s ! i)) + (if g' = g then (if b then 1 else -1) else 0)"
    and keys: "acquiring w \<Longrightarrow> acquiring (writers s ! i) \<and> keys_of w = keys_of (writers s ! i)"
  shows "gate_inv \<lparr> table = set_token g b (table s), writers = (writers s)[i := w] \<rparr>"
proof -
  let ?t = "table s" and ?t' = "set_token g b (table s)"
  note f = inv_facts [OF inv]
  have kg: "map_of (writes ?t) k = Some g" using inv_refs(1) [OF inv i] w k by simp
  have mem: "writers s ! i \<in> set (writers s)" using i by simp
  then have "well_keyed (writers s ! i)" using inv unfolding gate_inv_def by blast
  with keys have keys': "well_keyed w" unfolding well_keyed_def w by metis
  have [simp]: "writes ?t' = writes ?t" "nextGate ?t' = nextGate ?t" "refs (gates ?t' g') = refs (gates ?t g')" for g'
    by (simp_all add: set_token_def)
  show ?thesis
  proof (rule inv_update [OF inv i _ _ _ _ _ _ _ keys'])
    show "gates ?t' g' = \<lparr> token = False, refs = 0 \<rparr>" if "nextGate ?t' \<le> g'" for g'
      using f(3) [of g'] f(1) [OF kg] that by (auto simp: set_token_def)
    show "(if token (gates ?t' g') then 1 else 0 :: int) =
        (if token (gates ?t g') then 1 else 0) + occurs g' (tokens_of w) - occurs g' (tokens_of (writers s ! i))" for g'
      using b by (auto simp: tk set_token_def)
  qed (use f inv_refs(1) [OF inv i] in \<open>auto simp: w\<close>)
qed

lemma inv_same:
  assumes inv: "gate_inv s" and i: "i < length (writers s)"
    and w: "refs_of w = refs_of (writers s ! i)" "tokens_of w = tokens_of (writers s ! i)"
    and keys: "acquiring w \<Longrightarrow> acquiring (writers s ! i) \<and> keys_of w = keys_of (writers s ! i) \<or>
      (\<exists>b kn u. keys_of w = gate_keys b kn u)"
  shows "gate_inv \<lparr> table = table s, writers = (writers s)[i := w] \<rparr>"
proof -
  have "well_keyed (writers s ! i)" using inv i unfolding gate_inv_def by simp
  with keys have "well_keyed w" unfolding well_keyed_def w by metis
  from inv_update [OF inv i _ _ _ _ _ _ _ this] show ?thesis
    using inv_facts [OF inv] inv_refs(1) [OF inv i] by (simp add: w)
qed

lemma gate_step_inv: "gate_step x s s' \<Longrightarrow> gate_inv s \<Longrightarrow> gate_inv s'"
proof (induction rule: gate_step.induct)
  case (1 i s x w t)
  note i = 1(1) and inv = 1(3)
  from 1(2) show ?case
  proof cases
    case (start bucket known uuid)
    then show ?thesis using inv_same [OF inv i, of w] by auto
  next
    case (enter k g hs ks)
    then show ?thesis using inv_enter [OF inv i] by simp
  next
    case (expired hs k ks)
    then show ?thesis using inv_same [OF inv i, of w] by simp
  next
    case (locked hs)
    then show ?thesis using inv_same [OF inv i, of w] by simp
  next
    case (acquire g hs k ks)
    then show ?thesis using inv_token [OF inv i, of w k g True] by simp
  next
    case (cancel hs k g ks)
    then show ?thesis using inv_release [OF inv i, of k g w] by simp
  next
    case (written hs)
    then show ?thesis using inv_same [OF inv i, of w] by simp
  next
    case (receive g k hs)
    then show ?thesis using inv_token [OF inv i, of w k g False] by simp
  next
    case (drop k g hs)
    then show ?thesis using inv_release [OF inv i, of k g w] by simp
  next
    case finished
    then show ?thesis using inv_same [OF inv i, of w] by simp
  qed
qed

lemma gates_reachable_inv: "gates_reachable n s \<Longrightarrow> gate_inv s"
  by (induction rule: gates_reachable.induct) (auto simp: inv_init gate_step_inv)


lemma token_exclusive:
  assumes inv: "gate_inv s" and ij: "i < length (writers s)" "j < length (writers s)" "i \<noteq> j"
    and k: "(k, g) \<in> set (tokens_of (writers s ! i))" "(k', g) \<in> set (tokens_of (writers s ! j))"
  shows False
proof -
  let ?ws = "(writers s)[i := Idle]"
  have "occurs g (tokens_of (?ws ! j)) \<le> holders tokens_of g ?ws" using ij by (intro holders_member) simp
  then have "occurs g (tokens_of (writers s ! j)) + occurs g (tokens_of (writers s ! i)) \<le> holders tokens_of g (writers s)"
    using ij by (simp add: holders_update)
  also have "\<dots> \<le> 1" using inv unfolding gate_inv_def by simp
  finally show False using occurs_member [OF k(1)] occurs_member [OF k(2)] by linarith
qed

lemma tokens_refs: "set (tokens_of w) \<subseteq> set (refs_of w)"
  by (cases w) auto

subsection \<open>Properties\<close>

text \<open>
  C29: Event acceptance is serialized. Two sessions between \<open>lockEventWrite\<close> and \<open>unlock\<close> at the same
  time have different peers and, where both are known VMs with a UUID, different UUIDs: concurrent
  copies of an event cannot both be written before either commits.
\<close>

theorem write_exclusive:
  assumes "gates_reachable n s" "i < length (writers s)" "j < length (writers s)" "i \<noteq> j"
    "writers s ! i = Writing hs" "writers s ! j = Writing hs'"
  shows "\<exists>b kn u b' kn' u'. map fst hs = rev (gate_keys b kn u) \<and> map fst hs' = rev (gate_keys b' kn' u') \<and>
    b \<noteq> b' \<and> (kn \<and> u \<noteq> [] \<and> kn' \<and> u' \<noteq> [] \<longrightarrow> u \<noteq> u')"
proof -
  have inv: "gate_inv s" by (rule gates_reachable_inv [OF assms(1)])
  have "well_keyed (writers s ! i)" "well_keyed (writers s ! j)"
    using inv assms(2,3) unfolding gate_inv_def by simp_all
  then obtain b kn u b' kn' u' where k: "rev (map fst hs) = gate_keys b kn u" "rev (map fst hs') = gate_keys b' kn' u'"
    unfolding assms(5,6) well_keyed_def by auto
  have disj: "x \<notin> set (gate_keys b' kn' u')" if x: "x \<in> set (gate_keys b kn u)" for x
  proof
    assume "x \<in> set (gate_keys b' kn' u')"
    then obtain g g' where g: "(x, g) \<in> set hs" "(x, g') \<in> set hs'"
      using x unfolding k [symmetric] by auto
    have "map_of (writes (table s)) x = Some g" by (rule inv_refs(1) [OF inv assms(2)]) (simp add: assms(5) g)
    moreover have "map_of (writes (table s)) x = Some g'" by (rule inv_refs(1) [OF inv assms(3)]) (simp add: assms(6) g)
    ultimately have "g' = g" by simp
    then show False using token_exclusive [OF inv assms(2-4), of x g x] g assms(5,6) by simp
  qed
  have "b \<noteq> b'" using disj [of "''peer:'' @ b"] by (auto simp: gate_keys_def)
  moreover have "u \<noteq> u'" if "kn \<and> u \<noteq> [] \<and> kn' \<and> u' \<noteq> []"
    using disj [of "''uuid:'' @ u"] that by (auto simp: gate_keys_def)
  moreover have "map fst hs = rev (gate_keys b kn u)" "map fst hs' = rev (gate_keys b' kn' u')"
    using k by (metis rev_rev_ident)+
  ultimately show ?thesis by blast
qed

text \<open>
  C30: The gates cannot deadlock. As long as some session is inside \<open>lockEventWrite\<close>, a write or an
  unlock, some session can take a step that is not giving up: every session locks its peer before its
  UUID, so a session that holds a UUID gate waits for nothing.
\<close>

theorem gates_no_deadlock:
  assumes "gates_reachable n s" "i < length (writers s)" "writers s ! i \<noteq> Idle"
  shows "\<exists>s'. gate_step False s s'"
proof (rule ccontr)
  assume stuck: "\<not> ?thesis"
  have inv: "gate_inv s" by (rule gates_reachable_inv [OF assms(1)])
  have no: "\<not> writer_step False (writers s ! j) (table s) w t" if "j < length (writers s)" for j w t
    using stuck gate_step.intros [OF that] by blast
  have tok: "token (gates (table s) g)" if "j < length (writers s)" "(k, g) \<in> set (tokens_of (writers s ! j))" for j k g
  proof -
    have "0 < holders tokens_of g (writers s)"
      using occurs_member [OF that(2)] holders_member [OF that(1), of g tokens_of] by linarith
    with inv show ?thesis unfolding gate_inv_def by (metis less_irrefl)
  qed
  have waits: "\<exists>hs k g ks. writers s ! j = Waiting hs k g ks \<and> token (gates (table s) g)"
    if j: "j < length (writers s)" "writers s ! j \<noteq> Idle" for j
  proof (cases "writers s ! j")
    case (Locking hs ks)
    then show ?thesis
      using no [OF j(1)] writer_step.locked writer_step.enter [OF surjective_pairing] by (cases ks) metis+
  next
    case (Waiting hs k g ks)
    then show ?thesis using no [OF j(1)] writer_step.acquire by metis
  next
    case (Writing hs)
    then show ?thesis using no [OF j(1)] writer_step.written by metis
  next
    case (Unwinding hs)
    then show ?thesis
      using no [OF j(1)] writer_step.finished writer_step.receive tok [OF j(1)]
      by (cases hs) (metis, metis list.set_intros(1) prod.collapse tokens_of.simps(5))
  next
    case (Dropping k g hs)
    then show ?thesis using no [OF j(1)] writer_step.drop by metis
  qed (use j in simp)
  have owner: "\<exists>j hs' k' g' ks'. j < length (writers s) \<and> writers s ! j = Waiting hs' k' g' ks' \<and>
      token (gates (table s) g') \<and> k \<in> fst ` set hs'"
    if w: "j0 < length (writers s)" "writers s ! j0 = Waiting hs k g ks" "token (gates (table s) g)" for j0 hs k g ks
  proof -
    have "0 < holders tokens_of g (writers s)" using inv w(3) unfolding gate_inv_def by simp
    then obtain j where j: "j < length (writers s)" "0 < occurs g (tokens_of (writers s ! j))" by (rule holders_pos)
    then obtain k' where k': "(k', g) \<in> set (tokens_of (writers s ! j))" by (auto simp: occurs_pos)
    then have "(k', g) \<in> set (refs_of (writers s ! j))" using tokens_refs by blast
    then have "map_of (writes (table s)) k' = Some g" by (rule inv_refs(1) [OF inv j(1)])
    moreover have "map_of (writes (table s)) k = Some g" using inv_refs(1) [OF inv w(1)] w(2) by simp
    ultimately have "k' = k" using inv_facts(2) [OF inv] by blast
    have "writers s ! j \<noteq> Idle" using k' by auto
    from waits [OF j(1) this] obtain hs' k2 g' ks' where
      "writers s ! j = Waiting hs' k2 g' ks'" "token (gates (table s) g')" by blast
    with j(1) k' \<open>k' = k\<close> show ?thesis by force
  qed
  have keys: "\<exists>b kn u. rev (map fst hs) @ k # ks = gate_keys b kn u"
    if "j < length (writers s)" "writers s ! j = Waiting hs k g ks" for j hs k g ks
  proof -
    have "well_keyed (writers s ! j)" using inv that(1) unfolding gate_inv_def by simp
    then show ?thesis by (auto simp: well_keyed_def that(2))
  qed
  have two: "hs = [] \<or> (\<exists>b u. map fst hs = [''peer:'' @ b] \<and> k = ''uuid:'' @ u)"
    if w: "j < length (writers s)" "writers s ! j = Waiting hs k g ks" for j hs k g ks
    using keys [OF w] by (cases hs rule: rev_cases) (auto simp: gate_keys_def append_eq_Cons_conv split: if_splits)
  from waits [OF assms(2,3)] obtain hs k g ks where
    w0: "writers s ! i = Waiting hs k g ks" "token (gates (table s) g)" by blast
  from owner [OF assms(2) w0] obtain j1 hs1 k1 g1 ks1 where
    w1: "j1 < length (writers s)" "writers s ! j1 = Waiting hs1 k1 g1 ks1" "token (gates (table s) g1)" "k \<in> fst ` set hs1"
    by blast
  from two [OF w1(1,2)] w1(4) obtain u1 where u1: "k1 = ''uuid:'' @ u1" by auto
  from owner [OF w1(1-3)] obtain j2 hs2 k2 g2 ks2 where
    w2: "j2 < length (writers s)" "writers s ! j2 = Waiting hs2 k2 g2 ks2" "k1 \<in> fst ` set hs2" by blast
  from two [OF w2(1,2)] w2(3) obtain b2 where b2: "map fst hs2 = [''peer:'' @ b2]" by auto
  have "k1 \<in> set (map fst hs2)" using w2(3) by simp
  then show False unfolding b2 u1 by simp
qed

text \<open>A run: two sessions from different peers, both writing.\<close>

definition gate_demo_gates :: "writer \<Rightarrow> writer \<Rightarrow> gate_table \<Rightarrow> gate_state" where
  "gate_demo_gates w v t = \<lparr> table = t, writers = [w, v] \<rparr>"

definition gate_demo_table :: "bool \<Rightarrow> bool \<Rightarrow> gate_table" where
  "gate_demo_table a b = \<lparr> nextGate = 2, writes = [(''peer:a'', 0), (''peer:b'', 1)],
     gates = (gates gate_table_init)(0 := \<lparr> token = a, refs = 1 \<rparr>, 1 := \<lparr> token = b, refs = 1 \<rparr>) \<rparr>"

lemma gate_demo_first: "gates_reachable 2 (gate_demo_gates w v t) \<Longrightarrow> writer_step x w t w' t' \<Longrightarrow> gates_reachable 2 (gate_demo_gates w' v t')"
  using gates_reachable.step [OF _ gate_step.intros [of 0 "gate_demo_gates w v t" x w' t']] by (simp add: gate_demo_gates_def)

lemma gate_demo_second: "gates_reachable 2 (gate_demo_gates w v t) \<Longrightarrow> writer_step x v t v' t' \<Longrightarrow> gates_reachable 2 (gate_demo_gates w v' t')"
  using gates_reachable.step [OF _ gate_step.intros [of 1 "gate_demo_gates w v t" x v' t']] by (simp add: gate_demo_gates_def)

lemma gate_demo_waiting:
  "gates_reachable 2 (gate_demo_gates (Waiting [] ''peer:a'' 0 []) (Waiting [] ''peer:b'' 1 []) (gate_demo_table False False))"
proof -
  define t1 where "t1 = \<lparr> nextGate = 1, writes = [(''peer:a'', 0)],
     gates = (gates gate_table_init)(0 := \<lparr> token = False, refs = 1 \<rparr>) \<rparr>"
  have e1: "lockWrite_enter ''peer:a'' gate_table_init = (0, t1)"
    by (simp add: lockWrite_enter_def gate_table_init_def t1_def)
  have e2: "lockWrite_enter ''peer:b'' t1 = (1, gate_demo_table False False)"
    by (simp add: lockWrite_enter_def t1_def gate_demo_table_def numeral_2_eq_2)
  have k: "gate_keys ''a'' False [] = [''peer:a'']" "gate_keys ''b'' False [] = [''peer:b'']"
    by (simp_all add: gate_keys_def)
  have 0: "gates_reachable 2 (gate_demo_gates Idle Idle gate_table_init)"
    using gates_reachable.init [of 2] by (simp add: gate_demo_gates_def numeral_2_eq_2)
  have 1: "gates_reachable 2 (gate_demo_gates (Locking [] [''peer:a'']) Idle gate_table_init)"
    using gate_demo_first [OF 0 writer_step.start] k(1) by metis
  note 2 = gate_demo_first [OF 1 writer_step.enter [OF e1]]
  have 3: "gates_reachable 2 (gate_demo_gates (Waiting [] ''peer:a'' 0 []) (Locking [] [''peer:b'']) t1)"
    using gate_demo_second [OF 2 writer_step.start] k(2) by metis
  show ?thesis by (rule gate_demo_second [OF 3 writer_step.enter [OF e2]])
qed

lemma gate_demo_writing:
  "gates_reachable 2 (gate_demo_gates (Writing [(''peer:a'', 0)]) (Writing [(''peer:b'', 1)]) (gate_demo_table True True))"
proof -
  have s: "set_token 0 True (gate_demo_table False False) = gate_demo_table True False"
    "set_token 1 True (gate_demo_table True False) = gate_demo_table True True"
    by (simp_all add: set_token_def gate_demo_table_def fun_upd_twist)
  have 1: "gates_reachable 2 (gate_demo_gates (Locking [(''peer:a'', 0)] []) (Waiting [] ''peer:b'' 1 []) (gate_demo_table True False))"
    unfolding s(1) [symmetric] by (rule gate_demo_first [OF gate_demo_waiting writer_step.acquire]) (simp add: gate_demo_table_def)
  have 2: "gates_reachable 2 (gate_demo_gates (Locking [(''peer:a'', 0)] []) (Locking [(''peer:b'', 1)] []) (gate_demo_table True True))"
    unfolding s(2) [symmetric] by (rule gate_demo_second [OF 1 writer_step.acquire]) (simp add: gate_demo_table_def)
  show ?thesis by (rule gate_demo_second [OF gate_demo_first [OF 2 writer_step.locked] writer_step.locked])
qed

theorem write_exclusive_witness:
  "\<exists>b kn u b' kn' u'. map fst [(''peer:a'', 0 :: nat)] = rev (gate_keys b kn u) \<and>
    map fst [(''peer:b'', 1 :: nat)] = rev (gate_keys b' kn' u') \<and>
    b \<noteq> b' \<and> (kn \<and> u \<noteq> [] \<and> kn' \<and> u' \<noteq> [] \<longrightarrow> u \<noteq> u')"
  by (rule write_exclusive [OF gate_demo_writing, of 0 1]) (simp_all add: gate_demo_gates_def)

theorem gates_no_deadlock_witness:
  "\<exists>s'. gate_step False (gate_demo_gates (Waiting [] ''peer:a'' 0 []) (Waiting [] ''peer:b'' 1 []) (gate_demo_table False False)) s'"
  by (rule gates_no_deadlock [OF gate_demo_waiting, of 0]) (simp_all add: gate_demo_gates_def)

lemma reachable_keys: "gates_reachable n s \<Longrightarrow> distinct (map fst (writes (table s))) \<and> length (writers s) = n"
proof (induction rule: gates_reachable.induct)
  case (step s x s')
  from step(2,3) show ?case
  proof (induction rule: gate_step.induct)
    case (1 i s x w t)
    have d: "distinct (map fst (writes (table s)))" using 1(3) by simp
    have e: "distinct (map fst (writes (snd (lockWrite_enter k (table s)))))" for k
      using d by (simp add: lockWrite_enter_def Let_def distinct_update split: option.split)
    have r: "distinct (map fst (writes (releaseWrite k g (table s))))" for k g
      using d by (simp add: releaseWrite_def Let_def distinct_delete)
    from 1(2) have "distinct (map fst (writes t))"
    proof cases
      case (enter k g hs ks)
      then show ?thesis using e [of k] by simp
    qed (simp_all add: set_token_def d r)
    then show ?case using 1(3) by simp
  qed
qed (simp add: gate_table_init_def)

text \<open>
  Idle gates are removed. The table never holds more than two gates per session that is inside
  the locking code, so guests cannot grow it by inventing boot ids.
\<close>

theorem gates_bounded:
  assumes "gates_reachable n s"
  shows "length (writes (table s)) \<le> 2 * length (filter (\<lambda>w. w \<noteq> Idle) (writers s))"
proof -
  let ?ws = "filter (\<lambda>w. w \<noteq> Idle) (writers s)"
  have inv: "gate_inv s" by (rule gates_reachable_inv [OF assms])
  have sub: "fst ` set (writes (table s)) \<subseteq> fst ` set (concat (map refs_of ?ws))"
  proof
    fix k assume "k \<in> fst ` set (writes (table s))"
    then obtain g where g: "map_of (writes (table s)) k = Some g" by (metis domD dom_map_of_conv_image_fst)
    then have "0 < holders refs_of g (writers s)" using inv unfolding gate_inv_def by metis
    then obtain i where i: "i < length (writers s)" "0 < occurs g (refs_of (writers s ! i))" by (rule holders_pos)
    then obtain k' where k': "(k', g) \<in> set (refs_of (writers s ! i))" by (auto simp: occurs_pos)
    then have "k' = k" using inv_refs(1) [OF inv i(1) k'] inv_facts(2) [OF inv g] by blast
    moreover have "writers s ! i \<in> set ?ws" using i(1) k' by auto
    ultimately show "k \<in> fst ` set (concat (map refs_of ?ws))" using k' by force
  qed
  have "length (concat (map refs_of ws)) \<le> 2 * length ws" if "\<forall>w \<in> set ws. length (refs_of w) \<le> 2" for ws
    using that by (induction ws) auto
  moreover have "\<forall>w \<in> set ?ws. length (refs_of w) \<le> 2" using inv unfolding gate_inv_def well_keyed_def by simp
  ultimately have len: "length (concat (map refs_of ?ws)) \<le> 2 * length ?ws" by blast
  have "length (writes (table s)) = card (fst ` set (writes (table s)))"
    using reachable_keys [OF assms] by (metis distinct_card length_map set_map)
  also have "\<dots> \<le> card (fst ` set (concat (map refs_of ?ws)))" by (rule card_mono [OF _ sub]) simp
  also have "\<dots> \<le> length (concat (map refs_of ?ws))" by (metis card_length length_map set_map)
  finally show ?thesis using len by simp
qed

theorem gates_bounded_witness:
  "length (writes (gate_demo_table True True)) \<le> 2 * length (filter (\<lambda>w. w \<noteq> Idle) [Writing [(''peer:a'', 0)], Writing [(''peer:b'', 1)]])"
  using gates_bounded [OF gate_demo_writing] unfolding gate_demo_gates_def gate_state.select_convs .

end
