(* ===== verification/Host_Config.thy ===== *)
theory Host_Config
  imports Prelude
begin

section \<open>The collector's configuration\<close>

text \<open>
  \<^verbatim>\<open>SauronAgent/internal/config/host.go\<close> and \<^verbatim>\<open>common.go\<close>: the configuration records of the host
  collector, the built-in defaults, and the checks \<open>Validate\<close> applies, one error per check in
  the order of the code. Durations are nanoseconds, sizes bytes; the host name of the machine is an
  argument (\<open>None\<close> when \<^verbatim>\<open>os.Hostname\<close> fails). Reading the YAML file is not modelled.
\<close>

definition VMADDR_CID_ANY :: nat where
  "VMADDR_CID_ANY = 4294967295"

definition TransportVSOCK :: string where "TransportVSOCK = ''vsock''"
definition TransportTCP :: string where "TransportTCP = ''tcp''"

record ListenSection =
  lisKind :: string
  lisCID :: nat
  lisPort :: nat
  lisTCPAddress :: string

record VMMapping =
  vmCID :: nat
  vmName :: string
  vmUUID :: string
  vmEnvironment :: string
  vmSecurityDomain :: string
  vmVLAN :: string
  vmLabels :: "(string \<times> string) list"
  vmExpected :: bool

record StdoutOutput =
  stdEnabled :: bool
  stdPretty :: bool

record FileOutput =
  fileEnabled :: bool
  filePath :: string
  fileMaxSize :: int
  fileMaxFiles :: int
  fileSyncOnWrite :: bool

record SyslogOutput =
  sysEnabled :: bool
  sysNetwork :: string
  sysAddress :: string
  sysTag :: string
  sysFacility :: string

record OutputSection =
  outStdout :: StdoutOutput
  outFile :: FileOutput
  outSyslog :: SyslogOutput

record MonitorSection =
  monEnabled :: bool
  monTimeout :: int
  monCheckInterval :: int

record LimitsSection =
  limMaxPayloadSize :: int
  limMaxConnectionsPerCID :: int
  limMaxConnections :: int
  limHandshakeTimeout :: int
  limIdleTimeout :: int
  limAckInterval :: int
  limAckMaxDelay :: int
  limDedupWindow :: int
  limAllowUnknownCIDs :: bool

record LoggingSection =
  logLevel :: string
  logFormat :: string
  logOutput :: string

record host_config =
  cfgHostName :: string
  cfgListen :: ListenSection
  cfgVMs :: "VMMapping list"
  cfgOutput :: OutputSection
  cfgMonitor :: MonitorSection
  cfgLimits :: LimitsSection
  cfgLogging :: LoggingSection

definition hostnameOrUnknown :: "string option \<Rightarrow> string" where
  "hostnameOrUnknown h = (case h of Some n \<Rightarrow> if n \<noteq> [] then n else ''unknown'' | None \<Rightarrow> ''unknown'')"

definition DefaultHost :: "string option \<Rightarrow> host_config" where
  "DefaultHost hostname = \<lparr>
     cfgHostName = hostnameOrUnknown hostname,
     cfgListen = \<lparr> lisKind = TransportVSOCK, lisCID = VMADDR_CID_ANY, lisPort = 9000, lisTCPAddress = [] \<rparr>,
     cfgVMs = [],
     cfgOutput = \<lparr>
       outStdout = \<lparr> stdEnabled = True, stdPretty = False \<rparr>,
       outFile = \<lparr> fileEnabled = False, filePath = ''/var/log/sauronhost/events.json'',
         fileMaxSize = 256 * 2 ^ 20, fileMaxFiles = 8, fileSyncOnWrite = False \<rparr>,
       outSyslog = \<lparr> sysEnabled = False, sysNetwork = [], sysAddress = [], sysTag = ''sauronhost'',
         sysFacility = ''authpriv'' \<rparr> \<rparr>,
     cfgMonitor = \<lparr> monEnabled = True, monTimeout = 90000000000, monCheckInterval = 15000000000 \<rparr>,
     cfgLimits = \<lparr> limMaxPayloadSize = 2 ^ 20, limMaxConnectionsPerCID = 4, limMaxConnections = 1024,
       limHandshakeTimeout = 10000000000, limIdleTimeout = 300000000000, limAckInterval = 64,
       limAckMaxDelay = 2000000000, limDedupWindow = 65536, limAllowUnknownCIDs = True \<rparr>,
     cfgLogging = \<lparr> logLevel = ''info'', logFormat = ''text'', logOutput = ''stderr'' \<rparr> \<rparr>"

datatype config_error =
    ListenPortUnset | TCPAddressUnset | BadListenKind string
  | VMNameUnset nat | DuplicateCID nat nat string
  | BadMaxPayloadSize | BadMaxConnections | BadMaxConnectionsPerCID | BadDedupWindow | BadAckInterval
  | FilePathUnset | BadMonitorTimeout | BadCheckInterval
  | BadLogLevel string | BadLogFormat string | LogOutputUnset

definition validateLogging :: "LoggingSection \<Rightarrow> (config_error, unit) result" where
  "validateLogging l =
     (if logLevel l \<notin> set [''debug'', ''info'', ''warn'', ''error''] then Inl (BadLogLevel (logLevel l))
      else if logFormat l \<notin> set [''text'', ''json''] then Inl (BadLogFormat (logFormat l))
      else if logOutput l = [] then Inl LogOutputUnset
      else Inr ())"

text \<open>The loop over \<^verbatim>\<open>vms\<close>: \<open>seen\<close> maps the CIDs met so far to the names they were given.\<close>

fun validate_vms :: "nat \<Rightarrow> (nat \<times> string) list \<Rightarrow> VMMapping list \<Rightarrow> (config_error, unit) result" where
  "validate_vms i seen [] = Inr ()"
| "validate_vms i seen (vm # vms) =
     (if vmName vm = [] then Inl (VMNameUnset i)
      else case map_of seen (vmCID vm) of
        Some prev \<Rightarrow> Inl (DuplicateCID i (vmCID vm) prev)
      | None \<Rightarrow> validate_vms (Suc i) (AList.update (vmCID vm) (vmName vm) seen) vms)"

definition validate_listen :: "ListenSection \<Rightarrow> (config_error, unit) result" where
  "validate_listen l =
     (if lisKind l = TransportVSOCK then (if lisPort l = 0 then Inl ListenPortUnset else Inr ())
      else if lisKind l = TransportTCP then (if lisTCPAddress l = [] then Inl TCPAddressUnset else Inr ())
      else Inl (BadListenKind (lisKind l)))"

definition Validate :: "host_config \<Rightarrow> (config_error, unit) result" where
  "Validate c =
     (case validate_listen (cfgListen c) of Inl e \<Rightarrow> Inl e | Inr _ \<Rightarrow>
      case validate_vms 0 [] (cfgVMs c) of Inl e \<Rightarrow> Inl e | Inr _ \<Rightarrow>
      if limMaxPayloadSize (cfgLimits c) \<le> 0 then Inl BadMaxPayloadSize
      else if limMaxConnections (cfgLimits c) \<le> 0 then Inl BadMaxConnections
      else if limMaxConnectionsPerCID (cfgLimits c) \<le> 0 then Inl BadMaxConnectionsPerCID
      else if limDedupWindow (cfgLimits c) < 0 then Inl BadDedupWindow
      else if limAckInterval (cfgLimits c) < 0 then Inl BadAckInterval
      else if fileEnabled (outFile (cfgOutput c)) \<and> filePath (outFile (cfgOutput c)) = [] then Inl FilePathUnset
      else if monEnabled (cfgMonitor c) \<and> monTimeout (cfgMonitor c) \<le> 0 then Inl BadMonitorTimeout
      else if monEnabled (cfgMonitor c) \<and> monCheckInterval (cfgMonitor c) \<le> 0 then Inl BadCheckInterval
      else validateLogging (cfgLogging c))"

fun lookup_loop :: "nat \<Rightarrow> VMMapping list \<Rightarrow> VMMapping option" where
  "lookup_loop cid [] = None"
| "lookup_loop cid (vm # vms) = (if vmCID vm = cid then Some vm else lookup_loop cid vms)"

definition LookupVM :: "nat \<Rightarrow> host_config \<Rightarrow> VMMapping option" where
  "LookupVM cid c = lookup_loop cid (cfgVMs c)"

subsection \<open>Lemmas\<close>

lemma validate_vms_ok:
  "validate_vms i seen vms = Inr () \<longleftrightarrow>
     distinct (map vmCID vms) \<and> fst ` set seen \<inter> vmCID ` set vms = {} \<and> (\<forall>vm \<in> set vms. vmName vm \<noteq> [])"
proof (induction i seen vms rule: validate_vms.induct)
  case (2 i seen vm vms)
  show ?case
  proof (cases "map_of seen (vmCID vm)")
    case (Some prev)
    then have "vmCID vm \<in> fst ` set seen" by (force dest: map_of_SomeD)
    then show ?thesis by (auto simp: Some)
  next
    case None
    then have "vmCID vm \<notin> fst ` set seen" by (simp add: map_of_eq_None_iff)
    moreover have "fst ` set (AList.update (vmCID vm) (vmName vm) seen) = insert (vmCID vm) (fst ` set seen)"
      by (simp add: dom_update)
    ultimately show ?thesis using 2 [OF _ None] None by (cases "vmName vm = []") auto
  qed
qed simp

lemma validate_facts:
  assumes "Validate c = Inr ()"
  shows "distinct (map vmCID (cfgVMs c))" "\<forall>vm \<in> set (cfgVMs c). vmName vm \<noteq> []"
    "0 < limMaxPayloadSize (cfgLimits c)" "0 < limMaxConnections (cfgLimits c)"
    "0 < limMaxConnectionsPerCID (cfgLimits c)" "0 \<le> limDedupWindow (cfgLimits c)"
    "0 \<le> limAckInterval (cfgLimits c)"
    "monEnabled (cfgMonitor c) \<Longrightarrow> 0 < monTimeout (cfgMonitor c) \<and> 0 < monCheckInterval (cfgMonitor c)"
proof -
  from assms have "validate_vms 0 [] (cfgVMs c) = Inr ()"
    unfolding Validate_def by (auto split: sum.splits)
  then show "distinct (map vmCID (cfgVMs c))" "\<forall>vm \<in> set (cfgVMs c). vmName vm \<noteq> []"
    by (simp_all add: validate_vms_ok)
qed (use assms in \<open>auto simp: Validate_def split: sum.splits if_splits\<close>)

lemma lookup_loop_some: "lookup_loop cid vms = Some vm \<Longrightarrow> vm \<in> set vms \<and> vmCID vm = cid"
  by (induction vms) (auto split: if_splits)

text \<open>The built-in collector configuration passes its own validation, whatever the host's name.\<close>

theorem default_host_valid: "Validate (DefaultHost hostname) = Inr ()"
  by (simp add: Validate_def DefaultHost_def validate_listen_def validateLogging_def TransportVSOCK_def)

end
