(* ===== verification/Messages.thy ===== *)
theory Messages
  imports Events
begin

section \<open>The protocol's messages\<close>

text \<open>
  \<^verbatim>\<open>SauronAgent/internal/protocol/message.go\<close>: the payloads agent and host exchange. The frame layer
  that carries them is theory \<^verbatim>\<open>Frame\<close>; the JSON codec between payload and bytes is a parameter
  of the definitions that decode a payload.
\<close>

record Hello =
  hlProtocolVersion :: nat
  hlAgentVersion :: string
  hlHostname :: string
  hlBootID :: string
  hlMachineID :: string
  hlKernel :: string
  hlFirstSequence :: nat

record Ready =
  rdProtocolVersion :: nat
  rdHostVersion :: string
  rdSessionID :: string
  rdResumeFrom :: nat
  rdMaxPayloadSize :: nat

text \<open>A missing \<^verbatim>\<open>event\<close> object is the nil pointer.\<close>

record EventMessage =
  emEvent :: "event option"

record Ack =
  ackSequence :: nat

record Ping =
  pgUptimeSeconds :: nat
  pgEventsReceived :: nat
  pgEventsSent :: nat
  pgEventsSpooled :: nat
  pgEventsDropped :: nat
  pgAuditEnabled :: bool
  pgQueueDepth :: nat
  pgSpoolBytes :: nat

record Pong =
  poEchoUptime :: nat
  poUnixNano :: int

datatype ErrorCode =
    ErrCodeBadFrame | ErrCodeBadPayload | ErrCodeBadSequence | ErrCodeUnexpectedType
  | ErrCodeUnauthorized | ErrCodeInternal | ErrCodeOverloaded

fun error_code_text :: "ErrorCode \<Rightarrow> string" where
  "error_code_text ErrCodeBadFrame = ''bad_frame''"
| "error_code_text ErrCodeBadPayload = ''bad_payload''"
| "error_code_text ErrCodeBadSequence = ''bad_sequence''"
| "error_code_text ErrCodeUnexpectedType = ''unexpected_type''"
| "error_code_text ErrCodeUnauthorized = ''unauthorized''"
| "error_code_text ErrCodeInternal = ''internal''"
| "error_code_text ErrCodeOverloaded = ''overloaded''"

record ErrorMessage =
  erCode :: ErrorCode
  erMessage :: string
  erFatal :: bool

record Shutdown =
  sdReason :: string
  sdLastSequence :: nat

end
