(* ===== verification/Host_Enrich.thy ===== *)
theory Host_Enrich
  imports Host_Config Messages
begin

section \<open>Who is on the other end of a connection\<close>

text \<open>
  \<^verbatim>\<open>SauronAgent/internal/host/enrich.go\<close>: the collector's view of a peer and of the source of its
  events. A connection is given by what the host asks it for: its remote address, if any, and the
  CID the hypervisor reports, if the transport is VSOCK. The live resolver \<^verbatim>\<open>Options.Resolve\<close> is a
  function argument. \<^verbatim>\<open>net.SplitHostPort\<close> is written out for the strings it accepts.
\<close>

definition cidUnidentified :: nat where
  "cidUnidentified = VMADDR_CID_ANY"

record peer =
  peerCid :: nat
  peerVsock :: bool
  peerAddr :: string

definition peerOf :: "string option \<Rightarrow> nat option \<Rightarrow> peer" where
  "peerOf remoteAddr peerCID =
     (let p = \<lparr> peerCid = cidUnidentified, peerVsock = False,
                peerAddr = (case remoteAddr of Some a \<Rightarrow> a | None \<Rightarrow> []) \<rparr> in
      case peerCID of Some cid \<Rightarrow> p\<lparr> peerCid := cid, peerVsock := True \<rparr> | None \<Rightarrow> p)"

text \<open>The text before and after the last colon, if there is a colon.\<close>

fun split_last_colon :: "string \<Rightarrow> (string \<times> string) option" where
  "split_last_colon [] = None"
| "split_last_colon (c # cs) =
     (case split_last_colon cs of
        Some (h, p) \<Rightarrow> Some (c # h, p)
      | None \<Rightarrow> if c = CHR '':'' then Some ([], cs) else None)"

definition SplitHostPort :: "string \<Rightarrow> (string \<times> string) option" where
  "SplitHostPort s = (case split_last_colon s of
     None \<Rightarrow> None
   | Some (h, p) \<Rightarrow>
       if s \<noteq> [] \<and> hd s = CHR ''['' then
         (if h \<noteq> [] \<and> last h = CHR '']'' \<and> CHR '']'' \<notin> set (butlast h) \<and>
             CHR ''['' \<notin> set (tl s) \<and> CHR '']'' \<notin> set p
          then Some (tl (butlast h), p) else None)
       else if CHR '':'' \<in> set h \<or> CHR ''['' \<in> set s \<or> CHR '']'' \<in> set s then None
       else Some (h, p))"

definition hostPart :: "string \<Rightarrow> string" where
  "hostPart addr = (case SplitHostPort addr of
     Some (h, _) \<Rightarrow> if h \<noteq> [] then h else if addr = [] then ''unknown'' else addr
   | None \<Rightarrow> if addr = [] then ''unknown'' else addr)"

definition bucket :: "peer \<Rightarrow> string" where
  "bucket p = (if peerVsock p then ''cid:'' @ dec_text (peerCid p) else ''peer:'' @ hostPart (peerAddr p))"

definition logCID :: "peer \<Rightarrow> field_value" where
  "logCID p = (if \<not> peerVsock p then FStr ''none'' else FUint (peerCid p))"

record enricher =
  enHostName :: string
  enVMs :: "(nat \<times> VMMapping) list"
  enResolve :: "(nat \<Rightarrow> VMMapping option) option"
  enAllowUnknown :: bool

definition newEnricher :: "host_config \<Rightarrow> (nat \<Rightarrow> VMMapping option) option \<Rightarrow> enricher" where
  "newEnricher cfg resolve = \<lparr> enHostName = cfgHostName cfg,
     enVMs = fold (\<lambda>vm m. AList.update (vmCID vm) vm m) (cfgVMs cfg) [],
     enResolve = resolve, enAllowUnknown = limAllowUnknownCIDs (cfgLimits cfg) \<rparr>"

definition lookup :: "nat \<Rightarrow> enricher \<Rightarrow> VMMapping option" where
  "lookup cid e = (case (case enResolve e of Some f \<Rightarrow> f cid | None \<Rightarrow> None) of
     Some vm \<Rightarrow> Some vm
   | None \<Rightarrow> map_of (enVMs e) cid)"

definition authorized :: "source \<Rightarrow> enricher \<Rightarrow> bool" where
  "authorized src e \<longleftrightarrow> srcKnown src \<or> enAllowUnknown e"

definition zero_source :: source where
  "zero_source = \<lparr> srcCID = 0, srcVM = [], srcHost = [], srcUUID = [], srcEnvironment = [],
     srcSecurityDomain = [], srcVLAN = [], srcLabels = [], srcKnown = False, srcReported = None \<rparr>"

definition source_of :: "peer \<Rightarrow> enricher \<Rightarrow> source" where
  "source_of p e =
     (let src = zero_source\<lparr> srcCID := peerCid p, srcHost := enHostName e \<rparr> in
      if \<not> peerVsock p then src\<lparr> srcVM := ''unidentified-peer-'' @ hostPart (peerAddr p), srcKnown := False \<rparr>
      else case lookup (peerCid p) e of
        None \<Rightarrow> src\<lparr> srcVM := ''unknown-cid-'' @ dec_text (peerCid p), srcKnown := False \<rparr>
      | Some vm \<Rightarrow> src\<lparr> srcVM := vmName vm, srcUUID := vmUUID vm, srcEnvironment := vmEnvironment vm,
          srcSecurityDomain := vmSecurityDomain vm, srcVLAN := vmVLAN vm, srcLabels := vmLabels vm,
          srcKnown := True \<rparr>)"

definition reportedFrom :: "Hello \<Rightarrow> reported_source" where
  "reportedFrom hello = \<lparr> repHostname = hlHostname hello, repMachineID = hlMachineID hello,
     repBootID = hlBootID hello, repKernel = hlKernel hello, repAgentVersion = hlAgentVersion hello \<rparr>"

definition envelopeFor :: "int \<Rightarrow> source \<Rightarrow> event \<Rightarrow> envelope" where
  "envelopeFor now src ev = \<lparr> envReceivedAt = now, envSource = src, envEvent = ev \<rparr>"

subsection \<open>Buckets\<close>

lemma dec_text_inj: "dec_text m = dec_text n \<Longrightarrow> m = n"
  by (metis dec_value_dec_text)

text \<open>
  A bucket is an identity. Two connections that share a bucket, and with it connection limits and
  deduplication state, are both VSOCK connections of the same CID or both network peers of the same
  address: a network peer cannot choose an address that puts it into a VM's bucket.
\<close>

theorem bucket_identity:
  assumes "bucket p = bucket q"
  shows "peerVsock p = peerVsock q \<and>
    (if peerVsock p then peerCid p = peerCid q else hostPart (peerAddr p) = hostPart (peerAddr q))"
  using assms by (auto simp: bucket_def dest: dec_text_inj split: if_splits)

theorem bucket_identity_witness:
  "bucket \<lparr> peerCid = 7, peerVsock = True, peerAddr = ''vm(7):1'' \<rparr> =
     bucket \<lparr> peerCid = 7, peerVsock = True, peerAddr = ''vm(7):2'' \<rparr> \<and>
   peerCid \<lparr> peerCid = 7, peerVsock = True, peerAddr = ''vm(7):1'' \<rparr> =
     peerCid \<lparr> peerCid = 7, peerVsock = True, peerAddr = ''vm(7):2'' \<rparr>"
  using bucket_identity [of "\<lparr> peerCid = 7, peerVsock = True, peerAddr = ''vm(7):1'' \<rparr>"
      "\<lparr> peerCid = 7, peerVsock = True, peerAddr = ''vm(7):2'' \<rparr>"]
  by (simp add: bucket_def)

lemma split_last_colon_append:
  "CHR '':'' \<notin> set p \<Longrightarrow> split_last_colon (h @ CHR '':'' # p) = Some (h, p)"
proof (induction h)
  case Nil
  have "split_last_colon p = None" using Nil by (induction p) auto
  then show ?case by simp
qed simp

text \<open>
  A peer that reconnects from a new ephemeral port stays in its bucket: the port is not part of
  it, for host names and IPv4 addresses and for bracketed IPv6 addresses alike.
\<close>

theorem bucket_ignores_port:
  assumes "h \<noteq> []" "set h \<inter> {CHR ''['', CHR '']''} = {}" "set port \<inter> {CHR '':'', CHR ''['', CHR '']''} = {}"
  shows "(CHR '':'' \<notin> set h \<longrightarrow> hostPart (h @ CHR '':'' # port) = h) \<and>
    hostPart (''['' @ h @ '']:'' @ port) = h"
proof
  have p: "CHR '':'' \<notin> set port" using assms(3) by auto
  show "CHR '':'' \<notin> set h \<longrightarrow> hostPart (h @ CHR '':'' # port) = h"
  proof
    assume c: "CHR '':'' \<notin> set h"
    have "hd (h @ CHR '':'' # port) \<noteq> CHR ''[''" using assms(1,2) by (cases h) auto
    then have "SplitHostPort (h @ CHR '':'' # port) = Some (h, port)"
      using split_last_colon_append [OF p, of h] c assms by (auto simp: SplitHostPort_def)
    then show "hostPart (h @ CHR '':'' # port) = h" using assms(1) by (simp add: hostPart_def)
  qed
  have eq: "''['' @ h @ '']:'' @ port = (''['' @ h @ '']'') @ CHR '':'' # port" by simp
  have "split_last_colon (''['' @ h @ '']:'' @ port) = Some (''['' @ h @ '']'', port)"
    unfolding eq by (rule split_last_colon_append [OF p])
  then have "SplitHostPort (''['' @ h @ '']:'' @ port) = Some (h, port)"
    using assms by (auto simp: SplitHostPort_def butlast_append)
  then show "hostPart (''['' @ h @ '']:'' @ port) = h" using assms(1) by (simp add: hostPart_def)
qed

theorem bucket_ignores_port_witness:
  "hostPart (''10.0.0.7'' @ CHR '':'' # ''4711'') = ''10.0.0.7'' \<and> hostPart (''['' @ ''10.0.0.7'' @ '']:'' @ ''4711'') = ''10.0.0.7''"
proof -
  have "(CHR '':'' \<notin> set ''10.0.0.7'' \<longrightarrow> hostPart (''10.0.0.7'' @ CHR '':'' # ''4711'') = ''10.0.0.7'') \<and>
    hostPart (''['' @ ''10.0.0.7'' @ '']:'' @ ''4711'') = ''10.0.0.7''"
    by (rule bucket_ignores_port) simp_all
  then show ?thesis by simp
qed

subsection \<open>Sources\<close>



lemma enricher_map:
  "map_of (fold (\<lambda>vm m. AList.update (vmCID vm) vm m) vms m) cid =
     (case lookup_loop cid (rev vms) of Some vm \<Rightarrow> Some vm | None \<Rightarrow> map_of m cid)"
proof (induction vms arbitrary: m)
  case (Cons vm vms)
  have "lookup_loop cid (xs @ [vm]) = (case lookup_loop cid xs of Some v \<Rightarrow> Some v | None \<Rightarrow> if vmCID vm = cid then Some vm else None)" for xs
    by (induction xs) auto
  with Cons show ?case by (simp add: update_conv' split: option.split)
qed simp

lemma lookup_loop_none: "lookup_loop cid xs = None \<longleftrightarrow> cid \<notin> vmCID ` set xs"
  by (induction xs) auto

lemma lookup_loop_rev:
  assumes "distinct (map vmCID vms)"
  shows "lookup_loop cid (rev vms) = lookup_loop cid vms"
proof (cases "lookup_loop cid vms")
  case None
  then have "lookup_loop cid (rev vms) = None" unfolding lookup_loop_none by simp
  with None show ?thesis by simp
next
  case (Some vm)
  from lookup_loop_some [OF this] have vm: "vm \<in> set vms" "vmCID vm = cid" by auto
  then have "lookup_loop cid (rev vms) \<noteq> None" unfolding lookup_loop_none by auto
  then obtain vm' where r: "lookup_loop cid (rev vms) = Some vm'" by blast
  from lookup_loop_some [OF this] have "vm' \<in> set vms" "vmCID vm' = cid" by auto
  with vm assms have "vm' = vm" by (simp add: distinct_map inj_on_def)
  with r Some show ?thesis by simp
qed

text \<open>
  The index the enricher builds agrees with the configuration's own linear \<open>LookupVM\<close>, for every
  configuration that passes validation (which rejects duplicate CIDs; the two would differ on them:
  the index keeps the last entry, the scan finds the first).
\<close>

theorem enricher_lookup:
  assumes "Validate cfg = Inr ()"
  shows "lookup cid (newEnricher cfg None) = LookupVM cid cfg"
  using validate_facts(1) [OF assms]
  by (simp add: lookup_def newEnricher_def LookupVM_def enricher_map lookup_loop_rev split: option.split)

theorem enricher_lookup_witness:
  "Validate (DefaultHost None) = Inr () \<and> lookup 3 (newEnricher (DefaultHost None) None) = LookupVM 3 (DefaultHost None)"
proof -
  have v: "Validate (DefaultHost None) = Inr ()"
    by (simp add: Validate_def DefaultHost_def validate_listen_def validateLogging_def TransportVSOCK_def)
  with enricher_lookup [OF v] show ?thesis by blast
qed

end
