(* ===== verification/Host_Server.thy ===== *)
theory Host_Server
  imports Host_Enrich Frame
begin

section \<open>Admission of connections\<close>

text \<open>
  \<^verbatim>\<open>SauronAgent/internal/host/server.go\<close>: the limits the collector derives from its configuration,
  and the admission of connections. The counters of live connections are the state; an admitted
  session gives its slot back exactly once (the \<^verbatim>\<open>sync.Once\<close> of the release function), so the live
  sessions are a list of buckets from which a release removes one entry.
\<close>

definition defaultWriteTimeout :: int where
  "defaultWriteTimeout = 10000000000"

definition writeTimeout :: "host_config \<Rightarrow> int" where
  "writeTimeout cfg = (if limHandshakeTimeout (cfgLimits cfg) > 0 then limHandshakeTimeout (cfgLimits cfg) else defaultWriteTimeout)"

definition effectiveMaxPayload :: "host_config \<Rightarrow> nat" where
  "effectiveMaxPayload cfg =
     (let n = limMaxPayloadSize (cfgLimits cfg) in
      if n \<le> 0 then unat DefaultMaxPayloadSize
      else if n > uint MaxPayloadCeiling then unat MaxPayloadCeiling
      else nat n)"

definition maxTrackedStreams :: "host_config \<Rightarrow> int" where
  "maxTrackedStreams cfg = (let n = 4 * limMaxConnections (cfgLimits cfg) in if n < 64 then 64 else n)"

record connections =
  total :: int
  perPeer :: "(string \<times> int) list"

datatype rejection = reasonUnauthorized | reasonMaxConns | reasonMaxConnsCID

fun reason_text :: "rejection \<Rightarrow> string" where
  "reason_text reasonUnauthorized = ''unauthorized''"
| "reason_text reasonMaxConns = ''max_connections''"
| "reason_text reasonMaxConnsCID = ''max_connections_per_cid''"

text \<open>Reading a missing entry of a Go map gives the zero value.\<close>

definition count_of :: "string \<Rightarrow> connections \<Rightarrow> int" where
  "count_of b s = (case map_of (perPeer s) b of Some n \<Rightarrow> n | None \<Rightarrow> 0)"

definition admit :: "host_config \<Rightarrow> enricher \<Rightarrow> peer \<Rightarrow> source \<Rightarrow> connections \<Rightarrow> (rejection, string) result \<times> connections" where
  "admit cfg e p src s =
     (if \<not> authorized src e then (Inl reasonUnauthorized, s)
      else if limMaxConnections (cfgLimits cfg) > 0 \<and> total s \<ge> limMaxConnections (cfgLimits cfg)
      then (Inl reasonMaxConns, s)
      else if limMaxConnectionsPerCID (cfgLimits cfg) > 0 \<and>
              count_of (bucket p) s \<ge> limMaxConnectionsPerCID (cfgLimits cfg)
      then (Inl reasonMaxConnsCID, s)
      else (Inr (bucket p), s\<lparr> total := total s + 1,
              perPeer := AList.update (bucket p) (count_of (bucket p) s + 1) (perPeer s) \<rparr>))"

definition release_slot :: "string \<Rightarrow> connections \<Rightarrow> connections" where
  "release_slot b s =
     (let s1 = s\<lparr> total := total s - 1 \<rparr>; n = count_of b s1 - 1 in
      if n > 0 then s1\<lparr> perPeer := AList.update b n (perPeer s1) \<rparr>
      else s1\<lparr> perPeer := AList.delete b (perPeer s1) \<rparr>)"

text \<open>What \<open>reject\<close> tells the peer, and the event it publishes.\<close>

definition reject_reply :: "rejection \<Rightarrow> ErrorMessage" where
  "reject_reply reason =
     (if reason = reasonUnauthorized
      then \<lparr> erCode = ErrCodeUnauthorized, erMessage =
          ''connection refused: this CID has no entry in the collector's vms list and limits.allow_unknown_cids is false'',
          erFatal = True \<rparr>
      else \<lparr> erCode = ErrCodeOverloaded,
          erMessage = ''connection refused: '' @ reason_text reason @ '' limit reached'', erFatal = True \<rparr>)"

definition typeConnectionRejected :: string where
  "typeConnectionRejected = ''sauron.connection.rejected''"

definition rejected_event :: "int \<Rightarrow> peer \<Rightarrow> rejection \<Rightarrow> event" where
  "rejected_event now p reason = NewInternal now typeConnectionRejected SeverityWarning
     [(''reason'', FStr (reason_text reason)), (''cid'', logCID p), (''peer'', FStr (peerAddr p)),
      (''hypervisor_backed'', FBool (peerVsock p))]"

subsection \<open>Live connections\<close>

record server_run =
  srvConns :: connections
  srvLive :: "string list"

inductive admission_step :: "host_config \<Rightarrow> enricher \<Rightarrow> server_run \<Rightarrow> server_run \<Rightarrow> bool" for cfg e where
  admitted: "admit cfg e p (source_of p e) (srvConns s) = (Inr b, c) \<Longrightarrow>
    admission_step cfg e s (s\<lparr> srvConns := c, srvLive := b # srvLive s \<rparr>)"
| ended: "b \<in> set (srvLive s) \<Longrightarrow>
    admission_step cfg e s (s\<lparr> srvConns := release_slot b (srvConns s), srvLive := remove1 b (srvLive s) \<rparr>)"

inductive admission_reachable :: "host_config \<Rightarrow> enricher \<Rightarrow> server_run \<Rightarrow> bool" for cfg e where
  init: "admission_reachable cfg e \<lparr> srvConns = \<lparr> total = 0, perPeer = [] \<rparr>, srvLive = [] \<rparr>"
| step: "admission_reachable cfg e s \<Longrightarrow> admission_step cfg e s s' \<Longrightarrow> admission_reachable cfg e s'"

definition admission_inv :: "host_config \<Rightarrow> server_run \<Rightarrow> bool" where
  "admission_inv cfg s \<longleftrightarrow> total (srvConns s) = int (length (srvLive s)) \<and>
     (\<forall>b. map_of (perPeer (srvConns s)) b =
        (if b \<in> set (srvLive s) then Some (int (count_list (srvLive s) b)) else None)) \<and>
     (limMaxConnections (cfgLimits cfg) > 0 \<longrightarrow> int (length (srvLive s)) \<le> limMaxConnections (cfgLimits cfg)) \<and>
     (limMaxConnectionsPerCID (cfgLimits cfg) > 0 \<longrightarrow>
        (\<forall>b. int (count_list (srvLive s) b) \<le> limMaxConnectionsPerCID (cfgLimits cfg)))"

lemma count_list_remove1: "count_list (remove1 a xs) b = (if a = b then count_list xs b - 1 else count_list xs b)"
proof (induction xs)
  case (Cons x xs)
  have "a \<in> set xs \<Longrightarrow> 0 < count_list xs a" by (simp add: count_list_0_iff neq0_conv [symmetric])
  with Cons show ?case by auto
qed simp

lemma admission_count:
  assumes "admission_inv cfg s"
  shows "count_of b (srvConns s) = int (count_list (srvLive s) b)"
  using assms by (auto simp: admission_inv_def count_of_def count_list_0_iff)

lemma admission_step_inv:
  assumes "admission_step cfg e s s'" "admission_inv cfg s"
  shows "admission_inv cfg s'"
  using assms
proof cases
  case (admitted p b c)
  note cnt = admission_count [OF assms(2)]
  from admitted(2) have b: "b = bucket p" "c = (srvConns s)\<lparr> total := total (srvConns s) + 1,
      perPeer := AList.update (bucket p) (count_of (bucket p) (srvConns s) + 1) (perPeer (srvConns s)) \<rparr>"
    and l1: "limMaxConnections (cfgLimits cfg) > 0 \<Longrightarrow> total (srvConns s) < limMaxConnections (cfgLimits cfg)"
    and l2: "limMaxConnectionsPerCID (cfgLimits cfg) > 0 \<Longrightarrow>
      int (count_list (srvLive s) (bucket p)) < limMaxConnectionsPerCID (cfgLimits cfg)"
    by (auto simp: admit_def cnt split: if_splits)
  have "map_of (perPeer c) b' = (if b' \<in> set (b # srvLive s) then Some (int (count_list (b # srvLive s) b')) else None)" for b'
    using assms(2) by (auto simp: b update_conv' cnt admission_inv_def)
  with assms(2) l1 l2 show ?thesis by (auto simp: admitted(1) admission_inv_def b)
next
  case (ended b)
  note cnt = admission_count [OF assms(2)]
  let ?l = "remove1 b (srvLive s)"
  have pos: "0 < count_list (srvLive s) b" using ended(2) by (metis count_list_0_iff neq0_conv)
  have mem: "b' \<in> set ?l \<longleftrightarrow> 0 < count_list ?l b'" for b' by (metis count_list_0_iff neq0_conv)
  have c: "count_of b ((srvConns s)\<lparr> total := t \<rparr>) = int (count_list (srvLive s) b)" for t
    using cnt [of b] by (simp add: count_of_def)
  have m: "map_of (perPeer (release_slot b (srvConns s))) b' = (if b' \<in> set ?l then Some (int (count_list ?l b')) else None)" for b'
  proof (cases "b' = b")
    case True
    then show ?thesis using pos unfolding mem
      by (auto simp: release_slot_def Let_def c update_conv' delete_conv' count_list_remove1)
  next
    case False
    then have "count_list ?l b' = count_list (srvLive s) b'" by (simp add: count_list_remove1)
    with False assms(2) show ?thesis unfolding mem
      by (auto simp: release_slot_def Let_def update_conv' delete_conv' admission_inv_def count_list_0_iff)
  qed
  have "count_list ?l b' \<le> count_list (srvLive s) b'" for b' by (simp add: count_list_remove1)
  moreover have "length (srvLive s) = Suc (length ?l)"
    using ended(2) length_pos_if_in_set [OF ended(2)] by (simp only: length_remove1 if_True One_nat_def Suc_pred)
  moreover have "total (release_slot b (srvConns s)) = total (srvConns s) - 1" by (simp add: release_slot_def Let_def)
  ultimately have f: "total (release_slot b (srvConns s)) = int (length ?l)" "length ?l \<le> length (srvLive s)"
    "\<And>b'. count_list ?l b' \<le> count_list (srvLive s) b'"
    using assms(2) by (simp_all add: admission_inv_def)
  have l1: "int (length ?l) \<le> limMaxConnections (cfgLimits cfg)" if "limMaxConnections (cfgLimits cfg) > 0"
    using assms(2) that f(2) by (simp add: admission_inv_def)
  have l2: "int (count_list ?l b') \<le> limMaxConnectionsPerCID (cfgLimits cfg)" if "limMaxConnectionsPerCID (cfgLimits cfg) > 0" for b'
  proof -
    have "int (count_list (srvLive s) b') \<le> limMaxConnectionsPerCID (cfgLimits cfg)"
      using assms(2) that by (simp add: admission_inv_def)
    with f(3) [of b'] show ?thesis by linarith
  qed
  show ?thesis unfolding ended(1) admission_inv_def using f(1) m l1 l2 by simp
qed

lemma admission_reachable_inv: "admission_reachable cfg e s \<Longrightarrow> admission_inv cfg s"
proof (induction rule: admission_reachable.induct)
  case init
  then show ?case by (simp add: admission_inv_def)
next
  case (step s s')
  then show ?case by (simp add: admission_step_inv)
qed

text \<open>
  C40: Connection limits hold. Under any sequence of admissions and session ends the counters are exactly
  the number of live sessions, in total and per bucket, a bucket without sessions has no entry, and
  with a validated configuration neither limit is ever exceeded.
\<close>

theorem admission_limits:
  assumes "Validate cfg = Inr ()" "admission_reachable cfg e s"
  shows "total (srvConns s) = int (length (srvLive s)) \<and> total (srvConns s) \<le> limMaxConnections (cfgLimits cfg) \<and>
    (\<forall>b. count_of b (srvConns s) = int (count_list (srvLive s) b) \<and>
       count_of b (srvConns s) \<le> limMaxConnectionsPerCID (cfgLimits cfg) \<and>
       (count_list (srvLive s) b = 0 \<longrightarrow> map_of (perPeer (srvConns s)) b = None))"
proof -
  have inv: "admission_inv cfg s" by (rule admission_reachable_inv [OF assms(2)])
  have "map_of (perPeer (srvConns s)) b = None" if "count_list (srvLive s) b = 0" for b
    using inv that by (simp add: admission_inv_def count_list_0_iff)
  with inv validate_facts(4,5) [OF assms(1)] admission_count [OF inv] show ?thesis by (simp add: admission_inv_def)
qed


theorem admission_limits_witness:
  "total (srvConns \<lparr> srvConns = \<lparr> total = 1, perPeer = [(''cid:3'', 1)] \<rparr>, srvLive = [''cid:3''] \<rparr>) \<le>
     limMaxConnections (cfgLimits (DefaultHost None)) \<and>
   count_of ''cid:3'' \<lparr> total = 1, perPeer = [(''cid:3'', 1)] \<rparr> \<le> limMaxConnectionsPerCID (cfgLimits (DefaultHost None))"
proof -
  let ?cfg = "DefaultHost None" and ?p = "\<lparr> peerCid = 3, peerVsock = True, peerAddr = [] \<rparr>"
  let ?e = "newEnricher ?cfg None"
  have v: "Validate ?cfg = Inr ()"
    by (simp add: Validate_def DefaultHost_def validate_listen_def validateLogging_def TransportVSOCK_def)
  have b: "bucket ?p = ''cid:3''" by (simp add: bucket_def dec_text.simps digit_char_def) code_simp
  have "admit ?cfg ?e ?p (source_of ?p ?e) \<lparr> total = 0, perPeer = [] \<rparr> =
      (Inr ''cid:3'', \<lparr> total = 1, perPeer = [(''cid:3'', 1)] \<rparr>)"
    by (simp add: admit_def authorized_def newEnricher_def DefaultHost_def count_of_def b)
  from admission_reachable.step [OF admission_reachable.init admission_step.admitted [of ?cfg ?e ?p]] this
  have "admission_reachable ?cfg ?e \<lparr> srvConns = \<lparr> total = 1, perPeer = [(''cid:3'', 1)] \<rparr>, srvLive = [''cid:3''] \<rparr>"
    by simp
  from admission_limits [OF v this] show ?thesis unfolding server_run.select_convs by blast
qed

text \<open>
  The frame limit announced to a guest in READY is the one the decoder enforces: the decoder's own
  normalisation does not change it.
\<close>

theorem announced_payload_enforced:
  "unat (normalizeMaxPayload (word_of_nat (effectiveMaxPayload cfg))) = effectiveMaxPayload cfg \<and>
   0 < effectiveMaxPayload cfg \<and> effectiveMaxPayload cfg \<le> unat MaxPayloadCeiling"
proof -
  let ?n = "limMaxPayloadSize (cfgLimits cfg)"
  have c: "uint MaxPayloadCeiling = 67108864" "unat MaxPayloadCeiling = 67108864"
    "unat DefaultMaxPayloadSize = 1048576" by (simp_all add: MaxPayloadCeiling_def DefaultMaxPayloadSize_def)
  have e: "effectiveMaxPayload cfg = (if ?n \<le> 0 then 1048576 else if ?n > 67108864 then 67108864 else nat ?n)"
    by (simp add: effectiveMaxPayload_def Let_def c)
  have b: "0 < effectiveMaxPayload cfg" "effectiveMaxPayload cfg \<le> 67108864" by (auto simp: e)
  have u: "unat (word_of_nat (effectiveMaxPayload cfg) :: 32 word) = effectiveMaxPayload cfg"
    using b by (simp add: unat_of_nat)
  have "(word_of_nat (effectiveMaxPayload cfg) :: 32 word) \<noteq> 0" using u b(1) by (metis unat_0 less_irrefl)
  moreover have "\<not> MaxPayloadCeiling < (word_of_nat (effectiveMaxPayload cfg) :: 32 word)"
    using b(2) by (simp add: word_less_nat_alt u c)
  ultimately show ?thesis using b u c by (simp add: normalizeMaxPayload_def)
qed

end
