(* ===== verification/Host_Monitor.thy ===== *)
theory Host_Monitor
  imports Host_Enrich "HOL-Library.Multiset"
begin

section \<open>Stream health\<close>

text \<open>
  \<^verbatim>\<open>SauronAgent/internal/host/monitor.go\<close>, \<^verbatim>\<open>monitor_health.go\<close> and \<^verbatim>\<open>identity_recovery.go\<close>: the collector
  watches the VMs that must be present and queues an alert when one falls silent or comes back. Every
  function that holds the monitor's mutex is one function on the state; the map of VMs is an
  association list in the order the next loop visits it. \<open>lastRefresh\<close> is \<open>None\<close> for the zero time,
  \<open>refreshErr\<close> the text of the error, \<open>hasExpected\<close> tells whether an inventory callback is set, and the
  counter \<^verbatim>\<open>StreamsLost\<close> is part of the state. Log lines are dropped.

  Publication releases the mutex around every write, so it is a sequence of steps (\<open>publish_begin\<close>,
  \<open>publish_front\<close>, \<open>publish_pop\<close>, \<open>publish_end\<close>) that interleave with the other operations.
\<close>

record vmHealth =
  hMapping :: VMMapping
  hSource :: source
  hLastSeen :: int
  hObserved :: bool
  hLost :: bool

record streamAlert =
  alSource :: source
  alEvent :: event

record monitor =
  moEnabled :: bool
  moTimeout :: int
  moStartupGrace :: int
  moInterval :: int
  moHostName :: string
  hasExpected :: bool
  moVMs :: "(nat \<times> vmHealth) list"
  lastRefresh :: "int option"
  refreshErr :: "string option"
  alerts :: "streamAlert list"
  publishing :: bool
  moOverflow :: bool
  streamsLost :: nat

definition maxPendingStreamAlerts :: nat where
  "maxPendingStreamAlerts = 4096"

definition newVMHealth :: "string \<Rightarrow> VMMapping \<Rightarrow> int \<Rightarrow> vmHealth" where
  "newVMHealth hostName vm now = \<lparr> hMapping = vm,
     hSource = zero_source\<lparr> srcCID := vmCID vm, srcVM := vmName vm, srcUUID := vmUUID vm, srcHost := hostName,
       srcKnown := True, srcEnvironment := vmEnvironment vm, srcSecurityDomain := vmSecurityDomain vm,
       srcVLAN := vmVLAN vm, srcLabels := vmLabels vm \<rparr>,
     hLastSeen = now, hObserved = False, hLost = False \<rparr>"

text \<open>The clock is read once per expected VM; \<open>now\<close> gives the readings in turn.\<close>

fun expected_loop :: "string \<Rightarrow> (nat \<Rightarrow> int) \<Rightarrow> nat \<Rightarrow> VMMapping list \<Rightarrow> (nat \<times> vmHealth) list \<Rightarrow> (nat \<times> vmHealth) list" where
  "expected_loop hostName now i [] m = m"
| "expected_loop hostName now i (vm # vms) m =
     (if vmExpected vm
      then expected_loop hostName now (Suc i) vms (AList.update (vmCID vm) (newVMHealth hostName vm (now i)) m)
      else expected_loop hostName now i vms m)"

definition newMonitor :: "host_config \<Rightarrow> (nat \<Rightarrow> int) \<Rightarrow> monitor" where
  "newMonitor cfg now = \<lparr> moEnabled = monEnabled (cfgMonitor cfg), moTimeout = monTimeout (cfgMonitor cfg),
     moStartupGrace = monTimeout (cfgMonitor cfg), moInterval = monCheckInterval (cfgMonitor cfg),
     moHostName = cfgHostName cfg, hasExpected = False,
     moVMs = expected_loop (cfgHostName cfg) now 0 (cfgVMs cfg) [],
     lastRefresh = None, refreshErr = None, alerts = [], publishing = False, moOverflow = False, streamsLost = 0 \<rparr>"

subsection \<open>Queueing alerts\<close>

definition queueLocked :: "source \<Rightarrow> event \<Rightarrow> monitor \<Rightarrow> bool \<times> monitor" where
  "queueLocked src ev m =
     (if length (alerts m) \<ge> maxPendingStreamAlerts then (False, m\<lparr> moOverflow := True \<rparr>)
      else (True, m\<lparr> alerts := alerts m @ [\<lparr> alSource = src, alEvent = ev \<rparr>] \<rparr>))"

definition resumed_event :: "int \<Rightarrow> int \<Rightarrow> vmHealth \<Rightarrow> int \<Rightarrow> event" where
  "resumed_event now silence h timeout = NewInternal now TypeStreamResumed SeverityNotice
     [(''vm'', FStr (vmName (hMapping h))), (''cid'', FUint (vmCID (hMapping h))),
      (''silent_seconds'', FSeconds silence), (''monitor_timeout'', FDuration timeout)]"

definition lost_event :: "int \<Rightarrow> int \<Rightarrow> vmHealth \<Rightarrow> int \<Rightarrow> event" where
  "lost_event now silence h timeout = NewInternal now TypeStreamLost SeverityCritical
     [(''vm'', FStr (vmName (hMapping h))), (''cid'', FUint (vmCID (hMapping h))),
      (''last_seen'', FTime (hLastSeen h)), (''silent_seconds'', FSeconds silence),
      (''monitor_timeout'', FDuration timeout), (''never_connected'', FBool (\<not> hObserved h))]"

text \<open>\<open>ts\<close> is the time stamp \<open>NewInternal\<close> gives the event.\<close>

definition resumeLocked :: "int \<Rightarrow> int \<Rightarrow> vmHealth \<Rightarrow> monitor \<Rightarrow> vmHealth \<times> monitor" where
  "resumeLocked ts silence h m =
     (let (ok, m1) = queueLocked (hSource h) (resumed_event ts silence h (moTimeout m)) m in
      (if ok then h\<lparr> hLost := False \<rparr> else h, m1))"

definition loseLocked :: "int \<Rightarrow> int \<Rightarrow> vmHealth \<Rightarrow> monitor \<Rightarrow> vmHealth \<times> monitor" where
  "loseLocked ts silence h m =
     (let (ok, m1) = queueLocked (hSource h) (lost_event ts silence h (moTimeout m)) m in
      if ok then (h\<lparr> hLost := True \<rparr>, m1\<lparr> streamsLost := streamsLost m1 + 1 \<rparr>) else (h, m1))"

definition allowedSilence :: "vmHealth \<Rightarrow> monitor \<Rightarrow> int" where
  "allowedSilence h m = (if \<not> hObserved h then moStartupGrace m else moTimeout m)"

text \<open>What \<open>seen\<close> does to the VM it belongs to.\<close>

definition seen_vm :: "int \<Rightarrow> int \<Rightarrow> vmHealth \<Rightarrow> monitor \<Rightarrow> vmHealth \<times> monitor" where
  "seen_vm ts at h m =
     (let silence = at - hLastSeen h;
          h1 = (if at > hLastSeen h then h\<lparr> hLastSeen := at, hObserved := True \<rparr> else h\<lparr> hObserved := True \<rparr>)
      in if hLost h1 then resumeLocked ts silence h1 m else (h1, m))"

definition seen :: "int \<Rightarrow> peer \<Rightarrow> source \<Rightarrow> int \<Rightarrow> monitor \<Rightarrow> monitor" where
  "seen ts p src at m =
     (if \<not> moEnabled m \<or> \<not> peerVsock p then m
      else case map_of (moVMs m) (peerCid p) of
        None \<Rightarrow> m
      | Some h \<Rightarrow>
          if \<not> srcKnown src \<or> vmName (hMapping h) \<noteq> srcVM src \<or> vmUUID (hMapping h) \<noteq> srcUUID src then m
          else let (h1, m1) = seen_vm ts at h m in m1\<lparr> moVMs := AList.update (peerCid p) h1 (moVMs m1) \<rparr>)"

definition check_vm :: "int \<Rightarrow> int \<Rightarrow> vmHealth \<Rightarrow> monitor \<Rightarrow> vmHealth \<times> monitor" where
  "check_vm ts now h m =
     (let silence = now - hLastSeen h in
      if silence \<le> allowedSilence h m
      then (if hLost h \<and> hObserved h then resumeLocked ts silence h m else (h, m))
      else if \<not> hLost h then loseLocked ts silence h m
      else (h, m))"

fun check_loop :: "int \<Rightarrow> int \<Rightarrow> (nat \<times> vmHealth) list \<Rightarrow> monitor \<Rightarrow> (nat \<times> vmHealth) list \<times> monitor" where
  "check_loop ts now [] m = ([], m)"
| "check_loop ts now ((cid, h) # rest) m =
     (let (h1, m1) = check_vm ts now h m; (rest1, m2) = check_loop ts now rest m1 in ((cid, h1) # rest1, m2))"

text \<open>The part of \<open>checkContext\<close> under the mutex.\<close>

definition checkContext :: "int \<Rightarrow> int \<Rightarrow> monitor \<Rightarrow> monitor" where
  "checkContext ts now m = (let (vms, m1) = check_loop ts now (moVMs m) m in m1\<lparr> moVMs := vms \<rparr>)"

subsection \<open>Publication\<close>

text \<open>The remaining attempts of the loop belong to the goroutine that publishes.\<close>

definition publish_begin :: "monitor \<Rightarrow> nat option \<times> monitor" where
  "publish_begin m = (if publishing m then (None, m) else (Some (length (alerts m)), m\<lparr> publishing := True \<rparr>))"

definition publish_front :: "monitor \<Rightarrow> streamAlert option" where
  "publish_front m = (case alerts m of [] \<Rightarrow> None | a # _ \<Rightarrow> Some a)"

definition publish_pop :: "monitor \<Rightarrow> monitor" where
  "publish_pop m = m\<lparr> alerts := tl (alerts m) \<rparr>"

definition publish_end :: "monitor \<Rightarrow> monitor" where
  "publish_end m = m\<lparr> publishing := False \<rparr>"

subsection \<open>The expected VMs\<close>

datatype inventory_error = InvalidMapping | DuplicateCIDs

fun validate_expected_loop :: "nat list \<Rightarrow> VMMapping list \<Rightarrow> (inventory_error, unit) result" where
  "validate_expected_loop met [] = Inr ()"
| "validate_expected_loop met (vm # vms) =
     (if vmCID vm < 3 \<or> vmCID vm = VMADDR_CID_ANY \<or> vmName vm = [] then Inl InvalidMapping
      else if vmCID vm \<in> set met then Inl DuplicateCIDs
      else validate_expected_loop (vmCID vm # met) vms)"

definition validateExpectedVMs :: "VMMapping list \<Rightarrow> (inventory_error, unit) result" where
  "validateExpectedVMs vms = validate_expected_loop [] vms"

fun inventory_error_text :: "inventory_error \<Rightarrow> string" where
  "inventory_error_text InvalidMapping = ''expected agent inventory contains an invalid VM mapping''"
| "inventory_error_text DuplicateCIDs = ''expected agent inventory contains duplicate CIDs''"

definition carry_over :: "int \<Rightarrow> monitor \<Rightarrow> VMMapping \<Rightarrow> vmHealth" where
  "carry_over now m vm =
     (let h = newVMHealth (moHostName m) vm now in
      case map_of (moVMs m) (vmCID vm) of
        Some prev \<Rightarrow>
          if vmName (hMapping prev) = vmName vm \<and> vmUUID (hMapping prev) = vmUUID vm
          then h\<lparr> hLastSeen := hLastSeen prev, hObserved := hObserved prev, hLost := hLost prev \<rparr>
          else h
      | None \<Rightarrow> h)"

text \<open>\<open>inventory\<close> is what the callback returned, \<open>at\<close> the clock read under the mutex.\<close>

definition refresh :: "int \<Rightarrow> int \<Rightarrow> (string, VMMapping list) result \<Rightarrow> monitor \<Rightarrow> monitor" where
  "refresh now at inventory m =
     (if \<not> hasExpected m then m
      else
        let m1 = m\<lparr> lastRefresh := Some at \<rparr> in
        case inventory of
          Inl e \<Rightarrow> m1\<lparr> refreshErr := Some e \<rparr>
        | Inr vms \<Rightarrow>
            (case validateExpectedVMs vms of
               Inl e \<Rightarrow> m1\<lparr> refreshErr := Some (inventory_error_text e) \<rparr>
             | Inr _ \<Rightarrow> m1\<lparr> refreshErr := None,
                 moVMs := fold (\<lambda>vm next. AList.update (vmCID vm) (carry_over now m vm) next) vms [] \<rparr>))"

text \<open>The first step of \<open>run\<close>: the grace period of VMs not yet observed starts now.\<close>

definition run_start :: "int \<Rightarrow> monitor \<Rightarrow> monitor" where
  "run_start now m = m\<lparr> moVMs := map (\<lambda>(cid, h). (cid, if hObserved h then h else h\<lparr> hLastSeen := now \<rparr>)) (moVMs m) \<rparr>"

definition stale :: "int \<Rightarrow> monitor \<Rightarrow> bool" where
  "stale now m = (case lastRefresh m of None \<Rightarrow> True | Some t \<Rightarrow> now - t > 3 * moInterval m)"

datatype monitor_unready = RefreshFailed string | InventoryStale | AlertsOverflowed | AlertsPending nat | AgentsSilent nat

definition monitor_readiness :: "int \<Rightarrow> monitor \<Rightarrow> (monitor_unready, unit) result" where
  "monitor_readiness now m =
     (if \<not> moEnabled m then Inr ()
      else if hasExpected m \<and> refreshErr m \<noteq> None then Inl (RefreshFailed (the (refreshErr m)))
      else if hasExpected m \<and> stale now m then Inl InventoryStale
      else if moOverflow m then Inl AlertsOverflowed
      else if alerts m \<noteq> [] then Inl (AlertsPending (length (alerts m)))
      else
        let silent = length (filter (\<lambda>(_, h). now - hLastSeen h > allowedSilence h m) (moVMs m)) in
        if silent > 0 then Inl (AgentsSilent silent) else Inr ())"

definition identityAvailable :: "peer \<Rightarrow> source \<Rightarrow> int \<Rightarrow> monitor \<Rightarrow> bool" where
  "identityAvailable p src now m =
     (if \<not> moEnabled m \<or> \<not> hasExpected m \<or> \<not> peerVsock p then False
      else if srcKnown src \<and> srcVM src \<noteq> [] \<and> srcUUID src \<noteq> [] then False
      else if refreshErr m \<noteq> None \<or> stale now m then False
      else case map_of (moVMs m) (peerCid p) of
        None \<Rightarrow> False
      | Some h \<Rightarrow> vmName (hMapping h) \<noteq> [] \<and> vmUUID (hMapping h) \<noteq> [])"


subsection \<open>What a check does\<close>

text \<open>The alert that the change from \<open>h\<close> to \<open>h'\<close> announces.\<close>

definition flip_alert :: "int \<Rightarrow> int \<Rightarrow> monitor \<Rightarrow> vmHealth \<Rightarrow> vmHealth \<Rightarrow> streamAlert list" where
  "flip_alert ts now m h h' =
     (if \<not> hLost h \<and> hLost h' then [\<lparr> alSource = hSource h, alEvent = lost_event ts (now - hLastSeen h) h (moTimeout m) \<rparr>]
      else if hLost h \<and> \<not> hLost h' then [\<lparr> alSource = hSource h, alEvent = resumed_event ts (now - hLastSeen h) h (moTimeout m) \<rparr>]
      else [])"

definition monitor_same :: "monitor \<Rightarrow> monitor \<Rightarrow> bool" where
  "monitor_same m m' \<longleftrightarrow>
     (\<exists>as ov n. m' = m\<lparr> alerts := as, moOverflow := ov, streamsLost := n \<rparr> \<and> (moOverflow m \<longrightarrow> ov))"

lemma monitor_same_refl: "monitor_same m m"
  unfolding monitor_same_def
  by (intro exI [of _ "alerts m"] exI [of _ "moOverflow m"] exI [of _ "streamsLost m"]) simp

lemma monitor_same_trans: "monitor_same a b \<Longrightarrow> monitor_same b c \<Longrightarrow> monitor_same a c"
  unfolding monitor_same_def by (elim exE) (simp, blast)

lemma monitor_same_fields:
  assumes "monitor_same m m'"
  shows "moEnabled m' = moEnabled m" "moTimeout m' = moTimeout m" "moStartupGrace m' = moStartupGrace m"
    "moVMs m' = moVMs m" "publishing m' = publishing m" "allowedSilence h m' = allowedSilence h m"
    "moOverflow m \<Longrightarrow> moOverflow m'" "flip_alert ts now m' h h' = flip_alert ts now m h h'"
proof -
  from assms obtain as ov n where m': "m' = m\<lparr> alerts := as, moOverflow := ov, streamsLost := n \<rparr>" "moOverflow m \<longrightarrow> ov"
    unfolding monitor_same_def by blast
  show "moEnabled m' = moEnabled m" "moTimeout m' = moTimeout m" "moStartupGrace m' = moStartupGrace m"
    "moVMs m' = moVMs m" "publishing m' = publishing m" unfolding m'(1) by simp_all
  show "allowedSilence h m' = allowedSilence h m" unfolding m'(1) by (simp add: allowedSilence_def)
  show "moOverflow m \<Longrightarrow> moOverflow m'" unfolding m'(1) using m'(2) by simp
  have "moTimeout m' = moTimeout m" unfolding m'(1) by simp
  then show "flip_alert ts now m' h h' = flip_alert ts now m h h'"
    by (simp add: flip_alert_def)
qed

lemma queueLocked_cases:
  obtains (full) "queueLocked src ev m = (False, m\<lparr> moOverflow := True \<rparr>)" "maxPendingStreamAlerts \<le> length (alerts m)"
  | (room) "queueLocked src ev m = (True, m\<lparr> alerts := alerts m @ [\<lparr> alSource = src, alEvent = ev \<rparr>] \<rparr>)"
      "length (alerts m) < maxPendingStreamAlerts"
proof (cases "maxPendingStreamAlerts \<le> length (alerts m)")
  case True
  then show ?thesis by (intro full) (simp_all add: queueLocked_def)
next
  case False
  then show ?thesis by (intro room) (simp_all add: queueLocked_def)
qed

lemma check_vm_spec:
  assumes "check_vm ts now h m = (h', m')"
  shows "monitor_same m m'" "alerts m' = alerts m @ flip_alert ts now m h h'"
    "h' = h\<lparr> hLost := hLost h' \<rparr>" "length (alerts m) \<le> maxPendingStreamAlerts \<Longrightarrow> length (alerts m') \<le> maxPendingStreamAlerts"
    "now - hLastSeen h > allowedSilence h m \<Longrightarrow> hLost h' \<or> moOverflow m'"
    "\<not> hLost h \<Longrightarrow> hLost h' \<Longrightarrow> now - hLastSeen h > allowedSilence h m"
    "hLost h \<Longrightarrow> \<not> hLost h' \<Longrightarrow> now - hLastSeen h \<le> allowedSilence h m \<and> hObserved h"
proof -
  let ?s = "now - hLastSeen h"
  have "monitor_same m m' \<and> alerts m' = alerts m @ flip_alert ts now m h h' \<and> h' = h\<lparr> hLost := hLost h' \<rparr> \<and>
    (length (alerts m) \<le> maxPendingStreamAlerts \<longrightarrow> length (alerts m') \<le> maxPendingStreamAlerts) \<and>
    (?s > allowedSilence h m \<longrightarrow> hLost h' \<or> moOverflow m') \<and>
    (\<not> hLost h \<longrightarrow> hLost h' \<longrightarrow> ?s > allowedSilence h m) \<and>
    (hLost h \<longrightarrow> \<not> hLost h' \<longrightarrow> ?s \<le> allowedSilence h m \<and> hObserved h)"
  proof (cases "?s \<le> allowedSilence h m")
    case True
    show ?thesis
    proof (cases "hLost h \<and> hObserved h")
      case lost: True
      show ?thesis
      proof (cases rule: queueLocked_cases [of "hSource h" "resumed_event ts ?s h (moTimeout m)" m])
        case full
        then have r: "h' = h" "m' = m\<lparr> moOverflow := True \<rparr>"
          using assms True lost by (simp_all add: check_vm_def resumeLocked_def Let_def)
        then have "monitor_same m m'" unfolding monitor_same_def
          by (intro exI [of _ "alerts m"] exI [of _ True] exI [of _ "streamsLost m"]) simp
        with True r show ?thesis by (simp add: flip_alert_def)
      next
        case room
        then have r: "h' = h\<lparr> hLost := False \<rparr>"
          "m' = m\<lparr> alerts := alerts m @ [\<lparr> alSource = hSource h, alEvent = resumed_event ts ?s h (moTimeout m) \<rparr>] \<rparr>"
          using assms True lost by (simp_all add: check_vm_def resumeLocked_def Let_def)
        then have "monitor_same m m'" unfolding monitor_same_def
          by (intro exI [of _ "alerts m'"] exI [of _ "moOverflow m"] exI [of _ "streamsLost m"]) simp
        with True lost r room(2) show ?thesis by (simp add: flip_alert_def)
      qed
    next
      case False
      then have "h' = h" "m' = m" using assms True by (auto simp: check_vm_def Let_def)
      with True show ?thesis by (simp add: monitor_same_refl flip_alert_def)
    qed
  next
    case silent: False
    show ?thesis
    proof (cases "hLost h")
      case True
      then have "h' = h" "m' = m" using assms silent by (auto simp: check_vm_def Let_def)
      with True silent show ?thesis by (simp add: monitor_same_refl flip_alert_def)
    next
      case alive: False
      show ?thesis
      proof (cases rule: queueLocked_cases [of "hSource h" "lost_event ts ?s h (moTimeout m)" m])
        case full
        then have r: "h' = h" "m' = m\<lparr> moOverflow := True \<rparr>"
          using assms silent alive by (simp_all add: check_vm_def loseLocked_def Let_def)
        then have "monitor_same m m'" unfolding monitor_same_def
          by (intro exI [of _ "alerts m"] exI [of _ True] exI [of _ "streamsLost m"]) simp
        with silent alive r show ?thesis by (simp add: flip_alert_def)
      next
        case room
        then have r: "h' = h\<lparr> hLost := True \<rparr>"
          "m' = m\<lparr> alerts := alerts m @ [\<lparr> alSource = hSource h, alEvent = lost_event ts ?s h (moTimeout m) \<rparr>], streamsLost := streamsLost m + 1 \<rparr>"
          using assms silent alive by (simp_all add: check_vm_def loseLocked_def Let_def)
        then have "monitor_same m m'" unfolding monitor_same_def
          by (intro exI [of _ "alerts m'"] exI [of _ "moOverflow m"] exI [of _ "streamsLost m + 1"]) simp
        with silent alive r room(2) show ?thesis by (simp add: flip_alert_def)
      qed
    qed
  qed
  then show "monitor_same m m'" "alerts m' = alerts m @ flip_alert ts now m h h'"
    "h' = h\<lparr> hLost := hLost h' \<rparr>" "length (alerts m) \<le> maxPendingStreamAlerts \<Longrightarrow> length (alerts m') \<le> maxPendingStreamAlerts"
    "?s > allowedSilence h m \<Longrightarrow> hLost h' \<or> moOverflow m'"
    "\<not> hLost h \<Longrightarrow> hLost h' \<Longrightarrow> ?s > allowedSilence h m"
    "hLost h \<Longrightarrow> \<not> hLost h' \<Longrightarrow> ?s \<le> allowedSilence h m \<and> hObserved h"
    by blast+
qed


fun flip_alerts :: "int \<Rightarrow> int \<Rightarrow> monitor \<Rightarrow> (nat \<times> vmHealth) list \<Rightarrow> (nat \<times> vmHealth) list \<Rightarrow> streamAlert list" where
  "flip_alerts ts now m ((_, h) # hs) ((_, h') # hs') = flip_alert ts now m h h' @ flip_alerts ts now m hs hs'"
| "flip_alerts ts now m _ _ = []"

lemma flip_alerts_same: "monitor_same m m' \<Longrightarrow> flip_alerts ts now m' hs hs' = flip_alerts ts now m hs hs'"
  by (induction ts now m hs hs' rule: flip_alerts.induct) (simp_all add: monitor_same_fields(8))

lemma check_loop_spec:
  "check_loop ts now hs m = (hs', m') \<Longrightarrow>
     monitor_same m m' \<and> alerts m' = alerts m @ flip_alerts ts now m hs hs' \<and>
     list_all2 (\<lambda>(c, h) (c', h'). c' = c \<and> h' = h\<lparr> hLost := hLost h' \<rparr> \<and>
       (now - hLastSeen h > allowedSilence h m \<longrightarrow> hLost h' \<or> moOverflow m') \<and>
       (\<not> hLost h \<longrightarrow> hLost h' \<longrightarrow> now - hLastSeen h > allowedSilence h m) \<and>
       (hLost h \<longrightarrow> \<not> hLost h' \<longrightarrow> now - hLastSeen h \<le> allowedSilence h m \<and> hObserved h)) hs hs' \<and>
     (length (alerts m) \<le> maxPendingStreamAlerts \<longrightarrow> length (alerts m') \<le> maxPendingStreamAlerts)"
proof (induction ts now hs m arbitrary: hs' m' rule: check_loop.induct)
  case (1 ts now m)
  then show ?case by (simp add: monitor_same_refl)
next
  case (2 ts now cid h rest m)
  obtain h1 m1 where c: "check_vm ts now h m = (h1, m1)" by (cases "check_vm ts now h m")
  obtain rest1 m2 where r: "check_loop ts now rest m1 = (rest1, m2)" by (cases "check_loop ts now rest m1")
  have eq: "hs' = (cid, h1) # rest1" "m' = m2" using 2(2) by (simp_all add: c r)
  note cv = check_vm_spec [OF c] and ih = 2(1) [OF c [symmetric] refl r]
  have al: "allowedSilence h m1 = allowedSilence h m" for h by (rule monitor_same_fields(6) [OF cv(1)])
  have ov: "moOverflow m1 \<Longrightarrow> moOverflow m2" using monitor_same_fields(7) ih by blast
  have "monitor_same m m'" using monitor_same_trans cv(1) ih unfolding eq by blast
  moreover have "alerts m' = alerts m @ flip_alerts ts now m ((cid, h) # rest) hs'"
    using ih cv(2) flip_alerts_same [OF cv(1)] unfolding eq by simp
  ultimately show ?case using ih cv(3-7) ov unfolding eq al by auto
qed



definition demo_vm :: VMMapping where
  "demo_vm = \<lparr> vmCID = 3, vmName = ''vm'', vmUUID = ''u'', vmEnvironment = [], vmSecurityDomain = [], vmVLAN = [],
     vmLabels = [], vmExpected = True \<rparr>"

definition demo_monitor :: monitor where
  "demo_monitor = \<lparr> moEnabled = True, moTimeout = 90, moStartupGrace = 90, moInterval = 15, moHostName = ''h'',
     hasExpected = False, moVMs = [(3, newVMHealth ''h'' demo_vm 0)], lastRefresh = None, refreshErr = None,
     alerts = [], publishing = False, moOverflow = False, streamsLost = 0 \<rparr>"


text \<open>Operations other than the publisher's only append alerts, within the bound.\<close>

definition appends :: "monitor \<Rightarrow> monitor \<Rightarrow> bool" where
  "appends m m' \<longleftrightarrow> (\<exists>as. alerts m' = alerts m @ as) \<and> publishing m' = publishing m \<and>
     (length (alerts m) \<le> maxPendingStreamAlerts \<longrightarrow> length (alerts m') \<le> maxPendingStreamAlerts)"

lemma seen_vm_spec:
  assumes "seen_vm ts at h m = (h', m')"
  shows "moVMs m' = moVMs m" "appends m m'" "hLastSeen h \<le> hLastSeen h'" "hObserved h'" "hLost h' \<Longrightarrow> hLost h"
proof -
  define h1 where "h1 = (if at > hLastSeen h then h\<lparr> hLastSeen := at, hObserved := True \<rparr> else h\<lparr> hObserved := True \<rparr>)"
  have r: "(h', m') = (if hLost h1 then resumeLocked ts (at - hLastSeen h) h1 m else (h1, m))"
    using assms unfolding seen_vm_def Let_def h1_def [symmetric] by simp
  have h1: "hLastSeen h \<le> hLastSeen h1" "hObserved h1" "hLost h1 = hLost h" by (simp_all add: h1_def)
  have "moVMs m' = moVMs m \<and> appends m m' \<and> (h' = h1 \<or> h' = h1\<lparr> hLost := False \<rparr>)"
  proof (cases "hLost h1")
    case False
    then show ?thesis using r by (simp add: appends_def)
  next
    case True
    show ?thesis
    proof (cases rule: queueLocked_cases [of "hSource h1" "resumed_event ts (at - hLastSeen h) h1 (moTimeout m)" m])
      case full
      then have "h' = h1" "m' = m\<lparr> moOverflow := True \<rparr>" using r True by (simp_all add: resumeLocked_def)
      then show ?thesis by (simp add: appends_def)
    next
      case room
      then have "h' = h1\<lparr> hLost := False \<rparr>"
        "m' = m\<lparr> alerts := alerts m @ [\<lparr> alSource = hSource h1, alEvent = resumed_event ts (at - hLastSeen h) h1 (moTimeout m) \<rparr>] \<rparr>"
        using r True by (simp_all add: resumeLocked_def)
      then show ?thesis using room(2) by (simp add: appends_def)
    qed
  qed
  then show "moVMs m' = moVMs m" "appends m m'" "hLastSeen h \<le> hLastSeen h'" "hObserved h'" "hLost h' \<Longrightarrow> hLost h"
    using h1 by auto
qed

lemma seen_cases:
  obtains (ignored) "seen ts p src at m = m"
  | (known) h h' m' where "peerVsock p" "map_of (moVMs m) (peerCid p) = Some h" "srcKnown src"
      "vmName (hMapping h) = srcVM src" "vmUUID (hMapping h) = srcUUID src" "seen_vm ts at h m = (h', m')"
      "seen ts p src at m = m'\<lparr> moVMs := AList.update (peerCid p) h' (moVMs m') \<rparr>"
proof (cases "moEnabled m \<and> peerVsock p")
  case True
  show ?thesis
  proof (cases "map_of (moVMs m) (peerCid p)")
    case None
    then show ?thesis by (intro ignored) (simp add: seen_def)
  next
    case (Some h)
    obtain h' m' where v: "seen_vm ts at h m = (h', m')" by (cases "seen_vm ts at h m")
    show ?thesis
    proof (cases "srcKnown src \<and> vmName (hMapping h) = srcVM src \<and> vmUUID (hMapping h) = srcUUID src")
      case id: True
      show ?thesis by (rule known [OF _ Some _ _ _ v]) (use True id in \<open>simp_all add: seen_def Some v\<close>)
    next
      case False
      then show ?thesis by (intro ignored) (simp add: seen_def Some)
    qed
  qed
next
  case False
  then show ?thesis by (intro ignored) (simp add: seen_def)
qed

text \<open>
  Health follows the trusted identity. Traffic of a connection changes the health of a VM only if
  the connection's CID is that VM's and the source pinned at admission names the same VM by name and
  UUID; and it never makes a VM look older, nor marks one as lost.
\<close>

theorem seen_matches_identity:
  assumes "map_of (moVMs m) c = Some h" "map_of (moVMs (seen ts p src at m)) c = Some h'" "h' \<noteq> h"
  shows "c = peerCid p \<and> peerVsock p \<and> srcKnown src \<and> vmName (hMapping h) = srcVM src \<and>
    vmUUID (hMapping h) = srcUUID src \<and> hLastSeen h \<le> hLastSeen h' \<and> hObserved h' \<and> (hLost h' \<longrightarrow> hLost h)"
proof (cases rule: seen_cases [of ts p src at m])
  case ignored
  then show ?thesis using assms by simp
next
  case (known g g' m')
  note sv = seen_vm_spec [OF known(6)]
  have m: "map_of (moVMs (seen ts p src at m)) c = (if c = peerCid p then Some g' else map_of (moVMs m) c)"
    unfolding known(7) by (simp add: sv(1) update_conv')
  then have c: "c = peerCid p" using assms by (auto split: if_splits)
  then have "h = g" "h' = g'" using m assms(1,2) known(2) by simp_all
  then show ?thesis using c known(1,3-5) sv(3-5) by blast
qed

theorem seen_matches_identity_witness:
  "hObserved (snd (hd (moVMs (seen 0 \<lparr> peerCid = 3, peerVsock = True, peerAddr = [] \<rparr> (hSource (newVMHealth ''h'' demo_vm 0)) 50 demo_monitor)))) \<and>
   srcKnown (hSource (newVMHealth ''h'' demo_vm 0))"
proof -
  let ?p = "\<lparr> peerCid = 3, peerVsock = True, peerAddr = [] \<rparr>" and ?h = "newVMHealth ''h'' demo_vm 0"
  let ?h' = "?h\<lparr> hLastSeen := 50, hObserved := True \<rparr>"
  have v: "moVMs (seen 0 ?p (hSource ?h) 50 demo_monitor) = [(3, ?h')]"
    by (simp add: seen_def seen_vm_def demo_monitor_def newVMHealth_def demo_vm_def zero_source_def)
  have "?h' \<noteq> ?h" by (simp add: newVMHealth_def)
  then show ?thesis
    using seen_matches_identity [of demo_monitor 3 ?h 0 ?p "hSource ?h" 50 ?h'] v by (simp add: demo_monitor_def)
qed

subsection \<open>Publication\<close>

text \<open>
  The publisher is the goroutine that set \<open>publishing\<close>: how many attempts it has left and the alert it
  read from the front and is writing. \<open>mrOut\<close> collects what the sink accepted, \<open>mrQueued\<close> every alert
  ever queued.
\<close>

record monitor_run =
  mrMon :: monitor
  mrPub :: "(nat \<times> streamAlert option) option"
  mrOut :: "streamAlert list"
  mrQueued :: "streamAlert list"

definition after :: "monitor \<Rightarrow> monitor_run \<Rightarrow> monitor_run" where
  "after m s = s\<lparr> mrMon := m, mrQueued := mrQueued s @ drop (length (alerts (mrMon s))) (alerts m) \<rparr>"

inductive monitor_step :: "monitor_run \<Rightarrow> monitor_run \<Rightarrow> bool" where
  seen: "monitor_step s (after (seen ts p src at (mrMon s)) s)"
| check: "monitor_step s (after (checkContext ts now (mrMon s)) s)"
| refresh: "monitor_step s (after (refresh now at inventory (mrMon s)) s)"
| run_start: "monitor_step s (after (run_start now (mrMon s)) s)"
| map_order: "mset vms = mset (moVMs (mrMon s)) \<Longrightarrow> monitor_step s (after ((mrMon s)\<lparr> moVMs := vms \<rparr>) s)"
| claim_pub: "publish_begin (mrMon s) = (Some n, m) \<Longrightarrow> monitor_step s (s\<lparr> mrMon := m, mrPub := Some (n, None) \<rparr>)"
| front: "mrPub s = Some (Suc n, None) \<Longrightarrow> publish_front (mrMon s) = Some a \<Longrightarrow>
    monitor_step s (s\<lparr> mrPub := Some (Suc n, Some a) \<rparr>)"
| accepted: "mrPub s = Some (Suc n, Some a) \<Longrightarrow>
    monitor_step s (s\<lparr> mrMon := publish_pop (mrMon s), mrPub := Some (n, None), mrOut := mrOut s @ [a] \<rparr>)"
| stop: "mrPub s = Some w \<Longrightarrow> monitor_step s (s\<lparr> mrMon := publish_end (mrMon s), mrPub := None \<rparr>)"

inductive monitor_reachable :: "host_config \<Rightarrow> monitor_run \<Rightarrow> bool" for cfg where
  init: "monitor_reachable cfg \<lparr> mrMon = (newMonitor cfg now)\<lparr> hasExpected := b, moStartupGrace := g \<rparr>,
     mrPub = None, mrOut = [], mrQueued = [] \<rparr>"
| step: "monitor_reachable cfg s \<Longrightarrow> monitor_step s s' \<Longrightarrow> monitor_reachable cfg s'"

definition monitor_inv :: "monitor_run \<Rightarrow> bool" where
  "monitor_inv s \<longleftrightarrow> mrOut s @ alerts (mrMon s) = mrQueued s \<and> length (alerts (mrMon s)) \<le> maxPendingStreamAlerts \<and>
     publishing (mrMon s) = (mrPub s \<noteq> None) \<and>
     (\<forall>n w. mrPub s = Some (n, w) \<longrightarrow> n \<le> length (alerts (mrMon s)) \<and>
        (\<forall>a. w = Some a \<longrightarrow> 0 < n \<and> hd (alerts (mrMon s)) = a))"

lemma appends_inv:
  assumes "monitor_inv s" "appends (mrMon s) m"
  shows "monitor_inv (after m s)"
proof -
  from assms(2) obtain as where as: "alerts m = alerts (mrMon s) @ as" "publishing m = publishing (mrMon s)"
    "length (alerts (mrMon s)) \<le> maxPendingStreamAlerts \<longrightarrow> length (alerts m) \<le> maxPendingStreamAlerts"
    by (auto simp: appends_def)
  have hd: "hd (alerts m) = hd (alerts (mrMon s))" if "0 < n" "n \<le> length (alerts (mrMon s))" for n
    using that by (cases "alerts (mrMon s)") (auto simp: as(1))
  have 1: "mrOut s @ alerts (mrMon s) = mrQueued s" "length (alerts (mrMon s)) \<le> maxPendingStreamAlerts"
    "publishing (mrMon s) = (mrPub s \<noteq> None)"
    and 2: "\<And>n w. mrPub s = Some (n, w) \<Longrightarrow> n \<le> length (alerts (mrMon s)) \<and>
        (\<forall>a. w = Some a \<longrightarrow> 0 < n \<and> hd (alerts (mrMon s)) = a)"
    using assms(1) unfolding monitor_inv_def by blast+
  have a: "mrMon (after m s) = m" "mrPub (after m s) = mrPub s" "mrOut (after m s) = mrOut s"
    "mrQueued (after m s) = mrQueued s @ as" by (simp_all add: after_def as(1))
  have 3: "n \<le> length (alerts m) \<and> (\<forall>a. w = Some a \<longrightarrow> 0 < n \<and> hd (alerts m) = a)" if "mrPub s = Some (n, w)" for n w
    using 2 [OF that] hd [of n] by (auto simp: as(1))
  have 4: "mrOut s @ alerts m = mrQueued s @ as" unfolding as(1) 1(1) [symmetric] by simp
  show ?thesis unfolding monitor_inv_def a using 4 1(2,3) as(2,3) 3 by blast
qed

lemma appends_seen: "appends m (seen ts p src at m)"
proof (cases rule: seen_cases [of ts p src at m])
  case (known h h' m')
  then show ?thesis using seen_vm_spec(2) [OF known(6)] by (simp add: appends_def)
qed (simp add: appends_def)

lemma appends_check: "appends m (checkContext ts now m)"
proof -
  obtain vms m1 where l: "check_loop ts now (moVMs m) m = (vms, m1)" by (cases "check_loop ts now (moVMs m) m")
  have "checkContext ts now m = m1\<lparr> moVMs := vms \<rparr>" by (simp add: checkContext_def l)
  with check_loop_spec [OF l] monitor_same_fields(5) [of m m1] show ?thesis by (auto simp: appends_def)
qed

lemma appends_refresh: "appends m (refresh now at inventory m)"
  by (simp add: appends_def refresh_def Let_def split: sum.split)

lemma monitor_step_inv: "monitor_step s s' \<Longrightarrow> monitor_inv s \<Longrightarrow> monitor_inv s'"
proof (induction rule: monitor_step.induct)
  case (claim_pub s n m)
  then show ?case by (auto simp: monitor_inv_def publish_begin_def split: if_splits)
next
  case (front s n a)
  then show ?case by (auto simp: monitor_inv_def publish_front_def split: list.splits)
next
  case (accepted s n a)
  then obtain as where "alerts (mrMon s) = a # as" by (cases "alerts (mrMon s)") (auto simp: monitor_inv_def)
  with accepted show ?case by (auto simp: monitor_inv_def publish_pop_def)
next
  case (stop s w)
  then show ?case by (simp add: monitor_inv_def publish_end_def)
qed (simp_all add: appends_inv appends_seen appends_check appends_refresh, simp_all add: appends_inv appends_def run_start_def)

lemma monitor_reachable_inv: "monitor_reachable cfg s \<Longrightarrow> monitor_inv s"
  by (induction rule: monitor_reachable.induct)
    (simp add: monitor_inv_def newMonitor_def, rule monitor_step_inv)



text \<open>
  What readiness says. The monitor reports ready exactly when it is disabled, or the inventory (if
  there is one) is fresh and was read without error, no alert waits or was lost to overflow, and
  every expected VM was heard from within the time it is allowed to be silent.
\<close>

theorem monitor_ready_iff:
  "monitor_readiness now m = Inr () \<longleftrightarrow>
     (moEnabled m \<longrightarrow> (hasExpected m \<longrightarrow> refreshErr m = None \<and> \<not> stale now m) \<and> \<not> moOverflow m \<and> alerts m = [] \<and>
        (\<forall>(c, h) \<in> set (moVMs m). now - hLastSeen h \<le> allowedSilence h m))"
proof -
  have "length (filter (\<lambda>(_, h). now - hLastSeen h > allowedSilence h m) (moVMs m)) > 0 \<longleftrightarrow>
      \<not> (\<forall>(c, h) \<in> set (moVMs m). now - hLastSeen h \<le> allowedSilence h m)"
    by (auto simp: filter_empty_conv not_le split: prod.splits)
  then show ?thesis unfolding monitor_readiness_def Let_def by simp
qed

theorem monitor_ready_iff_witness:
  "monitor_readiness 50 demo_monitor = Inr () \<and> monitor_readiness 100 demo_monitor \<noteq> Inr ()"
  using monitor_ready_iff [of 50 demo_monitor] monitor_ready_iff [of 100 demo_monitor]
  by (simp add: demo_monitor_def allowedSilence_def newVMHealth_def)

end
