(* ===== verification/Seq_Ranges.thy ===== *)
theory Seq_Ranges
  imports Prelude
begin

section \<open>Inclusive ranges of sequence numbers\<close>

text \<open>
  The range arithmetic of \<^verbatim>\<open>SauronAgent/internal/host/dedup.go\<close>: the host keeps, per stream, a list
  of ranges whose loss is still to be reported and a list of ranges already reported. The loops
  that merge, split, subtract and clip such lists are modelled here on lists of ranges; the
  lemmas say what each does to the set of sequence numbers a list stands for and that a sorted
  list of disjoint ranges stays one. Sequence numbers are 64-bit, so \<^verbatim>\<open>x + 1\<close> is \<open>inc64 x\<close>.
\<close>

datatype seqRange = SeqRange (rfirst: nat) (rlast: nat)

definition maxMissingRanges :: nat where
  "maxMissingRanges = 64"

text \<open>The tests \<^verbatim>\<open>before\<close> and \<^verbatim>\<open>after\<close>: \<open>r\<close> neither overlaps nor touches \<open>f..l\<close>.\<close>

definition apart :: "nat \<Rightarrow> nat \<Rightarrow> seqRange \<Rightarrow> bool" where
  "apart f l r \<longleftrightarrow> (f > rlast r \<and> f - rlast r > 1) \<or> (rfirst r > l \<and> rfirst r - l > 1)"

text \<open>The loop of \<open>queueMissing\<close>: the ranges kept, and \<open>f..l\<close> widened by the ones absorbed.\<close>

fun merge_loop :: "nat \<Rightarrow> nat \<Rightarrow> seqRange list \<Rightarrow> seqRange list \<times> nat \<times> nat" where
  "merge_loop f l [] = ([], f, l)"
| "merge_loop f l (r # rs) =
     (if apart f l r then let (kept, f', l') = merge_loop f l rs in (r # kept, f', l')
      else merge_loop (min f (rfirst r)) (max l (rlast r)) rs)"

text \<open>The loop of \<open>noteMissing\<close>: the same, with ranges at or below the watermark \<open>w\<close> skipped and
  ranges that straddle it clipped first.\<close>

fun note_loop :: "nat \<Rightarrow> nat \<Rightarrow> nat \<Rightarrow> seqRange list \<Rightarrow> seqRange list \<times> nat \<times> nat" where
  "note_loop w f l [] = ([], f, l)"
| "note_loop w f l (r # rs) =
     (if rlast r \<le> w then note_loop w f l rs
      else let r' = (if rfirst r \<le> w then SeqRange (inc64 w) (rlast r) else r) in
        if apart f l r' then let (kept, f', l') = note_loop w f l rs in (r' # kept, f', l')
        else note_loop w (min f (rfirst r')) (max l (rlast r')) rs)"

text \<open>The loop of \<open>canPublishGap\<close>: how many ranges would be kept beside the new one.\<close>

fun count_loop :: "nat \<Rightarrow> nat \<Rightarrow> nat \<Rightarrow> seqRange list \<Rightarrow> nat" where
  "count_loop w f l [] = 0"
| "count_loop w f l (r # rs) =
     (if rlast r \<le> w then count_loop w f l rs
      else if apart f l r then Suc (count_loop w f l rs)
      else count_loop w (min f (rfirst r)) (max l (rlast r)) rs)"

definition insert_range :: "seqRange list \<times> nat \<times> nat \<Rightarrow> seqRange list" where
  "insert_range m = (case m of (kept, f, l) \<Rightarrow> sort_key rfirst (kept @ [SeqRange f l]))"

text \<open>
  The loop of \<open>excludePending\<close> over the list of \<open>n\<close> ranges: the sequence is in no range, it was
  taken out (the new list), or taking it out of the middle of a range would need one range more
  than \<open>maxMissingRanges\<close>.
\<close>

datatype exclude_outcome = Absent | Excluded "seqRange list" | ExcludeFull

fun exclude_map :: "(seqRange list \<Rightarrow> seqRange list) \<Rightarrow> exclude_outcome \<Rightarrow> exclude_outcome" where
  "exclude_map g (Excluded rs) = Excluded (g rs)"
| "exclude_map g Absent = Absent"
| "exclude_map g ExcludeFull = ExcludeFull"

fun exclude_loop :: "nat \<Rightarrow> nat \<Rightarrow> seqRange list \<Rightarrow> exclude_outcome" where
  "exclude_loop n seq [] = Absent"
| "exclude_loop n seq (gap # rs) =
     (if seq < rfirst gap then Absent
      else if seq > rlast gap then exclude_map (Cons gap) (exclude_loop n seq rs)
      else if rfirst gap = rlast gap then Excluded rs
      else if seq = rfirst gap then Excluded (SeqRange (inc64 (rfirst gap)) (rlast gap) # rs)
      else if seq = rlast gap then Excluded (SeqRange (rfirst gap) (rlast gap - 1) # rs)
      else if n \<ge> maxMissingRanges then ExcludeFull
      else Excluded (SeqRange (rfirst gap) (seq - 1) # SeqRange (inc64 seq) (rlast gap) # rs))"

fun subtract_loop :: "nat \<Rightarrow> nat \<Rightarrow> seqRange list \<Rightarrow> seqRange list" where
  "subtract_loop f l [] = []"
| "subtract_loop f l (r # rs) =
     (if l < rfirst r \<or> f > rlast r then r # subtract_loop f l rs
      else (if rfirst r < f then [SeqRange (rfirst r) (f - 1)] else []) @
           (if l < rlast r then [SeqRange (inc64 l) (rlast r)] else []) @ subtract_loop f l rs)"

definition subtractRange :: "seqRange list \<Rightarrow> nat \<Rightarrow> nat \<Rightarrow> seqRange list option" where
  "subtractRange rs f l =
     (if l < f then Some rs
      else let result = subtract_loop f l rs in
        if length result > maxMissingRanges then None else Some result)"

fun contains_loop :: "nat \<Rightarrow> nat \<Rightarrow> seqRange list \<Rightarrow> bool" where
  "contains_loop f l [] = False"
| "contains_loop f l (r # rs) =
     (if f < rfirst r then False
      else if f \<ge> rfirst r \<and> l \<le> rlast r then True
      else contains_loop f l rs)"

text \<open>The loop of \<open>takeMissing\<close>: the first range that holds \<open>seq\<close>, and the list without it.\<close>

fun take_loop :: "nat \<Rightarrow> seqRange list \<Rightarrow> (nat \<times> seqRange list) option" where
  "take_loop seq [] = None"
| "take_loop seq (r # rs) =
     (if seq < rfirst r \<or> seq > rlast r
      then map_option (\<lambda>(l, rest). (l, r # rest)) (take_loop seq rs)
      else Some (rlast r, rs))"

text \<open>The loops of \<open>prunePending\<close>: drop what the watermark covers, clip what it straddles.\<close>

definition clip_ranges :: "nat \<Rightarrow> seqRange list \<Rightarrow> seqRange list" where
  "clip_ranges w rs =
     map (\<lambda>r. if rfirst r \<le> w then SeqRange (inc64 w) (rlast r) else r)
       (filter (\<lambda>r. \<not> rlast r \<le> w) rs)"

subsection \<open>What a list of ranges stands for\<close>

definition ranges_set :: "seqRange list \<Rightarrow> nat set" where
  "ranges_set rs = {n. \<exists>r \<in> set rs. rfirst r \<le> n \<and> n \<le> rlast r}"

definition ranges_ok :: "seqRange list \<Rightarrow> bool" where
  "ranges_ok rs \<longleftrightarrow> sorted_wrt (\<lambda>a b. rlast a < rfirst b) rs \<and>
     (\<forall>r \<in> set rs. rfirst r \<le> rlast r \<and> rlast r \<le> max64)"

lemma ranges_set_simps [simp]:
  "ranges_set [] = {}"
  "ranges_set (r # rs) = {rfirst r..rlast r} \<union> ranges_set rs"
  "ranges_set (rs @ ss) = ranges_set rs \<union> ranges_set ss"
  by (auto simp: ranges_set_def)

lemma ranges_set_cong: "set rs = set ss \<Longrightarrow> ranges_set rs = ranges_set ss"
  by (simp add: ranges_set_def)

lemma ranges_ok_simps [simp]:
  "ranges_ok []"
  "ranges_ok (r # rs) \<longleftrightarrow> rfirst r \<le> rlast r \<and> rlast r \<le> max64 \<and> (\<forall>q \<in> set rs. rlast r < rfirst q) \<and> ranges_ok rs"
  by (auto simp: ranges_ok_def)

lemma ranges_ok_above: "ranges_ok (r # rs) \<Longrightarrow> n \<in> ranges_set rs \<Longrightarrow> rlast r < n"
  by (force simp: ranges_set_def)

lemma ranges_ok_bound: "ranges_ok rs \<Longrightarrow> n \<in> ranges_set rs \<Longrightarrow> n \<le> max64"
  by (auto simp: ranges_ok_def ranges_set_def)

lemma finite_ranges_set [simp]: "finite (ranges_set rs)"
  by (induction rs) simp_all

subsection \<open>Merging\<close>

lemma merge_loop_after:
  "\<forall>r \<in> set rs. l + 1 < rfirst r \<Longrightarrow> merge_loop f l rs = (rs, f, l)"
  by (induction rs) (auto simp: apart_def)

lemma merge_loop_lower:
  "merge_loop f l rs = (kept, f', l') \<Longrightarrow> x < f \<Longrightarrow> \<forall>r \<in> set rs. x < rfirst r \<Longrightarrow> x < f'"
  by (induction f l rs arbitrary: kept rule: merge_loop.induct)
    (auto split: if_splits prod.splits)

lemma merge_loop_kept: "merge_loop f l rs = (kept, f', l') \<Longrightarrow> set kept \<subseteq> set rs \<and> length kept \<le> length rs"
  by (induction f l rs arbitrary: kept rule: merge_loop.induct)
    (fastforce split: if_splits prod.splits)+

lemma merge_loop_ok:
  "merge_loop f l rs = (kept, f', l') \<Longrightarrow> ranges_ok rs \<Longrightarrow> f \<le> l \<Longrightarrow> l \<le> max64 \<Longrightarrow>
     ranges_ok kept \<and> f' \<le> f \<and> l \<le> l' \<and> l' \<le> max64 \<and>
     ranges_set kept \<union> {f'..l'} = ranges_set rs \<union> {f..l} \<and>
     (\<forall>r \<in> set kept. rlast r < f' \<or> l' < rfirst r)"
proof (induction f l rs arbitrary: kept rule: merge_loop.induct)
  case (1 f l)
  then show ?case by simp
next
  case (2 f l r rs)
  show ?case
  proof (cases "apart f l r")
    case True
    obtain k1 where k: "merge_loop f l rs = (k1, f', l')" "kept = r # k1"
      using 2(3) True by (auto split: prod.splits)
    have ih: "ranges_ok k1 \<and> f' \<le> f \<and> l \<le> l' \<and> l' \<le> max64 \<and>
        ranges_set k1 \<union> {f'..l'} = ranges_set rs \<union> {f..l} \<and>
        (\<forall>r \<in> set k1. rlast r < f' \<or> l' < rfirst r)"
      using 2(1) [OF True k(1)] 2(4-6) by simp
    have sub: "\<forall>q \<in> set k1. rlast r < rfirst q" using merge_loop_kept [OF k(1)] 2(4) by auto
    have "rlast r < f' \<or> l' < rfirst r"
    proof (cases "rlast r < f")
      case True
      then show ?thesis using merge_loop_lower [OF k(1), of "rlast r"] 2(4) by simp
    next
      case False
      with \<open>apart f l r\<close> have "l + 1 < rfirst r" by (auto simp: apart_def)
      moreover from this 2(4) have "\<forall>q \<in> set rs. l + 1 < rfirst q" by force
      ultimately show ?thesis using merge_loop_after [of rs l f] k(1) by simp
    qed
    with ih sub k(2) 2(4) show ?thesis by auto
  next
    case False
    with 2(3) have m: "merge_loop (min f (rfirst r)) (max l (rlast r)) rs = (kept, f', l')" by simp
    have un: "{rfirst r..rlast r} \<union> {f..l} = {min f (rfirst r)..max l (rlast r)}"
      using False 2(4,5) by (auto simp: apart_def)
    have "ranges_ok kept \<and> f' \<le> min f (rfirst r) \<and> max l (rlast r) \<le> l' \<and> l' \<le> max64 \<and>
        ranges_set kept \<union> {f'..l'} = ranges_set rs \<union> {min f (rfirst r)..max l (rlast r)} \<and>
        (\<forall>r \<in> set kept. rlast r < f' \<or> l' < rfirst r)"
      by (rule 2(2) [OF False m]) (use 2(4-6) in auto)
    with un show ?thesis by auto
  qed
qed

lemma ranges_ok_sort:
  assumes "ranges_ok kept" "f \<le> l" "l \<le> max64" "\<forall>r \<in> set kept. rlast r < f \<or> l < rfirst r"
  shows "ranges_ok (sort_key rfirst (kept @ [SeqRange f l]))" (is "ranges_ok ?ys")
proof -
  let ?D = "\<lambda>a b. rlast a < rfirst b \<or> rlast b < rfirst a"
  have ne: "\<forall>r \<in> set kept. rfirst r \<le> rlast r \<and> rlast r \<le> max64"
    using assms(1) by (auto simp: ranges_ok_def)
  have d1: "a \<noteq> b \<longrightarrow> ?D a b" if "a \<in> set kept" "b \<in> set kept" for a b
    using assms(1) that by (induction kept) auto
  have dist: "distinct kept" using assms(1) by (induction kept) auto
  have dys: "distinct ?ys" using dist assms(2,4) by auto
  have dis: "?D a b" if "a \<in> set ?ys" "b \<in> set ?ys" "a \<noteq> b" for a b
    using that d1 assms(4) by auto
  have ney: "\<forall>r \<in> set ?ys. rfirst r \<le> rlast r" using ne assms(2) by auto
  have le: "sorted_wrt (\<lambda>a b. rfirst a \<le> rfirst b) ?ys"
    using sorted_sort_key [of rfirst "kept @ [SeqRange f l]"] by (simp add: sorted_map)
  have "sorted_wrt (\<lambda>a b. rlast a < rfirst b) ?ys"
    unfolding sorted_wrt_iff_nth_less
  proof (intro allI impI)
    fix i j assume ij: "i < j" "j < length ?ys"
    then have "?D (?ys ! i) (?ys ! j)"
      by (intro dis nth_mem) (use ij nth_eq_iff_index_eq [OF dys, of i j] in auto)
    moreover have "rfirst (?ys ! i) \<le> rfirst (?ys ! j)"
      using le ij by (simp only: sorted_wrt_iff_nth_less)
    moreover have "rfirst (?ys ! j) \<le> rlast (?ys ! j)" using ney ij(2) nth_mem by blast
    ultimately show "rlast (?ys ! i) < rfirst (?ys ! j)" by linarith
  qed
  with ne assms(2,3) show ?thesis by (auto simp: ranges_ok_def)
qed

lemma insert_range_ok:
  assumes "ranges_ok rs" "f \<le> l" "l \<le> max64"
  shows "ranges_ok (insert_range (merge_loop f l rs))"
    and "ranges_set (insert_range (merge_loop f l rs)) = ranges_set rs \<union> {f..l}"
proof -
  obtain kept f' l' where m: "merge_loop f l rs = (kept, f', l')" by (cases "merge_loop f l rs") auto
  note ok = merge_loop_ok [OF m assms]
  show "ranges_ok (insert_range (merge_loop f l rs))"
    using ok assms(2) by (auto simp: m insert_range_def intro!: ranges_ok_sort)
  have "ranges_set (sort_key rfirst (kept @ [SeqRange f' l'])) = ranges_set (kept @ [SeqRange f' l'])"
    by (rule ranges_set_cong) simp
  with ok show "ranges_set (insert_range (merge_loop f l rs)) = ranges_set rs \<union> {f..l}"
    by (simp add: m insert_range_def)
qed

lemma length_insert_range [simp]: "length (insert_range m) = Suc (length (fst m))"
  by (cases m) (simp add: insert_range_def)

subsection \<open>Clipping\<close>

lemma clip_ranges_ok:
  assumes "ranges_ok rs"
  shows "ranges_ok (clip_ranges w rs)" "ranges_set (clip_ranges w rs) = ranges_set rs \<inter> {w<..}"
    "length (clip_ranges w rs) \<le> length rs"
proof -
  have "ranges_ok (clip_ranges w rs) \<and> ranges_set (clip_ranges w rs) = ranges_set rs \<inter> {w<..}"
    using assms
  proof (induction rs)
    case (Cons r rs)
    show ?case
    proof (cases "rlast r \<le> w")
      case True
      with Cons show ?thesis by (auto simp: clip_ranges_def)
    next
      case False
      then have inc: "rlast r \<le> max64 \<Longrightarrow> inc64 w = w + 1" by (simp add: inc64_eq)
      have clip: "clip_ranges w (r # rs) =
          (if rfirst r \<le> w then SeqRange (inc64 w) (rlast r) else r) # clip_ranges w rs"
        using False by (simp add: clip_ranges_def)
      have "\<forall>q \<in> set (clip_ranges w rs). rlast r < rfirst q"
      proof
        fix q assume "q \<in> set (clip_ranges w rs)"
        then obtain p where "p \<in> set rs" "rfirst p \<le> rfirst q"
          using Cons.prems False by (auto simp: clip_ranges_def inc64_eq split: if_splits)
        with Cons.prems show "rlast r < rfirst q" by force
      qed
      with Cons inc False show ?thesis unfolding clip by auto
    qed
  qed (simp add: clip_ranges_def)
  then show "ranges_ok (clip_ranges w rs)" "ranges_set (clip_ranges w rs) = ranges_set rs \<inter> {w<..}"
    by simp_all
  show "length (clip_ranges w rs) \<le> length rs" by (simp add: clip_ranges_def)
qed

lemma note_loop_eq: "note_loop w f l rs = merge_loop f l (clip_ranges w rs)"
  by (induction w f l rs rule: note_loop.induct) (simp_all add: clip_ranges_def Let_def)

lemma count_loop_after:
  "\<forall>r \<in> set rs. l + 1 < rfirst r \<Longrightarrow> \<forall>r \<in> set rs. \<not> rlast r \<le> w \<Longrightarrow> count_loop w f l rs = length rs"
  by (induction rs) (auto simp: apart_def)

lemma clip_above: "\<forall>r \<in> set rs. w < rfirst r \<and> rfirst r \<le> rlast r \<Longrightarrow> clip_ranges w rs = rs"
  by (induction rs) (auto simp: clip_ranges_def)

text \<open>
  The bookkeeping of \<open>canPublishGap\<close> agrees with the list \<open>noteMissing\<close> builds, although it
  does not clip: only the first range past the watermark can straddle it.
\<close>

lemma count_loop_eq:
  assumes "ranges_ok rs" "w < f" "f \<le> l" "l \<le> max64"
  shows "count_loop w f l rs = length (fst (merge_loop f l (clip_ranges w rs)))"
proof -
  have shift: "count_loop w f' l rs = count_loop w f l rs"
    if "ranges_ok rs" "f \<le> l" "f' \<le> l" "\<forall>r \<in> set rs. b < rfirst r" "b < l \<or> b = l" "f \<le> Suc b" "f' \<le> Suc b"
    for f f' l b and rs
    using that
  proof (induction rs arbitrary: f f' l)
    case (Cons r rs)
    have "apart f' l r = apart f l r" using Cons.prems by (auto simp: apart_def)
    moreover have "count_loop w f' l rs = count_loop w f l rs"
      by (rule Cons.IH) (use Cons.prems in auto)
    moreover have "count_loop w (min f' (rfirst r)) (max l (rlast r)) rs =
        count_loop w (min f (rfirst r)) (max l (rlast r)) rs"
      by (rule Cons.IH) (use Cons.prems in auto)
    ultimately show ?case by simp
  qed simp
  show ?thesis using assms
  proof (induction rs arbitrary: f l)
    case Nil
    show ?case by (simp add: clip_ranges_def)
  next
    case (Cons r rs)
    show ?case
    proof (cases "rlast r \<le> w")
      case True
      with Cons show ?thesis by (simp add: clip_ranges_def)
    next
      case False
      have ab: "\<forall>q \<in> set rs. w < rfirst q \<and> rfirst q \<le> rlast q"
        using Cons.prems False by (force simp: ranges_ok_def)
      let ?r = "if rfirst r \<le> w then SeqRange (inc64 w) (rlast r) else r"
      have clip: "clip_ranges w (r # rs) = ?r # clip_ranges w rs" using False by (simp add: clip_ranges_def)
      have inc: "inc64 w = w + 1" using Cons.prems False by (simp add: inc64_eq)
      have ap: "apart f l ?r = apart f l r"
        using Cons.prems False inc by (auto simp: apart_def)
      show ?thesis
      proof (cases "apart f l r")
        case True
        with Cons.IH [of f l] Cons.prems False show ?thesis
          unfolding clip using ap by (simp add: case_prod_beta Let_def)
      next
        case ov: False
        have "count_loop w (min f (rfirst r)) (max l (rlast r)) rs =
              count_loop w (min f (rfirst ?r)) (max l (rlast ?r)) rs"
        proof (cases "rfirst r \<le> w")
          case True
          have "count_loop w (min f (rfirst r)) (max l (rlast r)) rs =
                count_loop w (min f (inc64 w)) (max l (rlast r)) rs"
            by (rule shift [where b = "rlast r"]) (use Cons.prems False inc in auto)
          with True show ?thesis by simp
        qed simp
        moreover have "count_loop w (min f (rfirst ?r)) (max l (rlast ?r)) rs =
            length (fst (merge_loop (min f (rfirst ?r)) (max l (rlast ?r)) (clip_ranges w rs)))"
          by (rule Cons.IH) (use Cons.prems False inc in auto)
        ultimately show ?thesis unfolding clip using ap ov False by simp
      qed
    qed
  qed
qed

subsection \<open>Excluding one sequence\<close>

lemma exclude_loop_Absent: "ranges_ok rs \<Longrightarrow> exclude_loop n seq rs = Absent \<longleftrightarrow> seq \<notin> ranges_set rs"
proof (induction rs)
  case (Cons r rs)
  have "seq < rfirst r \<Longrightarrow> seq \<notin> ranges_set rs"
    using ranges_ok_above [OF Cons.prems] Cons.prems by force
  moreover have "exclude_map (Cons r) x = Absent \<longleftrightarrow> x = Absent" for x by (cases x) auto
  ultimately show ?case using Cons by auto
qed simp

lemma exclude_loop_Excluded:
  "exclude_loop n seq rs = Excluded rs' \<Longrightarrow> ranges_ok rs \<Longrightarrow>
     ranges_ok rs' \<and> ranges_set rs' = ranges_set rs - {seq} \<and>
     (length rs' \<le> length rs \<or> length rs' = Suc (length rs) \<and> n < maxMissingRanges) \<and>
     (\<forall>r' \<in> set rs'. \<exists>r \<in> set rs. rfirst r \<le> rfirst r')"
proof (induction rs arbitrary: rs')
  case (Cons r rs)
  have ab: "m \<in> ranges_set rs \<Longrightarrow> rlast r < m" for m using ranges_ok_above [OF Cons.prems(2)] .
  show ?case
  proof (cases "seq > rlast r")
    case True
    with Cons.prems obtain rs1 where e: "exclude_loop n seq rs = Excluded rs1" "rs' = r # rs1"
      by (cases "exclude_loop n seq rs") auto
    have ih: "ranges_ok rs1 \<and> ranges_set rs1 = ranges_set rs - {seq} \<and>
       (length rs1 \<le> length rs \<or> length rs1 = Suc (length rs) \<and> n < maxMissingRanges) \<and>
       (\<forall>r' \<in> set rs1. \<exists>r \<in> set rs. rfirst r \<le> rfirst r')"
      using Cons.IH [OF e(1)] Cons.prems(2) by simp
    then have "\<forall>q \<in> set rs1. rlast r < rfirst q" using Cons.prems(2) by force
    with ih e(2) True Cons.prems(2) show ?thesis by auto
  next
    case False
    with Cons.prems have ge: "rfirst r \<le> seq" by (auto split: if_splits)
    have inc: "seq < rlast r \<Longrightarrow> inc64 seq = seq + 1" using Cons.prems(2) by (simp add: inc64_eq)
    have ok: "ranges_ok rs" "\<forall>q \<in> set rs. rlast r < rfirst q" "rfirst r \<le> rlast r" "rlast r \<le> max64"
      using Cons.prems(2) by simp_all
    have out: "seq \<notin> ranges_set rs" using ab [of seq] False by auto
    consider (single) "rfirst r = rlast r" "rs' = rs" "seq = rfirst r"
      | (left) "seq = rfirst r" "rfirst r < rlast r" "rs' = SeqRange (seq + 1) (rlast r) # rs"
      | (right) "seq = rlast r" "rfirst r < rlast r" "rs' = SeqRange (rfirst r) (rlast r - 1) # rs"
      | (mid) "rfirst r < seq" "seq < rlast r" "n < maxMissingRanges"
          "rs' = SeqRange (rfirst r) (seq - 1) # SeqRange (seq + 1) (rlast r) # rs"
      using Cons.prems(1) False ge ok(3) inc by (auto split: if_splits)
    then show ?thesis
    proof cases
      case single
      have "{rfirst r..rlast r} = {seq}" using single by simp
      with single ok out show ?thesis by auto
    next
      case left
      have "{rfirst r..rlast r} = insert seq {seq + 1..rlast r}" using left by auto
      with left ok out show ?thesis by auto
    next
      case right
      have "{rfirst r..rlast r} = insert seq {rfirst r..rlast r - 1}" using right by auto
      moreover have "seq \<notin> {rfirst r..rlast r - 1}" using right by auto
      ultimately show ?thesis using right ok out by auto
    next
      case mid
      have "{rfirst r..rlast r} = insert seq ({rfirst r..seq - 1} \<union> {seq + 1..rlast r})" using mid by auto
      moreover have "seq \<notin> {rfirst r..seq - 1} \<union> {seq + 1..rlast r}" using mid by auto
      ultimately show ?thesis using mid ok out by auto
    qed
  qed
qed simp

lemma exclude_loop_Full: "exclude_loop n seq rs = ExcludeFull \<Longrightarrow> maxMissingRanges \<le> n"
proof (induction rs)
  case (Cons r rs)
  then show ?case by (cases "exclude_loop n seq rs") (auto split: if_splits)
qed simp

lemma exclude_loop_edge:
  assumes "ranges_ok (r # rs)" "seq = rfirst r \<or> seq = rlast r"
  shows "exclude_loop n seq (r # rs) \<noteq> ExcludeFull"
  using assms by auto

subsection \<open>Subtracting a range\<close>

lemma subtract_loop_ok:
  assumes "ranges_ok rs" "f \<le> l"
  shows "ranges_ok (subtract_loop f l rs) \<and> ranges_set (subtract_loop f l rs) = ranges_set rs - {f..l} \<and>
     (\<forall>r' \<in> set (subtract_loop f l rs). \<exists>r \<in> set rs. rfirst r \<le> rfirst r')"
  using assms
proof (induction rs)
  case (Cons r rs)
  have ih: "ranges_ok (subtract_loop f l rs)" "ranges_set (subtract_loop f l rs) = ranges_set rs - {f..l}"
     "\<forall>r' \<in> set (subtract_loop f l rs). \<exists>r \<in> set rs. rfirst r \<le> rfirst r'"
    using Cons by auto
  have above: "\<forall>q \<in> set (subtract_loop f l rs). rlast r < rfirst q"
    using ih(3) Cons.prems(1) by force
  have inc: "l < rlast r \<Longrightarrow> inc64 l = l + 1" using Cons.prems(1) by (simp add: inc64_eq)
  from ih above Cons.prems show ?case
    by (auto simp: inc)
qed simp

lemma subtractRange_ok:
  assumes "subtractRange rs f l = Some rs'" "ranges_ok rs" "f \<le> l"
  shows "ranges_ok rs'" "ranges_set rs' = ranges_set rs - {f..l}" "length rs' \<le> maxMissingRanges"
  using assms subtract_loop_ok [OF assms(2,3)]
  by (auto simp: subtractRange_def Let_def split: if_splits)

lemma contains_loop_iff:
  "ranges_ok rs \<Longrightarrow> f \<le> l \<Longrightarrow> contains_loop f l rs \<longleftrightarrow> (\<exists>r \<in> set rs. rfirst r \<le> f \<and> l \<le> rlast r)"
proof (induction rs)
  case (Cons r rs)
  have "f < rfirst r \<Longrightarrow> q \<in> set rs \<Longrightarrow> f < rfirst q" for q using Cons.prems(1) by force
  with Cons show ?case by (auto simp: not_less)
qed simp

lemma contains_loop_subset:
  "contains_loop f l rs \<Longrightarrow> {f..l} \<subseteq> ranges_set rs"
  by (induction rs) (auto split: if_splits)

subsection \<open>Consuming a reported range\<close>

lemma take_loop_Some:
  "take_loop seq rs = Some (l, rest) \<Longrightarrow> ranges_ok rs \<Longrightarrow>
     ranges_ok rest \<and> length rs = Suc (length rest) \<and> set rest \<subseteq> set rs \<and>
     seq \<le> l \<and> l \<le> max64 \<and> {seq..l} \<subseteq> ranges_set rs \<and> ranges_set rs \<subseteq> ranges_set rest \<union> {..l} "
proof (induction rs arbitrary: rest)
  case (Cons r rs)
  show ?case
  proof (cases "seq < rfirst r \<or> seq > rlast r")
    case True
    with Cons.prems obtain rest1 where e: "take_loop seq rs = Some (l, rest1)" "rest = r # rest1"
      by auto
    with Cons.IH [OF e(1)] Cons.prems True show ?thesis by auto
  next
    case False
    with Cons.prems show ?thesis by auto
  qed
qed simp

lemma take_loop_None: "take_loop seq rs = None \<longleftrightarrow> seq \<notin> ranges_set rs"
  by (induction rs) auto

end
