(* ===== verification/Dedup_Stream.thy ===== *)
theory Dedup_Stream
  imports Seq_Ranges Events
begin

section \<open>One guest stream of the deduplication table\<close>

text \<open>
  The per-stream operations of \<^verbatim>\<open>SauronAgent/internal/host\<close>: \<^verbatim>\<open>dedup.go\<close> (the watermark, the
  out-of-order set, the pending and reported gaps), \<^verbatim>\<open>arrival.go\<close> (events received and not yet
  written) and the stream half of \<^verbatim>\<open>pending_gaps.go\<close>. Every operation runs under the table's mutex,
  so each is a function from the stream to its result and the new stream.

  Go maps with integer keys are lists: \<open>ahead\<close> the distinct keys, \<open>arrivals\<close> the entries in the
  order the next loop over the map visits them; the step relation of theory
  \<^verbatim>\<open>Dedup_Safety\<close> permutes them freely. \<^verbatim>\<open>slices.SortFunc\<close> by first sequence is \<open>sort_key rfirst\<close>.
\<close>

record gapVersion =
  gvStream :: nat
  gvGeneration :: nat

record dedupResult =
  Duplicate :: bool
  Gap :: bool
  GapFirst :: nat
  GapLast :: nat
  GapVersion :: gapVersion
  Blocked :: bool

definition zero_result :: dedupResult where
  "zero_result = \<lparr> Duplicate = False, Gap = False, GapFirst = 0, GapLast = 0,
     GapVersion = \<lparr> gvStream = 0, gvGeneration = 0 \<rparr>, Blocked = False \<rparr>"

record dedupStream =
  identity :: nat
  arrivals :: "(nat \<times> int) list"
  arrivalOverflow :: bool
  written :: nat
  ahead :: "nat list"
  missing :: "seqRange list"
  pending :: "seqRange list"
  gapSource :: "source option"
  gapGeneration :: nat
  nextGapClaim :: nat
  activeGapClaim :: nat
  highest :: nat
  forgotten :: nat
  used :: nat

definition new_stream :: "nat \<Rightarrow> nat \<Rightarrow> dedupStream" where
  "new_stream ident clk = \<lparr> identity = ident, arrivals = [], arrivalOverflow = False, written = 0,
     ahead = [], missing = [], pending = [], gapSource = None, gapGeneration = 0, nextGapClaim = 0,
     activeGapClaim = 0, highest = 0, forgotten = 0, used = clk \<rparr>"

subsection \<open>Pending gaps\<close>

definition clearGapSourceIfDrained :: "dedupStream \<Rightarrow> dedupStream" where
  "clearGapSourceIfDrained s = (if pending s = [] then s\<lparr> gapSource := None \<rparr> else s)"

definition excludePending :: "nat \<Rightarrow> dedupStream \<Rightarrow> bool \<times> dedupStream" where
  "excludePending seq s = (case exclude_loop (length (pending s)) seq (pending s) of
     Absent \<Rightarrow> (True, s)
   | Excluded rs \<Rightarrow> (True, clearGapSourceIfDrained (s\<lparr> pending := rs \<rparr>))
   | ExcludeFull \<Rightarrow> (False, s))"

definition excludeArrival :: "nat \<times> int \<Rightarrow> dedupStream \<Rightarrow> dedupStream" where
  "excludeArrival entry s =
     (let (ok, s1) = excludePending (fst entry) s in
      if ok \<and> snd entry = 0 then s1\<lparr> arrivals := AList.delete (fst entry) (arrivals s1) \<rparr> else s1)"

definition excludeArrivals :: "dedupStream \<Rightarrow> dedupStream" where
  "excludeArrivals s = fold excludeArrival (arrivals s) s"

definition coversArrival :: "nat \<Rightarrow> nat \<Rightarrow> dedupStream \<Rightarrow> bool" where
  "coversArrival f l s \<longleftrightarrow> arrivalOverflow s \<or> (\<exists>seq \<in> set (map fst (arrivals s)). f \<le> seq \<and> seq \<le> l)"

text \<open>The inner loop of \<open>safeGapPart\<close>: the least protected sequence inside the range.\<close>

definition in_range :: "seqRange \<Rightarrow> nat \<Rightarrow> bool" where
  "in_range gap seq \<longleftrightarrow> rfirst gap \<le> seq \<and> seq \<le> rlast gap"

fun protect :: "seqRange \<Rightarrow> nat \<Rightarrow> nat option \<Rightarrow> nat option" where
  "protect gap seq None = (if in_range gap seq then Some seq else None)"
| "protect gap seq (Some p) = (if in_range gap seq \<and> seq < p then Some seq else Some p)"

definition first_protected :: "nat \<Rightarrow> nat list \<Rightarrow> seqRange \<Rightarrow> nat option" where
  "first_protected exclude seqs gap =
     fold (protect gap) seqs (if in_range gap exclude then Some exclude else None)"

lemma fold_protect_None:
  "fold (protect gap) seqs found = None \<longleftrightarrow> found = None \<and> (\<forall>x \<in> set seqs. \<not> in_range gap x)"
proof (induction seqs arbitrary: found)
  case (Cons x xs)
  have "protect gap x found = None \<longleftrightarrow> found = None \<and> \<not> in_range gap x" by (cases found) auto
  with Cons show ?case by auto
qed simp

lemma fold_protect_Some:
  "fold (protect gap) seqs found = Some p \<Longrightarrow>
     (p \<in> set seqs \<and> in_range gap p \<or> found = Some p) \<and>
     (\<forall>x \<in> set seqs. in_range gap x \<longrightarrow> p \<le> x) \<and> (\<forall>q. found = Some q \<longrightarrow> p \<le> q)"
proof (induction seqs arbitrary: found)
  case (Cons x xs)
  have "fold (protect gap) xs (protect gap x found) = Some p" using Cons.prems by simp
  note ih = Cons.IH [OF this]
  show ?case using ih by (cases found) (auto split: if_splits)
qed simp

lemma first_protected_None:
  "first_protected exclude seqs gap = None \<longleftrightarrow> (\<forall>x \<in> insert exclude (set seqs). \<not> in_range gap x)"
  by (auto simp: first_protected_def fold_protect_None)

lemma first_protected_Some:
  assumes "first_protected exclude seqs gap = Some p"
  shows "p \<in> insert exclude (set seqs) \<and> in_range gap p \<and>
     (\<forall>x \<in> insert exclude (set seqs). in_range gap x \<longrightarrow> p \<le> x)"
  using fold_protect_Some [OF assms [unfolded first_protected_def]] by (auto split: if_splits)

text \<open>
  The outer loop. When it steps, the first sequence is protected and not the last of the
  range, so the increment does not wrap and the range shrinks.
\<close>

function safe_part :: "nat \<Rightarrow> nat list \<Rightarrow> seqRange \<Rightarrow> seqRange option" where
  "safe_part exclude seqs gap = (case first_protected exclude seqs gap of
     None \<Rightarrow> Some gap
   | Some p \<Rightarrow>
       if p > rfirst gap then Some (SeqRange (rfirst gap) (p - 1))
       else if p = rlast gap then None
       else safe_part exclude seqs (SeqRange (rfirst gap + 1) (rlast gap)))"
  by pat_completeness auto

termination
proof (relation "measure (\<lambda>(_, _, gap). rlast gap - rfirst gap)")
  fix exclude seqs gap p
  assume "first_protected exclude seqs gap = Some p" "\<not> rfirst gap < p" "p \<noteq> rlast gap"
  with first_protected_Some [of exclude seqs gap p, unfolded in_range_def]
  show "((exclude, seqs, SeqRange (rfirst gap + 1) (rlast gap)), exclude, seqs, gap)
          \<in> measure (\<lambda>(_, _, gap). rlast gap - rfirst gap)" by auto
qed simp

declare safe_part.simps [simp del]

definition safeGapPart :: "seqRange \<Rightarrow> nat \<Rightarrow> dedupStream \<Rightarrow> seqRange option" where
  "safeGapPart gap exclude s =
     (if arrivalOverflow s then None else safe_part exclude (map fst (arrivals s)) gap)"


definition gap_result :: "dedupStream \<Rightarrow> seqRange \<Rightarrow> dedupResult" where
  "gap_result s gap = zero_result\<lparr> Gap := True, GapFirst := rfirst gap, GapLast := rlast gap,
     GapVersion := \<lparr> gvStream = identity s, gvGeneration = gapGeneration s \<rparr> \<rparr>"

fun safe_gap_loop :: "nat \<Rightarrow> dedupStream \<Rightarrow> seqRange list \<Rightarrow> dedupResult" where
  "safe_gap_loop exclude s [] = zero_result"
| "safe_gap_loop exclude s (p # ps) =
     (case safeGapPart p exclude s of
        Some gap \<Rightarrow> gap_result s gap
      | None \<Rightarrow> safe_gap_loop exclude s ps)"

definition safePendingGap :: "nat \<Rightarrow> dedupStream \<Rightarrow> dedupResult" where
  "safePendingGap exclude s = safe_gap_loop exclude s (pending s)"

definition pendingGap :: "dedupStream \<Rightarrow> dedupResult" where
  "pendingGap s = safePendingGap 0 s"

definition pendingGapExcluding :: "nat \<Rightarrow> dedupStream \<Rightarrow> dedupResult" where
  "pendingGapExcluding seq s = safePendingGap seq s"

definition pendingContains :: "nat \<Rightarrow> nat \<Rightarrow> dedupStream \<Rightarrow> bool" where
  "pendingContains f l s = contains_loop f l (pending s)"

definition queueMissing :: "nat \<Rightarrow> nat \<Rightarrow> dedupStream \<Rightarrow> bool \<times> dedupStream" where
  "queueMissing lo hi s =
     (if hi < lo \<or> hi \<le> written s then (True, s)
      else
        let f = (if lo \<le> written s then inc64 (written s) else lo);
            wasEmpty = (pending s = []);
            m = merge_loop f hi (pending s)
        in if length (fst m) \<ge> maxMissingRanges then (False, s)
           else let s1 = s\<lparr> pending := insert_range m \<rparr> in
             (True, if wasEmpty
                    then s1\<lparr> gapGeneration := next_nonzero64 (gapGeneration s1), gapSource := None \<rparr>
                    else s1))"

text \<open>The loop of \<open>queueReplayMissing\<close> over the accounted ranges, in order of their first sequence.\<close>

fun replay_loop :: "nat \<Rightarrow> nat \<Rightarrow> seqRange list \<Rightarrow> dedupStream \<Rightarrow> bool \<times> dedupStream" where
  "replay_loop nxt hi [] s = queueMissing nxt hi s"
| "replay_loop nxt hi (r # rs) s =
     (if rlast r < nxt then replay_loop nxt hi rs s
      else if rfirst r > hi then queueMissing nxt hi s
      else
        let (ok, s1) = (if rfirst r > nxt then queueMissing nxt (rfirst r - 1) s else (True, s)) in
        if \<not> ok then (False, s1)
        else if rlast r \<ge> hi then (True, s1)
        else replay_loop (inc64 (rlast r)) hi rs s1)"

definition accounted_ranges :: "dedupStream \<Rightarrow> seqRange list" where
  "accounted_ranges s = sort_key rfirst
     (missing s @ map (\<lambda>q. SeqRange q q) (ahead s) @ map (\<lambda>q. SeqRange q q) (map fst (arrivals s)))"

definition queueReplayMissing :: "nat \<Rightarrow> dedupStream \<Rightarrow> bool \<times> dedupStream" where
  "queueReplayMissing hi s = replay_loop (inc64 (written s)) hi (accounted_ranges s) s"

definition prunePending :: "dedupStream \<Rightarrow> dedupStream" where
  "prunePending s =
     clearGapSourceIfDrained (excludeArrivals (s\<lparr> pending := clip_ranges (written s) (pending s) \<rparr>))"

subsection \<open>The watermark\<close>

definition takeMissing :: "nat \<Rightarrow> dedupStream \<Rightarrow> (nat \<times> dedupStream) option" where
  "takeMissing seq s = map_option (\<lambda>(l, rest). (l, s\<lparr> missing := rest \<rparr>)) (take_loop seq (missing s))"

lemma take_loop_length: "take_loop seq rs = Some (l, rest) \<Longrightarrow> length rest < length rs"
  by (induction rs arbitrary: rest) (auto split: if_splits)

function absorb :: "dedupStream \<Rightarrow> dedupStream" where
  "absorb s =
     (let nxt = inc64 (written s) in
      if nxt \<in> set (ahead s) then absorb (s\<lparr> ahead := removeAll nxt (ahead s), written := nxt \<rparr>)
      else case takeMissing nxt s of
             Some (l, s1) \<Rightarrow> absorb (s1\<lparr> written := l \<rparr>)
           | None \<Rightarrow> s)"
  by pat_completeness auto

termination
proof (relation "measure (\<lambda>s. length (ahead s) + length (missing s))")
  fix s nxt
  assume "nxt \<in> set (ahead s)"
  then have "length (removeAll nxt (ahead s)) < length (ahead s)" by (rule length_removeAll_less)
  then show "(s\<lparr> ahead := removeAll nxt (ahead s), written := nxt \<rparr>, s)
      \<in> measure (\<lambda>s. length (ahead s) + length (missing s))" by simp
next
  fix s nxt x l s1
  assume "nxt \<notin> set (ahead s)" "takeMissing nxt s = Some x" "(l, s1) = x"
  then show "(s1\<lparr> written := l \<rparr>, s) \<in> measure (\<lambda>s. length (ahead s) + length (missing s))"
    by (auto simp: takeMissing_def dest: take_loop_length)
qed simp

declare absorb.simps [simp del]

definition noteMissing :: "nat \<Rightarrow> nat \<Rightarrow> dedupStream \<Rightarrow> bool \<times> dedupStream" where
  "noteMissing lo hi s =
     (if hi < lo \<or> hi \<le> written s then (True, s)
      else
        let f = (if lo \<le> written s then inc64 (written s) else lo);
            m = note_loop (written s) f hi (missing s)
        in if length (fst m) \<ge> maxMissingRanges \<and> fst (snd m) \<noteq> inc64 (written s) then (False, s)
           else (True, absorb (s\<lparr> missing := insert_range m \<rparr>)))"

definition trim :: "nat \<Rightarrow> dedupStream \<Rightarrow> nat \<times> dedupStream" where
  "trim window s =
     (if length (ahead s) \<le> window then (0, s)
      else
        let keys = sort (ahead s);
            drp = min (length keys - window + window div 4) (length keys)
        in (drp, s\<lparr> ahead := filter (\<lambda>k. k \<notin> set (take drp keys)) (ahead s),
                    forgotten := add64 (forgotten s) drp \<rparr>))"

subsection \<open>Arrivals and commits\<close>

text \<open>The gap that an arrival above the highest sequence so far opens.\<close>

definition check_gap :: "nat \<Rightarrow> dedupStream \<Rightarrow> bool \<times> dedupStream" where
  "check_gap seq s =
     (if highest s \<noteq> 0 \<and> seq > highest s \<and> seq - highest s > 1
      then queueMissing (inc64 (highest s)) (seq - 1) s else (True, s))"

definition check :: "nat \<Rightarrow> dedupStream \<Rightarrow> dedupResult \<times> dedupStream" where
  "check seq s =
     (if arrivalOverflow s then (zero_result\<lparr> Blocked := True \<rparr>, s)
      else
        let s1 = (if highest s = 0 \<and> seq > 0 then s\<lparr> written := seq - 1 \<rparr> else s);
            (ok, s2) = excludePending seq s1
        in if \<not> ok then ((pendingGapExcluding seq s2)\<lparr> Blocked := True \<rparr>, s2)
           else
             let (ok2, s3) = check_gap seq s2
             in if \<not> ok2 then ((pendingGap s3)\<lparr> Blocked := True \<rparr>, s3)
                else
                  let s4 = (if seq > highest s3 then s3\<lparr> highest := seq \<rparr> else s3);
                      r = pendingGap s4
                  in (r\<lparr> Duplicate := (seq \<le> written s4 \<or> seq \<in> set (ahead s4)) \<rparr>, s4))"

definition commit :: "nat \<Rightarrow> nat \<Rightarrow> dedupStream \<Rightarrow> (nat \<times> nat) \<times> dedupStream" where
  "commit window seq s =
     (if seq \<le> written s then ((written s, 0), s)
      else
        let s1 = prunePending (absorb (s\<lparr> ahead := List.insert seq (ahead s) \<rparr>));
            (n, s2) = trim window s1
        in ((written s1, n), s2))"

definition check_replay :: "nat \<Rightarrow> dedupStream \<Rightarrow> dedupResult \<times> dedupStream" where
  "check_replay firstSequence s =
     (let (ok, s1) = (if firstSequence > written s \<and> firstSequence - written s > 1
                      then queueReplayMissing (firstSequence - 1) s else (True, s))
      in if ok then (pendingGap s1, s1) else ((pendingGap s1)\<lparr> Blocked := True \<rparr>, s1))"

definition arrival_refs :: "nat \<Rightarrow> dedupStream \<Rightarrow> int" where
  "arrival_refs seq s = (case map_of (arrivals s) seq of None \<Rightarrow> 0 | Some n \<Rightarrow> n)"

definition reserve :: "nat \<Rightarrow> nat \<Rightarrow> source \<Rightarrow> dedupStream \<Rightarrow> bool \<times> dedupStream" where
  "reserve window seq src s =
     (if map_of (arrivals s) seq = None \<and> length (arrivals s) \<ge> window
      then (False, s\<lparr> arrivalOverflow := True \<rparr>)
      else
        let s1 = s\<lparr> arrivals := AList.update seq (arrival_refs seq s + 1) (arrivals s) \<rparr>;
            s2 = snd (check seq s1)
        in (True, if pending s2 \<noteq> [] \<and> gapSource s2 = None then s2\<lparr> gapSource := Some src \<rparr> else s2))"

definition release :: "nat \<Rightarrow> dedupStream \<Rightarrow> dedupStream" where
  "release seq s = excludeArrivals (s\<lparr> arrivals := AList.update seq (arrival_refs seq s - 1) (arrivals s) \<rparr>)"

subsection \<open>Publishing a gap\<close>

definition canPublishGap :: "nat \<Rightarrow> nat \<Rightarrow> dedupStream \<Rightarrow> bool" where
  "canPublishGap lo hi s =
     (if coversArrival lo hi s then False
      else if subtractRange (pending s) lo hi = None then False
      else if hi < lo \<or> hi \<le> written s \<or> lo \<le> inc64 (written s) then True
      else count_loop (written s) lo hi (missing s) < maxMissingRanges)"

fun publishable_loop :: "dedupStream \<Rightarrow> seqRange list \<Rightarrow> seqRange option" where
  "publishable_loop s [] = None"
| "publishable_loop s (p # ps) =
     (case safeGapPart p 0 s of
        Some gap \<Rightarrow> if canPublishGap (rfirst gap) (rlast gap) s then Some gap else publishable_loop s ps
      | None \<Rightarrow> publishable_loop s ps)"

definition nextPublishableGap :: "dedupStream \<Rightarrow> seqRange option \<times> dedupStream" where
  "nextPublishableGap s = (let s1 = excludeArrivals s in (publishable_loop s1 (pending s1), s1))"

text \<open>The completion of an accepted report: the body of \<open>finishGap\<close> once the claim matched.\<close>

definition finish :: "nat \<Rightarrow> seqRange \<Rightarrow> bool \<Rightarrow> dedupStream \<Rightarrow> bool \<times> dedupStream" where
  "finish generation gap accepted s0 =
     (let s = s0\<lparr> activeGapClaim := 0 \<rparr> in
      if \<not> accepted \<or> coversArrival (rfirst gap) (rlast gap) s \<or> gapGeneration s \<noteq> generation \<or>
         \<not> pendingContains (rfirst gap) (rlast gap) s
      then (False, s)
      else case subtractRange (pending s) (rfirst gap) (rlast gap) of
             None \<Rightarrow> (False, s)
           | Some remaining \<Rightarrow>
               let (ok, s1) = noteMissing (rfirst gap) (rlast gap) s in
               if \<not> ok then (False, s1)
               else let s2 = prunePending (s1\<lparr> pending := remaining \<rparr>) in
                 (True, if rlast gap > highest s2 then s2\<lparr> highest := rlast gap \<rparr> else s2))"

definition note_missing :: "nat \<Rightarrow> nat \<Rightarrow> nat \<Rightarrow> dedupStream \<Rightarrow> dedupStream" where
  "note_missing clk lo hi s =
     (if coversArrival lo hi s then s
      else let s1 = s\<lparr> used := clk \<rparr> in
        case subtractRange (pending s1) lo hi of
          None \<Rightarrow> s1
        | Some remaining \<Rightarrow>
            let (ok, s2) = noteMissing lo hi s1 in
            if \<not> ok then s2
            else let s3 = prunePending (s2\<lparr> pending := remaining \<rparr>) in
              if hi > highest s3 then s3\<lparr> highest := hi \<rparr> else s3)"


subsection \<open>Well-formed streams\<close>

abbreviation pend :: "dedupStream \<Rightarrow> nat set" where
  "pend s \<equiv> ranges_set (pending s)"

abbreviation miss :: "dedupStream \<Rightarrow> nat set" where
  "miss s \<equiv> ranges_set (missing s)"

abbreviation arr :: "dedupStream \<Rightarrow> nat set" where
  "arr s \<equiv> fst ` set (arrivals s)"

text \<open>
  \<open>stream_core\<close> is what holds even between the assignments of an operation; \<open>stream_ok\<close> adds that
  the pending gaps lie above the watermark and that the watermark has absorbed all it can.
\<close>

definition stream_core :: "dedupStream \<Rightarrow> bool" where
  "stream_core s \<longleftrightarrow> ranges_ok (pending s) \<and> length (pending s) \<le> maxMissingRanges \<and>
     ranges_ok (missing s) \<and> 0 \<notin> miss s \<and>
     distinct (ahead s) \<and> 0 \<notin> set (ahead s) \<and> set (ahead s) \<subseteq> {..max64} \<and>
     distinct (map fst (arrivals s)) \<and> written s \<le> max64 \<and> highest s \<le> max64"

definition settled :: "dedupStream \<Rightarrow> bool" where
  "settled s \<longleftrightarrow> Suc (written s) \<notin> set (ahead s) \<union> miss s"

definition stream_ok :: "dedupStream \<Rightarrow> bool" where
  "stream_ok s \<longleftrightarrow> stream_core s \<and> length (missing s) \<le> maxMissingRanges \<and> settled s \<and>
     (\<forall>n \<in> pend s. written s < n)"

lemma stream_ok_core: "stream_ok s \<Longrightarrow> stream_core s"
  by (simp add: stream_ok_def)

lemma stream_ok_new: "stream_ok (new_stream i c)"
  by (simp add: stream_ok_def stream_core_def settled_def new_stream_def)

lemma alist_set_delete: "set (AList.delete k xs) = {e \<in> set xs. fst e \<noteq> k}"
  by (auto simp: AList.delete_eq)

subsection \<open>Excluding arrivals from pending gaps\<close>

lemma clearGapSource_frame: "\<exists>g. clearGapSourceIfDrained s = s\<lparr> gapSource := g \<rparr>"
proof (cases "pending s = []")
  case False
  then have "clearGapSourceIfDrained s = s\<lparr> gapSource := gapSource s \<rparr>"
    by (simp add: clearGapSourceIfDrained_def)
  then show ?thesis ..
qed (auto simp: clearGapSourceIfDrained_def)

lemma excludePending_cases:
  assumes "excludePending seq s = (ok, s')" "stream_core s"
  obtains rs g where "s' = s\<lparr> pending := rs, gapSource := g \<rparr>" "ranges_ok rs"
    "length rs \<le> maxMissingRanges" "ranges_set rs = (if ok then pend s - {seq} else pend s)"
    "\<not> ok \<longrightarrow> s' = s \<and> maxMissingRanges \<le> length (pending s) \<and> seq \<in> pend s"
proof (cases "exclude_loop (length (pending s)) seq (pending s)")
  case Absent
  then have "ok" "s' = s" "seq \<notin> pend s"
    using assms exclude_loop_Absent [of "pending s"] by (auto simp: excludePending_def stream_core_def)
  with assms(2) show ?thesis
    by (intro that [where rs = "pending s" and g = "gapSource s"]) (simp_all add: stream_core_def)
next
  case (Excluded rs)
  obtain g where g: "clearGapSourceIfDrained (s\<lparr> pending := rs \<rparr>) = s\<lparr> pending := rs, gapSource := g \<rparr>"
    using clearGapSource_frame [of "s\<lparr> pending := rs \<rparr>"] by auto
  have "ok" "s' = s\<lparr> pending := rs, gapSource := g \<rparr>"
    using assms(1) Excluded g by (auto simp: excludePending_def)
  moreover have "ranges_ok rs" "ranges_set rs = pend s - {seq}" "length rs \<le> maxMissingRanges"
    using exclude_loop_Excluded [OF Excluded] assms(2) by (auto simp: stream_core_def)
  ultimately show ?thesis by (intro that [where rs = rs and g = g]) simp_all
next
  case ExcludeFull
  then have "\<not> ok" "s' = s" using assms(1) by (auto simp: excludePending_def)
  moreover have "seq \<in> pend s"
    using ExcludeFull exclude_loop_Absent [of "pending s" "length (pending s)" seq] assms(2)
    by (auto simp: stream_core_def)
  ultimately show ?thesis
    using exclude_loop_Full [OF ExcludeFull] assms(2)
    by (intro that [where rs = "pending s" and g = "gapSource s"]) (simp_all add: stream_core_def)
qed

text \<open>
  \<open>shrinks s s'\<close>: from \<open>s\<close> to \<open>s'\<close> only arrived sequences left the pending gaps, and only
  unreferenced arrivals outside the remaining gaps were forgotten.
\<close>

definition shrinks :: "dedupStream \<Rightarrow> dedupStream \<Rightarrow> bool" where
  "shrinks s s' \<longleftrightarrow> (\<exists>rs g as. s' = s\<lparr> pending := rs, gapSource := g, arrivals := as \<rparr>) \<and>
     pend s' \<subseteq> pend s \<and> pend s - pend s' \<subseteq> arr s \<and> set (arrivals s') \<subseteq> set (arrivals s) \<and>
     (\<forall>e \<in> set (arrivals s) - set (arrivals s'). snd e = 0 \<and> fst e \<notin> pend s')"

lemma shrinks_refl: "shrinks s s"
proof -
  have "s = s\<lparr> pending := pending s, gapSource := gapSource s, arrivals := arrivals s \<rparr>" by simp
  then show ?thesis unfolding shrinks_def by blast
qed

lemma shrinks_fields:
  assumes "shrinks s s'"
  shows "written s' = written s" "ahead s' = ahead s" "missing s' = missing s" "highest s' = highest s"
    "identity s' = identity s" "arrivalOverflow s' = arrivalOverflow s"
    "gapGeneration s' = gapGeneration s" "activeGapClaim s' = activeGapClaim s"
    "nextGapClaim s' = nextGapClaim s" "used s' = used s" "forgotten s' = forgotten s"
  using assms by (auto simp: shrinks_def)

lemma excludeArrival_shrinks:
  assumes "shrinks s0 s" "stream_core s" "e \<in> set (arrivals s0)" "distinct (map fst (arrivals s0))"
  shows "shrinks s0 (excludeArrival e s) \<and> stream_core (excludeArrival e s)"
proof -
  obtain ok s1 where x: "excludePending (fst e) s = (ok, s1)" by (cases "excludePending (fst e) s") auto
  from x assms(2) obtain rs g where s1: "s1 = s\<lparr> pending := rs, gapSource := g \<rparr>" "ranges_ok rs"
    "length rs \<le> maxMissingRanges" "ranges_set rs = (if ok then pend s - {fst e} else pend s)"
    by (rule excludePending_cases)
  from assms(1) obtain rs0 g0 as0 where s: "s = s0\<lparr> pending := rs0, gapSource := g0, arrivals := as0 \<rparr>"
    by (auto simp: shrinks_def)
  define as where "as = (if ok \<and> snd e = 0 then AList.delete (fst e) (arrivals s) else arrivals s)"
  have ex: "excludeArrival e s = s0\<lparr> pending := rs, gapSource := g, arrivals := as \<rparr>"
    by (simp add: excludeArrival_def x s1(1) as_def, simp add: s)
  have del: "set as \<subseteq> set (arrivals s)" by (auto simp: as_def alist_set_delete)
  have sub: "set (arrivals s) \<subseteq> set (arrivals s0)" "pend s \<subseteq> pend s0" "pend s0 - pend s \<subseteq> arr s0"
    and old: "\<forall>a \<in> set (arrivals s0) - set (arrivals s). snd a = 0 \<and> fst a \<notin> pend s"
    using assms(1) by (simp_all add: shrinks_def)
  have rsub: "ranges_set rs \<subseteq> pend s" "pend s - ranges_set rs \<subseteq> {fst e}" using s1(4) by (auto split: if_splits)
  have gone: "snd a = 0 \<and> fst a \<notin> ranges_set rs" if a: "a \<in> set (arrivals s)" "a \<notin> set as" for a
  proof -
    from a have c: "ok" "snd e = 0" "fst a = fst e" by (auto simp: as_def alist_set_delete split: if_splits)
    have "a \<in> set (arrivals s0)" using sub(1) a(1) by auto
    with c(3) assms(3,4) have "a = e" by (metis eq_key_imp_eq_value prod.collapse)
    with c s1(4) show ?thesis by simp
  qed
  have "\<forall>a \<in> set (arrivals s0) - set as. snd a = 0 \<and> fst a \<notin> ranges_set rs"
    using gone old rsub(1) by blast
  then have "shrinks s0 (excludeArrival e s)"
    unfolding shrinks_def ex using sub rsub del assms(3) by auto
  moreover have "distinct (map fst as)"
    using assms(2) by (auto simp: as_def stream_core_def distinct_delete)
  then have "stream_core (excludeArrival e s)"
    using assms(2) s1(2,3) unfolding ex by (simp add: stream_core_def s)
  ultimately show ?thesis ..
qed

lemma fold_excludeArrival:
  assumes "shrinks s0 s" "stream_core s" "set es \<subseteq> set (arrivals s0)" "distinct (map fst (arrivals s0))"
  shows "shrinks s0 (fold excludeArrival es s) \<and> stream_core (fold excludeArrival es s)"
  using assms
proof (induction es arbitrary: s)
  case (Cons e es)
  from excludeArrival_shrinks [OF Cons.prems(1,2) _ Cons.prems(4), of e] Cons.prems(3) Cons.IH Cons.prems(4)
  show ?case by simp
qed simp

lemma excludeArrivals_ok:
  assumes "stream_core s"
  shows "shrinks s (excludeArrivals s)" "stream_core (excludeArrivals s)"
  using fold_excludeArrival [OF shrinks_refl assms, of "arrivals s"] assms
  by (simp_all add: excludeArrivals_def stream_core_def)

text \<open>The protected part of a gap holds no arrival.\<close>

lemma safe_part_ok:
  "safe_part exclude seqs gap = Some g \<Longrightarrow> rfirst gap \<le> rlast gap \<Longrightarrow>
     rfirst gap \<le> rfirst g \<and> rfirst g \<le> rlast g \<and> rlast g \<le> rlast gap \<and>
     (\<forall>x \<in> insert exclude (set seqs). \<not> in_range g x)"
proof (induction exclude seqs gap rule: safe_part.induct)
  case (1 exclude seqs gap)
  show ?case
  proof (cases "first_protected exclude seqs gap")
    case None
    with 1 show ?thesis by (auto simp: safe_part.simps [of exclude seqs gap] first_protected_None)
  next
    case (Some p)
    note fp = first_protected_Some [OF Some, unfolded in_range_def]
    consider (pre) "p > rfirst gap" "g = SeqRange (rfirst gap) (p - 1)"
      | (step) "\<not> p > rfirst gap" "p \<noteq> rlast gap"
          "safe_part exclude seqs (SeqRange (rfirst gap + 1) (rlast gap)) = Some g"
      using 1(2) Some by (auto simp: safe_part.simps [of exclude seqs gap] split: if_splits)
    then show ?thesis
    proof cases
      case pre
      with fp show ?thesis by (auto simp: in_range_def)
    next
      case step
      with fp have "rfirst gap + 1 \<le> rlast gap" by auto
      with 1(1) [OF Some step] show ?thesis by auto
    qed
  qed
qed

lemma safeGapPart_ok:
  assumes "safeGapPart gap exclude s = Some g" "rfirst gap \<le> rlast gap"
  shows "rfirst gap \<le> rfirst g \<and> rfirst g \<le> rlast g \<and> rlast g \<le> rlast gap \<and>
     \<not> coversArrival (rfirst g) (rlast g) s \<and> \<not> (rfirst g \<le> exclude \<and> exclude \<le> rlast g)"
  using safe_part_ok [of exclude "map fst (arrivals s)" gap g] assms
  by (auto simp: safeGapPart_def coversArrival_def in_range_def split: if_splits)

subsection \<open>Queueing gaps\<close>

lemma queueMissing_cases:
  assumes "queueMissing lo hi s = (ok, s')" "stream_core s" "hi \<le> max64"
  obtains rs g n where "s' = s\<lparr> pending := rs, gapGeneration := n, gapSource := g \<rparr>" "ranges_ok rs"
    "length rs \<le> maxMissingRanges"
    "ranges_set rs = (if ok then pend s \<union> ({lo..hi} \<inter> {written s<..}) else pend s)"
    "\<not> ok \<longrightarrow> s' = s"
proof (cases "hi < lo \<or> hi \<le> written s")
  case True
  then have "ok" "s' = s" "{lo..hi} \<inter> {written s<..} = {}"
    using assms(1) by (auto simp: queueMissing_def)
  with assms(2) show ?thesis
    by (intro that [where rs = "pending s" and n = "gapGeneration s" and g = "gapSource s"])
      (simp_all add: stream_core_def)
next
  case False
  define f where "f = (if lo \<le> written s then inc64 (written s) else lo)"
  have inc: "inc64 (written s) = Suc (written s)" using False assms(3) by (simp add: inc64_eq)
  have fh: "f \<le> hi" using False inc by (auto simp: f_def)
  have fs: "{f..hi} = {lo..hi} \<inter> {written s<..}" using False inc by (auto simp: f_def)
  define rs where "rs = insert_range (merge_loop f hi (pending s))"
  have ok: "ranges_ok rs" "ranges_set rs = pend s \<union> {f..hi}"
    using insert_range_ok [of "pending s" f hi] assms(2,3) fh by (auto simp: rs_def stream_core_def)
  show ?thesis
  proof (cases "length (fst (merge_loop f hi (pending s))) \<ge> maxMissingRanges")
    case True
    then have "\<not> ok" "s' = s"
      using False assms(1) by (simp_all add: queueMissing_def f_def [symmetric] Let_def)
    with assms(2) show ?thesis
      by (intro that [where rs = "pending s" and n = "gapGeneration s" and g = "gapSource s"])
        (simp_all add: stream_core_def)
  next
    case room: False
    have "s' = s\<lparr> pending := rs, gapGeneration := (if pending s = [] then next_nonzero64 (gapGeneration s) else gapGeneration s),
        gapSource := (if pending s = [] then None else gapSource s) \<rparr>" "ok"
      using room False assms(1) by (auto simp: queueMissing_def f_def [symmetric] rs_def [symmetric] Let_def)
    moreover have "length rs \<le> maxMissingRanges" using room by (simp add: rs_def)
    ultimately show ?thesis using ok fs by (intro that) simp_all
  qed
qed

text \<open>Only the pending gaps and their attribution change.\<close>

definition requeued :: "dedupStream \<Rightarrow> dedupStream \<Rightarrow> bool" where
  "requeued s s' \<longleftrightarrow> (\<exists>rs n g. s' = s\<lparr> pending := rs, gapGeneration := n, gapSource := g \<rparr>) \<and>
     ranges_ok (pending s') \<and> length (pending s') \<le> maxMissingRanges"

lemma requeued_fields:
  assumes "requeued s s'"
  shows "written s' = written s" "ahead s' = ahead s" "missing s' = missing s" "highest s' = highest s"
    "identity s' = identity s" "arrivals s' = arrivals s" "arrivalOverflow s' = arrivalOverflow s"
    "activeGapClaim s' = activeGapClaim s" "nextGapClaim s' = nextGapClaim s" "used s' = used s"
  using assms by (auto simp: requeued_def)

lemma requeued_refl: "stream_core s \<Longrightarrow> requeued s s"
  unfolding requeued_def stream_core_def
  by (intro conjI exI [of _ "pending s"] exI [of _ "gapGeneration s"] exI [of _ "gapSource s"]) simp_all

lemma requeued_trans: "requeued s s' \<Longrightarrow> requeued s' s'' \<Longrightarrow> requeued s s''"
  by (auto simp: requeued_def) blast

lemma requeued_core: "requeued s s' \<Longrightarrow> stream_core s \<Longrightarrow> stream_core s'"
  by (auto simp: requeued_def stream_core_def)

lemma queueMissing_ok:
  assumes "queueMissing lo hi s = (ok, s')" "stream_core s" "hi \<le> max64"
  shows "requeued s s'" "pend s' = (if ok then pend s \<union> ({lo..hi} \<inter> {written s<..}) else pend s)"
    "\<not> ok \<Longrightarrow> s' = s \<and> lo \<le> hi"
proof -
  from assms obtain rs g n where q: "s' = s\<lparr> pending := rs, gapGeneration := n, gapSource := g \<rparr>" "ranges_ok rs"
    "length rs \<le> maxMissingRanges"
    "ranges_set rs = (if ok then pend s \<union> ({lo..hi} \<inter> {written s<..}) else pend s)" "\<not> ok \<longrightarrow> s' = s"
    by (rule queueMissing_cases)
  from q(1-3) show "requeued s s'" unfolding requeued_def by auto
  from q(1,4) show "pend s' = (if ok then pend s \<union> ({lo..hi} \<inter> {written s<..}) else pend s)" by simp
  show "\<not> ok \<Longrightarrow> s' = s \<and> lo \<le> hi"
    using q(5) assms(1) by (auto simp: queueMissing_def split: if_splits)
qed

lemma replay_set_step:
  fixes nxt x :: nat
  assumes "nxt \<le> rlast r" "\<forall>n \<in> S. rfirst r \<le> n" "rfirst r \<le> rlast r"
  shows "{nxt..rfirst r - 1} \<inter> {m. nxt < rfirst r} \<union> ({Suc (rlast r)..x} - S) =
         {nxt..max x (rlast r)} - ({rfirst r..rlast r} \<union> S)"
proof (rule set_eqI)
  fix n
  show "n \<in> {nxt..rfirst r - 1} \<inter> {m. nxt < rfirst r} \<union> ({Suc (rlast r)..x} - S) \<longleftrightarrow>
        n \<in> {nxt..max x (rlast r)} - ({rfirst r..rlast r} \<union> S)"
    using assms by (cases "n \<in> S") (auto simp: le_max_iff_disj)
qed

lemma replay_loop_ok:
  assumes "replay_loop nxt hi rs s = (ok, s')" "stream_core s" "hi \<le> max64" "written s < nxt"
    "sorted (map rfirst rs)" "\<forall>r \<in> set rs. rfirst r \<le> rlast r"
  shows "requeued s s' \<and> (\<exists>x \<le> hi. pend s' = pend s \<union> ({nxt..x} - ranges_set rs) \<and> (ok \<longrightarrow> x = hi))"
  using assms
proof (induction nxt hi rs s rule: replay_loop.induct)
  case (1 nxt hi s)
  have q: "queueMissing nxt hi s = (ok, s')" using 1 by simp
  note q = queueMissing_ok [OF q 1(2,3)]
  have "{nxt..hi} \<inter> {written s<..} = {nxt..hi}" using 1(4) by auto
  moreover have "\<not> ok \<Longrightarrow> nxt - 1 \<le> hi \<and> {nxt..nxt - 1} = {}" using q(3) 1(4) by auto
  ultimately show ?case using q(1,2) by (cases ok) (auto intro: exI [of _ "nxt - 1"])
next
  case (2 nxt hi r rs s)
  have above: "\<forall>n \<in> ranges_set rs. rfirst r \<le> n" using 2(7,8) by (force simp: ranges_set_def)
  consider (skip) "rlast r < nxt" | (beyond) "\<not> rlast r < nxt" "rfirst r > hi"
    | (inside) "\<not> rlast r < nxt" "\<not> rfirst r > hi" by blast
  then show ?case
  proof cases
    case skip
    have "{nxt..x} - ranges_set (r # rs) = {nxt..x} - ranges_set rs" for x using skip by auto
    with 2(1) [OF skip] 2(3-8) skip show ?thesis by simp
  next
    case beyond
    have q: "queueMissing nxt hi s = (ok, s')" using 2(3) beyond by simp
    note q = queueMissing_ok [OF q 2(4,5)]
    have "{nxt..hi} \<inter> {written s<..} = {nxt..hi} - ranges_set (r # rs)" using 2(6) beyond above by force
    moreover have "\<not> ok \<Longrightarrow> nxt - 1 \<le> hi \<and> {nxt..nxt - 1} = {}" using q(3) 2(6) by auto
    ultimately show ?thesis using q(1,2) by (cases ok) (auto intro: exI [of _ "nxt - 1"])
  next
    case inside
    obtain ok1 s1 where q: "(if rfirst r > nxt then queueMissing nxt (rfirst r - 1) s else (True, s)) = (ok1, s1)"
      by (metis surj_pair)
    have q1: "requeued s s1" "pend s1 = (if ok1 then pend s \<union> ({nxt..rfirst r - 1} \<inter> {m. nxt < rfirst r}) else pend s)"
    proof -
      have "requeued s s1 \<and> pend s1 = (if ok1 then pend s \<union> ({nxt..rfirst r - 1} \<inter> {m. nxt < rfirst r}) else pend s)"
      proof (cases "rfirst r > nxt")
        case True
        with q have qq: "queueMissing nxt (rfirst r - 1) s = (ok1, s1)" by simp
        have "rfirst r - 1 \<le> max64" using inside(2) 2(5) by simp
        note m = queueMissing_ok [OF qq 2(4) this]
        have "{nxt..rfirst r - 1} \<inter> {written s<..} = {nxt..rfirst r - 1} \<inter> {m. nxt < rfirst r}"
          using True 2(6) by auto
        with m show ?thesis by simp
      qed (use q 2(4) requeued_refl in auto)
      then show "requeued s s1" "pend s1 = (if ok1 then pend s \<union> ({nxt..rfirst r - 1} \<inter> {m. nxt < rfirst r}) else pend s)"
        by simp_all
    qed
    have rl: "rfirst r \<le> rlast r" "nxt \<le> rlast r" using 2(8) inside by simp_all
    show ?thesis
    proof (cases ok1)
      case False
      then have r: "ok = False" "s' = s1" using 2(3) inside q by simp_all
      have "nxt - 1 \<le> hi" using False q inside(2) 2(4) queueMissing_ok(3) [of nxt "rfirst r - 1" s ok1 s1] 2(5)
        by (auto split: if_splits)
      moreover have "{nxt..nxt - 1} = {}" using 2(6) by simp
      ultimately show ?thesis using r q1 False by (auto intro: exI [of _ "nxt - 1"])
    next
      case True
      show ?thesis
      proof (cases "rlast r \<ge> hi")
        case end_: True
        then have r: "ok" "s' = s1" using 2(3) inside q True by simp_all
        have "{nxt..rfirst r - 1} \<inter> {m. nxt < rfirst r} = {nxt..hi} - ranges_set (r # rs)"
          using end_ inside(2) above by force
        with q1 True r show ?thesis by auto
      next
        case more: False
        have inc: "inc64 (rlast r) = Suc (rlast r)" using more 2(5) by (simp add: inc64_eq)
        have rep: "replay_loop (inc64 (rlast r)) hi rs s1 = (ok, s')" using 2(3) inside q True more by simp
        have "requeued s1 s' \<and> (\<exists>x \<le> hi. pend s' = pend s1 \<union> ({inc64 (rlast r)..x} - ranges_set rs) \<and> (ok \<longrightarrow> x = hi))"
        proof (rule 2(2) [OF inside q [symmetric] refl])
          show "\<not> \<not> ok1" using True by simp
          show "\<not> hi \<le> rlast r" using more by simp
        qed (use rep requeued_core [OF q1(1)] 2 requeued_fields [OF q1(1)] inc inside in auto)
        then obtain x where x: "requeued s1 s'" "x \<le> hi"
          "pend s' = pend s1 \<union> ({Suc (rlast r)..x} - ranges_set rs)" "ok \<longrightarrow> x = hi" using inc by auto
        have "pend s' = pend s \<union> ({nxt..max x (rlast r)} - ranges_set (r # rs))"
          by (simp only: x(3) q1(2) True if_True Un_assoc replay_set_step [OF rl(2) above rl(1), of x] ranges_set_simps)
        then show ?thesis using x more requeued_trans [OF q1(1) x(1)]
          by (intro conjI exI [of _ "max x (rlast r)"]) auto
      qed
    qed
  qed
qed

lemma accounted_ranges_set:
  "ranges_set (accounted_ranges s) = miss s \<union> set (ahead s) \<union> arr s"
proof -
  have "ranges_set (map (\<lambda>q. SeqRange q q) qs) = set qs" for qs by (auto simp: ranges_set_def)
  moreover have "ranges_set (sort_key rfirst rs) = ranges_set rs" for rs by (rule ranges_set_cong) simp
  ultimately show ?thesis by (simp add: accounted_ranges_def Un_assoc del: map_map)
qed

lemma queueReplayMissing_ok:
  assumes "queueReplayMissing hi s = (ok, s')" "stream_core s" "hi \<le> max64" "written s < hi"
  shows "requeued s s'"
    "\<exists>x \<le> hi. pend s' = pend s \<union> ({written s<..x} - (miss s \<union> set (ahead s) \<union> arr s)) \<and> (ok \<longrightarrow> x = hi)"
proof -
  have inc: "inc64 (written s) = Suc (written s)" using assms by (simp add: inc64_eq)
  have "\<forall>r \<in> set (accounted_ranges s). rfirst r \<le> rlast r"
    using assms(2) by (auto simp: accounted_ranges_def stream_core_def ranges_ok_def)
  moreover have "sorted (map rfirst (accounted_ranges s))" by (simp add: accounted_ranges_def)
  ultimately have "requeued s s' \<and>
      (\<exists>x \<le> hi. pend s' = pend s \<union> ({inc64 (written s)..x} - ranges_set (accounted_ranges s)) \<and> (ok \<longrightarrow> x = hi))"
    using assms inc by (intro replay_loop_ok) (auto simp: queueReplayMissing_def)
  then show "requeued s s'"
    "\<exists>x \<le> hi. pend s' = pend s \<union> ({written s<..x} - (miss s \<union> set (ahead s) \<union> arr s)) \<and> (ok \<longrightarrow> x = hi)"
    by (simp_all add: inc accounted_ranges_set atLeastSucAtMost_greaterThanAtMost)
qed

subsection \<open>Advancing the watermark\<close>

text \<open>\<open>advanced s s'\<close>: the watermark moved only over sequences held or reported, and as far as it can.\<close>

definition advanced :: "dedupStream \<Rightarrow> dedupStream \<Rightarrow> bool" where
  "advanced s s' \<longleftrightarrow> (\<exists>w as ms. s' = s\<lparr> written := w, ahead := as, missing := ms \<rparr>) \<and>
     written s \<le> written s' \<and> written s' \<le> max64 \<and>
     {written s<..written s'} \<subseteq> set (ahead s) \<union> miss s \<and>
     set (ahead s') \<subseteq> set (ahead s) \<and> set (ahead s) \<subseteq> set (ahead s') \<union> {..written s'} \<and> distinct (ahead s') \<and>
     miss s' \<subseteq> miss s \<and> miss s \<subseteq> miss s' \<union> {..written s'} \<and> ranges_ok (missing s') \<and>
     length (missing s') \<le> length (missing s)"

lemma advanced_fields:
  assumes "advanced s s'"
  shows "pending s' = pending s" "highest s' = highest s" "identity s' = identity s"
    "arrivals s' = arrivals s" "arrivalOverflow s' = arrivalOverflow s" "gapGeneration s' = gapGeneration s"
    "activeGapClaim s' = activeGapClaim s" "nextGapClaim s' = nextGapClaim s" "used s' = used s"
    "gapSource s' = gapSource s" "forgotten s' = forgotten s"
  using assms by (auto simp: advanced_def)

lemma advanced_refl: "stream_core s \<Longrightarrow> advanced s s"
  unfolding advanced_def stream_core_def
  by (intro conjI exI [of _ "written s"] exI [of _ "ahead s"] exI [of _ "missing s"]) auto

lemma advanced_trans:
  assumes "advanced s s'" "advanced s' s''"
  shows "advanced s s''"
proof -
  have "{written s<..written s''} \<subseteq> {written s<..written s'} \<union> {written s'<..written s''}" by auto
  also have "\<dots> \<subseteq> set (ahead s) \<union> miss s" using assms unfolding advanced_def by blast
  finally have 1: "{written s<..written s''} \<subseteq> set (ahead s) \<union> miss s" .
  have 2: "{..written s'} \<subseteq> {..written s''}" using assms by (auto simp: advanced_def)
  have 3: "\<exists>w as ms. s'' = s\<lparr> written := w, ahead := as, missing := ms \<rparr>"
    using assms unfolding advanced_def by auto blast
  have a: "set (ahead s') \<subseteq> set (ahead s)" "set (ahead s) \<subseteq> set (ahead s') \<union> {..written s'}"
      "miss s' \<subseteq> miss s" "miss s \<subseteq> miss s' \<union> {..written s'}" "written s \<le> written s'"
      "length (missing s') \<le> length (missing s)"
    using assms(1) by (simp_all add: advanced_def)
  have b: "set (ahead s'') \<subseteq> set (ahead s')" "set (ahead s') \<subseteq> set (ahead s'') \<union> {..written s''}"
      "miss s'' \<subseteq> miss s'" "miss s' \<subseteq> miss s'' \<union> {..written s''}" "written s' \<le> written s''"
      "length (missing s'') \<le> length (missing s')" "written s'' \<le> max64" "distinct (ahead s'')"
      "ranges_ok (missing s'')"
    using assms(2) by (simp_all add: advanced_def)
  have "set (ahead s) \<subseteq> set (ahead s'') \<union> {..written s''}" by (rule subset_trans [OF a(2) Un_least [OF b(2) le_supI2 [OF 2]]])
  moreover have "miss s \<subseteq> miss s'' \<union> {..written s''}" by (rule subset_trans [OF a(4) Un_least [OF b(4) le_supI2 [OF 2]]])
  ultimately show ?thesis using a b 1 3 by (simp add: advanced_def subset_trans [OF b(1) a(1)] subset_trans [OF b(3) a(3)])
qed

lemma absorb_ok:
  assumes "stream_core s"
  shows "advanced s (absorb s) \<and> settled (absorb s)"
  using assms
proof (induction s rule: absorb.induct)
  case (1 s)
  let ?nxt = "inc64 (written s)"
  have zero: "0 \<notin> set (ahead s)" "0 \<notin> miss s" using 1(3) by (auto simp: stream_core_def)
  show ?case
  proof (cases "?nxt \<in> set (ahead s)")
    case True
    with zero have nxt: "?nxt = Suc (written s)" "written s < max64"
      using 1(3) by (cases "written s < max64"; auto simp: stream_core_def inc64_eq inc64_wrap)+
    let ?s1 = "s\<lparr> ahead := removeAll ?nxt (ahead s), written := ?nxt \<rparr>"
    have core: "stream_core ?s1" using 1(3) nxt by (auto simp: stream_core_def distinct_removeAll)
    have "advanced s ?s1"
      unfolding advanced_def using True nxt 1(3)
      by (intro conjI exI [of _ ?nxt] exI [of _ "removeAll ?nxt (ahead s)"] exI [of _ "missing s"])
        (auto simp: stream_core_def distinct_removeAll le_Suc_eq)
    moreover have "advanced ?s1 (absorb ?s1) \<and> settled (absorb ?s1)" using 1(1) [OF refl True core] .
    moreover have "absorb s = absorb ?s1" using True by (subst absorb.simps) (simp add: Let_def)
    ultimately show ?thesis using advanced_trans by auto
  next
    case False
    show ?thesis
    proof (cases "take_loop ?nxt (missing s)")
      case None
      then have "absorb s = s" using False by (subst absorb.simps) (simp add: takeMissing_def)
      moreover have "settled s"
        using False None zero 1(3) ranges_ok_bound [of "missing s" "Suc (written s)"]
        by (cases "written s < max64") (auto simp: settled_def take_loop_None inc64_eq stream_core_def)
      ultimately show ?thesis using advanced_refl [OF 1(3)] by simp
    next
      case (Some x)
      then obtain l rest where t: "take_loop ?nxt (missing s) = Some (l, rest)" by (cases x) auto
      have ok: "ranges_ok (missing s)" using 1(3) by (simp add: stream_core_def)
      note tk = take_loop_Some [OF t ok]
      have "?nxt \<in> miss s" using tk by auto
      with zero have nxt: "?nxt = Suc (written s)"
        using 1(3) by (cases "written s < max64"; auto simp: stream_core_def inc64_eq inc64_wrap)
      let ?s1 = "s\<lparr> missing := rest, written := l \<rparr>"
      have rest: "ranges_set rest \<subseteq> miss s" using tk by (force simp: ranges_set_def)
      have core: "stream_core ?s1" using 1(3) tk rest by (auto simp: stream_core_def)
      have tm: "takeMissing ?nxt s = Some (l, s\<lparr> missing := rest \<rparr>)" using t by (simp add: takeMissing_def)
      have "advanced s ?s1"
        unfolding advanced_def
      proof (intro conjI)
        show "\<exists>w as ms. ?s1 = s\<lparr> written := w, ahead := as, missing := ms \<rparr>"
          by (intro exI [of _ l] exI [of _ "ahead s"] exI [of _ rest]) simp
        show "{written s<..written ?s1} \<subseteq> set (ahead s) \<union> miss s"
          using tk nxt by (auto simp: atLeastSucAtMost_greaterThanAtMost)
      qed (use tk rest nxt 1(3) in \<open>auto simp: stream_core_def\<close>)
      moreover have "advanced ?s1 (absorb ?s1) \<and> settled (absorb ?s1)"
        using 1(2) [OF refl False tm refl] core by simp
      moreover have "absorb s = absorb ?s1" using False tm by (subst absorb.simps) (simp add: Let_def)
      ultimately show ?thesis using advanced_trans by auto
    qed
  qed
qed

lemma advanced_core: "advanced s s' \<Longrightarrow> stream_core s \<Longrightarrow> stream_core s'"
  by (auto simp: advanced_def stream_core_def)

end
