(* ===== verification/Dedup_Stream_Inv.thy ===== *)
theory Dedup_Stream_Inv
  imports Dedup_Stream
begin

section \<open>Invariants of a guest stream\<close>

text \<open>
  What the operations of theory \<^verbatim>\<open>Dedup_Stream\<close> keep. The predicates take the history of the
  stream as arguments: \<open>D\<close> the sequences a sink has accepted, \<open>R\<close> the sequences covered by an
  accepted loss report, \<open>S\<close> the sequences received, and the anchor \<open>a\<close> below the first sequence
  the collector ever saw.

  \<^item> \<open>acct\<close>: everything between the anchor and the watermark was written or reported lost.
  \<^item> \<open>complete\<close>: every sequence up to the highest one seen is accounted for, was received, or is
    in a pending gap.
  \<^item> \<open>guarded\<close>: a sequence in flight is not on the list of reported losses and is covered by
    the watermark only if it has been written.
\<close>

definition acct :: "nat \<Rightarrow> nat set \<Rightarrow> nat set \<Rightarrow> dedupStream \<Rightarrow> bool" where
  "acct a D R s \<longleftrightarrow> a \<le> written s \<and> {a<..written s} \<subseteq> D \<union> R \<and> set (ahead s) \<subseteq> D \<and> miss s \<subseteq> R"

definition horizon :: "dedupStream \<Rightarrow> nat set" where
  "horizon s = {n. highest s < n \<and> (\<forall>m \<in> pend s. m < n)}"

definition covered :: "dedupStream \<Rightarrow> nat set" where
  "covered s = {..written s} \<union> pend s \<union> miss s \<union> horizon s"

definition complete :: "nat set \<Rightarrow> dedupStream \<Rightarrow> bool" where
  "complete S s \<longleftrightarrow> covered s \<union> S = UNIV"

definition guarded :: "nat set \<Rightarrow> nat \<Rightarrow> dedupStream \<Rightarrow> bool" where
  "guarded D q s \<longleftrightarrow> q \<in> arr s \<and> q \<notin> miss s \<and> (q \<le> written s \<longrightarrow> q \<in> D)"

definition stream_inv :: "nat \<Rightarrow> nat set \<Rightarrow> nat set \<Rightarrow> nat set \<Rightarrow> dedupStream \<Rightarrow> bool" where
  "stream_inv a D R S s \<longleftrightarrow> stream_ok s \<and> 0 < highest s \<and> acct a D R s \<and> complete S s \<and>
     set (ahead s) \<union> arr s \<subseteq> S"

lemmas stream_defs = stream_inv_def stream_ok_def stream_core_def settled_def acct_def complete_def
  covered_def horizon_def

subsection \<open>Fields the invariants do not read\<close>

lemma stream_inv_frame [simp]:
  "stream_inv a D R S (s\<lparr> used := u \<rparr>) = stream_inv a D R S s"
  "stream_inv a D R S (s\<lparr> gapSource := g \<rparr>) = stream_inv a D R S s"
  "stream_inv a D R S (s\<lparr> activeGapClaim := c \<rparr>) = stream_inv a D R S s"
  "stream_inv a D R S (s\<lparr> nextGapClaim := c \<rparr>) = stream_inv a D R S s"
  "stream_inv a D R S (s\<lparr> arrivalOverflow := b \<rparr>) = stream_inv a D R S s"
  "stream_inv a D R S (s\<lparr> forgotten := c \<rparr>) = stream_inv a D R S s"
  by (simp_all add: stream_defs)

lemma guarded_frame [simp]:
  "guarded D q (s\<lparr> used := u \<rparr>) = guarded D q s"
  "guarded D q (s\<lparr> gapSource := g \<rparr>) = guarded D q s"
  "guarded D q (s\<lparr> activeGapClaim := c \<rparr>) = guarded D q s"
  "guarded D q (s\<lparr> nextGapClaim := c \<rparr>) = guarded D q s"
  "guarded D q (s\<lparr> arrivalOverflow := b \<rparr>) = guarded D q s"
  "guarded D q (s\<lparr> ahead := as \<rparr>) = guarded D q s"
  "guarded D q (s\<lparr> forgotten := c \<rparr>) = guarded D q s"
  "guarded D q (s\<lparr> highest := c \<rparr>) = guarded D q s"
  "guarded D q (s\<lparr> pending := rs \<rparr>) = guarded D q s"
  by (simp_all add: guarded_def)

lemma arrival_refs_frame [simp]:
  "arrival_refs q (s\<lparr> used := u \<rparr>) = arrival_refs q s"
  "arrival_refs q (s\<lparr> gapSource := g \<rparr>) = arrival_refs q s"
  "arrival_refs q (s\<lparr> activeGapClaim := c \<rparr>) = arrival_refs q s"
  "arrival_refs q (s\<lparr> nextGapClaim := c \<rparr>) = arrival_refs q s"
  "arrival_refs q (s\<lparr> arrivalOverflow := b \<rparr>) = arrival_refs q s"
  "arrival_refs q (s\<lparr> ahead := as \<rparr>) = arrival_refs q s"
  "arrival_refs q (s\<lparr> forgotten := c \<rparr>) = arrival_refs q s"
  "arrival_refs q (s\<lparr> highest := c \<rparr>) = arrival_refs q s"
  "arrival_refs q (s\<lparr> pending := rs \<rparr>) = arrival_refs q s"
  by (simp_all add: arrival_refs_def)

lemma acct_mono: "acct a D R s \<Longrightarrow> D \<subseteq> D' \<Longrightarrow> R \<subseteq> R' \<Longrightarrow> acct a D' R' s"
  unfolding acct_def by (meson Un_mono subset_trans)

lemma complete_mono: "complete S s \<Longrightarrow> S \<subseteq> S' \<Longrightarrow> complete S' s"
  unfolding complete_def by auto

lemma stream_inv_mono:
  "stream_inv a D R S s \<Longrightarrow> D \<subseteq> D' \<Longrightarrow> R \<subseteq> R' \<Longrightarrow> S \<subseteq> S' \<Longrightarrow> stream_inv a D' R' S' s"
  unfolding stream_inv_def by (meson acct_mono complete_mono subset_trans)

lemma guarded_mono: "guarded D q s \<Longrightarrow> D \<subseteq> D' \<Longrightarrow> guarded D' q s"
  by (auto simp: guarded_def)

subsection \<open>The building blocks\<close>

lemma horizon_antimono: "pend s' \<subseteq> pend s \<Longrightarrow> highest s' = highest s \<Longrightarrow> horizon s \<subseteq> horizon s'"
  by (auto simp: horizon_def)

lemma shrinks_inv:
  assumes "shrinks s s'" "stream_core s'" "stream_inv a D R S s"
  shows "stream_inv a D R S s'"
proof -
  note f = shrinks_fields [OF assms(1)]
  have p: "pend s' \<subseteq> pend s" "pend s - pend s' \<subseteq> arr s" "arr s' \<subseteq> arr s"
    using assms(1) by (auto simp: shrinks_def)
  have "horizon s \<subseteq> horizon s'" using p(1) f(4) by (rule horizon_antimono)
  moreover have "arr s \<subseteq> S" using assms(3) by (simp add: stream_inv_def)
  then have "pend s \<subseteq> pend s' \<union> S" using p(2) by blast
  ultimately have "covered s \<subseteq> covered s' \<union> S" unfolding covered_def f by blast
  then have "complete S s'" using assms(3) unfolding stream_inv_def complete_def by blast
  moreover have "arr s' \<subseteq> S" using p(3) assms(3) by (auto simp only: stream_inv_def)
  moreover have "\<forall>n \<in> pend s'. written s < n" using p(1) assms(3) by (auto simp only: stream_inv_def stream_ok_def)
  ultimately show ?thesis
    using assms(2,3) f by (simp add: stream_inv_def stream_ok_def settled_def acct_def)
qed

lemma shrinks_guarded:
  assumes "shrinks s s'" "guarded D q s" "map_of (arrivals s) q = Some n" "n \<noteq> 0"
  shows "guarded D q s' \<and> (q, n) \<in> set (arrivals s')"
proof -
  have "(q, n) \<in> set (arrivals s)" using assms(3) by (rule map_of_SomeD)
  moreover have "\<forall>e \<in> set (arrivals s) - set (arrivals s'). snd e = 0"
    using assms(1) unfolding shrinks_def by blast
  ultimately have "(q, n) \<in> set (arrivals s')" using assms(4) by (metis DiffI snd_conv)
  with assms(2) shrinks_fields [OF assms(1)] show ?thesis by (force simp: guarded_def)
qed

lemma excludeArrivals_inv: "stream_inv a D R S s \<Longrightarrow> stream_inv a D R S (excludeArrivals s)"
  by (rule shrinks_inv [OF excludeArrivals_ok]) (simp_all add: stream_inv_def stream_ok_def)

text \<open>A clipped list of pending gaps, as \<open>prunePending\<close> makes it after the watermark moved.\<close>

lemma prunePending_ok:
  assumes "stream_core s" "settled s" "length (missing s) \<le> maxMissingRanges"
  shows "stream_ok (prunePending s)" "pend (prunePending s) \<subseteq> pend s"
    "pend s \<subseteq> pend (prunePending s) \<union> {..written s} \<union> arr s"
    "written (prunePending s) = written s" "ahead (prunePending s) = ahead s"
    "missing (prunePending s) = missing s" "highest (prunePending s) = highest s"
    "shrinks (s\<lparr> pending := clip_ranges (written s) (pending s) \<rparr>) (prunePending s)"
proof -
  let ?c = "s\<lparr> pending := clip_ranges (written s) (pending s) \<rparr>"
  have clip: "ranges_ok (pending ?c)" "pend ?c = pend s \<inter> {written s<..}"
    "length (pending ?c) \<le> length (pending s)"
    using clip_ranges_ok [of "pending s" "written s"] assms(1) by (auto simp: stream_core_def)
  have core: "stream_core ?c" using assms(1) clip by (auto simp: stream_core_def)
  note x = excludeArrivals_ok [OF core]
  obtain g where g: "prunePending s = excludeArrivals ?c\<lparr> gapSource := g \<rparr>"
    using clearGapSource_frame unfolding prunePending_def by blast
  obtain rs g1 as where xs: "excludeArrivals ?c = ?c\<lparr> pending := rs, gapSource := g1, arrivals := as \<rparr>"
    using x(1) by (auto simp: shrinks_def)
  have "\<exists>rs' g' as'. prunePending s = ?c\<lparr> pending := rs', gapSource := g', arrivals := as' \<rparr>"
    unfolding g xs by (intro exI [of _ rs] exI [of _ g] exI [of _ as]) simp
  then show sh: "shrinks ?c (prunePending s)" using x(1) unfolding shrinks_def by (simp add: g)
  note f = shrinks_fields [OF sh]
  have p: "pend (prunePending s) \<subseteq> pend ?c" "pend ?c \<subseteq> pend (prunePending s) \<union> arr s"
    using sh by (auto simp: shrinks_def)
  show "written (prunePending s) = written s" "ahead (prunePending s) = ahead s"
    "missing (prunePending s) = missing s" "highest (prunePending s) = highest s" using f by simp_all
  show "pend (prunePending s) \<subseteq> pend s" "pend s \<subseteq> pend (prunePending s) \<union> {..written s} \<union> arr s"
    using p clip(2) by auto
  have "stream_core (prunePending s)" using x(2) by (simp add: g stream_core_def)
  then show "stream_ok (prunePending s)"
    using p(1) clip(2) f assms(2,3) by (auto simp: stream_ok_def settled_def)
qed

subsection \<open>Reporting a loss\<close>

text \<open>What a successful \<open>noteMissing\<close> does to the watermark and the ledger of reported losses.\<close>

definition noted :: "nat set \<Rightarrow> dedupStream \<Rightarrow> dedupStream \<Rightarrow> bool" where
  "noted L s s' \<longleftrightarrow> (\<exists>w as ms. s' = s\<lparr> written := w, ahead := as, missing := ms \<rparr>) \<and>
     written s \<le> written s' \<and> {written s<..written s'} \<subseteq> set (ahead s) \<union> miss s \<union> L \<and>
     set (ahead s') \<subseteq> set (ahead s) \<and> miss s' \<subseteq> miss s \<union> L \<and>
     miss s \<union> L \<subseteq> miss s' \<union> {..written s'} \<and>
     stream_core s' \<and> settled s' \<and> length (missing s') \<le> maxMissingRanges"

lemma absorb_consumes:
  assumes "stream_core s" "Suc (written s) \<in> miss s" "Suc (written s) \<notin> set (ahead s)"
  shows "length (missing (absorb s)) < length (missing s)"
proof -
  have ok: "ranges_ok (missing s)" using assms(1) by (simp add: stream_core_def)
  then have "Suc (written s) \<le> max64" using assms(2) by (rule ranges_ok_bound)
  then have inc: "inc64 (written s) = Suc (written s)" by (simp add: inc64_eq)
  from assms(2) obtain l rest where t: "take_loop (Suc (written s)) (missing s) = Some (l, rest)"
    using take_loop_None [of "Suc (written s)" "missing s"] by (cases "take_loop (Suc (written s)) (missing s)") auto
  note tk = take_loop_Some [OF t ok]
  let ?s1 = "s\<lparr> missing := rest, written := l \<rparr>"
  have "ranges_set rest \<subseteq> miss s" using tk by (force simp: ranges_set_def)
  then have "stream_core ?s1" using assms(1) tk by (auto simp: stream_core_def)
  from absorb_ok [OF this] have "length (missing (absorb ?s1)) \<le> length rest" by (simp add: advanced_def)
  moreover have "absorb s = absorb ?s1"
    using t inc assms(3) by (subst absorb.simps) (simp add: takeMissing_def Let_def)
  ultimately show ?thesis using tk by simp
qed

lemma insert_range_merged: "fst (snd m) \<le> snd (snd m) \<Longrightarrow> fst (snd m) \<in> ranges_set (insert_range m)"
  by (cases m) (auto simp: insert_range_def ranges_set_def)

lemma noteMissing_ok:
  assumes "noteMissing lo hi s = (ok, s')" "stream_ok s" "hi \<le> max64"
  shows "if ok then noted {lo..hi} s s' else s' = s"
proof (cases "hi < lo \<or> hi \<le> written s")
  case True
  have "\<exists>w as ms. s = s\<lparr> written := w, ahead := as, missing := ms \<rparr>"
    by (intro exI [of _ "written s"] exI [of _ "ahead s"] exI [of _ "missing s"]) simp
  moreover have "{lo..hi} \<subseteq> {..written s}" using True by auto
  moreover have "ok" "s' = s" using True assms(1) by (auto simp: noteMissing_def)
  ultimately show ?thesis using assms(2) by (auto simp: noted_def stream_ok_def)
next
  case False
  define f where "f = (if lo \<le> written s then inc64 (written s) else lo)"
  define m where "m = merge_loop f hi (clip_ranges (written s) (missing s))"
  have core: "stream_core s" and set: "settled s" and len: "length (missing s) \<le> maxMissingRanges"
    using assms(2) by (auto simp: stream_ok_def)
  have inc: "inc64 (written s) = Suc (written s)" using False assms(3) by (simp add: inc64_eq)
  have fh: "f \<le> hi" "written s < f" using False inc by (auto simp: f_def)
  have fs: "{f..hi} = {lo..hi} \<inter> {written s<..}" using False inc by (auto simp: f_def)
  have rok: "ranges_ok (missing s)" using core by (simp add: stream_core_def)
  note clip = clip_ranges_ok [OF rok, of "written s"]
  have ins: "ranges_ok (insert_range m)" "ranges_set (insert_range m) = miss s \<inter> {written s<..} \<union> {f..hi}"
    using insert_range_ok [OF clip(1) fh(1) assms(3)] clip(2) by (simp_all add: m_def)
  let ?s1 = "s\<lparr> missing := insert_range m \<rparr>"
  have core1: "stream_core ?s1" using core ins fh by (auto simp: stream_core_def)
  note ab = absorb_ok [OF core1]
  show ?thesis
  proof (cases "length (fst m) \<ge> maxMissingRanges \<and> fst (snd m) \<noteq> inc64 (written s)")
    case True
    then have "ok = False" "s' = s"
      using assms(1) False by (simp_all add: noteMissing_def note_loop_eq f_def [symmetric] m_def [symmetric] Let_def)
    then show ?thesis by simp
  next
    case room: False
    then have r: "ok = True" "s' = absorb ?s1"
      using assms(1) False by (auto simp: noteMissing_def note_loop_eq f_def [symmetric] m_def [symmetric] Let_def)
    have adv: "advanced ?s1 s'" and st: "settled s'" using ab r(2) by auto
    have keep: "length (fst m) \<le> maxMissingRanges"
    proof -
      have "length (fst m) \<le> length (clip_ranges (written s) (missing s))"
        using merge_loop_kept [of f hi "clip_ranges (written s) (missing s)" "fst m" "fst (snd m)" "snd (snd m)"]
        by (simp add: m_def)
      with clip(3) len show ?thesis by simp
    qed
    have "length (missing s') \<le> maxMissingRanges"
    proof (cases "length (fst m) < maxMissingRanges")
      case True
      with adv show ?thesis by (auto simp: advanced_def)
    next
      case full: False
      with room keep have eq: "length (fst m) = maxMissingRanges" "fst (snd m) = Suc (written s)" using inc by auto
      have notah: "Suc (written s) \<notin> set (ahead s)" using set by (simp add: settled_def)
      have "fst (snd m) \<le> snd (snd m)"
        using merge_loop_ok [of f hi "clip_ranges (written s) (missing s)" "fst m" "fst (snd m)" "snd (snd m)"]
          clip(1) fh(1) assms(3) by (simp add: m_def)
      then have "Suc (written s) \<in> ranges_set (insert_range m)"
        using insert_range_merged [of m] eq(2) by simp
      then have "length (missing s') < length (insert_range m)"
        using absorb_consumes [OF core1] notah r(2) by simp
      with eq(1) show ?thesis by simp
    qed
    moreover have "stream_core s'" using adv core1 by (rule advanced_core)
    moreover have "\<exists>w as ms. s' = s\<lparr> written := w, ahead := as, missing := ms \<rparr>"
      using adv unfolding advanced_def by auto
    moreover have "{lo..hi} \<union> miss s \<subseteq> {..written s'} \<union> miss s'"
    proof -
      have "{lo..hi} \<union> miss s \<subseteq> {..written s} \<union> ranges_set (insert_range m)"
        unfolding ins(2) fs by auto
      also have "\<dots> \<subseteq> {..written s'} \<union> miss s'" using adv by (auto simp: advanced_def)
      finally show ?thesis .
    qed
    moreover have "ranges_set (insert_range m) \<subseteq> miss s \<union> {lo..hi}" unfolding ins(2) fs by auto
    then have "miss s' \<subseteq> miss s \<union> {lo..hi}" "{written s<..written s'} \<subseteq> set (ahead s) \<union> miss s \<union> {lo..hi}"
      using adv unfolding advanced_def by auto
    ultimately show ?thesis
      using adv st r(1) by (simp add: noted_def advanced_def Un_commute)
  qed
qed

lemma exclude_inv:
  assumes "excludePending seq s = (ok, s')" "stream_inv a D R S s" "seq \<in> S"
  shows "stream_inv a D R S s'" "written s' = written s" "highest s' = highest s"
    "ahead s' = ahead s" "missing s' = missing s" "arrivals s' = arrivals s"
    "arrivalOverflow s' = arrivalOverflow s"
proof -
  have core: "stream_core s" using assms(2) by (simp add: stream_inv_def stream_ok_def)
  from assms(1) core obtain rs g where x: "s' = s\<lparr> pending := rs, gapSource := g \<rparr>" "ranges_ok rs"
    "length rs \<le> maxMissingRanges" "ranges_set rs = (if ok then pend s - {seq} else pend s)"
    by (rule excludePending_cases)
  have p: "ranges_set rs \<subseteq> pend s" "pend s \<subseteq> ranges_set rs \<union> S" using x(4) assms(3) by (auto split: if_splits)
  have "horizon s \<subseteq> horizon s'" using p(1) x(1) by (intro horizon_antimono) simp_all
  then have "covered s \<subseteq> covered s' \<union> S" unfolding covered_def using p(2) by (auto simp: x(1))
  then have "complete S s'" using assms(2) unfolding stream_inv_def complete_def by blast
  moreover have "stream_core s'" using core x(2,3) by (simp add: x(1) stream_core_def)
  moreover have "\<forall>n \<in> pend s'. written s < n"
    using assms(2) p(1) by (auto simp: x(1) stream_inv_def stream_ok_def)
  ultimately show "stream_inv a D R S s'"
    using assms(2) by (simp add: x(1) stream_inv_def stream_ok_def settled_def acct_def)
  show "written s' = written s" "highest s' = highest s" "ahead s' = ahead s" "missing s' = missing s"
    "arrivals s' = arrivals s" "arrivalOverflow s' = arrivalOverflow s" by (simp_all add: x(1))
qed

lemma requeue_inv:
  assumes "requeued s s'" "stream_inv a D R S s" "pend s' = pend s \<union> P" "\<forall>n \<in> P. written s < n"
    "\<And>n. n \<in> horizon s \<Longrightarrow> (\<forall>m \<in> P. m < n) \<or> n \<in> P \<union> {..written s} \<union> miss s \<union> S"
  shows "stream_inv a D R S s'"
proof -
  note f = requeued_fields [OF assms(1)]
  have "horizon s \<subseteq> horizon s' \<union> (P \<union> {..written s} \<union> miss s \<union> S)"
  proof
    fix n assume n: "n \<in> horizon s"
    from assms(5) [OF n] show "n \<in> horizon s' \<union> (P \<union> {..written s} \<union> miss s \<union> S)"
    proof
      assume "\<forall>m \<in> P. m < n"
      with n have "n \<in> horizon s'" by (auto simp: horizon_def assms(3) f)
      then show ?thesis by simp
    qed simp
  qed
  then have "covered s \<subseteq> covered s' \<union> S" unfolding covered_def assms(3) f by blast
  then have "complete S s'" using assms(2) unfolding stream_inv_def complete_def by blast
  moreover have "stream_core s'"
    using requeued_core [OF assms(1)] assms(2) by (simp add: stream_inv_def stream_ok_def)
  moreover have "\<forall>n \<in> pend s'. written s < n"
    using assms(2,3,4) by (auto simp: stream_inv_def stream_ok_def)
  ultimately show ?thesis
    using assms(2) f by (simp add: stream_inv_def stream_ok_def settled_def acct_def)
qed

lemma raise_highest_inv:
  assumes "stream_inv a D R S s" "\<And>n. n \<in> horizon s \<Longrightarrow> h < n \<or> n \<in> {..written s} \<union> pend s \<union> miss s \<union> S" "0 < h" "h \<le> max64"
  shows "stream_inv a D R S (s\<lparr> highest := h \<rparr>)"
proof -
  have "horizon s \<subseteq> horizon (s\<lparr> highest := h \<rparr>) \<union> ({..written s} \<union> pend s \<union> miss s \<union> S)"
  proof
    fix n assume n: "n \<in> horizon s"
    from assms(2) [OF n] show "n \<in> horizon (s\<lparr> highest := h \<rparr>) \<union> ({..written s} \<union> pend s \<union> miss s \<union> S)"
      using n by (auto simp: horizon_def)
  qed
  then have "covered s \<subseteq> covered (s\<lparr> highest := h \<rparr>) \<union> S" unfolding covered_def by auto
  then have "complete S (s\<lparr> highest := h \<rparr>)" using assms(1) unfolding stream_inv_def complete_def by blast
  with assms show ?thesis by (simp add: stream_inv_def stream_ok_def stream_core_def settled_def acct_def)
qed

text \<open>
  The watermark moves over sequences written (\<open>D\<close>) or just reported (\<open>L\<close>), the reported ones leave
  the pending gaps, and \<open>prunePending\<close> restores the invariant.
\<close>

lemma noted_prune_inv:
  assumes n: "noted L s s1" and inv: "acct a D R s" "complete S s" "set (ahead s) \<union> arr s \<subseteq> S" "0 < highest s"
    and L: "L \<subseteq> R" and rs: "ranges_ok rs" "length rs \<le> maxMissingRanges" "ranges_set rs \<subseteq> pend s"
      "pend s \<subseteq> ranges_set rs \<union> L"
  defines "s2 \<equiv> prunePending (s1\<lparr> pending := rs \<rparr>)"
  shows "stream_inv a D R S s2" "horizon s \<subseteq> horizon s2"
    "{..written s} \<union> pend s \<union> miss s \<subseteq> {..written s2} \<union> pend s2 \<union> miss s2 \<union> S"
proof -
  let ?p = "s1\<lparr> pending := rs \<rparr>"
  from n obtain w as ms where s1: "s1 = s\<lparr> written := w, ahead := as, missing := ms \<rparr>"
    by (auto simp: noted_def)
  have wm: "written s \<le> w" "{written s<..w} \<subseteq> set (ahead s) \<union> miss s \<union> L" "set as \<subseteq> set (ahead s)"
    "ranges_set ms \<subseteq> miss s \<union> L" "miss s \<union> L \<subseteq> ranges_set ms \<union> {..w}"
    using n by (simp_all add: noted_def s1)
  have core: "stream_core ?p" using n rs(1,2) by (auto simp: noted_def stream_core_def)
  have set: "settled ?p" "length (missing ?p) \<le> maxMissingRanges" using n by (simp_all add: noted_def settled_def)
  note pr = prunePending_ok [OF core set, folded s2_def]
  have w2: "written s2 = w" "ahead s2 = as" "missing s2 = ms" "highest s2 = highest s"
    using pr(4-7) by (simp_all add: s1)
  have p2: "pend s2 \<subseteq> pend s" using pr(2) rs(3) by simp
  have p3: "ranges_set rs \<subseteq> pend s2 \<union> {..w} \<union> S" using pr(3) inv(3) by (auto simp: s1)
  show hz: "horizon s \<subseteq> horizon s2" using p2 w2(4) by (rule horizon_antimono)
  show cv: "{..written s} \<union> pend s \<union> miss s \<subseteq> {..written s2} \<union> pend s2 \<union> miss s2 \<union> S"
    using rs(4) p3 wm(1,5) unfolding w2 by auto
  then have "covered s \<subseteq> covered s2 \<union> S" using hz unfolding covered_def by blast
  then have c: "complete S s2" using inv(2) unfolding complete_def by blast
  have "{a<..w} \<subseteq> {a<..written s} \<union> {written s<..w}" by auto
  also have "\<dots> \<subseteq> D \<union> R" using inv(1) wm(2) L unfolding acct_def by blast
  finally have ac: "acct a D R s2"
    using inv(1) wm(1,3,4) L unfolding acct_def w2 by auto
  have "arr s2 \<subseteq> arr s" using pr(8) by (auto simp: shrinks_def s1)
  then have "set (ahead s2) \<union> arr s2 \<subseteq> S" using wm(3) inv(3) unfolding w2 by blast
  with pr(1) c ac inv(4) w2(4) show "stream_inv a D R S s2" by (simp add: stream_inv_def)
qed

lemma noted_guarded:
  assumes "noted L s s1" "guarded D q s" "set (ahead s) \<subseteq> D" "q \<notin> L"
  shows "guarded D q s1" "arrivals s1 = arrivals s"
proof -
  from assms(1) obtain w as ms where s1: "s1 = s\<lparr> written := w, ahead := as, missing := ms \<rparr>"
    by (auto simp: noted_def)
  have "{written s<..w} \<subseteq> set (ahead s) \<union> miss s \<union> L" "ranges_set ms \<subseteq> miss s \<union> L"
    using assms(1) by (simp_all add: noted_def s1)
  moreover have "q \<in> {written s<..w}" if "q \<le> w" "\<not> q \<le> written s" using that by simp
  ultimately have "q \<le> w \<longrightarrow> q \<in> D" "q \<notin> ranges_set ms" using assms(2-4) unfolding guarded_def by blast+
  then show "guarded D q s1" using assms(2) by (simp add: guarded_def s1)
  show "arrivals s1 = arrivals s" by (simp add: s1)
qed

lemma prune_guarded:
  assumes "stream_core s" "settled s" "length (missing s) \<le> maxMissingRanges" "guarded D q s"
    "map_of (arrivals s) q = Some n" "n \<noteq> 0"
  shows "guarded D q (prunePending s)" "(q, n) \<in> set (arrivals (prunePending s))"
proof -
  have "guarded D q (s\<lparr> pending := clip_ranges (written s) (pending s) \<rparr>)"
    using assms(4) by (simp add: guarded_def)
  from shrinks_guarded [OF prunePending_ok(8) [OF assms(1-3)] this] assms(5,6)
  show "guarded D q (prunePending s)" "(q, n) \<in> set (arrivals (prunePending s))" by simp_all
qed

subsection \<open>The operations\<close>

text \<open>An established stream: \<open>check\<close> touches the pending gaps and the highest sequence only.\<close>

lemma check_inv:
  assumes inv: "stream_inv a D R S s" and "seq \<in> S" "seq \<le> max64"
  shows "stream_inv a D R S (snd (check seq s))" "written (snd (check seq s)) = written s"
    "ahead (snd (check seq s)) = ahead s" "missing (snd (check seq s)) = missing s"
    "arrivals (snd (check seq s)) = arrivals s"
proof -
  let ?r = "snd (check seq s)"
  have hi: "0 < highest s" "highest s \<le> max64"
    using inv by (auto simp: stream_inv_def stream_ok_def stream_core_def)
  have "stream_inv a D R S ?r \<and> written ?r = written s \<and> ahead ?r = ahead s \<and> missing ?r = missing s \<and>
      arrivals ?r = arrivals s"
  proof (cases "arrivalOverflow s")
    case True
    then show ?thesis using inv by (simp add: check_def)
  next
    case False
    obtain ok s2 where x: "excludePending seq s = (ok, s2)" by (cases "excludePending seq s") auto
    note e = exclude_inv [OF x inv assms(2)]
    let ?gap = "highest s2 \<noteq> 0 \<and> seq > highest s2 \<and> seq - highest s2 > 1"
    obtain ok2 s3 where q: "check_gap seq s2 = (ok2, s3)" by (cases "check_gap seq s2") auto
    have r: "?r = (if \<not> ok then s2 else if \<not> ok2 then s3 else if seq > highest s3 then s3\<lparr> highest := seq \<rparr> else s3)"
      using False hi by (simp add: check_def x q Let_def)
    have core2: "stream_core s2" using e(1) by (simp add: stream_inv_def stream_ok_def)
    have s3: "requeued s2 s3" "pend s3 = (if ok2 \<and> ?gap then pend s2 \<union> ({highest s2<..seq - 1} \<inter> {written s2<..}) else pend s2)"
    proof -
      have "requeued s2 s3 \<and> pend s3 = (if ok2 \<and> ?gap then pend s2 \<union> ({highest s2<..seq - 1} \<inter> {written s2<..}) else pend s2)"
      proof (cases ?gap)
        case True
        then have inc: "inc64 (highest s2) = Suc (highest s2)" using assms(3) by (simp add: inc64_eq)
        have "queueMissing (inc64 (highest s2)) (seq - 1) s2 = (ok2, s3)" using q True by (simp add: check_gap_def)
        from queueMissing_ok [OF this core2] assms(3) True show ?thesis
          by (simp add: inc atLeastSucAtMost_greaterThanAtMost)
      qed (use q requeued_refl [OF core2] in \<open>auto simp: check_gap_def\<close>)
      then show "requeued s2 s3" "pend s3 = (if ok2 \<and> ?gap then pend s2 \<union> ({highest s2<..seq - 1} \<inter> {written s2<..}) else pend s2)"
        by simp_all
    qed
    note f3 = requeued_fields [OF s3(1)]
    let ?P = "if ok2 \<and> ?gap then {highest s2<..seq - 1} \<inter> {written s2<..} else {}"
    have i3: "stream_inv a D R S s3"
    proof (rule requeue_inv [OF s3(1) e(1), where P = ?P])
      show "pend s3 = pend s2 \<union> ?P" using s3(2) by simp
      show "(\<forall>m \<in> ?P. m < n) \<or> n \<in> ?P \<union> {..written s2} \<union> miss s2 \<union> S" if "n \<in> horizon s2" for n
        using that assms(2) by (cases "n < seq") (auto simp: horizon_def)
    qed simp
    have hor: "seq < n \<or> n \<le> written s3 \<or> n \<in> S" if "n \<in> horizon s3" "ok2" for n
    proof (cases "n < seq")
      case True
      with that(1) have gap: ?gap using e hi f3 by (auto simp: horizon_def)
      have "n \<notin> pend s3" "highest s2 < n" using that(1) f3 by (auto simp: horizon_def)
      moreover have "{highest s2<..seq - 1} \<inter> {written s2<..} \<subseteq> pend s3" using s3(2) gap that(2) by simp
      then have "n \<notin> {highest s2<..seq - 1} \<inter> {written s2<..}" using \<open>n \<notin> pend s3\<close> by blast
      ultimately show ?thesis using True f3(1) by (auto simp: not_less)
    qed (use assms(2) in \<open>cases "n = seq"; auto\<close>)
    have "stream_inv a D R S (s3\<lparr> highest := seq \<rparr>)" if "ok2" "seq > highest s3"
      by (rule raise_highest_inv [OF i3]) (use hor that assms(3) in auto)
    then show ?thesis using e(1) i3 by (simp add: r e(2,4,5,6) f3(1,2,3,6))
  qed
  then show "stream_inv a D R S ?r" "written ?r = written s"  "ahead ?r = ahead s" "missing ?r = missing s"
    "arrivals ?r = arrivals s" by simp_all
qed

text \<open>Excluding arrivals never changes how many references a sequence has.\<close>

lemma shrinks_refs:
  assumes "shrinks s s'" "stream_core s" "stream_core s'"
  shows "arrival_refs q s' = arrival_refs q s"
proof -
  have d: "distinct (map fst (arrivals s))" "distinct (map fst (arrivals s'))"
    using assms(2,3) by (auto simp: stream_core_def)
  have sub: "set (arrivals s') \<subseteq> set (arrivals s)"
    and gone: "\<forall>e \<in> set (arrivals s) - set (arrivals s'). snd e = 0"
    using assms(1) unfolding shrinks_def by blast+
  show ?thesis
  proof (cases "map_of (arrivals s') q")
    case None
    then have "(q, n) \<notin> set (arrivals s')" for n using d(2) by (metis map_of_eq_Some_iff option.distinct(1))
    then have "map_of (arrivals s) q = Some n \<Longrightarrow> n = 0" for n
      using gone by (metis DiffI map_of_SomeD snd_conv)
    with None show ?thesis by (auto simp: arrival_refs_def split: option.split)
  next
    case (Some n)
    then have "(q, n) \<in> set (arrivals s)" using sub map_of_SomeD by fast
    with d(1) Some show ?thesis by (simp add: arrival_refs_def)
  qed
qed

lemma guarded_refs: "guarded D q s \<Longrightarrow> arrival_refs q s \<noteq> 0 \<Longrightarrow> \<exists>n. map_of (arrivals s) q = Some n \<and> n \<noteq> 0"
  by (auto simp: arrival_refs_def split: option.splits)

lemma trim_frame:
  "\<exists>as n. snd (trim w s) = s\<lparr> ahead := as, forgotten := n \<rparr> \<and> set as \<subseteq> set (ahead s) \<and>
     (distinct (ahead s) \<longrightarrow> distinct as)"
proof (cases "length (ahead s) \<le> w")
  case True
  then have "snd (trim w s) = s\<lparr> ahead := ahead s, forgotten := forgotten s \<rparr>" by (simp add: trim_def)
  then show ?thesis by blast
next
  case False
  then show ?thesis unfolding trim_def Let_def by (auto intro!: exI)
qed

lemma trim_inv: "stream_inv a D R S s \<Longrightarrow> stream_inv a D R S (snd (trim w s))"
  using trim_frame [of w s]
  by (auto simp: stream_inv_def stream_ok_def stream_core_def settled_def acct_def complete_def
      covered_def horizon_def image_subset_iff)

lemma commit_noted:
  assumes "stream_ok s" "\<not> seq \<le> written s" "seq \<le> max64"
  defines "s0 \<equiv> s\<lparr> ahead := List.insert seq (ahead s) \<rparr>"
  shows "noted {} s0 (absorb s0)"
proof -
  have core: "stream_core s0" using assms by (auto simp: stream_ok_def stream_core_def)
  note ab = absorb_ok [OF core]
  have "length (missing (absorb s0)) \<le> maxMissingRanges"
    using ab assms(1) by (auto simp: advanced_def stream_ok_def s0_def)
  then show ?thesis using ab advanced_core [OF _ core]
    unfolding noted_def by (simp add: advanced_def)
qed

lemma commit_eq:
  "\<not> seq \<le> written s \<Longrightarrow> snd (commit w seq s) =
     snd (trim w (prunePending (absorb (s\<lparr> ahead := List.insert seq (ahead s) \<rparr>))))"
  by (simp add: commit_def Let_def case_prod_beta)

lemma commit_inv:
  assumes inv: "stream_inv a D R S s" and "seq \<in> D" "seq \<in> S" "seq \<le> max64"
  shows "stream_inv a D R S (snd (commit w seq s))"
    and "arrival_refs q (snd (commit w seq s)) = arrival_refs q s"
    and "guarded D q s \<Longrightarrow> arrival_refs q s \<noteq> 0 \<Longrightarrow> guarded D q (snd (commit w seq s))"
    and "identity (snd (commit w seq s)) = identity s"
proof -
  let ?s0 = "s\<lparr> ahead := List.insert seq (ahead s) \<rparr>"
  let ?s1 = "absorb ?s0"
  have "stream_inv a D R S (snd (commit w seq s)) \<and> arrival_refs q (snd (commit w seq s)) = arrival_refs q s \<and>
      (guarded D q s \<longrightarrow> arrival_refs q s \<noteq> 0 \<longrightarrow> guarded D q (snd (commit w seq s))) \<and>
      identity (snd (commit w seq s)) = identity s"
  proof (cases "seq \<le> written s")
    case True
    then show ?thesis using inv by (simp add: commit_def)
  next
    case False
    have ok: "stream_ok s" using inv by (simp add: stream_inv_def)
    note n = commit_noted [OF ok False assms(4)]
    obtain wn as ms where s1: "?s1 = ?s0\<lparr> written := wn, ahead := as, missing := ms \<rparr>"
      using n unfolding noted_def by blast
    have pend1: "?s1 = ?s1\<lparr> pending := pending s \<rparr>" unfolding s1 by simp
    have 1: "stream_inv a D R S (prunePending (?s1\<lparr> pending := pending s \<rparr>))"
      by (rule noted_prune_inv [OF n])
        (use inv assms(2,3) in \<open>auto simp: stream_inv_def acct_def complete_def covered_def horizon_def stream_ok_def stream_core_def\<close>)
    have core1: "stream_core ?s1" "settled ?s1" "length (missing ?s1) \<le> maxMissingRanges"
      using n by (simp_all add: noted_def)
    note pr = prunePending_ok [OF core1]
    have clip: "stream_core (?s1\<lparr> pending := clip_ranges (written ?s1) (pending ?s1) \<rparr>)"
      using core1(1) clip_ranges_ok [of "pending ?s1" "written ?s1"] by (auto simp: stream_core_def)
    have refs: "arrival_refs q (prunePending ?s1) = arrival_refs q s"
      using shrinks_refs [OF pr(8) clip] pr(1) by (simp add: stream_ok_def arrival_refs_def s1)
    obtain as' n' where tr: "snd (trim w (prunePending ?s1)) = (prunePending ?s1)\<lparr> ahead := as', forgotten := n' \<rparr>"
      using trim_frame by blast
    have g: "guarded D q (prunePending ?s1)" if g: "guarded D q s" "arrival_refs q s \<noteq> 0"
    proof -
      have "guarded D q ?s0" using g(1) by (simp add: guarded_def)
      from noted_guarded [OF n this] inv assms(2) have g1: "guarded D q ?s1"
        by (auto simp: stream_inv_def acct_def)
      have "arrival_refs q ?s1 \<noteq> 0" using g(2) by (simp add: s1 arrival_refs_def)
      with guarded_refs [OF g1] obtain m where "map_of (arrivals ?s1) q = Some m" "m \<noteq> 0" by blast
      with prune_guarded [OF core1 g1] show ?thesis by simp
    qed
    have "identity (prunePending ?s1) = identity s" using shrinks_fields(5) [OF pr(8)] by (simp add: s1)
    moreover have "stream_inv a D R S (snd (trim w (prunePending ?s1)))"
      using trim_inv [OF 1] pend1 by simp
    ultimately show ?thesis unfolding commit_eq [OF False] using refs g by (simp add: tr)
  qed
  then show "stream_inv a D R S (snd (commit w seq s))" "arrival_refs q (snd (commit w seq s)) = arrival_refs q s"
    "guarded D q s \<Longrightarrow> arrival_refs q s \<noteq> 0 \<Longrightarrow> guarded D q (snd (commit w seq s))"
    "identity (snd (commit w seq s)) = identity s" by simp_all
qed

lemma check_replay_inv:
  assumes inv: "stream_inv a D R S s" and "firstSequence \<le> max64"
  shows "stream_inv a D R S (snd (check_replay firstSequence s))"
    and "written (snd (check_replay firstSequence s)) = written s"
    "missing (snd (check_replay firstSequence s)) = missing s"
    "arrivals (snd (check_replay firstSequence s)) = arrivals s"
    "identity (snd (check_replay firstSequence s)) = identity s"
proof -
  let ?r = "snd (check_replay firstSequence s)"
  have "stream_inv a D R S ?r \<and> written ?r = written s \<and> missing ?r = missing s \<and> arrivals ?r = arrivals s \<and>
      identity ?r = identity s"
  proof (cases "firstSequence > written s \<and> firstSequence - written s > 1")
    case False
    then have "check_replay firstSequence s = (pendingGap s, s)" unfolding check_replay_def if_not_P [OF False] by simp
    then show ?thesis using inv by simp
  next
    case True
    obtain ok s1 where q: "queueReplayMissing (firstSequence - 1) s = (ok, s1)"
      by (cases "queueReplayMissing (firstSequence - 1) s") auto
    have core: "stream_core s" and sub: "set (ahead s) \<union> arr s \<subseteq> S"
      using inv by (auto simp: stream_inv_def stream_ok_def)
    have b: "firstSequence - 1 \<le> max64" "written s < firstSequence - 1" using True assms(2) by auto
    note qm = queueReplayMissing_ok [OF q core b]
    from qm(2) obtain x where x: "pend s1 = pend s \<union> ({written s<..x} - (miss s \<union> set (ahead s) \<union> arr s))" by blast
    have "stream_inv a D R S s1"
    proof (rule requeue_inv [OF qm(1) inv x])
      show "(\<forall>m \<in> {written s<..x} - (miss s \<union> set (ahead s) \<union> arr s). m < n) \<or>
          n \<in> ({written s<..x} - (miss s \<union> set (ahead s) \<union> arr s)) \<union> {..written s} \<union> miss s \<union> S" for n
      proof (cases "n \<le> x")
        case True
        then have "n \<in> {written s<..x} \<union> {..written s}" by auto
        with sub show ?thesis by blast
      qed auto
    qed auto
    moreover have "?r = s1" using True q by (simp add: check_replay_def)
    ultimately show ?thesis using requeued_fields [OF qm(1)] by simp
  qed
  then show "stream_inv a D R S ?r" "written ?r = written s" "missing ?r = missing s" "arrivals ?r = arrivals s"
    "identity ?r = identity s" by simp_all
qed

text \<open>Adding or removing a reference leaves the rest of the stream alone.\<close>

lemma map_of_update_refs:
  "arrival_refs q (s\<lparr> arrivals := AList.update seq n (arrivals s) \<rparr>) = (if q = seq then n else arrival_refs q s)"
  by (simp add: arrival_refs_def update_conv')

lemma update_arrivals_inv:
  assumes "stream_inv a D R S s" "seq \<in> S"
  shows "stream_inv a D R S (s\<lparr> arrivals := AList.update seq n (arrivals s) \<rparr>)"
  using assms
  by (simp add: stream_inv_def stream_ok_def stream_core_def settled_def acct_def complete_def
      covered_def horizon_def dom_update distinct_update)

lemma update_arrivals_guarded:
  "guarded D q s \<Longrightarrow> guarded D q (s\<lparr> arrivals := AList.update seq n (arrivals s) \<rparr>)"
  by (simp add: guarded_def dom_update)

lemma check_identity: "identity (snd (check seq s)) = identity s"
proof -
  have x: "identity (snd (excludePending seq s)) = identity s" for s
    by (simp add: excludePending_def clearGapSourceIfDrained_def split: exclude_outcome.split)
  have g: "identity (snd (check_gap seq s)) = identity s" for s
    by (simp add: check_gap_def queueMissing_def Let_def)
  show ?thesis
    using x [of "if highest s = 0 \<and> 0 < seq then s\<lparr> written := seq - 1 \<rparr> else s"] g
    by (auto simp: check_def Let_def case_prod_beta)
qed

lemma reserve_inv:
  fixes w :: nat and src :: source
  assumes inv: "stream_inv a D R S s" and "seq \<in> S" "seq \<le> max64"
  defines "r \<equiv> snd (reserve w seq src s)"
  shows "stream_inv a D R S r" "written r = written s" "missing r = missing s"
    "arrival_refs q r = arrival_refs q s + (if fst (reserve w seq src s) \<and> q = seq then 1 else 0)"
    "guarded D q s \<Longrightarrow> guarded D q r"
    "fst (reserve w seq src s) \<Longrightarrow> seq \<in> arr r"
    "identity r = identity s"
proof -
  let ?s1 = "s\<lparr> arrivals := AList.update seq (arrival_refs seq s + 1) (arrivals s) \<rparr>"
  let ?c = "snd (check seq ?s1)"
  note i1 = update_arrivals_inv [OF inv assms(2)]
  note c = check_inv [OF i1 assms(2,3)]
  consider (full) "fst (reserve w seq src s) = False" "r = s\<lparr> arrivalOverflow := True \<rparr>"
    | (ok) g where "fst (reserve w seq src s) = True" "r = ?c\<lparr> gapSource := g \<rparr>"
  proof (cases "map_of (arrivals s) seq = None \<and> length (arrivals s) \<ge> w")
    case True
    then show ?thesis using full by (simp add: reserve_def r_def)
  next
    case False
    then have "fst (reserve w seq src s) = True" by (simp add: reserve_def Let_def)
    moreover have "r = ?c\<lparr> gapSource := (if pending ?c \<noteq> [] \<and> gapSource ?c = None then Some src else gapSource ?c) \<rparr>"
      unfolding reserve_def r_def if_not_P [OF False] by (simp add: Let_def)
    ultimately show ?thesis by (rule ok)
  qed
  then have "stream_inv a D R S r \<and> written r = written s \<and> missing r = missing s \<and>
    arrival_refs q r = arrival_refs q s + (if fst (reserve w seq src s) \<and> q = seq then 1 else 0) \<and>
    (guarded D q s \<longrightarrow> guarded D q r) \<and> (fst (reserve w seq src s) \<longrightarrow> seq \<in> arr r)"
  proof cases
    case full
    then show ?thesis using inv by simp
  next
    case ok
    have "arrival_refs q ?c = arrival_refs q ?s1" using c(5) by (simp add: arrival_refs_def)
    moreover have "guarded D q s \<Longrightarrow> guarded D q ?c"
      using update_arrivals_guarded [of D q s] c(2,4,5) by (simp add: guarded_def)
    ultimately show ?thesis using ok c by (simp add: map_of_update_refs dom_update)
  qed
  then show "stream_inv a D R S r" "written r = written s" "missing r = missing s"
    "arrival_refs q r = arrival_refs q s + (if fst (reserve w seq src s) \<and> q = seq then 1 else 0)"
    "guarded D q s \<Longrightarrow> guarded D q r" "fst (reserve w seq src s) \<Longrightarrow> seq \<in> arr r" by simp_all
  show "identity r = identity s"
    by (simp add: r_def reserve_def Let_def check_identity)
qed


text \<open>The first arrival of a new stream anchors it.\<close>

lemma reserve_new:
  fixes src :: source and i c :: nat
  assumes "0 < w" "0 < seq" "seq \<le> max64" "seq \<in> S"
  defines "r \<equiv> snd (reserve w seq src (new_stream i c))"
  shows "fst (reserve w seq src (new_stream i c))" "stream_inv (seq - 1) D R S r"
    "arrival_refs q r = (if q = seq then 1 else 0)" "guarded D seq r" "identity r = i"
proof -
  have r: "reserve w seq src (new_stream i c) =
      (True, (new_stream i c)\<lparr> arrivals := [(seq, 1)], written := seq - 1, highest := seq \<rparr>)"
    using assms(1,2)
    by (simp add: reserve_def new_stream_def check_def check_gap_def excludePending_def Let_def arrival_refs_def)
  show "fst (reserve w seq src (new_stream i c))" by (simp add: r)
  have "n \<in> {..seq - 1} \<union> {n. seq < n} \<union> S" for n
    using assms(2,4) by (cases n seq rule: linorder_cases) auto
  then have "{..seq - 1} \<union> {n. seq < n} \<union> S = UNIV" by blast
  then show "stream_inv (seq - 1) D R S r"
    using assms(2-4) unfolding r_def r snd_conv by (simp add: stream_defs new_stream_def)
  show "arrival_refs q r = (if q = seq then 1 else 0)" by (simp add: r_def r arrival_refs_def)
  show "guarded D seq r" using assms(2) unfolding r_def r snd_conv by (auto simp: guarded_def new_stream_def)
  show "identity r = i" unfolding r_def r snd_conv by (simp add: new_stream_def)
qed

lemma excludeArrivals_keeps:
  assumes "stream_inv a D R S s"
  shows "arrival_refs q (excludeArrivals s) = arrival_refs q s"
    "guarded D q s \<Longrightarrow> arrival_refs q s \<noteq> 0 \<Longrightarrow> guarded D q (excludeArrivals s)"
    "identity (excludeArrivals s) = identity s"
proof -
  have core: "stream_core s" using assms by (simp add: stream_inv_def stream_ok_def)
  note x = excludeArrivals_ok [OF core]
  show "arrival_refs q (excludeArrivals s) = arrival_refs q s" by (rule shrinks_refs [OF x(1) core x(2)])
  show "guarded D q (excludeArrivals s)" if "guarded D q s" "arrival_refs q s \<noteq> 0"
    using shrinks_guarded [OF x(1) that(1)] guarded_refs [OF that] by blast
  show "identity (excludeArrivals s) = identity s" by (rule shrinks_fields(5) [OF x(1)])
qed

lemma release_inv:
  assumes inv: "stream_inv a D R S s" and "seq \<in> S"
  shows "stream_inv a D R S (release seq s)"
    "arrival_refs q (release seq s) = arrival_refs q s - (if q = seq then 1 else 0)"
    "guarded D q s \<Longrightarrow> arrival_refs q (release seq s) \<noteq> 0 \<Longrightarrow> guarded D q (release seq s)"
    "identity (release seq s) = identity s"
proof -
  let ?s1 = "s\<lparr> arrivals := AList.update seq (arrival_refs seq s - 1) (arrivals s) \<rparr>"
  have rel: "release seq s = excludeArrivals ?s1" by (simp add: release_def)
  note i1 = update_arrivals_inv [OF inv assms(2), of "arrival_refs seq s - 1"]
  note k = excludeArrivals_keeps [OF i1]
  show "stream_inv a D R S (release seq s)" unfolding rel by (rule excludeArrivals_inv [OF i1])
  show refs: "arrival_refs q (release seq s) = arrival_refs q s - (if q = seq then 1 else 0)" for q
    unfolding rel k(1) by (simp add: map_of_update_refs)
  show "guarded D q s \<Longrightarrow> arrival_refs q (release seq s) \<noteq> 0 \<Longrightarrow> guarded D q (release seq s)"
    unfolding rel using k(1) [of q] k(2) [of q] update_arrivals_guarded [of D q s] by simp
  show "identity (release seq s) = identity s" unfolding rel k(3) by simp
qed

lemma noteMissing_False: "noteMissing lo hi s = (False, s1) \<Longrightarrow> s1 = s"
  by (auto simp: noteMissing_def Let_def split: if_splits)

lemma finish_cases:
  fixes s0 :: dedupStream
  defines "s \<equiv> s0\<lparr> activeGapClaim := 0 \<rparr>"
  obtains (keep) "finish gen gap accepted s0 = (False, s)"
  | (accept) remaining s1 where "accepted" "\<not> coversArrival (rfirst gap) (rlast gap) s"
      "gapGeneration s = gen" "pendingContains (rfirst gap) (rlast gap) s"
      "subtractRange (pending s) (rfirst gap) (rlast gap) = Some remaining"
      "noteMissing (rfirst gap) (rlast gap) s = (True, s1)"
      "finish gen gap accepted s0 = (True, (let s2 = prunePending (s1\<lparr> pending := remaining \<rparr>) in
         if rlast gap > highest s2 then s2\<lparr> highest := rlast gap \<rparr> else s2))"
proof (cases "\<not> accepted \<or> coversArrival (rfirst gap) (rlast gap) s \<or> gapGeneration s \<noteq> gen \<or>
    \<not> pendingContains (rfirst gap) (rlast gap) s")
  case True
  then show ?thesis using keep unfolding finish_def s_def [symmetric] by (simp add: Let_def)
next
  case c: False
  show ?thesis
  proof (cases "subtractRange (pending s) (rfirst gap) (rlast gap)")
    case None
    with c show ?thesis using keep unfolding finish_def s_def [symmetric] by (simp add: Let_def)
  next
    case (Some remaining)
    obtain ok s1 where n: "noteMissing (rfirst gap) (rlast gap) s = (ok, s1)"
      by (cases "noteMissing (rfirst gap) (rlast gap) s") auto
    show ?thesis
    proof (cases ok)
      case True
      with c Some n show ?thesis using accept unfolding finish_def s_def [symmetric] by (simp add: Let_def)
    next
      case False
      with n have "s1 = s" using noteMissing_False by simp
      with False c Some n show ?thesis using keep unfolding finish_def s_def [symmetric] by (simp add: Let_def)
    qed
  qed
qed

lemma finish_inv:
  fixes gen :: nat
  assumes inv0: "stream_inv a D R S s0" and le: "rfirst gap \<le> rlast gap"
    and R: "accepted \<Longrightarrow> {rfirst gap..rlast gap} \<subseteq> R"
  defines "r \<equiv> snd (finish gen gap accepted s0)"
  shows "stream_inv a D R S r" "arrival_refs q r = arrival_refs q s0"
    "guarded D q s0 \<Longrightarrow> arrival_refs q s0 \<noteq> 0 \<Longrightarrow> guarded D q r" "identity r = identity s0"
proof -
  define s where "s = s0\<lparr> activeGapClaim := 0 \<rparr>"
  let ?L = "{rfirst gap..rlast gap}"
  have inv: "stream_inv a D R S s" using inv0 by (simp add: s_def)
  have ok: "stream_ok s" and core: "stream_core s" using inv by (simp_all add: stream_inv_def stream_ok_def)
  have "stream_inv a D R S r \<and> arrival_refs q r = arrival_refs q s0 \<and>
    (guarded D q s0 \<longrightarrow> arrival_refs q s0 \<noteq> 0 \<longrightarrow> guarded D q r) \<and> identity r = identity s0"
  proof (cases rule: finish_cases [of gen gap accepted s0, folded s_def, case_names keep accept])
    case keep
    then show ?thesis using inv by (simp add: r_def s_def)
  next
    case (accept rem s1)
    let ?s2 = "prunePending (s1\<lparr> pending := rem \<rparr>)"
    have pc: "?L \<subseteq> pend s" using accept(4) contains_loop_subset by (simp add: pendingContains_def)
    then have lp: "rlast gap \<in> pend s" using le by auto
    have l64: "rlast gap \<le> max64" using ranges_ok_bound [OF _ lp] core by (simp add: stream_core_def)
    have n: "noted ?L s s1" using noteMissing_ok [OF accept(6) ok l64] by simp
    have rem: "ranges_ok rem" "ranges_set rem = pend s - ?L" "length rem \<le> maxMissingRanges"
      using subtractRange_ok [OF accept(5) _ le] core by (simp_all add: stream_core_def)
    have ic: "acct a D R s" "complete S s" "set (ahead s) \<union> arr s \<subseteq> S" "0 < highest s"
      using inv by (simp_all add: stream_inv_def)
    note np = noted_prune_inv [OF n ic R [OF accept(1)] rem(1,3)]
    have i2: "stream_inv a D R S ?s2" by (rule np(1)) (use rem(2) in auto)
    have cv: "{..written s} \<union> pend s \<union> miss s \<subseteq> {..written ?s2} \<union> pend ?s2 \<union> miss ?s2 \<union> S"
      by (rule np(3)) (use rem(2) in auto)
    have h: "rlast gap < n \<or> n \<in> {..written ?s2} \<union> pend ?s2 \<union> miss ?s2 \<union> S" for n
    proof (cases "rlast gap < n")
      case False
      then have "n \<notin> horizon s" using lp by (auto simp: horizon_def)
      then have "n \<in> {..written s} \<union> pend s \<union> miss s \<union> S" using ic(2) by (auto simp: complete_def covered_def)
      with cv show ?thesis by blast
    qed simp
    have i3: "stream_inv a D R S (?s2\<lparr> highest := rlast gap \<rparr>)" if "rlast gap > highest ?s2"
      by (rule raise_highest_inv [OF i2]) (use h l64 that in auto)
    have core1: "stream_core (s1\<lparr> pending := rem \<rparr>)" "settled (s1\<lparr> pending := rem \<rparr>)"
      "length (missing (s1\<lparr> pending := rem \<rparr>)) \<le> maxMissingRanges"
      using n rem by (simp_all add: noted_def stream_core_def settled_def)
    note pr = prunePending_ok [OF core1]
    obtain wn as ms where s1: "s1 = s\<lparr> written := wn, ahead := as, missing := ms \<rparr>"
      using n unfolding noted_def by blast
    let ?c = "s1\<lparr> pending := rem, pending := clip_ranges (written s1) rem \<rparr>"
    have clip: "stream_core ?c"
      using core1(1) clip_ranges_ok [of rem "written s1"] by (auto simp: stream_core_def)
    have refs: "arrival_refs q ?s2 = arrival_refs q s"
      using shrinks_refs [OF pr(8)] clip pr(1) by (simp add: stream_ok_def arrival_refs_def s1)
    have g: "guarded D q ?s2" if g: "guarded D q s" "arrival_refs q s \<noteq> 0"
    proof -
      have "q \<notin> ?L" using g(1) accept(2) by (auto simp: guarded_def coversArrival_def)
      from noted_guarded [OF n g(1) _ this] ic(1) have g1: "guarded D q (s1\<lparr> pending := rem \<rparr>)"
        by (simp add: acct_def)
      have "arrival_refs q (s1\<lparr> pending := rem \<rparr>) \<noteq> 0" using g(2) by (simp add: s1 arrival_refs_def)
      from guarded_refs [OF g1 this] prune_guarded(1) [OF core1 g1] show ?thesis by blast
    qed
    have "identity ?s2 = identity s" using shrinks_fields(5) [OF pr(8)] by (simp add: s1)
    with i2 i3 refs g show ?thesis by (simp add: r_def accept(7) s_def Let_def)
  qed
  then show "stream_inv a D R S r" "arrival_refs q r = arrival_refs q s0"
    "guarded D q s0 \<Longrightarrow> arrival_refs q s0 \<noteq> 0 \<Longrightarrow> guarded D q r" "identity r = identity s0" by simp_all
qed

subsection \<open>What the results say\<close>

lemma safe_gap_loop_ok:
  assumes "Gap (safe_gap_loop exclude s ps)" "\<forall>p \<in> set ps. rfirst p \<le> rlast p"
  shows "\<exists>p \<in> set ps. rfirst p \<le> GapFirst (safe_gap_loop exclude s ps) \<and>
      GapFirst (safe_gap_loop exclude s ps) \<le> GapLast (safe_gap_loop exclude s ps) \<and>
      GapLast (safe_gap_loop exclude s ps) \<le> rlast p"
    "\<not> coversArrival (GapFirst (safe_gap_loop exclude s ps)) (GapLast (safe_gap_loop exclude s ps)) s"
  using assms
  by (induction ps) (auto simp: zero_result_def gap_result_def split: option.splits dest!: safeGapPart_ok)

lemma pendingGap_ok:
  assumes "stream_ok s" "Gap (pendingGap s)"
  shows "GapFirst (pendingGap s) \<le> GapLast (pendingGap s)"
    "{GapFirst (pendingGap s)..GapLast (pendingGap s)} \<subseteq> pend s"
    "{GapFirst (pendingGap s)..GapLast (pendingGap s)} \<inter> arr s = {}"
proof -
  have ne: "\<forall>p \<in> set (pending s). rfirst p \<le> rlast p"
    using assms(1) by (simp add: stream_ok_def stream_core_def ranges_ok_def)
  note g = safe_gap_loop_ok [OF _ ne, of 0 s, folded safePendingGap_def pendingGap_def, OF assms(2)]
  from g(1) show "GapFirst (pendingGap s) \<le> GapLast (pendingGap s)" by blast
  from g(1) show "{GapFirst (pendingGap s)..GapLast (pendingGap s)} \<subseteq> pend s"
    by (auto simp: ranges_set_def) (meson order_trans)
  from g(2) show "{GapFirst (pendingGap s)..GapLast (pendingGap s)} \<inter> arr s = {}"
    by (auto simp: coversArrival_def)
qed

lemma check_Duplicate:
  "Duplicate (fst (check seq s)) \<Longrightarrow>
     seq \<le> written (snd (check seq s)) \<or> seq \<in> set (ahead (snd (check seq s)))"
proof -
  have z: "\<not> Duplicate (safe_gap_loop e s ps)" for e s ps
    by (induction ps) (auto simp: zero_result_def gap_result_def split: option.split)
  assume "Duplicate (fst (check seq s))"
  then show ?thesis
    by (auto simp: check_def Let_def case_prod_beta z pendingGap_def pendingGapExcluding_def
        safePendingGap_def zero_result_def split: if_splits)
qed

end
