(* ===== verification/Dedup.thy ===== *)
theory Dedup
  imports Dedup_Stream_Inv
begin

section \<open>The deduplication table\<close>

text \<open>
  \<^verbatim>\<open>SauronAgent/internal/host/dedup.go\<close>, \<^verbatim>\<open>arrival.go\<close> and \<^verbatim>\<open>pending_gaps.go\<close>: the table of guest
  streams. Every exported method takes the table's mutex for its whole body, so it is one
  function on the table. The Go map of streams is an association list whose order is the order
  the next loop over the map visits it.

  A Go pointer to a stream held across calls (in an \<open>arrivalReservation\<close> or a \<open>gapPublication\<close>)
  is the stream's key together with its \<open>identity\<close>, the number that no two streams of one
  table share: the pointer comparison of \<open>finishGap\<close> is a comparison of identities, and a
  release of a stream that is no longer in the table has no effect on the table.
\<close>

record streamKey =
  keyPeer :: string
  keyBoot :: string

record dedup =
  window :: nat
  maxStreams :: nat
  clock :: nat
  nextStream :: nat
  streams :: "(streamKey \<times> dedupStream) list"

definition minDedupWindow :: int where
  "minDedupWindow = 64"

definition newDedup :: "int \<Rightarrow> int \<Rightarrow> dedup" where
  "newDedup w m = \<lparr> window = nat (if w < minDedupWindow then minDedupWindow else w),
     maxStreams = nat (if m < 1 then 1 else m), clock = 0, nextStream = 0, streams = [] \<rparr>"

definition put_stream :: "streamKey \<Rightarrow> dedupStream \<Rightarrow> dedup \<Rightarrow> dedup" where
  "put_stream k s d = d\<lparr> streams := AList.update k s (streams d) \<rparr>"

definition tick :: "dedup \<Rightarrow> dedup" where
  "tick d = d\<lparr> clock := inc64 (clock d) \<rparr>"

subsection \<open>Finding, creating and evicting streams\<close>

text \<open>A stream with unresolved evidence, a claim or arrivals is never evicted.\<close>

definition pinned :: "dedupStream \<Rightarrow> bool" where
  "pinned s \<longleftrightarrow> pending s \<noteq> [] \<or> activeGapClaim s \<noteq> 0 \<or> arrivals s \<noteq> [] \<or> arrivalOverflow s"

fun victim_loop :: "(streamKey \<times> dedupStream) list \<Rightarrow> (streamKey \<times> nat) option \<Rightarrow> (streamKey \<times> nat) option" where
  "victim_loop [] best = best"
| "victim_loop ((k, s) # rest) best =
     (if pinned s then victim_loop rest best
      else if (case best of None \<Rightarrow> True | Some (_, oldest) \<Rightarrow> used s < oldest)
      then victim_loop rest (Some (k, used s))
      else victim_loop rest best)"

definition evictOldest :: "dedup \<Rightarrow> bool \<times> dedup" where
  "evictOldest d = (case victim_loop (streams d) None of
     None \<Rightarrow> (False, d)
   | Some (victim, _) \<Rightarrow> (True, d\<lparr> streams := AList.delete victim (streams d) \<rparr>))"

definition stream :: "streamKey \<Rightarrow> dedup \<Rightarrow> dedupStream option \<times> dedup" where
  "stream k d0 =
     (let d = tick d0 in
      case map_of (streams d) k of
        Some s \<Rightarrow> let s1 = s\<lparr> used := clock d \<rparr> in (Some s1, put_stream k s1 d)
      | None \<Rightarrow>
          let (ok, d1) = (if length (streams d) \<ge> maxStreams d then evictOldest d else (True, d)) in
          if \<not> ok then (None, d1)
          else let d2 = d1\<lparr> nextStream := next_nonzero64 (nextStream d1) \<rparr>;
                   s = new_stream (nextStream d2) (clock d2)
               in (Some s, put_stream k s d2))"

subsection \<open>Arrivals and commits\<close>

definition Check :: "streamKey \<Rightarrow> nat \<Rightarrow> dedup \<Rightarrow> dedupResult \<times> dedup" where
  "Check k seq d = (case stream k d of
     (None, d1) \<Rightarrow> (zero_result\<lparr> Blocked := True \<rparr>, d1)
   | (Some s, d1) \<Rightarrow> let (r, s1) = check seq s in (r, put_stream k s1 d1))"

definition Commit :: "streamKey \<Rightarrow> nat \<Rightarrow> dedup \<Rightarrow> (nat \<times> nat) \<times> dedup" where
  "Commit k seq d = (case stream k d of
     (None, d1) \<Rightarrow> ((0, 0), d1)
   | (Some s, d1) \<Rightarrow> let (r, s1) = commit (window d1) seq s in (r, put_stream k s1 d1))"

definition CheckReplay :: "streamKey \<Rightarrow> nat \<Rightarrow> dedup \<Rightarrow> dedupResult \<times> dedup" where
  "CheckReplay k firstSequence d = (case map_of (streams d) k of
     None \<Rightarrow> (zero_result, d)
   | Some s \<Rightarrow>
       let d1 = tick d; (r, s1) = check_replay firstSequence (s\<lparr> used := clock d1 \<rparr>)
       in (r, put_stream k s1 d1))"

definition NoteMissing :: "streamKey \<Rightarrow> nat \<Rightarrow> nat \<Rightarrow> dedup \<Rightarrow> dedup" where
  "NoteMissing k lo hi d = (case map_of (streams d) k of
     None \<Rightarrow> d
   | Some s \<Rightarrow>
       if coversArrival lo hi s then d
       else let d1 = tick d in put_stream k (note_missing (clock d1) lo hi s) d1)"

definition ResumeFrom :: "streamKey \<Rightarrow> dedup \<Rightarrow> nat \<times> dedup" where
  "ResumeFrom k d = (case map_of (streams d) k of
     None \<Rightarrow> (0, d)
   | Some s \<Rightarrow> let d1 = tick d in (written s, put_stream k (s\<lparr> used := clock d1 \<rparr>) d1))"

record arrivalReservation =
  resKey :: streamKey
  resStream :: nat
  resSeq :: nat

datatype reserve_error = EvidenceLimit | ArrivalLimit

definition reserveArrival ::
  "streamKey \<Rightarrow> nat \<Rightarrow> source \<Rightarrow> dedup \<Rightarrow> (reserve_error, arrivalReservation) result \<times> dedup" where
  "reserveArrival k seq src d = (case stream k d of
     (None, d1) \<Rightarrow> (Inl EvidenceLimit, d1)
   | (Some s, d1) \<Rightarrow>
       let (ok, s1) = reserve (window d1) seq src s in
       (if ok then Inr \<lparr> resKey = k, resStream = identity s1, resSeq = seq \<rparr> else Inl ArrivalLimit,
        put_stream k s1 d1))"

definition release_arrival :: "arrivalReservation \<Rightarrow> dedup \<Rightarrow> dedup" where
  "release_arrival r d = (case map_of (streams d) (resKey r) of
     None \<Rightarrow> d
   | Some s \<Rightarrow> if identity s = resStream r then put_stream (resKey r) (release (resSeq r) s) d else d)"

subsection \<open>Publishing gaps\<close>

record gapPublication =
  pubKey :: streamKey
  pubStream :: nat
  pubGeneration :: nat
  pubClaim :: nat
  pubSource :: source
  pubGap :: seqRange

text \<open>\<open>NilSource\<close> is the nil dereference of \<^verbatim>\<open>*stream.gapSource\<close>; it is shown never to happen.\<close>

datatype claim_outcome = NoClaim | Claimed gapPublication | NilSource

definition claimGapLocked :: "streamKey \<Rightarrow> seqRange \<Rightarrow> dedupStream \<Rightarrow> claim_outcome \<times> dedupStream" where
  "claimGapLocked k gap s =
     (let s1 = s\<lparr> nextGapClaim := next_nonzero64 (nextGapClaim s) \<rparr>;
          s2 = s1\<lparr> activeGapClaim := nextGapClaim s1 \<rparr>
      in (case gapSource s2 of
            None \<Rightarrow> NilSource
          | Some src \<Rightarrow> Claimed \<lparr> pubKey = k, pubStream = identity s2, pubGeneration = gapGeneration s2,
              pubClaim = activeGapClaim s2, pubSource = src, pubGap = gap \<rparr>, s2))"

definition claimGap ::
  "streamKey \<Rightarrow> source \<Rightarrow> nat \<Rightarrow> nat \<Rightarrow> gapVersion \<Rightarrow> dedup \<Rightarrow> claim_outcome \<times> dedup" where
  "claimGap k src lo hi version d = (case map_of (streams d) k of
     None \<Rightarrow> (NoClaim, d)
   | Some s \<Rightarrow>
       if pending s = [] \<or> identity s \<noteq> gvStream version \<or> gapGeneration s \<noteq> gvGeneration version \<or>
          \<not> pendingContains lo hi s
       then (NoClaim, d)
       else
         let s1 = (if gapSource s = None then s\<lparr> gapSource := Some src \<rparr> else s) in
         if activeGapClaim s1 \<noteq> 0 \<or> \<not> canPublishGap lo hi s1 then (NoClaim, put_stream k s1 d)
         else let d1 = tick d;
                  (r, s2) = claimGapLocked k (SeqRange lo hi) (s1\<lparr> used := clock d1 \<rparr>)
              in (r, put_stream k s2 d1))"

text \<open>The loop of \<open>takePendingGap\<close>: the streams it visits are updated by \<open>nextPublishableGap\<close>.\<close>

fun candidate_loop ::
  "(streamKey \<times> dedupStream) list \<Rightarrow> (streamKey \<times> nat \<times> seqRange) option \<Rightarrow>
   (streamKey \<times> dedupStream) list \<times> (streamKey \<times> nat \<times> seqRange) option" where
  "candidate_loop [] best = ([], best)"
| "candidate_loop ((k, s) # rest) best =
     (if pending s = [] \<or> gapSource s = None \<or> activeGapClaim s \<noteq> 0
      then let (rest', b) = candidate_loop rest best in ((k, s) # rest', b)
      else
        let (g, s1) = nextPublishableGap s;
            best1 = (case g of
                None \<Rightarrow> best
              | Some gap \<Rightarrow>
                  if (case best of None \<Rightarrow> True | Some (_, u, _) \<Rightarrow> used s1 < u) then Some (k, used s1, gap) else best);
            (rest', b) = candidate_loop rest best1
        in ((k, s1) # rest', b))"

definition takePendingGap :: "dedup \<Rightarrow> claim_outcome \<times> dedup" where
  "takePendingGap d =
     (let (ss, best) = candidate_loop (streams d) None; d1 = d\<lparr> streams := ss \<rparr> in
      case best of
        None \<Rightarrow> (NoClaim, d1)
      | Some (k, _, gap) \<Rightarrow>
          (case map_of ss k of
             None \<Rightarrow> (NoClaim, d1)
           | Some s \<Rightarrow>
               let d2 = tick d1; (r, s1) = claimGapLocked k gap (s\<lparr> used := clock d2 \<rparr>)
               in (r, put_stream k s1 d2)))"

definition takeNextPendingGap :: "streamKey \<Rightarrow> dedup \<Rightarrow> claim_outcome \<times> dedup" where
  "takeNextPendingGap k d = (case map_of (streams d) k of
     None \<Rightarrow> (NoClaim, d)
   | Some s \<Rightarrow>
       if pending s = [] \<or> gapSource s = None \<or> activeGapClaim s \<noteq> 0 then (NoClaim, d)
       else
         let (g, s1) = nextPublishableGap s in
         case g of
           None \<Rightarrow> (NoClaim, put_stream k s1 d)
         | Some gap \<Rightarrow>
             let d1 = tick d; (r, s2) = claimGapLocked k gap (s1\<lparr> used := clock d1 \<rparr>)
             in (r, put_stream k s2 d1))"

definition finishGap :: "gapPublication \<Rightarrow> bool \<Rightarrow> dedup \<Rightarrow> bool \<times> dedup" where
  "finishGap p accepted d = (case map_of (streams d) (pubKey p) of
     None \<Rightarrow> (False, d)
   | Some s \<Rightarrow>
       if identity s \<noteq> pubStream p \<or> activeGapClaim s \<noteq> pubClaim p then (False, d)
       else
         let (ok, s1) = finish (pubGeneration p) (pubGap p) accepted s in
         if ok then let d1 = tick d in (True, put_stream (pubKey p) (s1\<lparr> used := clock d1 \<rparr>) d1)
         else (False, put_stream (pubKey p) s1 d))"

datatype readiness_error = ArrivalOverflowed | GapsAwaiting nat

fun readiness_loop :: "(streamKey \<times> dedupStream) list \<Rightarrow> nat \<Rightarrow> (readiness_error, unit) result" where
  "readiness_loop [] n = (if n \<noteq> 0 then Inl (GapsAwaiting n) else Inr ())"
| "readiness_loop ((_, s) # rest) n =
     (if arrivalOverflow s then Inl ArrivalOverflowed else readiness_loop rest (n + length (pending s)))"

definition readiness :: "dedup \<Rightarrow> (readiness_error, unit) result" where
  "readiness d = readiness_loop (streams d) 0"

subsection \<open>The table as a map\<close>

definition table_ok :: "dedup \<Rightarrow> bool" where
  "table_ok d \<longleftrightarrow> distinct (map fst (streams d)) \<and> 0 < window d \<and> 0 < maxStreams d \<and>
     length (streams d) \<le> maxStreams d"

lemma put_stream_simps [simp]:
  "map_of (streams (put_stream k s d)) = (map_of (streams d))(k \<mapsto> s)"
  "clock (put_stream k s d) = clock d" "window (put_stream k s d) = window d"
  "maxStreams (put_stream k s d) = maxStreams d" "nextStream (put_stream k s d) = nextStream d"
  by (simp_all add: put_stream_def update_conv')

lemma tick_simps [simp]:
  "streams (tick d) = streams d" "window (tick d) = window d" "maxStreams (tick d) = maxStreams d"
  "nextStream (tick d) = nextStream d"
  by (simp_all add: tick_def)

lemma length_update_le: "length (AList.update k v xs) \<le> (if k \<in> fst ` set xs then length xs else Suc (length xs))"
proof (induction xs)
  case (Cons x xs)
  then show ?case by (cases x, cases "k \<in> fst ` set xs") (simp_all split: if_splits)
qed simp

lemma table_ok_put: "table_ok d \<Longrightarrow> map_of (streams d) k = Some s0 \<Longrightarrow> table_ok (put_stream k s d)"
proof -
  assume ok: "table_ok d" and "map_of (streams d) k = Some s0"
  then have "k \<in> fst ` set (streams d)" by (metis domI dom_map_of_conv_image_fst)
  then have "length (AList.update k s (streams d)) \<le> length (streams d)"
    using length_update_le [of k s "streams d"] by simp
  with ok show ?thesis by (simp add: table_ok_def put_stream_def distinct_update)
qed

lemma table_ok_tick [simp]: "table_ok (tick d) = table_ok d"
  by (simp add: table_ok_def)

lemma table_ok_new: "table_ok (newDedup w m)"
  by (simp add: table_ok_def newDedup_def minDedupWindow_def)

lemma victim_loop_unpinned:
  "victim_loop ss best = Some (v, u) \<Longrightarrow> best = Some (v, u) \<or> (\<exists>s. (v, s) \<in> set ss \<and> \<not> pinned s)"
proof (induction ss best rule: victim_loop.induct)
  case (2 k s rest best)
  show ?case
  proof (cases "pinned s")
    case True
    with 2 show ?thesis by auto
  next
    case False
    with 2 show ?thesis by (cases best) (auto split: if_splits)
  qed
qed simp

text \<open>
  \<open>stream k\<close> finds the stream, or creates it after evicting at most one unpinned stream, or
  refuses. The map afterwards is the old one, restricted to the streams not evicted.
\<close>

lemma stream_cases:
  assumes ok: "table_ok d"
  obtains (found) s where "map_of (streams d) k = Some s"
      "stream k d = (Some (s\<lparr> used := inc64 (clock d) \<rparr>), put_stream k (s\<lparr> used := inc64 (clock d) \<rparr>) (tick d))"
  | (refused) "map_of (streams d) k = None" "stream k d = (None, tick d)"
  | (created) i d1 where "map_of (streams d) k = None"
      "stream k d = (Some (new_stream i (inc64 (clock d))), put_stream k (new_stream i (inc64 (clock d))) d1)"
      "\<And>k' s. map_of (streams d1) k' = Some s \<Longrightarrow> map_of (streams d) k' = Some s"
      "\<And>k' s. map_of (streams d) k' = Some s \<Longrightarrow> pinned s \<Longrightarrow> map_of (streams d1) k' = Some s"
      "table_ok (put_stream k (new_stream i (inc64 (clock d))) d1)" "window d1 = window d"
proof (cases "map_of (streams d) k")
  case (Some s)
  then show ?thesis by (intro found) (simp_all add: stream_def tick_def Let_def)
next
  case None
  have dist: "distinct (map fst (streams d))" using ok by (simp add: table_ok_def)
  let ?n = "next_nonzero64 (nextStream d)"
  show ?thesis
  proof (cases "length (streams d) \<ge> maxStreams d")
    case False
    let ?d1 = "(tick d)\<lparr> nextStream := ?n \<rparr>"
    have "stream k d = (Some (new_stream ?n (inc64 (clock d))), put_stream k (new_stream ?n (inc64 (clock d))) ?d1)"
      using False None by (simp add: stream_def tick_def Let_def)
    moreover have "table_ok (put_stream k (new_stream ?n (inc64 (clock d))) ?d1)"
      using ok False length_update_le [of k "new_stream ?n (inc64 (clock d))" "streams d"]
      by (auto simp: table_ok_def put_stream_def distinct_update split: if_splits)
    ultimately show ?thesis using None by (intro created [of ?n ?d1]) simp_all
  next
    case full: True
    show ?thesis
    proof (cases "victim_loop (streams d) None")
      case no: None
      have "stream k d = (None, tick d)"
        using no full None by (simp add: stream_def evictOldest_def tick_def Let_def)
      with None show ?thesis by (rule refused)
    next
      case (Some vu)
      obtain v u where vu: "vu = (v, u)" by (cases vu)
      let ?d1 = "(tick d)\<lparr> streams := AList.delete v (streams d), nextStream := ?n \<rparr>"
      from victim_loop_unpinned [OF Some [unfolded vu]] obtain sv where sv: "(v, sv) \<in> set (streams d)" "\<not> pinned sv"
        by auto
      then have mv: "map_of (streams d) v = Some sv" using dist by simp
      have del: "map_of (streams ?d1) k' = (if k' = v then None else map_of (streams d) k')" for k'
        by (simp add: delete_conv')
      have st: "stream k d = (Some (new_stream ?n (inc64 (clock d))), put_stream k (new_stream ?n (inc64 (clock d))) ?d1)"
        using Some vu full None by (simp add: stream_def evictOldest_def tick_def Let_def)
      have "length (AList.delete v (streams d)) < length (streams d)"
        using sv(1) by (auto simp: AList.delete_eq intro!: length_filter_less)
      then have tok: "table_ok (put_stream k (new_stream ?n (inc64 (clock d))) ?d1)"
        using ok length_update_le [of k "new_stream ?n (inc64 (clock d))" "AList.delete v (streams d)"]
        by (auto simp: table_ok_def put_stream_def distinct_update distinct_delete split: if_splits)
      show ?thesis
      proof (rule created [OF None st _ _ tok])
        show "map_of (streams d) k' = Some s" if "map_of (streams ?d1) k' = Some s" for k' s
          using that del by (auto split: if_splits)
        show "map_of (streams ?d1) k' = Some s" if "map_of (streams d) k' = Some s" "pinned s" for k' s
          using that del mv sv(2) by auto
      qed simp
    qed
  qed
qed

lemma candidate_loop_map:
  assumes "candidate_loop ss best = (ss', b)"
  shows "map fst ss' = map fst ss"
    "map_of ss' k = map_option (\<lambda>s. if pending s = [] \<or> gapSource s = None \<or> activeGapClaim s \<noteq> 0
                                   then s else excludeArrivals s) (map_of ss k)"
proof -
  have "map fst ss' = map fst ss \<and>
    map_of ss' k = map_option (\<lambda>s. if pending s = [] \<or> gapSource s = None \<or> activeGapClaim s \<noteq> 0
                                   then s else excludeArrivals s) (map_of ss k)"
    using assms
  proof (induction ss best arbitrary: ss' rule: candidate_loop.induct)
    case (2 k s rest best)
    then show ?case
      by (auto simp: nextPublishableGap_def Let_def split: if_splits prod.splits)
  qed simp
  then show "map fst ss' = map fst ss"
    "map_of ss' k = map_option (\<lambda>s. if pending s = [] \<or> gapSource s = None \<or> activeGapClaim s \<noteq> 0
                                   then s else excludeArrivals s) (map_of ss k)" by simp_all
qed

end
