(* ===== verification/Dedup_Safety.thy ===== *)
theory Dedup_Safety
  imports Dedup "HOL-Library.Multiset"
begin

section \<open>The acknowledgement is safe\<close>

text \<open>
  The deduplication table under any interleaving of sessions, of the gap-retry worker and of
  output writes. A state is the table together with its history: for each stream key the
  sequences received, the sequences a sink accepted, the sequences covered by an accepted loss
  report and the anchor below the first sequence received; the reservations in flight (each with a
  mark telling whether its sequence was still open when it arrived) and the outstanding
  publication claims. A step is one locked method of the table, the acceptance of an event by
  the sink, or a change of the order in which Go visits its maps.

  What the callers guarantee is in the guards: a sequence is positive, \<open>Check\<close> and \<open>Commit\<close> are
  called for a reservation in flight (\<^verbatim>\<open>processEvent\<close> in \<^verbatim>\<open>session.go\<close>), \<open>Commit\<close> only after the sink
  accepted the event, a claim names a non-empty range, and a claim is finished once.
\<close>

record history =
  hTable :: dedup
  hDurable :: "streamKey \<Rightarrow> nat set"
  hReported :: "streamKey \<Rightarrow> nat set"
  hSeen :: "streamKey \<Rightarrow> nat set"
  hAnchor :: "streamKey \<Rightarrow> nat"
  hInFlight :: "(arrivalReservation \<times> bool) list"
  hClaims :: "gapPublication list"

definition history_init :: "int \<Rightarrow> int \<Rightarrow> history" where
  "history_init w m = \<lparr> hTable = newDedup w m, hDurable = (\<lambda>_. {}), hReported = (\<lambda>_. {}),
     hSeen = (\<lambda>_. {}), hAnchor = (\<lambda>_. 0), hInFlight = [], hClaims = [] \<rparr>"

text \<open>Is the sequence still open: neither acknowledged nor on the list of reported losses?\<close>

definition open_seq :: "streamKey \<Rightarrow> nat \<Rightarrow> dedup \<Rightarrow> bool" where
  "open_seq k seq d = (case map_of (streams d) k of
     None \<Rightarrow> True
   | Some s \<Rightarrow> written s < seq \<and> seq \<notin> miss s)"

definition note_seen :: "streamKey \<Rightarrow> nat \<Rightarrow> history \<Rightarrow> history" where
  "note_seen k seq h = h\<lparr> hSeen := (hSeen h)(k := insert seq (hSeen h k)),
     hAnchor := (if map_of (streams (hTable h)) k = None then (hAnchor h)(k := seq - 1) else hAnchor h) \<rparr>"

definition drop_at :: "nat \<Rightarrow> 'a list \<Rightarrow> 'a list" where
  "drop_at i xs = take i xs @ drop (Suc i) xs"

text \<open>A table that differs only in the order of its maps.\<close>

definition reordered :: "dedup \<Rightarrow> dedup \<Rightarrow> bool" where
  "reordered d d' \<longleftrightarrow> (\<exists>f. (\<forall>s. mset (f s) = mset (arrivals s)) \<and>
     (\<exists>ss. mset ss = mset (streams d) \<and> d' = d\<lparr> streams := map (\<lambda>(k, s). (k, s\<lparr> arrivals := f s \<rparr>)) ss \<rparr>))"

inductive dedup_step :: "history \<Rightarrow> history \<Rightarrow> bool" where
  arrive:
    "reserveArrival k seq src (hTable h) = (Inr r, d) \<Longrightarrow> 0 < seq \<Longrightarrow> seq \<le> max64 \<Longrightarrow>
     dedup_step h ((note_seen k seq h)\<lparr> hTable := d, hInFlight := (r, open_seq k seq (hTable h)) # hInFlight h \<rparr>)"
| arrive_refused:
    "reserveArrival k seq src (hTable h) = (Inl e, d) \<Longrightarrow> 0 < seq \<Longrightarrow> seq \<le> max64 \<Longrightarrow>
     dedup_step h (h\<lparr> hTable := d, hSeen := (hSeen h)(k := insert seq (hSeen h k)) \<rparr>)"
| check_arrival:
    "(r, b) \<in> set (hInFlight h) \<Longrightarrow>
     dedup_step h (h\<lparr> hTable := snd (Check (resKey r) (resSeq r) (hTable h)) \<rparr>)"
| sink_accepts:
    "(r, b) \<in> set (hInFlight h) \<Longrightarrow>
     dedup_step h (h\<lparr> hDurable := (hDurable h)(resKey r := insert (resSeq r) (hDurable h (resKey r))) \<rparr>)"
| commit_arrival:
    "(r, b) \<in> set (hInFlight h) \<Longrightarrow> resSeq r \<in> hDurable h (resKey r) \<Longrightarrow>
     dedup_step h (h\<lparr> hTable := snd (Commit (resKey r) (resSeq r) (hTable h)) \<rparr>)"
| release:
    "i < length (hInFlight h) \<Longrightarrow> hInFlight h ! i = (r, b) \<Longrightarrow>
     dedup_step h (h\<lparr> hTable := release_arrival r (hTable h), hInFlight := drop_at i (hInFlight h) \<rparr>)"
| replay:
    "firstSequence \<le> max64 \<Longrightarrow>
     dedup_step h (h\<lparr> hTable := snd (CheckReplay k firstSequence (hTable h)) \<rparr>)"
| resume:
    "dedup_step h (h\<lparr> hTable := snd (ResumeFrom k (hTable h)) \<rparr>)"
| claim:
    "lo \<le> hi \<Longrightarrow> claimGap k src lo hi v (hTable h) = (c, d) \<Longrightarrow>
     dedup_step h (h\<lparr> hTable := d, hClaims := (case c of Claimed p \<Rightarrow> [p] | _ \<Rightarrow> []) @ hClaims h \<rparr>)"
| take_pending:
    "takePendingGap (hTable h) = (c, d) \<Longrightarrow>
     dedup_step h (h\<lparr> hTable := d, hClaims := (case c of Claimed p \<Rightarrow> [p] | _ \<Rightarrow> []) @ hClaims h \<rparr>)"
| take_next:
    "takeNextPendingGap k (hTable h) = (c, d) \<Longrightarrow>
     dedup_step h (h\<lparr> hTable := d, hClaims := (case c of Claimed p \<Rightarrow> [p] | _ \<Rightarrow> []) @ hClaims h \<rparr>)"
| finish_claim:
    "i < length (hClaims h) \<Longrightarrow> hClaims h ! i = p \<Longrightarrow>
     dedup_step h (h\<lparr> hTable := snd (finishGap p accepted (hTable h)),
        hReported := (if accepted
          then (hReported h)(pubKey p := hReported h (pubKey p) \<union> {rfirst (pubGap p)..rlast (pubGap p)})
          else hReported h),
        hClaims := drop_at i (hClaims h) \<rparr>)"
| map_order:
    "reordered (hTable h) d \<Longrightarrow> dedup_step h (h\<lparr> hTable := d \<rparr>)"

subsection \<open>The invariant\<close>

definition in_flight :: "streamKey \<Rightarrow> nat \<Rightarrow> history \<Rightarrow> nat" where
  "in_flight k q h = length (filter (\<lambda>(r, _). resKey r = k \<and> resSeq r = q) (hInFlight h))"

definition sized :: "nat \<Rightarrow> dedupStream \<Rightarrow> bool" where
  "sized w s \<longleftrightarrow> length (ahead s) \<le> w \<and> length (arrivals s) \<le> w"

definition stream_hist :: "history \<Rightarrow> streamKey \<Rightarrow> dedupStream \<Rightarrow> bool" where
  "stream_hist h k s \<longleftrightarrow>
     stream_inv (hAnchor h k) (hDurable h k) (hReported h k) (hSeen h k) s \<and>
     sized (window (hTable h)) s \<and> (\<forall>q. arrival_refs q s = int (in_flight k q h))"

definition flight_ok :: "history \<Rightarrow> arrivalReservation \<times> bool \<Rightarrow> bool" where
  "flight_ok h rb \<longleftrightarrow> 0 < resSeq (fst rb) \<and> resSeq (fst rb) \<le> max64 \<and>
     resSeq (fst rb) \<in> hSeen h (resKey (fst rb)) \<and>
     (\<exists>s. map_of (streams (hTable h)) (resKey (fst rb)) = Some s \<and> identity s = resStream (fst rb) \<and>
        (snd rb \<longrightarrow> guarded (hDurable h (resKey (fst rb))) (resSeq (fst rb)) s))"

definition hist_inv :: "history \<Rightarrow> bool" where
  "hist_inv h \<longleftrightarrow> table_ok (hTable h) \<and>
     (\<forall>k s. map_of (streams (hTable h)) k = Some s \<longrightarrow> stream_hist h k s) \<and>
     (\<forall>rb \<in> set (hInFlight h). flight_ok h rb) \<and>
     (\<forall>p \<in> set (hClaims h). rfirst (pubGap p) \<le> rlast (pubGap p))"

lemma hist_inv_init: "hist_inv (history_init w m)"
  by (simp add: hist_inv_def history_init_def table_ok_new) (simp add: newDedup_def)

text \<open>
  \<open>keeps\<close>: what a step may do to one stream. \<open>hist_update\<close> is the frame rule: a step that only
  does this to the streams of the table keeps the invariant of the whole state.
\<close>

definition keeps :: "nat \<Rightarrow> nat \<Rightarrow> nat set \<Rightarrow> nat set \<Rightarrow> nat set \<Rightarrow> dedupStream \<Rightarrow> dedupStream \<Rightarrow> bool" where
  "keeps w a D R S s s' \<longleftrightarrow> stream_inv a D R S s' \<and> identity s' = identity s \<and>
     (sized w s \<longrightarrow> sized w s') \<and> (\<forall>q. arrival_refs q s' = arrival_refs q s) \<and>
     (\<forall>q. guarded D q s \<longrightarrow> arrival_refs q s \<noteq> 0 \<longrightarrow> guarded D q s')"

lemma in_flight_pos: "(r, b) \<in> set (hInFlight h) \<Longrightarrow> 0 < in_flight (resKey r) (resSeq r) h"
  unfolding in_flight_def by (force simp: filter_empty_conv length_greater_0_conv)

lemma hist_update:
  assumes inv: "hist_inv h" and "table_ok d" "window d = window (hTable h)"
    and dom: "\<And>k s'. map_of (streams d) k = Some s' \<Longrightarrow>
       \<exists>s. map_of (streams (hTable h)) k = Some s \<and> keeps (window d) (hAnchor h k) (hDurable h k) (hReported h k) (hSeen h k) s s'"
    and dom2: "\<And>k s. map_of (streams (hTable h)) k = Some s \<Longrightarrow> pinned s \<Longrightarrow> \<exists>s'. map_of (streams d) k = Some s'"
  shows "hist_inv (h\<lparr> hTable := d \<rparr>)"
proof -
  have "stream_hist (h\<lparr> hTable := d \<rparr>) k s'" if s': "map_of (streams d) k = Some s'" for k s'
  proof -
    from dom [OF s'] obtain s where s: "map_of (streams (hTable h)) k = Some s"
      and kp: "keeps (window d) (hAnchor h k) (hDurable h k) (hReported h k) (hSeen h k) s s'" by blast
    have "stream_hist h k s" using inv s by (simp add: hist_inv_def)
    with kp assms(3) show ?thesis by (simp add: stream_hist_def keeps_def in_flight_def)
  qed
  moreover have "flight_ok (h\<lparr> hTable := d \<rparr>) rb" if rb: "rb \<in> set (hInFlight h)" for rb
  proof -
    let ?k = "resKey (fst rb)" and ?q = "resSeq (fst rb)"
    from inv rb have fo: "flight_ok h rb" by (simp add: hist_inv_def)
    then obtain s where s: "map_of (streams (hTable h)) ?k = Some s" "identity s = resStream (fst rb)"
      "snd rb \<longrightarrow> guarded (hDurable h ?k) ?q s" by (auto simp: flight_ok_def)
    have sh: "stream_hist h ?k s" using inv s(1) by (simp add: hist_inv_def)
    have "0 < in_flight ?k ?q h" using in_flight_pos [of "fst rb" "snd rb" h] rb by simp
    with sh have refs: "arrival_refs ?q s \<noteq> 0" by (simp add: stream_hist_def)
    then have "pinned s" by (auto simp: pinned_def arrival_refs_def)
    from dom2 [OF s(1) this] obtain s' where s': "map_of (streams d) ?k = Some s'" by blast
    from dom [OF s'] s(1) have kp: "keeps (window d) (hAnchor h ?k) (hDurable h ?k) (hReported h ?k) (hSeen h ?k) s s'"
      by auto
    with s s' refs fo show ?thesis by (auto simp: flight_ok_def keeps_def)
  qed
  ultimately show ?thesis using inv assms(2) by (simp add: hist_inv_def)
qed

lemma stream_hist_mono:
  assumes "stream_hist h k s" "hDurable h k \<subseteq> D k" "hReported h k \<subseteq> R k" "hSeen h k \<subseteq> S k"
  shows "stream_hist (h\<lparr> hDurable := D, hReported := R, hSeen := S \<rparr>) k s"
  using assms stream_inv_mono [of _ "hDurable h k" "hReported h k" "hSeen h k" s "D k" "R k" "S k"]
  by (auto simp: stream_hist_def in_flight_def)

lemma hist_mono:
  assumes "hist_inv h" "\<And>k. hDurable h k \<subseteq> D k" "\<And>k. hReported h k \<subseteq> R k" "\<And>k. hSeen h k \<subseteq> S k"
  shows "hist_inv (h\<lparr> hDurable := D, hReported := R, hSeen := S \<rparr>)"
proof -
  have "flight_ok (h\<lparr> hDurable := D, hReported := R, hSeen := S \<rparr>) rb" if "flight_ok h rb" for rb
    using that assms(2,4) by (auto simp: flight_ok_def intro: guarded_mono)
  with assms stream_hist_mono [of h _ _ D R S] show ?thesis by (simp add: hist_inv_def)
qed

subsection \<open>One lemma per operation\<close>

lemma keeps_refl: "stream_inv a D R S s \<Longrightarrow> keeps w a D R S s s"
  by (simp add: keeps_def)

lemma keeps_trans: "keeps w a D R S s s' \<Longrightarrow> keeps w a D R S s' s'' \<Longrightarrow> keeps w a D R S s s''"
  by (auto simp: keeps_def)

lemma keeps_frame:
  assumes "keeps w a D R S s s'"
  shows "keeps w a D R S s (s'\<lparr> used := u \<rparr>)" "keeps w a D R S s (s'\<lparr> gapSource := g \<rparr>)"
    "keeps w a D R S s (s'\<lparr> nextGapClaim := n, activeGapClaim := c \<rparr>)"
    "keeps w a D R S s (s'\<lparr> arrivalOverflow := b \<rparr>)"
  using assms by (simp_all add: keeps_def sized_def)

lemma shrinks_length:
  assumes "shrinks s s'" "stream_core s'"
  shows "length (arrivals s') \<le> length (arrivals s)"
proof -
  have "distinct (arrivals s')" using assms(2) by (auto simp: stream_core_def distinct_map)
  then have "length (arrivals s') = card (set (arrivals s'))" by (simp add: distinct_card)
  also have "\<dots> \<le> card (set (arrivals s))" using assms(1) by (intro card_mono) (auto simp: shrinks_def)
  also have "\<dots> \<le> length (arrivals s)" by (rule card_length)
  finally show ?thesis .
qed

lemma keeps_check:
  assumes "stream_inv a D R S s" "seq \<in> S" "seq \<le> max64"
  shows "keeps w a D R S s (snd (check seq s))"
  using check_inv [OF assms] check_identity [of seq s]
  by (simp add: keeps_def sized_def guarded_def arrival_refs_def)

lemma keeps_replay:
  assumes "stream_inv a D R S s" "f \<le> max64"
  shows "keeps w a D R S s (snd (check_replay f s))"
proof -
  have "ahead (snd (check_replay f s)) = ahead s"
  proof (cases "f > written s \<and> f - written s > 1")
    case True
    obtain ok s1 where q: "queueReplayMissing (f - 1) s = (ok, s1)" by (cases "queueReplayMissing (f - 1) s") auto
    have "requeued s s1" using queueReplayMissing_ok(1) [OF q] assms True
      by (auto simp: stream_inv_def stream_ok_def)
    with True q show ?thesis using requeued_fields(2) by (simp add: check_replay_def)
  next
    case False
    then show ?thesis unfolding check_replay_def if_not_P [OF False] by simp
  qed
  with check_replay_inv [OF assms] show ?thesis
    by (simp add: keeps_def sized_def guarded_def arrival_refs_def)
qed

lemma keeps_excludeArrivals:
  assumes "stream_inv a D R S s"
  shows "keeps w a D R S s (excludeArrivals s)"
proof -
  have core: "stream_core s" using assms by (simp add: stream_inv_def stream_ok_def)
  note x = excludeArrivals_ok [OF core]
  have "length (arrivals (excludeArrivals s)) \<le> length (arrivals s)" using x by (rule shrinks_length)
  with excludeArrivals_inv [OF assms] excludeArrivals_keeps [OF assms] shrinks_fields(2) [OF x(1)]
  show ?thesis by (simp add: keeps_def sized_def)
qed

lemma trim_sized:
  assumes "distinct (ahead s)"
  shows "length (ahead (snd (trim w s))) \<le> w"
proof (cases "length (ahead s) \<le> w")
  case False
  let ?keys = "sort (ahead s)"
  let ?drp = "min (length ?keys - w + w div 4) (length ?keys)"
  have "length (filter (\<lambda>k. k \<notin> set (take ?drp ?keys)) (ahead s)) = card (set (ahead s) - set (take ?drp ?keys))"
    using assms by (subst distinct_card [symmetric]) (auto intro: arg_cong [where f = card])
  also have "\<dots> = length (ahead s) - ?drp"
    using assms set_take_subset [of ?drp ?keys]
    by (subst card_Diff_subset) (auto simp: distinct_card distinct_sort)
  also have "\<dots> \<le> w" using False by simp
  finally show ?thesis using False by (simp add: trim_def Let_def)
qed (simp add: trim_def)

lemma commit_arrivals_length:
  assumes "stream_ok s" "seq \<le> max64"
  shows "length (arrivals (snd (commit w seq s))) \<le> length (arrivals s)"
proof (cases "seq \<le> written s")
  case False
  let ?s0 = "s\<lparr> ahead := List.insert seq (ahead s) \<rparr>"
  note n = commit_noted [OF assms(1) False assms(2)]
  have c: "stream_core (absorb ?s0)" "settled (absorb ?s0)" "length (missing (absorb ?s0)) \<le> maxMissingRanges"
    using n by (simp_all add: noted_def)
  note pr = prunePending_ok [OF c]
  have "arrivals (absorb ?s0) = arrivals s" using n by (auto simp: noted_def)
  moreover have "length (arrivals (prunePending (absorb ?s0))) \<le> length (arrivals (absorb ?s0))"
    using shrinks_length [OF pr(8)] pr(1) by (simp add: stream_ok_def)
  moreover have "arrivals (snd (trim w x)) = arrivals x" for x using trim_frame [of w x] by auto
  ultimately show ?thesis by (simp add: commit_eq [OF False])
qed (simp add: commit_def)

lemma keeps_commit:
  assumes "stream_inv a D R S s" "seq \<in> D" "seq \<in> S" "seq \<le> max64"
  shows "keeps w a D R S s (snd (commit w seq s))"
proof -
  have ok: "stream_ok s" using assms(1) by (simp add: stream_inv_def)
  have "length (ahead (snd (commit w seq s))) \<le> w" if "length (ahead s) \<le> w"
  proof (cases "seq \<le> written s")
    case False
    let ?s0 = "s\<lparr> ahead := List.insert seq (ahead s) \<rparr>"
    note n = commit_noted [OF ok False assms(4)]
    have c: "stream_core (absorb ?s0)" "settled (absorb ?s0)" "length (missing (absorb ?s0)) \<le> maxMissingRanges"
      using n by (simp_all add: noted_def)
    have "distinct (ahead (prunePending (absorb ?s0)))"
      using prunePending_ok(5) [OF c] c(1) by (simp add: stream_core_def)
    from trim_sized [OF this] show ?thesis by (simp add: commit_eq [OF False])
  qed (use that in \<open>simp add: commit_def\<close>)
  with commit_inv [OF assms] commit_arrivals_length [OF ok assms(4), of w] show ?thesis
    by (auto simp: keeps_def sized_def)
qed

lemma finish_sized:
  assumes "stream_inv a D R S s0" "rfirst gap \<le> rlast gap" "sized w s0"
  shows "sized w (snd (finish gen gap accepted s0))"
  using assms
proof (cases rule: finish_cases [of gen gap accepted s0, case_names keep accept])
  case keep
  then show ?thesis using assms(3) by (simp add: sized_def)
next
  case (accept rem s1)
  let ?s = "s0\<lparr> activeGapClaim := 0 \<rparr>"
  have ok: "stream_ok ?s" "stream_core ?s" using assms(1) by (simp_all add: stream_defs)
  have "rlast gap \<in> pend ?s"
    using contains_loop_subset accept(4) assms(2) by (force simp: pendingContains_def)
  then have l: "rlast gap \<le> max64"
    using ranges_ok_bound [of "pending s0" "rlast gap"] ok(2) by (simp add: stream_core_def)
  have n: "noted {rfirst gap..rlast gap} ?s s1" using noteMissing_ok [OF accept(6) ok(1) l] by simp
  obtain wn as ms where s1: "s1 = ?s\<lparr> written := wn, ahead := as, missing := ms \<rparr>"
    using n unfolding noted_def by blast
  have as: "set as \<subseteq> set (ahead s0)" "distinct as" using n by (simp_all add: noted_def s1 stream_core_def)
  then have la: "length as \<le> length (ahead s0)"
    using card_mono [OF _ as(1)] card_length [of "ahead s0"] by (simp add: distinct_card [symmetric])
  have rem: "ranges_ok rem" "length rem \<le> maxMissingRanges"
    using subtractRange_ok [OF accept(5) _ assms(2)] ok(2) by (simp_all add: stream_core_def)
  have c: "stream_core (s1\<lparr> pending := rem \<rparr>)" "settled (s1\<lparr> pending := rem \<rparr>)"
    "length (missing (s1\<lparr> pending := rem \<rparr>)) \<le> maxMissingRanges"
    using n rem by (simp_all add: noted_def stream_core_def settled_def)
  note pr = prunePending_ok [OF c]
  have "length (arrivals (prunePending (s1\<lparr> pending := rem \<rparr>))) \<le> length (arrivals s0)"
    using shrinks_length [OF pr(8)] pr(1) by (simp add: stream_ok_def s1)
  with la assms(3) pr(5) show ?thesis by (simp add: accept(7) sized_def Let_def s1)
qed

lemma keeps_finish:
  assumes "stream_inv a D R S s" "rfirst gap \<le> rlast gap" "accepted \<Longrightarrow> {rfirst gap..rlast gap} \<subseteq> R"
  shows "keeps w a D R S s (snd (finish gen gap accepted s))"
  using finish_inv [OF assms] finish_sized [OF assms(1,2)] by (simp add: keeps_def)

lemma keeps_claim:
  assumes "keeps w a D R S s s'"
  shows "keeps w a D R S s (snd (claimGapLocked k gap s'))"
  using keeps_frame(3) [OF assms] by (simp add: claimGapLocked_def Let_def)

lemma keeps_reorder:
  assumes "stream_inv a D R S s" "mset as = mset (arrivals s)"
  shows "keeps w a D R S s (s\<lparr> arrivals := as \<rparr>)"
proof -
  have eq: "set as = set (arrivals s)" "length as = length (arrivals s)"
    using assms(2) by (metis set_mset_mset, metis size_mset)
  have d: "distinct (map fst (arrivals s))" using assms(1) by (simp add: stream_defs)
  have "mset (map fst as) = mset (map fst (arrivals s))" using assms(2) by simp
  then have d': "distinct (map fst as)" using d mset_eq_imp_distinct_iff by blast
  have "map_of as = map_of (arrivals s)" using map_of_inject_set [OF d' d] eq(1) by simp
  then have "arrival_refs q (s\<lparr> arrivals := as \<rparr>) = arrival_refs q s" for q by (simp add: arrival_refs_def)
  moreover have "stream_inv a D R S (s\<lparr> arrivals := as \<rparr>)"
    using assms(1) d' eq(1) by (simp add: stream_defs)
  ultimately show ?thesis using eq by (simp add: keeps_def sized_def guarded_def)
qed

subsection \<open>Every step keeps the invariant\<close>

lemma hist_stream: "hist_inv h \<Longrightarrow> map_of (streams (hTable h)) k = Some s \<Longrightarrow> stream_hist h k s"
  by (simp add: hist_inv_def)

lemma hist_stream_inv:
  "hist_inv h \<Longrightarrow> map_of (streams (hTable h)) k = Some s \<Longrightarrow>
     stream_inv (hAnchor h k) (hDurable h k) (hReported h k) (hSeen h k) s"
  using hist_stream by (simp add: stream_hist_def)

lemma hist_flight: "hist_inv h \<Longrightarrow> rb \<in> set (hInFlight h) \<Longrightarrow> flight_ok h rb"
  by (simp add: hist_inv_def)

lemma hist_put:
  assumes inv: "hist_inv h" and s: "map_of (streams (hTable h)) k = Some s"
    and kp: "keeps (window (hTable h)) (hAnchor h k) (hDurable h k) (hReported h k) (hSeen h k) s s'"
    and d: "table_ok d" "window d = window (hTable h)" "map_of (streams d) = (map_of (streams (hTable h)))(k \<mapsto> s')"
  shows "hist_inv (h\<lparr> hTable := d \<rparr>)"
proof (rule hist_update [OF inv d(1,2)])
  show "\<exists>s. map_of (streams (hTable h)) k' = Some s \<and>
      keeps (window d) (hAnchor h k') (hDurable h k') (hReported h k') (hSeen h k') s s''"
    if "map_of (streams d) k' = Some s''" for k' s''
    using that s kp d hist_stream_inv [OF inv, of k'] keeps_refl by (cases "k' = k") auto
qed (simp add: d(3))

lemma hist_claims:
  "hist_inv h \<Longrightarrow> (\<forall>p \<in> set cs. rfirst (pubGap p) \<le> rlast (pubGap p)) \<Longrightarrow> hist_inv (h\<lparr> hClaims := cs \<rparr>)"
  by (auto simp: hist_inv_def stream_hist_def flight_ok_def in_flight_def)

lemma hist_table_ok: "hist_inv h \<Longrightarrow> table_ok (hTable h)"
  by (simp add: hist_inv_def)

lemma put_tick:
  assumes "table_ok d" "map_of (streams d) k = Some s"
  shows "table_ok (put_stream k s' (tick d))" "table_ok (put_stream k s' d)"
  using table_ok_put [of "tick d" k s] table_ok_put [of d k s] assms by simp_all

lemma check_step:
  assumes inv: "hist_inv h" and r: "(r, b) \<in> set (hInFlight h)"
  shows "hist_inv (h\<lparr> hTable := snd (Check (resKey r) (resSeq r) (hTable h)) \<rparr>)"
proof -
  let ?k = "resKey r" and ?d = "hTable h" and ?u = "inc64 (clock (hTable h))"
  from hist_flight [OF inv r] obtain s where s: "map_of (streams ?d) ?k = Some s"
    and q: "resSeq r \<le> max64" "resSeq r \<in> hSeen h ?k" by (auto simp: flight_ok_def)
  note si = hist_stream_inv [OF inv s]
  have si': "stream_inv (hAnchor h ?k) (hDurable h ?k) (hReported h ?k) (hSeen h ?k) (s\<lparr> used := ?u \<rparr>)"
    using si by simp
  have "keeps (window ?d) (hAnchor h ?k) (hDurable h ?k) (hReported h ?k) (hSeen h ?k) s
      (snd (check (resSeq r) (s\<lparr> used := ?u \<rparr>)))"
    using keeps_trans [OF keeps_frame(1) [OF keeps_refl [OF si]] keeps_check [OF si' q(2,1)]] .
  moreover have "snd (Check ?k (resSeq r) ?d) =
      put_stream ?k (snd (check (resSeq r) (s\<lparr> used := ?u \<rparr>))) (put_stream ?k (s\<lparr> used := ?u \<rparr>) (tick ?d))"
    using s by (simp add: Check_def stream_def tick_def case_prod_beta Let_def)
  ultimately show ?thesis
    using table_ok_put [OF put_tick(1) [OF hist_table_ok [OF inv] s]]
    by (intro hist_put [OF inv s]) simp_all
qed

lemma commit_step:
  assumes inv: "hist_inv h" and r: "(r, b) \<in> set (hInFlight h)" and D: "resSeq r \<in> hDurable h (resKey r)"
  shows "hist_inv (h\<lparr> hTable := snd (Commit (resKey r) (resSeq r) (hTable h)) \<rparr>)"
    "\<exists>s. map_of (streams (snd (Commit (resKey r) (resSeq r) (hTable h)))) (resKey r) = Some s \<and>
         fst (fst (Commit (resKey r) (resSeq r) (hTable h))) = written s"
proof -
  let ?k = "resKey r" and ?d = "hTable h" and ?u = "inc64 (clock (hTable h))"
  from hist_flight [OF inv r] obtain s where s: "map_of (streams ?d) ?k = Some s"
    and q: "resSeq r \<le> max64" "resSeq r \<in> hSeen h ?k" by (auto simp: flight_ok_def)
  note si = hist_stream_inv [OF inv s]
  have si': "stream_inv (hAnchor h ?k) (hDurable h ?k) (hReported h ?k) (hSeen h ?k) (s\<lparr> used := ?u \<rparr>)"
    using si by simp
  let ?c = "commit (window ?d) (resSeq r) (s\<lparr> used := ?u \<rparr>)"
  have "keeps (window ?d) (hAnchor h ?k) (hDurable h ?k) (hReported h ?k) (hSeen h ?k) s (snd ?c)"
    using keeps_trans [OF keeps_frame(1) [OF keeps_refl [OF si]] keeps_commit [OF si' D q(2,1)]] .
  moreover have C: "Commit ?k (resSeq r) ?d =
      (fst ?c, put_stream ?k (snd ?c) (put_stream ?k (s\<lparr> used := ?u \<rparr>) (tick ?d)))"
    using s by (simp add: Commit_def stream_def tick_def case_prod_beta Let_def put_stream_def)
  ultimately show "hist_inv (h\<lparr> hTable := snd (Commit ?k (resSeq r) ?d) \<rparr>)"
    using table_ok_put [OF put_tick(1) [OF hist_table_ok [OF inv] s]]
    by (intro hist_put [OF inv s]) simp_all
  have "written (snd (trim w x)) = written x" for w x using trim_frame [of w x] by auto
  then have "fst (fst ?c) = written (snd ?c)"
    by (simp add: commit_def Let_def case_prod_beta)
  then show "\<exists>s. map_of (streams (snd (Commit ?k (resSeq r) ?d))) ?k = Some s \<and>
         fst (fst (Commit ?k (resSeq r) ?d)) = written s" by (simp add: C)
qed

lemma replay_step:
  assumes inv: "hist_inv h" and "f \<le> max64"
  shows "hist_inv (h\<lparr> hTable := snd (CheckReplay k f (hTable h)) \<rparr>)"
proof (cases "map_of (streams (hTable h)) k")
  case None
  then show ?thesis using inv by (simp add: CheckReplay_def)
next
  case (Some s)
  let ?u = "clock (tick (hTable h))"
  note si = hist_stream_inv [OF inv Some]
  have si': "stream_inv (hAnchor h k) (hDurable h k) (hReported h k) (hSeen h k) (s\<lparr> used := ?u \<rparr>)"
    using si by simp
  have kp: "keeps (window (hTable h)) (hAnchor h k) (hDurable h k) (hReported h k) (hSeen h k) s
      (snd (check_replay f (s\<lparr> used := ?u \<rparr>)))"
    using keeps_trans [OF keeps_frame(1) [OF keeps_refl [OF si]] keeps_replay [OF si' assms(2)]] .
  show ?thesis
    using put_tick(1) [OF hist_table_ok [OF inv] Some] Some
    by (intro hist_put [OF inv Some kp]) (simp_all add: CheckReplay_def case_prod_beta Let_def)
qed

lemma resume_step:
  assumes inv: "hist_inv h"
  shows "hist_inv (h\<lparr> hTable := snd (ResumeFrom k (hTable h)) \<rparr>)"
proof (cases "map_of (streams (hTable h)) k")
  case None
  then show ?thesis using inv by (simp add: ResumeFrom_def)
next
  case (Some s)
  note kp = keeps_frame(1) [OF keeps_refl [OF hist_stream_inv [OF inv Some]], of "window (hTable h)" "clock (tick (hTable h))"]
  show ?thesis
    using put_tick(1) [OF hist_table_ok [OF inv] Some] Some
    by (intro hist_put [OF inv Some kp]) (simp_all add: ResumeFrom_def Let_def)
qed

lemma claim_outcome_gap:
  "fst (claimGapLocked k gap s) = Claimed p \<Longrightarrow> pubGap p = gap"
  by (auto simp: claimGapLocked_def Let_def split: option.splits)

lemma claim_step:
  assumes inv: "hist_inv h" and le: "lo \<le> hi" and c: "claimGap k src lo hi v (hTable h) = (c, d)"
  shows "hist_inv (h\<lparr> hTable := d \<rparr>)" "\<And>p. c = Claimed p \<Longrightarrow> rfirst (pubGap p) \<le> rlast (pubGap p)"
proof -
  let ?d = "hTable h"
  have "hist_inv (h\<lparr> hTable := d \<rparr>) \<and> (\<forall>p. c = Claimed p \<longrightarrow> rfirst (pubGap p) \<le> rlast (pubGap p))"
  proof (cases "map_of (streams ?d) k")
    case None
    then show ?thesis using inv c by (auto simp: claimGap_def)
  next
    case (Some s)
    note ok = put_tick [OF hist_table_ok [OF inv] Some]
    note k0 = keeps_refl [OF hist_stream_inv [OF inv Some], of "window ?d"]
    define s1 where "s1 = (if gapSource s = None then s\<lparr> gapSource := Some src \<rparr> else s)"
    have k1: "keeps (window ?d) (hAnchor h k) (hDurable h k) (hReported h k) (hSeen h k) s s1"
      using k0 keeps_frame(2) [OF k0] by (simp add: s1_def)
    let ?l = "claimGapLocked k (SeqRange lo hi) (s1\<lparr> used := clock (tick ?d) \<rparr>)"
    let ?stale = "pending s = [] \<or> identity s \<noteq> gvStream v \<or> gapGeneration s \<noteq> gvGeneration v \<or> \<not> pendingContains lo hi s"
    let ?busy = "activeGapClaim s1 \<noteq> 0 \<or> \<not> canPublishGap lo hi s1"
    have eq: "(c, d) = (if ?stale then (NoClaim, ?d) else if ?busy then (NoClaim, put_stream k s1 ?d)
        else (fst ?l, put_stream k (snd ?l) (tick ?d)))"
      unfolding c [symmetric] claimGap_def Some option.case s1_def [symmetric] Let_def by (simp add: case_prod_beta)
    show ?thesis
    proof (cases ?stale)
      case True
      from eq [unfolded if_P [OF True]] inv show ?thesis by simp
    next
      case fresh: False
      note eq1 = eq [unfolded if_not_P [OF fresh]]
      show ?thesis
      proof (cases ?busy)
        case True
        from eq1 [unfolded if_P [OF True]] show ?thesis using hist_put [OF inv Some k1, of d] ok(2) by simp
      next
        case False
        from eq1 [unfolded if_not_P [OF False]] have 3: "c = fst ?l" "d = put_stream k (snd ?l) (tick ?d)" by simp_all
        have "keeps (window ?d) (hAnchor h k) (hDurable h k) (hReported h k) (hSeen h k) s (snd ?l)"
          by (rule keeps_claim [OF keeps_frame(1) [OF k1]])
        then have "hist_inv (h\<lparr> hTable := d \<rparr>)" unfolding 3(2) by (rule hist_put [OF inv Some]) (simp_all add: ok(1))
        moreover have "\<forall>p. c = Claimed p \<longrightarrow> rfirst (pubGap p) \<le> rlast (pubGap p)"
          using claim_outcome_gap [of k "SeqRange lo hi"] le unfolding 3(1) by auto
        ultimately show ?thesis by simp
      qed
    qed
  qed
  then show "hist_inv (h\<lparr> hTable := d \<rparr>)" "\<And>p. c = Claimed p \<Longrightarrow> rfirst (pubGap p) \<le> rlast (pubGap p)"
    by simp_all
qed

lemma publishable_loop_ok:
  "publishable_loop s ps = Some gap \<Longrightarrow> \<forall>p \<in> set ps. rfirst p \<le> rlast p \<Longrightarrow>
     rfirst gap \<le> rlast gap \<and> canPublishGap (rfirst gap) (rlast gap) s"
  by (induction ps) (auto split: option.splits if_splits dest!: safeGapPart_ok)

lemma nextPublishableGap_ok:
  assumes "nextPublishableGap s = (Some gap, s1)" "stream_inv a D R S s"
  shows "rfirst gap \<le> rlast gap" "s1 = excludeArrivals s"
proof -
  show s1: "s1 = excludeArrivals s" using assms(1) by (simp add: nextPublishableGap_def Let_def)
  have "\<forall>p \<in> set (pending s1). rfirst p \<le> rlast p"
    using excludeArrivals_inv [OF assms(2)] by (simp add: s1 stream_defs ranges_ok_def)
  moreover have "publishable_loop s1 (pending s1) = Some gap"
    using assms(1) s1 by (simp add: nextPublishableGap_def Let_def)
  ultimately show "rfirst gap \<le> rlast gap" using publishable_loop_ok by blast
qed

end
