(* ===== verification/Dedup_Reachable.thy ===== *)
theory Dedup_Reachable
  imports Dedup_Safety
begin

section \<open>Every reachable state of the deduplication table\<close>

text \<open>
  The remaining steps of \<open>dedup_step\<close> (the claims of the retry worker, the completion of a
  claim, arrivals, releases and the order of Go maps) keep the invariant, so it holds in every
  reachable state. The properties of the table follow from it.
\<close>

subsection \<open>The gap-retry worker\<close>

definition claim_ok :: "claim_outcome \<Rightarrow> bool" where
  "claim_ok c \<longleftrightarrow> (\<forall>p. c = Claimed p \<longrightarrow> rfirst (pubGap p) \<le> rlast (pubGap p))"

lemma claim_ok_simps [simp]:
  "claim_ok NoClaim" "claim_ok NilSource" "claim_ok (Claimed p) = (rfirst (pubGap p) \<le> rlast (pubGap p))"
  by (simp_all add: claim_ok_def)

lemma claim_ok_locked: "rfirst gap \<le> rlast gap \<Longrightarrow> claim_ok (fst (claimGapLocked k gap s))"
  using claim_outcome_gap [of k gap s] by (auto simp: claim_ok_def)

lemma take_next_step:
  assumes inv: "hist_inv h" and c: "takeNextPendingGap k (hTable h) = (c, d)"
  shows "hist_inv (h\<lparr> hTable := d \<rparr>) \<and> claim_ok c"
proof (cases "map_of (streams (hTable h)) k")
  case None
  then show ?thesis using inv c by (auto simp: takeNextPendingGap_def)
next
  case (Some s)
  let ?d = "hTable h"
  note si = hist_stream_inv [OF inv Some]
  note ok = put_tick [OF hist_table_ok [OF inv] Some]
  note k1 = keeps_excludeArrivals [OF si, of "window ?d"]
  let ?skip = "pending s = [] \<or> gapSource s = None \<or> activeGapClaim s \<noteq> 0"
  define s1 where "s1 = excludeArrivals s"
  define g where "g = publishable_loop s1 (pending s1)"
  let ?l = "\<lambda>gap. claimGapLocked k gap (s1\<lparr> used := clock (tick ?d) \<rparr>)"
  have n: "nextPublishableGap s = (g, s1)"
    unfolding nextPublishableGap_def s1_def [symmetric] g_def [symmetric] by (simp add: Let_def g_def)
  have eq: "(c, d) = (if ?skip then (NoClaim, ?d) else
      case g of None \<Rightarrow> (NoClaim, put_stream k s1 ?d)
      | Some gap \<Rightarrow> (fst (?l gap), put_stream k (snd (?l gap)) (tick ?d)))"
    unfolding c [symmetric] takeNextPendingGap_def Some option.case n Let_def prod.case
    by (cases g) (simp_all add: case_prod_beta)
  show ?thesis
  proof (cases ?skip)
    case True
    from eq [unfolded if_P [OF True]] inv show ?thesis by simp
  next
    case False
    note eq1 = eq [unfolded if_not_P [OF False]]
    show ?thesis
    proof (cases g)
      case None
      from eq1 [unfolded None option.case] show ?thesis
        using hist_put [OF inv Some k1, of d] ok(2) by (simp add: s1_def)
    next
      case g: (Some gap)
      from eq1 [unfolded g option.case] have 3: "c = fst (?l gap)" "d = put_stream k (snd (?l gap)) (tick ?d)"
        by simp_all
      have "keeps (window ?d) (hAnchor h k) (hDurable h k) (hReported h k) (hSeen h k) s (snd (?l gap))"
        by (rule keeps_claim [OF keeps_frame(1) [OF k1 [folded s1_def]]])
      then have "hist_inv (h\<lparr> hTable := d \<rparr>)" unfolding 3(2) by (rule hist_put [OF inv Some]) (simp_all add: ok(1))
      moreover have "rfirst gap \<le> rlast gap" using nextPublishableGap_ok(1) [OF n [unfolded g] si] .
      ultimately show ?thesis unfolding 3(1) using claim_ok_locked by blast
    qed
  qed
qed

lemma candidate_loop_best:
  assumes "candidate_loop ss best = (ss', Some (k, u, gap))"
  shows "best = Some (k, u, gap) \<or> (\<exists>s s1. (k, s) \<in> set ss \<and> nextPublishableGap s = (Some gap, s1) \<and> gapSource s \<noteq> None)"
  using assms
proof (induction ss best arbitrary: ss' rule: candidate_loop.induct)
  case (2 k' s rest best)
  show ?case
  proof (cases "pending s = [] \<or> gapSource s = None \<or> activeGapClaim s \<noteq> 0")
    case True
    with 2 show ?thesis by (auto split: prod.splits)
  next
    case False
    obtain g s1 where n: "nextPublishableGap s = (g, s1)" by (cases "nextPublishableGap s") auto
    define best1 where "best1 = (case g of None \<Rightarrow> best | Some gap \<Rightarrow>
      if (case best of None \<Rightarrow> True | Some (_, u, _) \<Rightarrow> used s1 < u) then Some (k', used s1, gap) else best)"
    have "candidate_loop ((k', s) # rest) best = ((k', s1) # fst (candidate_loop rest best1), snd (candidate_loop rest best1))"
      unfolding candidate_loop.simps(2) if_not_P [OF False] n prod.case Let_def best1_def by (simp add: case_prod_beta)
    then have "candidate_loop rest best1 = (fst (candidate_loop rest best1), Some (k, u, gap))"
      using 2(3) by (metis prod.collapse prod.inject)
    from 2(2) [OF False n [symmetric] refl best1_def this]
    have "best1 = Some (k, u, gap) \<or> (\<exists>s s1. (k, s) \<in> set rest \<and> nextPublishableGap s = (Some gap, s1) \<and> gapSource s \<noteq> None)" .
    then show ?thesis
    proof
      assume "best1 = Some (k, u, gap)"
      then have "best = Some (k, u, gap) \<or> k' = k \<and> g = Some gap"
        by (auto simp: best1_def split: option.splits if_splits)
      then show ?thesis using n False by auto
    qed auto
  qed
qed simp

lemma take_pending_step:
  assumes inv: "hist_inv h" and c: "takePendingGap (hTable h) = (c, d)"
  shows "hist_inv (h\<lparr> hTable := d \<rparr>) \<and> claim_ok c"
proof -
  let ?d = "hTable h"
  obtain ss best where l: "candidate_loop (streams ?d) None = (ss, best)"
    by (cases "candidate_loop (streams ?d) None") auto
  note m = candidate_loop_map [OF l]
  define d1 where "d1 = ?d\<lparr> streams := ss \<rparr>"
  have t: "table_ok d1" using hist_table_ok [OF inv] m(1)
    by (simp add: table_ok_def d1_def) (metis length_map)
  have 1: "hist_inv (h\<lparr> hTable := d1 \<rparr>)"
  proof (rule hist_update [OF inv t])
    show "\<exists>s. map_of (streams ?d) k = Some s \<and>
        keeps (window d1) (hAnchor h k) (hDurable h k) (hReported h k) (hSeen h k) s s'"
      if "map_of (streams d1) k = Some s'" for k s'
    proof -
      from that m(2) [of k] obtain s where s: "map_of (streams ?d) k = Some s" "s' = s \<or> s' = excludeArrivals s"
        by (auto simp: d1_def split: if_splits)
      then show ?thesis using keeps_refl keeps_excludeArrivals hist_stream_inv [OF inv s(1)] by blast
    qed
    show "\<exists>s'. map_of (streams d1) k = Some s'" if "map_of (streams ?d) k = Some s" for k s
      using that m(2) [of k] by (simp add: d1_def)
  qed (simp add: d1_def)
  show ?thesis
  proof (cases best)
    case None
    then have "c = NoClaim" "d = d1" using c by (simp_all add: takePendingGap_def l d1_def)
    then show ?thesis using 1 by simp
  next
    case (Some b)
    obtain k u gap where b: "b = (k, u, gap)" by (cases b)
    from candidate_loop_best [OF l [unfolded Some b]] obtain s0 s1 where
      s0: "(k, s0) \<in> set (streams ?d)" "nextPublishableGap s0 = (Some gap, s1)" by auto
    then have m0: "map_of (streams ?d) k = Some s0" using hist_table_ok [OF inv] by (simp add: table_ok_def)
    have gap: "rfirst gap \<le> rlast gap" using nextPublishableGap_ok(1) [OF s0(2) hist_stream_inv [OF inv m0]] .
    from m(2) [of k] m0 obtain s where s: "map_of ss k = Some s" by simp
    then have s': "map_of (streams (hTable (h\<lparr> hTable := d1 \<rparr>))) k = Some s" by (simp add: d1_def)
    let ?l = "claimGapLocked k gap (s\<lparr> used := clock (tick d1) \<rparr>)"
    have 2: "c = fst ?l" "d = put_stream k (snd ?l) (tick d1)"
      using c by (simp_all add: takePendingGap_def l Some b s d1_def [symmetric] case_prod_beta Let_def)
    note kp = keeps_claim [OF keeps_frame(1) [OF keeps_refl [OF hist_stream_inv [OF 1 s']]], of "window d1" k gap "clock (tick d1)"]
    have "hist_inv (h\<lparr> hTable := d1 \<rparr>\<lparr> hTable := d \<rparr>)"
      unfolding 2(2) using put_tick(1) [OF t] s' kp by (intro hist_put [OF 1 s', where s' = "snd ?l"]) simp_all
    then show ?thesis using claim_ok_locked [OF gap] 2(1) by simp
  qed
qed

lemma finish_step:
  assumes inv: "hist_inv h" and p: "i < length (hClaims h)" "hClaims h ! i = p"
  shows "hist_inv (h\<lparr> hTable := snd (finishGap p accepted (hTable h)),
        hReported := (if accepted
          then (hReported h)(pubKey p := hReported h (pubKey p) \<union> {rfirst (pubGap p)..rlast (pubGap p)})
          else hReported h),
        hClaims := drop_at i (hClaims h) \<rparr>)"
proof -
  define R where "R = (if accepted
          then (hReported h)(pubKey p := hReported h (pubKey p) \<union> {rfirst (pubGap p)..rlast (pubGap p)})
          else hReported h)"
  let ?h = "h\<lparr> hDurable := hDurable h, hReported := R, hSeen := hSeen h \<rparr>"
  let ?k = "pubKey p" and ?d = "hTable h"
  have ne: "rfirst (pubGap p) \<le> rlast (pubGap p)" using inv p by (auto simp: hist_inv_def)
  have 1: "hist_inv ?h" by (rule hist_mono [OF inv]) (simp_all add: R_def)
  have 2: "hist_inv (?h\<lparr> hTable := snd (finishGap p accepted ?d) \<rparr>)"
  proof (cases "map_of (streams ?d) ?k")
    case None
    then show ?thesis using 1 by (simp add: finishGap_def)
  next
    case (Some s)
    then have s: "map_of (streams (hTable ?h)) ?k = Some s" by simp
    note si = hist_stream_inv [OF 1 s]
    note ok = put_tick [OF hist_table_ok [OF inv] Some]
    have kf: "keeps w (hAnchor ?h ?k) (hDurable ?h ?k) (hReported ?h ?k) (hSeen ?h ?k) s
        (snd (finish (pubGeneration p) (pubGap p) accepted s))" for w
      by (rule keeps_finish [OF si ne]) (simp add: R_def)
    obtain f sf where f: "finish (pubGeneration p) (pubGap p) accepted s = (f, sf)"
      by (cases "finish (pubGeneration p) (pubGap p) accepted s") auto
    show ?thesis
    proof (cases "identity s \<noteq> pubStream p \<or> activeGapClaim s \<noteq> pubClaim p")
      case True
      then show ?thesis using 1 Some by (simp add: finishGap_def)
    next
      case False
      then have "snd (finishGap p accepted ?d) = (if f then put_stream ?k (sf\<lparr> used := clock (tick ?d) \<rparr>) (tick ?d) else put_stream ?k sf ?d)"
        using Some by (simp add: finishGap_def f Let_def)
      then show ?thesis using kf [unfolded f snd_conv] keeps_frame(1) [OF kf [unfolded f snd_conv]] ok
        by (intro hist_put [OF 1 s, where s' = "if f then sf\<lparr> used := clock (tick ?d) \<rparr> else sf"]) simp_all
    qed
  qed
  have "\<forall>p \<in> set (drop_at i (hClaims h)). rfirst (pubGap p) \<le> rlast (pubGap p)"
    using inv by (auto simp: hist_inv_def drop_at_def dest: in_set_takeD in_set_dropD)
  from hist_claims [OF 2 this] show ?thesis unfolding R_def [symmetric] by (cases h) simp
qed

lemma map_order_step:
  assumes inv: "hist_inv h" and r: "reordered (hTable h) d"
  shows "hist_inv (h\<lparr> hTable := d \<rparr>)"
proof -
  let ?d = "hTable h"
  from r obtain f ss where f: "\<And>s. mset (f s) = mset (arrivals s)" and ss: "mset ss = mset (streams ?d)"
    and d: "d = ?d\<lparr> streams := map (\<lambda>(k, s). (k, s\<lparr> arrivals := f s \<rparr>)) ss \<rparr>"
    unfolding reordered_def by blast
  have d0: "distinct (map fst (streams ?d))" using hist_table_ok [OF inv] by (simp add: table_ok_def)
  have "mset (map fst ss) = mset (map fst (streams ?d))" using ss by simp
  then have d1: "distinct (map fst ss)" using d0 mset_eq_imp_distinct_iff by blast
  have "set ss = set (streams ?d)" using ss by (metis set_mset_mset)
  then have m: "map_of ss = map_of (streams ?d)" using map_of_inject_set [OF d1 d0] by simp
  have m': "map_of (streams d) k = map_option (\<lambda>s. s\<lparr> arrivals := f s \<rparr>) (map_of (streams ?d) k)" for k
    unfolding m [symmetric] d by (simp add: map_of_map)
  have "map (fst \<circ> (\<lambda>(k, s). (k, s\<lparr> arrivals := f s \<rparr>))) ss = map fst ss" by (induction ss) auto
  moreover have "length ss = length (streams ?d)" using ss by (metis size_mset)
  ultimately have t: "table_ok d" using hist_table_ok [OF inv] d1 by (simp add: table_ok_def d del: map_eq_conv)
  show ?thesis
  proof (rule hist_update [OF inv t])
    show "\<exists>s. map_of (streams ?d) k = Some s \<and>
        keeps (window d) (hAnchor h k) (hDurable h k) (hReported h k) (hSeen h k) s s'"
      if "map_of (streams d) k = Some s'" for k s'
      using that m' [of k] keeps_reorder [OF hist_stream_inv [OF inv] f] by auto
  qed (simp_all add: m', simp add: d)
qed

subsection \<open>Arrivals and releases\<close>

text \<open>The frame rule for a step that also changes the reservations in flight of one stream.\<close>

lemma hist_flight_update:
  assumes inv: "hist_inv h" and d: "table_ok d" "window d = window (hTable h)"
    and h': "h' = h\<lparr> hAnchor := A, hTable := d, hInFlight := fl \<rparr>" "\<And>k'. k' \<noteq> k \<Longrightarrow> A k' = hAnchor h k'"
    and dom: "\<And>k' s'. k' \<noteq> k \<Longrightarrow> map_of (streams d) k' = Some s' \<Longrightarrow> map_of (streams (hTable h)) k' = Some s'"
    and dom2: "\<And>k' s. k' \<noteq> k \<Longrightarrow> map_of (streams (hTable h)) k' = Some s \<Longrightarrow> pinned s \<Longrightarrow> map_of (streams d) k' = Some s"
    and new: "map_of (streams d) k = Some s'" "stream_hist h' k s'"
    and fl: "\<And>q k'. k' \<noteq> k \<Longrightarrow> in_flight k' q h' = in_flight k' q h"
      "\<And>rb. rb \<in> set fl \<Longrightarrow> resKey (fst rb) \<noteq> k \<Longrightarrow> rb \<in> set (hInFlight h)"
      "\<And>rb. rb \<in> set fl \<Longrightarrow> resKey (fst rb) = k \<Longrightarrow> flight_ok h' rb"
  shows "hist_inv h'"
proof -
  have "stream_hist h' k' s''" if s'': "map_of (streams d) k' = Some s''" for k' s''
  proof (cases "k' = k")
    case True
    then show ?thesis using new s'' by simp
  next
    case False
    from hist_stream [OF inv dom [OF False s'']] show ?thesis
      using fl(1) [OF False] h'(2) [OF False] d(2) by (simp add: stream_hist_def h'(1))
  qed
  moreover have "flight_ok h' rb" if rb: "rb \<in> set fl" for rb
  proof (cases "resKey (fst rb) = k")
    case False
    note rb' = fl(2) [OF rb False]
    from hist_flight [OF inv rb'] obtain s where s: "map_of (streams (hTable h)) (resKey (fst rb)) = Some s"
      by (auto simp: flight_ok_def)
    have "0 < in_flight (resKey (fst rb)) (resSeq (fst rb)) h" using in_flight_pos [of "fst rb" "snd rb" h] rb' by simp
    then have "pinned s" using hist_stream [OF inv s] by (auto simp: stream_hist_def pinned_def arrival_refs_def)
    with hist_flight [OF inv rb'] dom2 [OF False s] s show ?thesis by (simp add: flight_ok_def h'(1))
  qed (rule fl(3) [OF rb])
  ultimately show ?thesis using inv d(1) by (simp add: hist_inv_def h'(1))
qed

lemma in_flight_drop:
  assumes "i < length (hInFlight h)" "hInFlight h ! i = (r, b)"
  shows "in_flight k q h = in_flight k q (h\<lparr> hTable := d, hInFlight := drop_at i (hInFlight h) \<rparr>) +
     (if resKey r = k \<and> resSeq r = q then 1 else 0)"
proof -
  have "hInFlight h = take i (hInFlight h) @ (r, b) # drop (Suc i) (hInFlight h)"
    using id_take_nth_drop [OF assms(1)] assms(2) by simp
  then have "in_flight k q h =
      length (filter (\<lambda>(r, _). resKey r = k \<and> resSeq r = q) (take i (hInFlight h) @ (r, b) # drop (Suc i) (hInFlight h)))"
    unfolding in_flight_def by simp
  then show ?thesis by (simp add: in_flight_def drop_at_def)
qed

lemma set_drop_at: "set (drop_at i xs) \<subseteq> set xs"
  by (auto simp: drop_at_def dest: in_set_takeD in_set_dropD)

lemma release_sized:
  assumes inv: "stream_inv a D R S s" "seq \<in> S" "arrival_refs seq s \<noteq> 0" "sized w s"
  shows "sized w (release seq s)"
proof -
  let ?s = "s\<lparr> arrivals := AList.update seq (arrival_refs seq s - 1) (arrivals s) \<rparr>"
  have "map_of (arrivals s) seq \<noteq> None" using assms(3) by (cases "map_of (arrivals s) seq") (simp_all add: arrival_refs_def)
  then have "seq \<in> fst ` set (arrivals s)" by (simp add: map_of_eq_None_iff)
  then have "sized w ?s"
    using assms(4) length_update_le [of seq "arrival_refs seq s - 1" "arrivals s"] by (simp add: sized_def)
  then show ?thesis
    using keeps_excludeArrivals [OF update_arrivals_inv [OF inv(1,2)], of w] by (simp add: release_def keeps_def)
qed

lemma release_step:
  assumes inv: "hist_inv h" and i: "i < length (hInFlight h)" "hInFlight h ! i = (r, b)"
  shows "hist_inv (h\<lparr> hTable := release_arrival r (hTable h), hInFlight := drop_at i (hInFlight h) \<rparr>)"
proof -
  let ?k = "resKey r" and ?q = "resSeq r" and ?d = "hTable h" and ?fl = "drop_at i (hInFlight h)"
  have r: "(r, b) \<in> set (hInFlight h)" using i by (metis nth_mem)
  from hist_flight [OF inv r] obtain s where s: "map_of (streams ?d) ?k = Some s" "identity s = resStream r"
    and q: "?q \<in> hSeen h ?k" by (auto simp: flight_ok_def)
  note sh = hist_stream [OF inv s(1)] and si = hist_stream_inv [OF inv s(1)]
  let ?d' = "release_arrival r ?d" and ?s = "release ?q s"
  let ?h = "h\<lparr> hTable := ?d', hInFlight := ?fl \<rparr>"
  note rel = release_inv [OF si q]
  have d': "?d' = put_stream ?k ?s ?d" using s by (simp add: release_arrival_def)
  have refs: "arrival_refs q s = int (in_flight ?k q h)" for q using sh by (simp add: stream_hist_def)
  have refs': "arrival_refs q ?s = int (in_flight ?k q ?h)" for q
    using in_flight_drop [OF i, of ?k q ?d'] by (simp add: rel(2) refs)
  have nz: "arrival_refs ?q s \<noteq> 0" using in_flight_pos [OF r] refs by simp
  show ?thesis
  proof (rule hist_flight_update [OF inv, where k = ?k and A = "hAnchor h" and s' = ?s])
    show "table_ok ?d'" unfolding d' by (rule put_tick(2) [OF hist_table_ok [OF inv] s(1)])
    show "stream_hist ?h ?k ?s"
      using rel(1) refs' release_sized [OF si q nz] sh by (simp add: stream_hist_def d')
    show "in_flight k' q ?h = in_flight k' q h" if "k' \<noteq> ?k" for q k'
      using in_flight_drop [OF i, of k' q ?d'] that by auto
    show "flight_ok ?h rb" if rb: "rb \<in> set ?fl" and k: "resKey (fst rb) = ?k" for rb
    proof -
      have "0 < in_flight (resKey (fst rb)) (resSeq (fst rb)) ?h"
        using in_flight_pos [of "fst rb" "snd rb" ?h] rb by simp
      then have "arrival_refs (resSeq (fst rb)) ?s \<noteq> 0" unfolding k refs' by simp
      note g = rel(3) [OF _ this]
      have "rb \<in> set (hInFlight h)" using rb set_drop_at [of i "hInFlight h"] by (rule rev_subsetD)
      from hist_flight [OF inv this] s(1) have
        f: "0 < resSeq (fst rb)" "resSeq (fst rb) \<le> max64" "resSeq (fst rb) \<in> hSeen h ?k"
          "identity s = resStream (fst rb)" "snd rb \<longrightarrow> guarded (hDurable h ?k) (resSeq (fst rb)) s"
        unfolding flight_ok_def k by simp_all
      have "map_of (streams ?d') ?k = Some ?s" by (simp add: d')
      with f g show ?thesis unfolding flight_ok_def by (simp add: k rel(4))
    qed
    show "rb \<in> set (hInFlight h)" if "rb \<in> set ?fl" for rb
      using that set_drop_at [of i "hInFlight h"] by (rule rev_subsetD)
    show "?h = h\<lparr> hAnchor := hAnchor h, hTable := ?d', hInFlight := ?fl \<rparr>" by simp
  qed (simp_all only: d' put_stream_simps fun_upd_apply refl if_True if_False)
qed

lemma reserve_sized:
  assumes "stream_inv a D R S s" "seq \<in> S" "seq \<le> max64" "sized w s"
  shows "sized w (snd (reserve w seq src s))"
proof (cases "map_of (arrivals s) seq = None \<and> length (arrivals s) \<ge> w")
  case True
  then show ?thesis using assms(4) by (simp add: reserve_def sized_def)
next
  case False
  let ?s1 = "s\<lparr> arrivals := AList.update seq (arrival_refs seq s + 1) (arrivals s) \<rparr>"
  have "map_of (arrivals s) seq = None \<longleftrightarrow> seq \<notin> fst ` set (arrivals s)" by (simp add: map_of_eq_None_iff)
  then have "sized w ?s1"
    using assms(4) False length_update_le [of seq "arrival_refs seq s + 1" "arrivals s"]
    by (auto simp: sized_def split: if_splits)
  then have "sized w (snd (check seq ?s1))"
    using keeps_check [OF update_arrivals_inv [OF assms(1,2)] assms(2,3), of w] by (simp add: keeps_def)
  moreover have "\<exists>g. snd (reserve w seq src s) = (snd (check seq ?s1))\<lparr> gapSource := g \<rparr>"
    unfolding reserve_def if_not_P [OF False] Let_def
    by (rule exI [of _ "if pending (snd (check seq ?s1)) \<noteq> [] \<and> gapSource (snd (check seq ?s1)) = None
          then Some src else gapSource (snd (check seq ?s1))"]) simp
  ultimately show ?thesis by (auto simp: sized_def)
qed

text \<open>A stream that gains a reservation, found or created.\<close>

lemma arrive_put:
  assumes inv: "hist_inv h" and d: "table_ok d" "window d = window (hTable h)" "map_of (streams d) k = Some s'"
    and dom: "\<And>k' s'. k' \<noteq> k \<Longrightarrow> map_of (streams d) k' = Some s' \<Longrightarrow> map_of (streams (hTable h)) k' = Some s'"
    and dom2: "\<And>k' s. k' \<noteq> k \<Longrightarrow> map_of (streams (hTable h)) k' = Some s \<Longrightarrow> pinned s \<Longrightarrow> map_of (streams d) k' = Some s"
    and A: "\<And>k'. k' \<noteq> k \<Longrightarrow> A k' = hAnchor h k'"
    and seq: "0 < seq" "seq \<le> max64" "seq \<in> hSeen h k"
    and s': "stream_inv (A k) (hDurable h k) (hReported h k) (hSeen h k) s'" "sized (window d) s'"
      "\<And>q. arrival_refs q s' = int (in_flight k q h) + (if q = seq then 1 else 0)"
      "b \<Longrightarrow> guarded (hDurable h k) seq s'"
    and old: "\<And>rb. rb \<in> set (hInFlight h) \<Longrightarrow> resKey (fst rb) = k \<Longrightarrow>
      identity s' = resStream (fst rb) \<and> (snd rb \<longrightarrow> guarded (hDurable h k) (resSeq (fst rb)) s')"
  shows "hist_inv (h\<lparr> hAnchor := A, hTable := d,
     hInFlight := (\<lparr> resKey = k, resStream = identity s', resSeq = seq \<rparr>, b) # hInFlight h \<rparr>)"
proof -
  let ?r = "\<lparr> resKey = k, resStream = identity s', resSeq = seq \<rparr>"
  let ?h = "h\<lparr> hAnchor := A, hTable := d, hInFlight := (?r, b) # hInFlight h \<rparr>"
  have fl: "in_flight k' q ?h = in_flight k' q h + (if k' = k \<and> q = seq then 1 else 0)" for k' q
    by (auto simp: in_flight_def)
  have sh: "stream_hist ?h k s'" using s'(1-3) fl [of k] by (simp add: stream_hist_def)
  have new: "flight_ok ?h (?r, b)" using seq s'(4) d(3) by (simp add: flight_ok_def)
  have flk: "flight_ok ?h rb" if "rb \<in> set ((?r, b) # hInFlight h)" "resKey (fst rb) = k" for rb
  proof (cases "rb = (?r, b)")
    case False
    with that(1) have rb: "rb \<in> set (hInFlight h)" by simp
    from hist_flight [OF inv this] have "0 < resSeq (fst rb)" "resSeq (fst rb) \<le> max64" "resSeq (fst rb) \<in> hSeen h k"
      unfolding flight_ok_def that(2) by simp_all
    with old [OF rb that(2)] d(3) show ?thesis unfolding flight_ok_def that(2) by simp
  qed (use new in simp)
  show ?thesis
    by (rule hist_flight_update [OF inv d(1,2) refl A dom dom2 d(3) sh _ _ flk]) (simp_all add: fl, auto)
qed

lemma reserve_found:
  assumes "map_of (streams d) k = Some s"
  shows "reserveArrival k seq src d =
    (let s0 = s\<lparr> used := inc64 (clock d) \<rparr>; r = reserve (window d) seq src s0 in
     (if fst r then Inr \<lparr> resKey = k, resStream = identity (snd r), resSeq = seq \<rparr> else Inl ArrivalLimit,
      put_stream k (snd r) (put_stream k s0 (tick d))))"
  using assms by (simp add: reserveArrival_def stream_def tick_def Let_def case_prod_beta)

lemma hist_seen:
  assumes "hist_inv h"
  shows "hist_inv (h\<lparr> hSeen := (hSeen h)(k := insert seq (hSeen h k)) \<rparr>)"
proof -
  have "hist_inv (h\<lparr> hDurable := hDurable h, hReported := hReported h, hSeen := (hSeen h)(k := insert seq (hSeen h k)) \<rparr>)"
    by (rule hist_mono [OF assms]) auto
  then show ?thesis by simp
qed

lemma arrive_found:
  assumes inv: "hist_inv h" and s: "map_of (streams (hTable h)) k = Some s"
    and c: "reserveArrival k seq src (hTable h) = (c, d)" and seq: "0 < seq" "seq \<le> max64" "seq \<in> hSeen h k"
  shows "c = Inr r \<Longrightarrow> hist_inv (h\<lparr> hTable := d, hInFlight := (r, open_seq k seq (hTable h)) # hInFlight h \<rparr>)"
    "c = Inl e \<Longrightarrow> hist_inv (h\<lparr> hTable := d \<rparr>)"
proof -
  let ?d = "hTable h" and ?s0 = "s\<lparr> used := inc64 (clock (hTable h)) \<rparr>"
  let ?r = "reserve (window ?d) seq src ?s0"
  note sh = hist_stream [OF inv s]
  have si: "stream_inv (hAnchor h k) (hDurable h k) (hReported h k) (hSeen h k) ?s0"
    using hist_stream_inv [OF inv s] by simp
  note rv = reserve_inv [OF si seq(3,2), where w = "window ?d" and src = src]
  have sz: "sized (window ?d) (snd ?r)"
    using reserve_sized [OF si seq(3,2)] sh by (simp add: stream_hist_def sized_def)
  have d: "d = put_stream k (snd ?r) (put_stream k ?s0 (tick ?d))"
    and c': "c = (if fst ?r then Inr \<lparr> resKey = k, resStream = identity (snd ?r), resSeq = seq \<rparr> else Inl ArrivalLimit)"
    using c reserve_found [OF s, of seq src] by (simp_all add: Let_def)
  have t: "table_ok d" unfolding d
    by (rule table_ok_put [OF put_tick(1) [OF hist_table_ok [OF inv] s]]) simp
  have m: "map_of (streams d) = (map_of (streams ?d))(k \<mapsto> snd ?r)" "window d = window ?d" by (simp_all add: d)
  have refs: "arrival_refs q s = int (in_flight k q h)" for q using sh by (simp add: stream_hist_def)
  {
    assume "c = Inr r"
    with c' have ok: "fst ?r" and r: "r = \<lparr> resKey = k, resStream = identity (snd ?r), resSeq = seq \<rparr>"
      by (simp_all split: if_splits)
    have g: "guarded (hDurable h k) seq (snd ?r)" if "open_seq k seq ?d"
      using that rv(6) [OF ok] rv(2,3) s by (simp add: guarded_def open_seq_def)
    have old: "identity (snd ?r) = resStream (fst rb) \<and> (snd rb \<longrightarrow> guarded (hDurable h k) (resSeq (fst rb)) (snd ?r))"
      if "rb \<in> set (hInFlight h)" "resKey (fst rb) = k" for rb
      using hist_flight [OF inv that(1)] rv(5) [of "resSeq (fst rb)"] rv(7) s
      unfolding flight_ok_def that(2) by simp
    have "hist_inv (h\<lparr> hAnchor := hAnchor h, hTable := d,
       hInFlight := (\<lparr> resKey = k, resStream = identity (snd ?r), resSeq = seq \<rparr>, open_seq k seq ?d) # hInFlight h \<rparr>)"
      by (rule arrive_put [where A = "hAnchor h", OF inv t m(2) _ _ _ _ seq rv(1) _ _ g old]) (simp_all add: m sz rv(4) ok refs)
    then show "hist_inv (h\<lparr> hTable := d, hInFlight := (r, open_seq k seq ?d) # hInFlight h \<rparr>)" by (simp add: r)
  }
  {
    assume "c = Inl e"
    with c' have ok: "\<not> fst ?r" by (simp split: if_splits)
    have "keeps (window ?d) (hAnchor h k) (hDurable h k) (hReported h k) (hSeen h k) s (snd ?r)"
      using rv sz ok by (simp add: keeps_def)
    then show "hist_inv (h\<lparr> hTable := d \<rparr>)" using t m by (intro hist_put [OF inv s]) simp_all
  }
qed

lemma reserve_new_sized:
  assumes "0 < w" "0 < seq"
  shows "sized w (snd (reserve w seq src (new_stream i c)))"
proof -
  have "reserve w seq src (new_stream i c) =
      (True, (new_stream i c)\<lparr> arrivals := [(seq, 1)], written := seq - 1, highest := seq \<rparr>)"
    using assms
    by (simp add: reserve_def new_stream_def check_def check_gap_def excludePending_def Let_def arrival_refs_def)
  then show ?thesis using assms(1) by (simp add: sized_def new_stream_def)
qed

lemma arrive_created:
  assumes inv: "hist_inv h" and None: "map_of (streams (hTable h)) k = None"
    and c: "reserveArrival k seq src (hTable h) = (c, d)" and seq: "0 < seq" "seq \<le> max64" "seq \<in> hSeen h k"
  shows "c = Inr r \<Longrightarrow> hist_inv (h\<lparr> hAnchor := (hAnchor h)(k := seq - 1), hTable := d, hInFlight := (r, True) # hInFlight h \<rparr>)"
    "c = Inl e \<Longrightarrow> hist_inv (h\<lparr> hTable := d \<rparr>)"
proof -
  let ?d = "hTable h" and ?u = "inc64 (clock (hTable h))"
  have t0: "table_ok ?d" by (rule hist_table_ok [OF inv])
  have no: "resKey (fst rb) \<noteq> k" if "rb \<in> set (hInFlight h)" for rb
    using hist_flight [OF inv that] None by (auto simp: flight_ok_def)
  then have fl0: "in_flight k q h = 0" for q by (force simp: in_flight_def filter_empty_conv)
  have "(\<forall>r. c = Inr r \<longrightarrow> hist_inv (h\<lparr> hAnchor := (hAnchor h)(k := seq - 1), hTable := d, hInFlight := (r, True) # hInFlight h \<rparr>)) \<and>
    (\<forall>e. c = Inl e \<longrightarrow> hist_inv (h\<lparr> hTable := d \<rparr>))"
    using t0
  proof (cases rule: stream_cases [of ?d k])
    case (found s)
    then show ?thesis using None by simp
  next
    case refused
    then have "c = Inl EvidenceLimit" "d = tick ?d" using c by (simp_all add: reserveArrival_def)
    moreover have "hist_inv (h\<lparr> hTable := tick ?d \<rparr>)"
      using inv by (intro hist_update [OF inv]) (auto simp: t0 intro: keeps_refl hist_stream_inv [OF inv])
    ultimately show ?thesis by simp
  next
    case (created i d1)
    let ?r = "reserve (window ?d) seq src (new_stream i ?u)"
    have w: "0 < window ?d" using t0 by (simp add: table_ok_def)
    note rn = reserve_new [OF w seq, where src = src and i = i and c = ?u]
    have c': "c = Inr \<lparr> resKey = k, resStream = identity (snd ?r), resSeq = seq \<rparr>"
      and d: "d = put_stream k (snd ?r) (put_stream k (new_stream i ?u) d1)"
      using c created(2,6) rn(1) by (simp_all add: reserveArrival_def case_prod_beta)
    have t: "table_ok d" unfolding d by (rule table_ok_put [OF created(5)]) simp
    have m: "map_of (streams d) = (map_of (streams d1))(k \<mapsto> snd ?r)" "window d = window ?d"
      using created(6) by (simp_all add: d)
    have sz: "sized (window d) (snd ?r)"
      unfolding m(2) by (rule reserve_new_sized [OF w seq(1)])
    have "hist_inv (h\<lparr> hAnchor := (hAnchor h)(k := seq - 1), hTable := d,
       hInFlight := (\<lparr> resKey = k, resStream = identity (snd ?r), resSeq = seq \<rparr>, True) # hInFlight h \<rparr>)"
    proof (rule arrive_put [OF inv t m(2) _ _ _ _ seq _ sz _ rn(4)])
      show "map_of (streams d) k = Some (snd ?r)" unfolding m by simp
      show "map_of (streams ?d) k' = Some s'" if "k' \<noteq> k" "map_of (streams d) k' = Some s'" for k' s'
        using created(3) that unfolding m by simp
      show "map_of (streams d) k' = Some s" if "k' \<noteq> k" "map_of (streams ?d) k' = Some s" "pinned s" for k' s
        using created(4) that unfolding m by simp
      show "stream_inv (((hAnchor h)(k := seq - 1)) k) (hDurable h k) (hReported h k) (hSeen h k) (snd ?r)"
        unfolding fun_upd_same by (rule rn(2))
      show "arrival_refs q (snd ?r) = int (in_flight k q h) + (if q = seq then 1 else 0)" for q
        unfolding fl0 rn(3) by simp
    qed (use no in auto)
    then show ?thesis by (simp add: c')
  qed
  then show "c = Inr r \<Longrightarrow> hist_inv (h\<lparr> hAnchor := (hAnchor h)(k := seq - 1), hTable := d, hInFlight := (r, True) # hInFlight h \<rparr>)"
    "c = Inl e \<Longrightarrow> hist_inv (h\<lparr> hTable := d \<rparr>)" by simp_all
qed

lemma arrive_step:
  assumes inv: "hist_inv h" and c: "reserveArrival k seq src (hTable h) = (c, d)" and seq: "0 < seq" "seq \<le> max64"
  shows "c = Inr r \<Longrightarrow>
      hist_inv ((note_seen k seq h)\<lparr> hTable := d, hInFlight := (r, open_seq k seq (hTable h)) # hInFlight h \<rparr>)"
    "c = Inl e \<Longrightarrow> hist_inv (h\<lparr> hTable := d, hSeen := (hSeen h)(k := insert seq (hSeen h k)) \<rparr>)"
proof -
  let ?h = "h\<lparr> hSeen := (hSeen h)(k := insert seq (hSeen h k)) \<rparr>"
  have inv': "hist_inv ?h" by (rule hist_seen [OF inv])
  have c': "reserveArrival k seq src (hTable ?h) = (c, d)" and seen: "seq \<in> hSeen ?h k" using c by simp_all
  have comm: "?h\<lparr> hTable := d \<rparr> = h\<lparr> hTable := d, hSeen := (hSeen h)(k := insert seq (hSeen h k)) \<rparr>"
    by (cases h) simp
  {
    assume r: "c = Inr r"
    show "hist_inv ((note_seen k seq h)\<lparr> hTable := d, hInFlight := (r, open_seq k seq (hTable h)) # hInFlight h \<rparr>)"
    proof (cases "map_of (streams (hTable h)) k")
      case None
      then have "map_of (streams (hTable ?h)) k = None" by simp
      from arrive_created(1) [OF inv' this c' seq seen r] None show ?thesis
        by (simp add: note_seen_def open_seq_def)
    next
      case (Some s)
      then have "map_of (streams (hTable ?h)) k = Some s" by simp
      from arrive_found(1) [OF inv' this c' seq seen r] Some show ?thesis by (simp add: note_seen_def)
    qed
  }
  {
    assume e: "c = Inl e"
    show "hist_inv (h\<lparr> hTable := d, hSeen := (hSeen h)(k := insert seq (hSeen h k)) \<rparr>)"
    proof (cases "map_of (streams (hTable h)) k")
      case None
      then have "map_of (streams (hTable ?h)) k = None" by simp
      from arrive_created(2) [OF inv' this c' seq seen e] show ?thesis unfolding comm .
    next
      case (Some s)
      then have "map_of (streams (hTable ?h)) k = Some s" by simp
      from arrive_found(2) [OF inv' this c' seq seen e] show ?thesis unfolding comm .
    qed
  }
qed

subsection \<open>The invariant of all reachable states\<close>

lemma claims_step:
  assumes "hist_inv h" "hist_inv (h\<lparr> hTable := d \<rparr>)" "claim_ok c"
  shows "hist_inv (h\<lparr> hTable := d, hClaims := (case c of Claimed p \<Rightarrow> [p] | _ \<Rightarrow> []) @ hClaims h \<rparr>)"
  using assms(1,3) by (intro hist_claims [OF assms(2)]) (auto simp: hist_inv_def split: claim_outcome.splits)

lemma dedup_step_inv: "dedup_step h h' \<Longrightarrow> hist_inv h \<Longrightarrow> hist_inv h'"
proof (induction rule: dedup_step.induct)
  case (sink_accepts r b h)
  let ?D = "(hDurable h)(resKey r := insert (resSeq r) (hDurable h (resKey r)))"
  have "hist_inv (h\<lparr> hDurable := ?D, hReported := hReported h, hSeen := hSeen h \<rparr>)"
    by (rule hist_mono [OF sink_accepts(2)]) auto
  then show ?case by simp
next
  case (claim lo hi k src v h c d)
  then have "claim_ok c" using claim_step(2) [OF claim(3,1,2)] by (auto simp: claim_ok_def)
  then show ?case using claim_step(1) [OF claim(3,1,2)] claims_step [OF claim(3)] by blast
next
  case (take_pending h c d)
  then show ?case using take_pending_step [OF take_pending(2,1)] claims_step by blast
next
  case (take_next k h c d)
  then show ?case using take_next_step [OF take_next(2,1)] claims_step by blast
qed (simp_all add: arrive_step check_step commit_step(1) release_step replay_step resume_step finish_step map_order_step)

inductive reachable :: "int \<Rightarrow> int \<Rightarrow> history \<Rightarrow> bool" for w m :: int where
  init: "reachable w m (history_init w m)"
| step: "reachable w m h \<Longrightarrow> dedup_step h h' \<Longrightarrow> reachable w m h'"

lemma reachable_inv: "reachable w m h \<Longrightarrow> hist_inv h"
  by (induction rule: reachable.induct) (simp_all add: hist_inv_init dedup_step_inv)

end
