(* ===== verification/Dedup_Guarantees.thy ===== *)
theory Dedup_Guarantees
  imports Dedup_Reachable
begin

section \<open>What the deduplication table guarantees\<close>

text \<open>
  The properties of the reachable states of theory \<^verbatim>\<open>Dedup_Reachable\<close>: what an acknowledgement
  covers, what happens to events in flight, that no gap is silent, that a claim never reads a
  missing source, and the memory bounds. A concrete run (one event received, accepted by the sink
  and committed) shows that the hypotheses can hold.
\<close>

subsection \<open>A concrete run\<close>

lemmas dedup_eval = tick_def inc64_def next_nonzero64_def max64_def put_stream_def Let_def new_stream_def
  newDedup_def minDedupWindow_def stream_def reserveArrival_def reserve_def check_def check_gap_def
  excludePending_def arrival_refs_def

definition demo_key :: streamKey where
  "demo_key = \<lparr> keyPeer = ''cid:3'', keyBoot = ''boot'' \<rparr>"

definition demo_source :: source where
  "demo_source = \<lparr> srcCID = 3, srcVM = ''vm'', srcHost = ''h'', srcUUID = ''u'', srcEnvironment = [],
     srcSecurityDomain = [], srcVLAN = [], srcLabels = [], srcKnown = True, srcReported = None \<rparr>"

definition demo_reservation :: arrivalReservation where
  "demo_reservation = \<lparr> resKey = demo_key, resStream = 1, resSeq = 1 \<rparr>"

definition demo_stream :: dedupStream where
  "demo_stream = (new_stream 1 1)\<lparr> arrivals := [(1, 1)], highest := 1 \<rparr>"

definition demo_table :: dedup where
  "demo_table = \<lparr> window = 64, maxStreams = 4, clock = 1, nextStream = 1, streams = [(demo_key, demo_stream)] \<rparr>"

definition demo_table' :: dedup where
  "demo_table' = demo_table\<lparr> clock := 2, streams := [(demo_key, demo_stream\<lparr> used := 2, written := 1 \<rparr>)] \<rparr>"

definition demo_run :: history where
  "demo_run = \<lparr> hTable = demo_table', hDurable = (\<lambda>_. {})(demo_key := {1}), hReported = (\<lambda>_. {}),
     hSeen = (\<lambda>_. {})(demo_key := {1}), hAnchor = (\<lambda>_. 0)(demo_key := 0),
     hInFlight = [(demo_reservation, True)], hClaims = [] \<rparr>"

lemma demo_arrive: "reserveArrival demo_key 1 demo_source (newDedup 64 4) = (Inr demo_reservation, demo_table)"
  by (simp add: dedup_eval demo_reservation_def demo_table_def demo_stream_def)

lemma demo_prune: "pending s = [] \<Longrightarrow> gapSource s = None \<Longrightarrow> arrivals s = [(n, 1)] \<Longrightarrow> prunePending s = s"
  by (simp add: prunePending_def excludeArrivals_def excludeArrival_def clearGapSourceIfDrained_def excludePending_def clip_ranges_def)

lemma demo_commit: "Commit demo_key 1 demo_table = ((1, 0), demo_table')"
proof -
  let ?s = "demo_stream\<lparr> used := 2 \<rparr>"
  have a: "absorb (?s\<lparr> ahead := [1] \<rparr>) = ?s\<lparr> written := 1 \<rparr>"
    by (simp add: absorb.simps takeMissing_def demo_stream_def new_stream_def inc64_def max64_def)
  have p: "prunePending (?s\<lparr> written := 1 \<rparr>) = ?s\<lparr> written := 1 \<rparr>"
    by (rule demo_prune [of _ 1]) (simp_all add: demo_stream_def new_stream_def)
  have "commit 64 1 ?s = ((1, 0), ?s\<lparr> written := 1 \<rparr>)"
    using a p by (simp add: commit_def trim_def demo_stream_def new_stream_def)
  then show ?thesis
    by (simp add: Commit_def stream_def tick_def put_stream_def demo_table_def demo_table'_def Let_def inc64_def max64_def
        numeral_2_eq_2)
qed

lemma demo_reachable: "reachable 64 4 demo_run"
proof -
  let ?h0 = "history_init 64 4"
  let ?h1 = "(note_seen demo_key 1 ?h0)\<lparr> hTable := demo_table, hInFlight := (demo_reservation, open_seq demo_key 1 (hTable ?h0)) # hInFlight ?h0 \<rparr>"
  let ?h2 = "?h1\<lparr> hDurable := (hDurable ?h1)(resKey demo_reservation := insert (resSeq demo_reservation) (hDurable ?h1 (resKey demo_reservation))) \<rparr>"
  let ?h3 = "?h2\<lparr> hTable := snd (Commit (resKey demo_reservation) (resSeq demo_reservation) (hTable ?h2)) \<rparr>"
  have o: "open_seq demo_key (Suc 0) (hTable ?h0)" by (simp add: open_seq_def history_init_def newDedup_def)
  have r: "resKey demo_reservation = demo_key" "resSeq demo_reservation = 1" by (simp_all add: demo_reservation_def)
  have 1: "reachable 64 4 ?h1"
    by (rule reachable.step [OF reachable.init arrive [where src = demo_source]])
      (simp_all add: history_init_def demo_arrive [simplified] max64_def)
  have 2: "reachable 64 4 ?h2" by (rule reachable.step [OF 1 sink_accepts [of _ True]]) (simp add: o)
  have 3: "reachable 64 4 ?h3"
    by (rule reachable.step [OF 2 commit_arrival [of demo_reservation True]]) (simp_all add: o)
  have "?h3 = demo_run"
    by (simp add: demo_run_def demo_commit [simplified] r note_seen_def open_seq_def history_init_def newDedup_def)
  with 3 show ?thesis by simp
qed

lemma demo_simps:
  "hTable demo_run = demo_table'" "hDurable demo_run demo_key = {1}" "hAnchor demo_run demo_key = 0"
  "hInFlight demo_run = [(demo_reservation, True)]" "resKey demo_reservation = demo_key" "resSeq demo_reservation = 1"
  "map_of (streams demo_table') demo_key = Some (demo_stream\<lparr> used := 2, written := 1 \<rparr>)"
  "fst (ResumeFrom demo_key demo_table') = 1"
  by (simp_all add: demo_run_def demo_reservation_def demo_table'_def ResumeFrom_def Let_def)

subsection \<open>Acknowledgements\<close>

lemma written_accounted:
  assumes "hist_inv h" "map_of (streams (hTable h)) k = Some s"
  shows "{hAnchor h k<..written s} \<subseteq> hDurable h k \<union> hReported h k"
  using hist_stream_inv [OF assms] by (simp add: stream_inv_def acct_def)

lemma resume_safe:
  assumes "hist_inv h"
  shows "{hAnchor h k<..fst (ResumeFrom k (hTable h))} \<subseteq> hDurable h k \<union> hReported h k"
  using written_accounted [OF assms, of k] by (cases "map_of (streams (hTable h)) k") (simp_all add: ResumeFrom_def Let_def)

lemma commit_safe:
  assumes inv: "hist_inv h" and r: "(r, b) \<in> set (hInFlight h)" "resSeq r \<in> hDurable h (resKey r)"
  shows "{hAnchor h (resKey r)<..fst (fst (Commit (resKey r) (resSeq r) (hTable h)))}
         \<subseteq> hDurable h (resKey r) \<union> hReported h (resKey r)"
proof -
  from commit_step(2) [OF inv r] obtain s where
    s: "map_of (streams (snd (Commit (resKey r) (resSeq r) (hTable h)))) (resKey r) = Some s"
      "fst (fst (Commit (resKey r) (resSeq r) (hTable h))) = written s" by blast
  from written_accounted [OF commit_step(1) [OF inv r], of "resKey r" s] s show ?thesis by simp
qed



text \<open>
  C3: An event in flight is never acknowledged unseen. An event that was still open when it was
  reserved (not yet acknowledged, not reported lost) is covered by the acknowledgement point only
  once a sink has accepted it, and no loss report that the table keeps names it.
\<close>

theorem in_flight_protected:
  assumes "reachable w m h" "(r, True) \<in> set (hInFlight h)"
  shows "(resSeq r \<le> fst (ResumeFrom (resKey r) (hTable h)) \<longrightarrow> resSeq r \<in> hDurable h (resKey r)) \<and>
    (\<forall>s. map_of (streams (hTable h)) (resKey r) = Some s \<longrightarrow> resSeq r \<notin> miss s)"
  using hist_flight [OF reachable_inv [OF assms(1)] assms(2)]
  by (auto simp: flight_ok_def guarded_def ResumeFrom_def Let_def)

theorem in_flight_protected_witness:
  "(demo_reservation, True) \<in> set (hInFlight demo_run) \<and>
   resSeq demo_reservation \<le> fst (ResumeFrom (resKey demo_reservation) (hTable demo_run)) \<and>
   resSeq demo_reservation \<in> hDurable demo_run (resKey demo_reservation)"
  using in_flight_protected [OF demo_reachable, of demo_reservation] by (simp add: demo_simps)

text \<open>
  C4: No gap is silent. Every sequence between the anchor of a stream and the highest sequence seen
  was accepted by a sink, is covered by an accepted loss report, was received (and may still be
  retried by the guest), or lies in a pending gap, which the retry worker reports.
\<close>

theorem no_silent_gap:
  assumes "reachable w m h" "map_of (streams (hTable h)) k = Some s" "hAnchor h k < n" "n \<le> highest s"
  shows "n \<in> hDurable h k \<union> hReported h k \<union> hSeen h k \<union> pend s"
proof -
  note si = hist_stream_inv [OF reachable_inv [OF assms(1)] assms(2)]
  then have "n \<in> covered s \<union> hSeen h k" by (simp add: stream_inv_def complete_def)
  then show ?thesis
    using si assms(3,4) by (auto simp: covered_def horizon_def stream_inv_def acct_def)
qed

theorem no_silent_gap_witness:
  "reachable 64 4 demo_run \<and>
   1 \<in> hDurable demo_run demo_key \<union> hReported demo_run demo_key \<union> hSeen demo_run demo_key \<union>
     pend (demo_stream\<lparr> used := 2, written := 1 \<rparr>)"
  using no_silent_gap [OF demo_reachable, of demo_key "demo_stream\<lparr> used := 2, written := 1 \<rparr>" 1]
  by (simp add: demo_simps demo_reachable demo_stream_def)

text \<open>
  C24: What is suppressed as a duplicate. When \<open>Check\<close> calls an event in flight a duplicate, the host
  has written it, has reported it lost, or its sequence is at or below the anchor of the stream.
\<close>

theorem duplicate_accounted:
  assumes "reachable w m h" "(r, b) \<in> set (hInFlight h)"
    "Duplicate (fst (Check (resKey r) (resSeq r) (hTable h)))"
  shows "resSeq r \<in> hDurable h (resKey r) \<or> resSeq r \<in> hReported h (resKey r) \<or> resSeq r \<le> hAnchor h (resKey r)"
proof -
  let ?k = "resKey r" and ?d = "hTable h"
  have inv: "hist_inv h" by (rule reachable_inv [OF assms(1)])
  from hist_flight [OF inv assms(2)] obtain s where s: "map_of (streams ?d) ?k = Some s"
    by (auto simp: flight_ok_def)
  let ?c = "check (resSeq r) (s\<lparr> used := inc64 (clock ?d) \<rparr>)"
  have C: "Check ?k (resSeq r) ?d =
      (fst ?c, put_stream ?k (snd ?c) (put_stream ?k (s\<lparr> used := inc64 (clock ?d) \<rparr>) (tick ?d)))"
    using s by (simp add: Check_def stream_def tick_def case_prod_beta Let_def)
  have dup: "resSeq r \<le> written (snd ?c) \<or> resSeq r \<in> set (ahead (snd ?c))"
    using check_Duplicate assms(3) by (simp add: C)
  have "map_of (streams (hTable (h\<lparr> hTable := snd (Check ?k (resSeq r) ?d) \<rparr>))) ?k = Some (snd ?c)"
    by (simp add: C)
  from hist_stream_inv [OF check_step [OF inv assms(2)] this]
  have "{hAnchor h ?k<..written (snd ?c)} \<subseteq> hDurable h ?k \<union> hReported h ?k" "set (ahead (snd ?c)) \<subseteq> hDurable h ?k"
    by (simp_all add: stream_inv_def acct_def)
  with dup show ?thesis by (cases "resSeq r \<le> hAnchor h ?k") (auto simp: subset_iff not_le)
qed

lemma demo_duplicate: "Duplicate (fst (Check demo_key 1 demo_table'))"
  by (simp add: demo_table'_def demo_table_def demo_stream_def Check_def dedup_eval)

theorem duplicate_accounted_witness:
  "Duplicate (fst (Check (resKey demo_reservation) (resSeq demo_reservation) (hTable demo_run))) \<and>
   (resSeq demo_reservation \<in> hDurable demo_run (resKey demo_reservation) \<or>
    resSeq demo_reservation \<in> hReported demo_run (resKey demo_reservation) \<or>
    resSeq demo_reservation \<le> hAnchor demo_run (resKey demo_reservation))"
  using duplicate_accounted [OF demo_reachable, of demo_reservation True] demo_duplicate
  by (simp add: demo_simps)


subsection \<open>Claims\<close>

definition sourced :: "dedupStream \<Rightarrow> bool" where
  "sourced s \<longleftrightarrow> pending s = [] \<or> gapSource s \<noteq> None"

lemma sourced_excludePending: "sourced s \<Longrightarrow> sourced (snd (excludePending q s))"
  by (cases "pending s")
    (auto simp: sourced_def excludePending_def clearGapSourceIfDrained_def split: exclude_outcome.splits)

lemma sourced_excludeArrival: "sourced s \<Longrightarrow> sourced (excludeArrival e s)"
  using sourced_excludePending [of s "fst e"] by (auto simp: excludeArrival_def sourced_def case_prod_beta Let_def)

lemma sourced_excludeArrivals: "sourced s \<Longrightarrow> sourced (excludeArrivals s)"
proof -
  assume "sourced s"
  then have "sourced (fold excludeArrival as s)" for as
    by (induction as arbitrary: s) (simp_all add: sourced_excludeArrival)
  then show ?thesis by (simp add: excludeArrivals_def)
qed

lemma claim_sourced: "gapSource s \<noteq> None \<Longrightarrow> fst (claimGapLocked k gap s) \<noteq> NilSource"
  by (auto simp: claimGapLocked_def Let_def)

lemma next_sourced:
  assumes "nextPublishableGap s = (Some gap, s1)" "gapSource s \<noteq> None"
  shows "gapSource s1 \<noteq> None"
proof -
  have s1: "s1 = excludeArrivals s" "publishable_loop s1 (pending s1) = Some gap"
    using assms(1) by (auto simp: nextPublishableGap_def Let_def)
  then have "pending s1 \<noteq> []" by (cases "pending s1") auto
  then show ?thesis using sourced_excludeArrivals [of s] assms(2) s1(1) by (auto simp: sourced_def)
qed

lemma claims_sourced:
  assumes "reachable w m h"
  shows "fst (claimGap k src lo hi v (hTable h)) \<noteq> NilSource \<and>
    fst (takePendingGap (hTable h)) \<noteq> NilSource \<and> fst (takeNextPendingGap k (hTable h)) \<noteq> NilSource"
proof (intro conjI)
  let ?d = "hTable h"
  have dist: "distinct (map fst (streams ?d))"
    using hist_table_ok [OF reachable_inv [OF assms]] by (simp add: table_ok_def)
  show "fst (claimGap k src lo hi v ?d) \<noteq> NilSource"
    using claim_sourced by (auto simp: claimGap_def case_prod_beta Let_def split: option.splits)
  show "fst (takeNextPendingGap k ?d) \<noteq> NilSource"
  proof (cases "map_of (streams ?d) k")
    case (Some s)
    obtain g s1 where n: "nextPublishableGap s = (g, s1)" by (cases "nextPublishableGap s") auto
    show ?thesis
    proof (cases "pending s = [] \<or> gapSource s = None \<or> activeGapClaim s \<noteq> 0")
      case False
      then have "gapSource s1 \<noteq> None" if "g = Some gap" for gap using next_sourced n that by blast
      with False Some show ?thesis
        by (cases g) (simp_all add: takeNextPendingGap_def n case_prod_beta Let_def claim_sourced)
    qed (simp add: takeNextPendingGap_def Some)
  qed (simp add: takeNextPendingGap_def)
  show "fst (takePendingGap ?d) \<noteq> NilSource"
  proof (cases "snd (candidate_loop (streams ?d) None)")
    case None
    then show ?thesis by (simp add: takePendingGap_def case_prod_beta Let_def)
  next
    case (Some b)
    obtain k u gap where b: "b = (k, u, gap)" by (cases b)
    define ss where "ss = fst (candidate_loop (streams ?d) None)"
    have l: "candidate_loop (streams ?d) None = (ss, Some (k, u, gap))"
      using Some b by (simp add: ss_def prod_eq_iff)
    from candidate_loop_best [OF l] obtain s0 s1 where
      s0: "(k, s0) \<in> set (streams ?d)" "nextPublishableGap s0 = (Some gap, s1)" "gapSource s0 \<noteq> None" by auto
    then have m0: "map_of (streams ?d) k = Some s0" using dist by simp
    have "s1 = excludeArrivals s0" using s0(2) by (simp add: nextPublishableGap_def Let_def)
    with next_sourced [OF s0(2,3)] s0(3) have "\<forall>s. map_of ss k = Some s \<longrightarrow> gapSource s \<noteq> None"
      using candidate_loop_map(2) [OF l, of k] m0 by (auto split: if_splits)
    then show ?thesis
      by (cases "map_of ss k") (simp_all add: takePendingGap_def l case_prod_beta Let_def claim_sourced)
  qed
qed

text \<open>
  C23: The dereference \<^verbatim>\<open>*stream.gapSource\<close> in \<open>claimGapLocked\<close> never meets a nil pointer, whichever of
  the three callers makes the claim.
\<close>

theorem claim_source_present:
  assumes "reachable w m h"
  shows "fst (claimGap k src lo hi v (hTable h)) \<noteq> NilSource \<and>
    fst (takePendingGap (hTable h)) \<noteq> NilSource \<and> fst (takeNextPendingGap k (hTable h)) \<noteq> NilSource"
  by (rule claims_sourced [OF assms])

theorem claim_source_present_witness:
  "reachable 64 4 demo_run \<and> fst (takePendingGap (hTable demo_run)) \<noteq> NilSource"
  using claim_source_present [OF demo_reachable] demo_reachable by blast


text \<open>Publishing a range \<open>canPublishGap\<close> admits never fails for want of room in the ledger.\<close>

lemma canPublish_noteMissing:
  assumes "canPublishGap lo hi s" "stream_core s" "lo \<le> hi" "hi \<le> max64"
  shows "fst (noteMissing lo hi s)"
proof (cases "hi \<le> written s")
  case False
  define f where "f = (if lo \<le> written s then inc64 (written s) else lo)"
  obtain kept f' l' where m: "merge_loop f hi (clip_ranges (written s) (missing s)) = (kept, f', l')"
    by (cases "merge_loop f hi (clip_ranges (written s) (missing s))") auto
  have inc: "inc64 (written s) = Suc (written s)" using False assms(4) by (simp add: inc64_eq)
  have fh: "f \<le> hi" "written s < f" using False inc assms(3) by (auto simp: f_def)
  have rok: "ranges_ok (missing s)" using assms(2) by (simp add: stream_core_def)
  note clip = clip_ranges_ok [OF rok, of "written s"]
  have "length kept < maxMissingRanges \<or> f' = inc64 (written s)"
  proof (cases "lo \<le> inc64 (written s)")
    case True
    then have "f = Suc (written s)" using inc by (auto simp: f_def)
    moreover have "written s < f'"
    proof (rule merge_loop_lower [OF m fh(2)], rule ballI)
      fix r assume r: "r \<in> set (clip_ranges (written s) (missing s))"
      then have "rfirst r \<in> ranges_set (clip_ranges (written s) (missing s))"
        using clip(1) by (auto simp: ranges_set_def ranges_ok_def)
      then show "written s < rfirst r" by (simp add: clip(2))
    qed
    ultimately show ?thesis using merge_loop_ok [OF m clip(1) fh(1) assms(4)] inc by simp
  next
    case no: False
    then have "f = lo" using inc by (simp add: f_def)
    have "count_loop (written s) lo hi (missing s) < maxMissingRanges"
      using assms(1,3) False no by (simp add: canPublishGap_def split: if_splits)
    then show ?thesis using count_loop_eq [OF rok fh(2,1) assms(4)] m \<open>f = lo\<close> by simp
  qed
  then show ?thesis
    using False assms(3) by (auto simp: noteMissing_def note_loop_eq f_def [symmetric] m Let_def)
qed (simp add: noteMissing_def)

lemma publish_cong:
  assumes "arrivals s' = arrivals s" "arrivalOverflow s' = arrivalOverflow s" "pending s' = pending s"
    "written s' = written s" "missing s' = missing s"
  shows "canPublishGap lo hi s' = canPublishGap lo hi s" "pendingContains lo hi s' = pendingContains lo hi s"
proof -
  have c: "coversArrival lo hi s' = coversArrival lo hi s" by (simp add: coversArrival_def assms)
  show "canPublishGap lo hi s' = canPublishGap lo hi s" by (simp only: canPublishGap_def c assms)
  show "pendingContains lo hi s' = pendingContains lo hi s" by (simp add: pendingContains_def assms)
qed

lemma finish_granted:
  assumes "canPublishGap (rfirst gap) (rlast gap) s" "pendingContains (rfirst gap) (rlast gap) s"
    "stream_core s" "rfirst gap \<le> rlast gap"
  shows "fst (finish (gapGeneration s) gap True s)"
proof -
  let ?s = "s\<lparr> activeGapClaim := 0 \<rparr>"
  have "rlast gap \<in> pend s"
    using contains_loop_subset assms(2,4) by (force simp: pendingContains_def)
  then have l: "rlast gap \<le> max64"
    using ranges_ok_bound [of "pending s" "rlast gap"] assms(3) by (simp add: stream_core_def)
  have 1: "canPublishGap (rfirst gap) (rlast gap) ?s" "stream_core ?s" "pendingContains (rfirst gap) (rlast gap) ?s"
    using assms(1-3) publish_cong [of ?s s] by (simp_all add: stream_core_def)
  note n = canPublish_noteMissing [OF 1(1,2) assms(4) l]
  have c: "\<not> coversArrival (rfirst gap) (rlast gap) ?s" "subtractRange (pending ?s) (rfirst gap) (rlast gap) \<noteq> None"
    using 1(1) by (auto simp: canPublishGap_def split: if_splits)
  then obtain rem where rem: "subtractRange (pending s) (rfirst gap) (rlast gap) = Some rem" by auto
  obtain s1 where s1: "noteMissing (rfirst gap) (rlast gap) ?s = (True, s1)"
    using n by (cases "noteMissing (rfirst gap) (rlast gap) ?s") auto
  show ?thesis unfolding finish_def Let_def using c(1) 1(3) by (simp add: rem s1)
qed

text \<open>
  C21: A granted claim can be completed. When \<open>claimGap\<close> hands out a publication, accepting it at once
  succeeds: the ledger has the room \<open>canPublishGap\<close> counted, and the claim, the stream and the
  generation match.
\<close>

theorem claim_completes:
  assumes "reachable w m h" "lo \<le> hi" "claimGap k src lo hi v (hTable h) = (Claimed p, d)"
  shows "fst (finishGap p True d)"
proof -
  let ?d = "hTable h"
  have inv: "hist_inv h" by (rule reachable_inv [OF assms(1)])
  obtain s where s: "map_of (streams ?d) k = Some s"
    using assms(3) by (cases "map_of (streams ?d) k") (auto simp: claimGap_def)
  define s1 where "s1 = (if gapSource s = None then s\<lparr> gapSource := Some src \<rparr> else s)"
  let ?l = "claimGapLocked k (SeqRange lo hi) (s1\<lparr> used := clock (tick ?d) \<rparr>)"
  let ?stale = "pending s = [] \<or> identity s \<noteq> gvStream v \<or> gapGeneration s \<noteq> gvGeneration v \<or> \<not> pendingContains lo hi s"
  let ?busy = "activeGapClaim s1 \<noteq> 0 \<or> \<not> canPublishGap lo hi s1"
  have eq: "(Claimed p, d) = (if ?stale then (NoClaim, ?d) else if ?busy then (NoClaim, put_stream k s1 ?d)
      else (fst ?l, put_stream k (snd ?l) (tick ?d)))"
    unfolding assms(3) [symmetric] claimGap_def s option.case s1_def [symmetric] Let_def by (simp add: case_prod_beta)
  have st: "\<not> ?stale" using eq by (cases ?stale) (simp_all only: if_P prod.inject claim_outcome.distinct, simp_all)
  have bs: "\<not> ?busy" using eq st by (cases ?busy) (simp_all only: if_P if_not_P prod.inject claim_outcome.distinct, simp_all)
  have pd: "Claimed p = fst ?l" "d = put_stream k (snd ?l) (tick ?d)"
    using eq st bs by (simp_all only: if_not_P prod.inject if_False)
  have fr: "pending s1 = pending s" "written s1 = written s" "missing s1 = missing s" "arrivals s1 = arrivals s"
    "highest s1 = highest s" "ahead s1 = ahead s" "gapGeneration s1 = gapGeneration s"
    "arrivalOverflow s1 = arrivalOverflow s" by (simp_all add: s1_def)
  have p: "pubKey p = k" "pubStream p = identity (snd ?l)" "pubGeneration p = gapGeneration (snd ?l)"
    "pubClaim p = activeGapClaim (snd ?l)" "pubGap p = SeqRange lo hi"
    using pd(1) by (auto simp: claimGapLocked_def Let_def split: option.splits)
  have core: "stream_core (snd ?l)"
    using hist_stream_inv [OF inv s] fr by (simp add: stream_inv_def stream_ok_def stream_core_def claimGapLocked_def Let_def)
  have "canPublishGap lo hi (snd ?l)" "pendingContains lo hi (snd ?l)"
    using st bs publish_cong [of "snd ?l" s1] publish_cong [of s1 s] fr by (simp_all add: claimGapLocked_def Let_def)
  then have "fst (finish (pubGeneration p) (pubGap p) True (snd ?l))"
    using finish_granted [of "SeqRange lo hi" "snd ?l"] core assms(2) p by simp
  then show ?thesis by (simp add: finishGap_def pd(2) p case_prod_beta Let_def)
qed


text \<open>The run continues: sequence 3 arrives, so sequence 2 is a pending gap.\<close>

definition gap_stream :: dedupStream where
  "gap_stream = demo_stream\<lparr> used := 3, written := 1, highest := 3, arrivals := [(1, 1), (3, 1)],
     pending := [SeqRange 2 2], gapGeneration := 1, gapSource := Some demo_source \<rparr>"

definition gap_table :: dedup where
  "gap_table = demo_table\<lparr> clock := 3, streams := [(demo_key, gap_stream)] \<rparr>"

definition gap_run :: history where
  "gap_run = (note_seen demo_key 3 demo_run)\<lparr> hTable := gap_table,
     hInFlight := (demo_reservation\<lparr> resSeq := 3 \<rparr>, open_seq demo_key 3 (hTable demo_run)) # hInFlight demo_run \<rparr>"

lemma gap_arrive: "reserveArrival demo_key 3 demo_source demo_table' = (Inr (demo_reservation\<lparr> resSeq := 3 \<rparr>), gap_table)"
  by (simp add: dedup_eval demo_table'_def demo_table_def demo_stream_def gap_table_def gap_stream_def demo_reservation_def
      queueMissing_def insert_range_def maxMissingRanges_def excludeArrivals_def excludeArrival_def)

lemma gap_reachable: "reachable 64 4 gap_run"
  unfolding gap_run_def
  by (rule reachable.step [OF demo_reachable arrive [where src = demo_source]])
    (simp_all add: demo_simps gap_arrive max64_def)


definition gap_claim :: gapPublication where
  "gap_claim = \<lparr> pubKey = demo_key, pubStream = 1, pubGeneration = 1, pubClaim = 1, pubSource = demo_source,
     pubGap = SeqRange 2 2 \<rparr>"

lemma gap_claimed:
  "claimGap demo_key demo_source 2 2 \<lparr> gvStream = 1, gvGeneration = 1 \<rparr> gap_table =
     (Claimed gap_claim, gap_table\<lparr> clock := 4,
        streams := [(demo_key, gap_stream\<lparr> used := 4, nextGapClaim := 1, activeGapClaim := 1 \<rparr>)] \<rparr>)"
  by (simp add: claimGap_def gap_table_def gap_stream_def demo_table_def demo_stream_def new_stream_def canPublishGap_def
      coversArrival_def subtractRange_def pendingContains_def claimGapLocked_def tick_def put_stream_def
      inc64_def next_nonzero64_def max64_def Let_def gap_claim_def maxMissingRanges_def)

theorem claim_completes_witness:
  "\<exists>d. claimGap demo_key demo_source 2 2 \<lparr> gvStream = 1, gvGeneration = 1 \<rparr> (hTable gap_run) = (Claimed gap_claim, d) \<and>
     fst (finishGap gap_claim True d)"
proof -
  have t: "hTable gap_run = gap_table" by (simp add: gap_run_def)
  from claim_completes [OF gap_reachable _ gap_claimed [folded t]] gap_claimed show ?thesis
    unfolding t by blast
qed

subsection \<open>Memory\<close>

lemma stream_limits: "window (snd (stream k d)) = window d \<and> maxStreams (snd (stream k d)) = maxStreams d"
  by (simp add: stream_def evictOldest_def tick_def Let_def split: option.split)

lemmas operation_limits = Check_def Commit_def CheckReplay_def ResumeFrom_def reserveArrival_def
  release_arrival_def claimGap_def takePendingGap_def takeNextPendingGap_def finishGap_def

lemma reserve_limits:
  "window (snd (reserveArrival k seq src d)) = window d \<and> maxStreams (snd (reserveArrival k seq src d)) = maxStreams d"
  using stream_limits [of k d] by (auto simp: reserveArrival_def case_prod_beta Let_def split: prod.split option.split)

lemma step_limits:
  "dedup_step h h' \<Longrightarrow> window (hTable h') = window (hTable h) \<and> maxStreams (hTable h') = maxStreams (hTable h)"
proof (induction rule: dedup_step.induct)
  case (arrive k seq src h r d)
  then show ?case using reserve_limits [of k seq src "hTable h"] by simp
next
  case (arrive_refused k seq src h e d)
  then show ?case using reserve_limits [of k seq src "hTable h"] by simp
next
  case (check_arrival r b h)
  then show ?case using stream_limits [of "resKey r" "hTable h"]
    by (simp add: Check_def case_prod_beta Let_def split: prod.split option.split)
next
  case (commit_arrival r b h)
  then show ?case using stream_limits [of "resKey r" "hTable h"]
    by (simp add: Commit_def case_prod_beta Let_def split: prod.split option.split)
next
  case (claim lo hi k src v h c d)
  then show ?case
    by (auto simp: claimGap_def case_prod_beta Let_def split: option.splits if_splits)
next
  case (take_pending h c d)
  then show ?case
    by (auto simp: takePendingGap_def case_prod_beta Let_def split: option.splits)
next
  case (take_next k h c d)
  then show ?case
    by (auto simp: takeNextPendingGap_def case_prod_beta Let_def split: option.splits if_splits)
next
  case (map_order h d)
  then show ?case by (auto simp: reordered_def)
qed (simp_all add: release_arrival_def CheckReplay_def ResumeFrom_def finishGap_def case_prod_beta Let_def split: option.split)

lemma reachable_limits:
  "reachable w m h \<Longrightarrow> window (hTable h) = nat (max w 64) \<and> maxStreams (hTable h) = nat (max m 1)"
  by (induction rule: reachable.induct)
    (auto simp: history_init_def newDedup_def minDedupWindow_def max_def dest!: step_limits)

text \<open>
  C22: Memory is bounded whatever the guests send. The table holds at most the configured number of
  streams (at least one); a stream holds at most 64 pending and 64 reported ranges, and at most the
  configured window (at least 64) of out-of-order sequences and of sequences in flight.
\<close>

theorem memory_bounded:
  assumes "reachable w m h"
  shows "length (streams (hTable h)) \<le> nat (max m 1) \<and>
    (\<forall>(k, s) \<in> set (streams (hTable h)). length (pending s) \<le> 64 \<and> length (missing s) \<le> 64 \<and>
       length (ahead s) \<le> nat (max w 64) \<and> length (arrivals s) \<le> nat (max w 64))"
proof -
  note lim = reachable_limits [OF assms]
  have inv: "hist_inv h" by (rule reachable_inv [OF assms])
  have t: "table_ok (hTable h)" by (rule hist_table_ok [OF inv])
  have "length (pending s) \<le> 64 \<and> length (missing s) \<le> 64 \<and>
       length (ahead s) \<le> nat (max w 64) \<and> length (arrivals s) \<le> nat (max w 64)"
    if "(k, s) \<in> set (streams (hTable h))" for k s
  proof -
    have "map_of (streams (hTable h)) k = Some s" using that t by (simp add: table_ok_def)
    from hist_stream [OF inv this] lim show ?thesis
      by (simp add: stream_hist_def stream_inv_def stream_ok_def stream_core_def sized_def maxMissingRanges_def)
  qed
  then show ?thesis using t lim by (auto simp: table_ok_def)
qed

theorem memory_bounded_witness:
  "reachable 64 4 gap_run \<and> length (streams (hTable gap_run)) \<le> nat (max 4 1)"
  using memory_bounded [OF gap_reachable] gap_reachable by blast

subsection \<open>Late arrivals\<close>

text \<open>
  A sequence below the first one received is suppressed as a duplicate although no sink ever
  accepted it and no report names it: sequence 5 anchors the stream at 4, then 3 arrives.
\<close>

definition late_table :: "nat \<Rightarrow> (nat \<times> int) list \<Rightarrow> dedup" where
  "late_table n as = \<lparr> window = 64, maxStreams = 4, clock = n, nextStream = 1,
     streams = [(demo_key, (new_stream 1 n)\<lparr> arrivals := as, written := 4, highest := 5 \<rparr>)] \<rparr>"

lemma late_first: "reserveArrival demo_key 5 demo_source (newDedup 64 4) =
    (Inr (demo_reservation\<lparr> resSeq := 5 \<rparr>), late_table 1 [(5, 1)])"
  by (simp add: dedup_eval demo_reservation_def late_table_def)

lemma late_second: "reserveArrival demo_key 3 demo_source (late_table 1 [(5, 1)]) =
    (Inr (demo_reservation\<lparr> resSeq := 3 \<rparr>), late_table 2 [(5, 1), (3, 1)])"
  by (simp add: dedup_eval demo_reservation_def late_table_def)

lemma late_duplicate: "Duplicate (fst (Check demo_key 3 (late_table 2 [(5, 1), (3, 1)])))"
  by (simp add: Check_def dedup_eval late_table_def)

text \<open>
  C25: An event may be suppressed as a duplicate that was never written. There is a reachable state
  with an event in flight that \<open>Check\<close> calls a duplicate although no sink accepted it and no loss
  report names it: its sequence is below the first one received of its stream.
\<close>

theorem late_arrival_suppressed:
  "\<exists>h r b. reachable 64 4 h \<and> (r, b) \<in> set (hInFlight h) \<and>
     Duplicate (fst (Check (resKey r) (resSeq r) (hTable h))) \<and>
     resSeq r \<notin> hDurable h (resKey r) \<union> hReported h (resKey r)"
proof -
  let ?h0 = "history_init 64 4"
  let ?r5 = "demo_reservation\<lparr> resSeq := 5 \<rparr>" and ?r3 = "demo_reservation\<lparr> resSeq := 3 \<rparr>"
  let ?h1 = "(note_seen demo_key 5 ?h0)\<lparr> hTable := late_table 1 [(5, 1)],
    hInFlight := (?r5, open_seq demo_key 5 (hTable ?h0)) # hInFlight ?h0 \<rparr>"
  let ?h2 = "(note_seen demo_key 3 ?h1)\<lparr> hTable := late_table 2 [(5, 1), (3, 1)],
    hInFlight := (?r3, open_seq demo_key 3 (hTable ?h1)) # hInFlight ?h1 \<rparr>"
  have 1: "reachable 64 4 ?h1"
    by (rule reachable.step [OF reachable.init arrive [where src = demo_source]])
      (simp_all add: history_init_def late_first max64_def)
  have 2: "reachable 64 4 ?h2"
    by (rule reachable.step [OF 1 arrive [where src = demo_source]]) (simp_all add: late_second [simplified] max64_def)
  have "hDurable ?h2 = (\<lambda>_. {})" "hReported ?h2 = (\<lambda>_. {})" by (simp_all add: note_seen_def history_init_def)
  with 2 late_duplicate show ?thesis
    by (intro exI [of _ ?h2] exI [of _ ?r3] exI [of _ "open_seq demo_key 3 (hTable ?h1)"])
      (simp add: demo_reservation_def)
qed

end
