(* ===== verification/Host_Session.thy ===== *)
theory Host_Session
  imports Host_Server Host_Monitor Dedup_Guarantees
begin

section \<open>A guest session\<close>

text \<open>
  \<^verbatim>\<open>SauronAgent/internal/host/session.go\<close>, and \<open>publishGap\<close> and \<open>retryPendingGaps\<close> of the server: what
  the collector does with the frames of one guest connection. A handler is a function on the session
  and on the collector's shared state. What the handlers ask of the world is an argument \<open>w\<close>: the
  readings of the clock, the outcome of every sink write, of every send to the guest, of every wait
  for an output gate and of every look at a context; the n-th question gets the n-th answer, counted
  by \<open>cTick\<close>. The JSON codec is the argument \<open>j\<close>, used through \<open>DecodePayload\<close> of theory \<^verbatim>\<open>Frame\<close>.

  The log \<open>cLog\<close> collects the writes to the sink with their outcome. An entry is tagged with what it
  is evidence of: the event of a stream, the report of a gap, or neither. Log lines are dropped.
\<close>

record codec =
  jHello :: "bytes \<Rightarrow> (Hello \<times> bytes) option"
  jEvent :: "bytes \<Rightarrow> (EventMessage \<times> bytes) option"
  jPing :: "bytes \<Rightarrow> (Ping \<times> bytes) option"
  jShutdown :: "bytes \<Rightarrow> (Shutdown \<times> bytes) option"
  jError :: "bytes \<Rightarrow> (ErrorMessage \<times> bytes) option"

record world =
  wClock :: "nat \<Rightarrow> int"
  wSink :: "nat \<Rightarrow> envelope \<Rightarrow> string option"
  wSend :: "nat \<Rightarrow> bool"
  wGate :: "nat \<Rightarrow> bool"
  wCancelled :: "nat \<Rightarrow> bool"

datatype log_tag = EventOf streamKey | GapOf gapPublication | Internal

record collector =
  cDedup :: dedup
  cMonitor :: monitor
  cLog :: "(log_tag \<times> envelope \<times> bool) list"
  cTick :: nat
  cPanicked :: bool
  cFramesReceived :: nat
  cFrameErrors :: nat
  cEventsReceived :: nat
  cEventsDuplicate :: nat
  cEventsOutput :: nat
  cOutputErrors :: nat

datatype host_message = ReadyMsg Ready | AckMsg Ack | PongMsg Pong | ErrorMsg ErrorMessage | ShutdownMsg Shutdown

record session =
  sPeer :: peer
  sId :: string
  sSrc :: source
  sKey :: streamKey
  sAckInterval :: int
  sViolationCode :: "ErrorCode option"
  sEndReason :: string
  sAckPoint :: nat
  sAcked :: nat
  sPending :: int
  sSignal :: bool
  sSent :: "host_message list"

subsection \<open>Asking the world\<close>

definition tick_world :: "collector \<Rightarrow> collector" where
  "tick_world c = c\<lparr> cTick := Suc (cTick c) \<rparr>"

definition now :: "world \<Rightarrow> collector \<Rightarrow> int \<times> collector" where
  "now w c = (wClock w (cTick c), tick_world c)"

text \<open>The result is the text of the error, \<open>None\<close> when every sink accepted the event.\<close>

definition sink_write :: "world \<Rightarrow> log_tag \<Rightarrow> envelope \<Rightarrow> collector \<Rightarrow> string option \<times> collector" where
  "sink_write w tag env c =
     (let err = wSink w (cTick c) env in (err, (tick_world c)\<lparr> cLog := cLog c @ [(tag, env, err = None)] \<rparr>))"

definition send :: "world \<Rightarrow> host_message \<Rightarrow> session \<Rightarrow> collector \<Rightarrow> bool \<times> session \<times> collector" where
  "send w msg s c = (wSend w (cTick c), s\<lparr> sSent := sSent s @ [msg] \<rparr>, tick_world c)"

text \<open>\<open>reporter.publish\<close>; the callback \<^verbatim>\<open>onEvent\<close> observes and has no effect on the collector.\<close>

definition publish :: "world \<Rightarrow> log_tag \<Rightarrow> source \<Rightarrow> event \<Rightarrow> collector \<Rightarrow> string option \<times> collector" where
  "publish w tag src ev c = (let (t, c1) = now w c in sink_write w tag (envelopeFor t src ev) c1)"

subsection \<open>Gap reports\<close>

definition typeStreamGap :: string where "typeStreamGap = ''sauron.stream.gap''"
definition typeOutputFailed :: string where "typeOutputFailed = ''sauron.output.failed''"

definition gap_event :: "int \<Rightarrow> gapPublication \<Rightarrow> string \<Rightarrow> event" where
  "gap_event t p reason =
     (let lo = rfirst (pubGap p); hi = rlast (pubGap p) in
      NewInternal t typeStreamGap SeverityCritical
        [(''first_missing_sequence'', FUint lo), (''last_missing_sequence'', FUint hi),
         (''events_missing'', FUint ((hi + (max64 + 1) - lo + 1) mod (max64 + 1))),
         (''boot_id'', FStr (keyBoot (pubKey p))), (''reason'', FStr reason)])"

definition publishGap :: "world \<Rightarrow> gapPublication \<Rightarrow> string \<Rightarrow> collector \<Rightarrow> bool \<times> collector" where
  "publishGap w p reason c =
     (let (t, c1) = now w c;
          (err, c2) = publish w (GapOf p) (pubSource p) (gap_event t p reason) c1;
          (accounted, d) = finishGap p (err = None) (cDedup c2);
          c3 = c2\<lparr> cDedup := d \<rparr>
      in if err \<noteq> None then (False, c3\<lparr> cOutputErrors := cOutputErrors c3 + 1 \<rparr>) else (accounted, c3))"

text \<open>A nil source would panic; it is shown not to happen (\<open>claim_source_present\<close>).\<close>

definition reportGap :: "world \<Rightarrow> nat \<Rightarrow> nat \<Rightarrow> gapVersion \<Rightarrow> string \<Rightarrow> session \<Rightarrow> collector \<Rightarrow> collector" where
  "reportGap w lo hi version reason s c =
     (case claimGap (sKey s) (sSrc s) lo hi version (cDedup c) of
        (Claimed p, d) \<Rightarrow> snd (publishGap w p reason (c\<lparr> cDedup := d \<rparr>))
      | (NoClaim, d) \<Rightarrow> c\<lparr> cDedup := d \<rparr>
      | (NilSource, d) \<Rightarrow> c\<lparr> cDedup := d, cPanicked := True \<rparr>)"

fun retry_loop :: "world \<Rightarrow> nat \<Rightarrow> streamKey \<Rightarrow> gapPublication \<Rightarrow> collector \<Rightarrow> collector" where
  "retry_loop w 0 key p c = c\<lparr> cDedup := snd (finishGap p False (cDedup c)) \<rparr>"
| "retry_loop w (Suc n) key p c =
     (if wCancelled w (cTick c)
      then (tick_world c)\<lparr> cDedup := snd (finishGap p False (cDedup c)) \<rparr>
      else
        let (ok, c1) = publishGap w p ''retrying retained gap evidence'' (tick_world c) in
        if \<not> ok then c1
        else case takeNextPendingGap key (cDedup c1) of
          (Claimed p', d) \<Rightarrow> retry_loop w n key p' (c1\<lparr> cDedup := d \<rparr>)
        | (NoClaim, d) \<Rightarrow> c1\<lparr> cDedup := d \<rparr>
        | (NilSource, d) \<Rightarrow> c1\<lparr> cDedup := d, cPanicked := True \<rparr>)"

definition retryPendingGaps :: "world \<Rightarrow> collector \<Rightarrow> collector" where
  "retryPendingGaps w c =
     (case takePendingGap (cDedup c) of
        (Claimed p, d) \<Rightarrow> retry_loop w maxMissingRanges (pubKey p) p (c\<lparr> cDedup := d \<rparr>)
      | (NoClaim, d) \<Rightarrow> c\<lparr> cDedup := d \<rparr>
      | (NilSource, d) \<Rightarrow> c\<lparr> cDedup := d, cPanicked := True \<rparr>)"

subsection \<open>Acknowledgements\<close>

definition advanceAck :: "nat \<Rightarrow> session \<Rightarrow> session" where
  "advanceAck point s =
     (let s1 = s\<lparr> sAckPoint := (if point > sAckPoint s then point else sAckPoint s), sPending := sPending s + 1 \<rparr> in
      if sPending s1 \<ge> sAckInterval s1 \<and> sAckPoint s1 > sAcked s1 then s1\<lparr> sSignal := True \<rparr> else s1)"

definition flushAck :: "world \<Rightarrow> session \<Rightarrow> collector \<Rightarrow> bool \<times> session \<times> collector" where
  "flushAck w s c =
     (if sAckPoint s \<le> sAcked s then (True, s, c)
      else send w (AckMsg \<lparr> ackSequence = sAckPoint s \<rparr>) (s\<lparr> sAcked := sAckPoint s, sPending := 0 \<rparr>) c)"

text \<open>One wake-up of \<open>ackLoop\<close>: the signal is consumed and what moved is acknowledged.\<close>

definition ack_wake :: "world \<Rightarrow> session \<Rightarrow> collector \<Rightarrow> bool \<times> session \<times> collector" where
  "ack_wake w s c = flushAck w (s\<lparr> sSignal := False \<rparr>) c"

definition drain :: "world \<Rightarrow> session \<Rightarrow> collector \<Rightarrow> session \<times> collector" where
  "drain w s c =
     (let (_, s1, c1) = flushAck w s c;
          (_, s2, c2) = send w (ShutdownMsg \<lparr> sdReason = ''collector shutting down'', sdLastSequence = 0 \<rparr>) s1 c1
      in (s2, c2))"

subsection \<open>Errors of a session\<close>

text \<open>
  \<open>SendFailed\<close> is a failure of the transport: the messages a session sends are far below the frame limit.
\<close>

datatype violation_reason =
    FirstFrameNotHello byte | BadHello proto_error | UnsupportedVersion nat
  | BadEvent proto_error | NoEventObject | SequenceZero | SequenceMismatch nat nat
  | BadPing proto_error | BadShutdown proto_error | BadErrorMessage proto_error | NotAGuestMessage byte

datatype session_error =
    Violated violation_reason | ReceiveFailed proto_error | NotReserved reserve_error
  | IdentityAvailable | GateTimeout | EvidenceLimitReached | SendFailed

fun violation_code :: "violation_reason \<Rightarrow> ErrorCode" where
  "violation_code (FirstFrameNotHello _) = ErrCodeUnexpectedType"
| "violation_code (BadHello _) = ErrCodeBadPayload"
| "violation_code (UnsupportedVersion _) = ErrCodeBadPayload"
| "violation_code (BadEvent _) = ErrCodeBadPayload"
| "violation_code NoEventObject = ErrCodeBadPayload"
| "violation_code SequenceZero = ErrCodeBadSequence"
| "violation_code (SequenceMismatch _ _) = ErrCodeBadSequence"
| "violation_code (BadPing _) = ErrCodeBadPayload"
| "violation_code (BadShutdown _) = ErrCodeBadPayload"
| "violation_code (BadErrorMessage _) = ErrCodeBadPayload"
| "violation_code (NotAGuestMessage _) = ErrCodeUnexpectedType"

text \<open>\<open>errText\<close> renders a decoding error.\<close>

fun violation_text :: "(proto_error \<Rightarrow> string) \<Rightarrow> violation_reason \<Rightarrow> string" where
  "violation_text errText (FirstFrameNotHello t) = ''first frame was '' @ MessageType_String t @ '', expected HELLO''"
| "violation_text errText (BadHello e) = ''decoding HELLO: '' @ errText e"
| "violation_text errText (UnsupportedVersion v) =
     ''protocol_version '' @ dec_text v @ '' is not supported, this collector speaks '' @ dec_text (unat Frame.Version)"
| "violation_text errText (BadEvent e) = ''decoding EVENT: '' @ errText e"
| "violation_text errText NoEventObject = ''EVENT carried no event object''"
| "violation_text errText SequenceZero = ''sequence 0 is reserved and is never assigned to an event''"
| "violation_text errText (SequenceMismatch a b) =
     ''event sequence '' @ dec_text a @ '' does not match frame sequence '' @ dec_text b"
| "violation_text errText (BadPing e) = ''decoding PING: '' @ errText e"
| "violation_text errText (BadShutdown e) = ''decoding SHUTDOWN: '' @ errText e"
| "violation_text errText (BadErrorMessage e) = ''decoding ERROR: '' @ errText e"
| "violation_text errText (NotAGuestMessage t) = MessageType_String t @ '' is not a message a guest may send''"

definition violation :: "world \<Rightarrow> (proto_error \<Rightarrow> string) \<Rightarrow> violation_reason \<Rightarrow> session \<Rightarrow> collector \<Rightarrow>
    (session_error, 'a) result \<times> session \<times> collector" where
  "violation w errText r s c =
     (let (_, s1, c1) = send w (ErrorMsg \<lparr> erCode = violation_code r, erMessage = violation_text errText r, erFatal = True \<rparr>)
            (s\<lparr> sViolationCode := Some (violation_code r) \<rparr>) c
      in (Inl (Violated r), s1, c1))"

definition identity_reason :: string where
  "identity_reason = ''trusted VM identity is now available; reconnect to refresh attribution''"

definition requireResolvedIdentity :: "world \<Rightarrow> session \<Rightarrow> collector \<Rightarrow> bool \<times> session \<times> collector" where
  "requireResolvedIdentity w s c =
     (let (t, c1) = now w c in
      if \<not> identityAvailable (sPeer s) (sSrc s) t (cMonitor c1) then (True, s, c1)
      else let (_, s1, c2) = send w (ErrorMsg \<lparr> erCode = ErrCodeInternal, erMessage = identity_reason, erFatal = True \<rparr>) s c1
           in (False, s1, c2))"

text \<open>
  \<open>publishPending\<close> of the monitor, run to its end: at most as many alerts as there were at the start,
  the front one first, until a write fails or the context ends.
\<close>

fun publish_alerts :: "world \<Rightarrow> nat \<Rightarrow> collector \<Rightarrow> collector" where
  "publish_alerts w 0 c = c"
| "publish_alerts w (Suc n) c0 =
     (let c = tick_world c0 in
      if wCancelled w (cTick c0) then c
      else case publish_front (cMonitor c) of
        None \<Rightarrow> c\<lparr> cPanicked := True \<rparr>
      | Some a \<Rightarrow>
          let (err, c1) = publish w Internal (alSource a) (alEvent a) c in
          if err \<noteq> None then c1
          else publish_alerts w n (c1\<lparr> cMonitor := publish_pop (cMonitor c1) \<rparr>))"

definition publishPending :: "world \<Rightarrow> collector \<Rightarrow> collector" where
  "publishPending w c =
     (case publish_begin (cMonitor c) of
        (None, m) \<Rightarrow> c\<lparr> cMonitor := m \<rparr>
      | (Some n, m) \<Rightarrow> let c1 = publish_alerts w n (c\<lparr> cMonitor := m \<rparr>) in c1\<lparr> cMonitor := publish_end (cMonitor c1) \<rparr>)"

definition monitor_seen :: "world \<Rightarrow> session \<Rightarrow> collector \<Rightarrow> collector" where
  "monitor_seen w s c =
     (let (t, c1) = now w c; (ts, c2) = now w c1 in
      publishPending w (c2\<lparr> cMonitor := seen ts (sPeer s) (sSrc s) t (cMonitor c2) \<rparr>))"

subsection \<open>Events\<close>

definition output_failed_event :: "int \<Rightarrow> string \<Rightarrow> event \<Rightarrow> session \<Rightarrow> event" where
  "output_failed_event t err ev s = NewInternal t typeOutputFailed SeverityCritical
     [(''reason'', FStr err), (''sequence'', FUint (Sequence ev)), (''event_type'', FStr (Type ev)),
      (''boot_id'', FStr (keyBoot (sKey s))), (''acknowledged_through'', FUint (sAckPoint s)),
      (''held_by_guest_for_retry'', FBool True)]"

text \<open>The three parts of \<open>handleEvent\<close> under the output gate, for an event whose arrival is reserved.\<close>

definition check_event :: "world \<Rightarrow> nat \<Rightarrow> session \<Rightarrow> collector \<Rightarrow> dedupResult \<times> collector" where
  "check_event w seq s c =
     (let (r1, d1) = Check (sKey s) seq (cDedup c); c1 = c\<lparr> cDedup := d1 \<rparr> in
      if Blocked r1 \<and> \<not> Gap r1
      then let c2 = retryPendingGaps w c1; (r2, d2) = Check (sKey s) seq (cDedup c2) in (r2, c2\<lparr> cDedup := d2 \<rparr>)
      else (r1, c1))"

definition write_event :: "world \<Rightarrow> event \<Rightarrow> session \<Rightarrow> collector \<Rightarrow> session \<times> collector" where
  "write_event w ev s c =
     (let (t, c1) = now w c;
          (err, c2) = sink_write w (EventOf (sKey s)) (envelopeFor t (sSrc s) ev) c1
      in case err of
           Some msg \<Rightarrow>
             let (ts, c3) = now w (c2\<lparr> cOutputErrors := cOutputErrors c2 + 1 \<rparr>)
             in (s, snd (publish w Internal (sSrc s) (output_failed_event ts msg ev s) c3))
         | None \<Rightarrow>
             let c3 = c2\<lparr> cEventsOutput := cEventsOutput c2 + 1 \<rparr>;
                 ((ack, forgot), d) = Commit (sKey s) (Sequence ev) (cDedup c3)
             in (advanceAck ack s, c3\<lparr> cDedup := d \<rparr>))"

definition accept_event :: "world \<Rightarrow> event \<Rightarrow> session \<Rightarrow> collector \<Rightarrow> (session_error, unit) result \<times> session \<times> collector" where
  "accept_event w ev s c0 =
     (let c1 = monitor_seen w s (c0\<lparr> cEventsReceived := cEventsReceived c0 + 1 \<rparr>);
          (res, c2) = check_event w (Sequence ev) s c1;
          c3 = (if Gap res then reportGap w (GapFirst res) (GapLast res) (GapVersion res) ''sequence numbers skipped'' s c2 else c2)
      in if Blocked res then (Inl EvidenceLimitReached, s, c3)
         else if Duplicate res
         then let (point, d) = ResumeFrom (sKey s) (cDedup c3)
              in (Inr (), advanceAck point s, c3\<lparr> cDedup := d, cEventsDuplicate := cEventsDuplicate c3 + 1 \<rparr>)
         else let (s1, c4) = write_event w ev s c3 in (Inr (), s1, c4))"

definition reserve_event :: "world \<Rightarrow> nat \<Rightarrow> session \<Rightarrow> collector \<Rightarrow> (reserve_error, arrivalReservation) result \<times> collector" where
  "reserve_event w seq s c =
     (let (r, d) = reserveArrival (sKey s) seq (sSrc s) (cDedup c); c1 = c\<lparr> cDedup := d \<rparr> in
      case r of
        Inr a \<Rightarrow> (Inr a, c1)
      | Inl _ \<Rightarrow>
          let c2 = retryPendingGaps w c1; (r2, d2) = reserveArrival (sKey s) seq (sSrc s) (cDedup c2)
          in (r2, c2\<lparr> cDedup := d2 \<rparr>))"

definition gated_event :: "world \<Rightarrow> event \<Rightarrow> session \<Rightarrow> collector \<Rightarrow> (session_error, unit) result \<times> session \<times> collector" where
  "gated_event w ev s c =
     (let (resolved, s1, c2) = requireResolvedIdentity w s c in
      if \<not> resolved then (Inl IdentityAvailable, s1, c2)
      else if \<not> wGate w (cTick c2) then (Inl GateTimeout, s1, tick_world c2)
      else accept_event w ev s1 (tick_world c2))"

definition handleEvent :: "world \<Rightarrow> codec \<Rightarrow> (proto_error \<Rightarrow> string) \<Rightarrow> frame \<Rightarrow> session \<Rightarrow> collector \<Rightarrow>
    (session_error, unit) result \<times> session \<times> collector" where
  "handleEvent w j errText f s c =
     (case DecodePayload (jEvent j) (Some f) of
        Inl e \<Rightarrow> violation w errText (BadEvent e) s c
      | Inr msg \<Rightarrow>
         (case emEvent msg of
            None \<Rightarrow> violation w errText NoEventObject s c
          | Some ev \<Rightarrow>
              if Sequence ev = 0 then violation w errText SequenceZero s c
              else if unat (hSequence (fHeader f)) \<noteq> Sequence ev
              then violation w errText (SequenceMismatch (Sequence ev) (unat (hSequence (fHeader f)))) s c
              else
                case reserve_event w (Sequence ev) s c of
                  (Inl e, c1) \<Rightarrow> (Inl (NotReserved e), s, c1)
                | (Inr arrival, c1) \<Rightarrow>
                    let (r, s3, c3) = gated_event w ev s c1
                    in (r, s3, c3\<lparr> cDedup := release_arrival arrival (cDedup c3) \<rparr>)))"

subsection \<open>The other frames\<close>

definition handlePing :: "world \<Rightarrow> codec \<Rightarrow> (proto_error \<Rightarrow> string) \<Rightarrow> frame \<Rightarrow> session \<Rightarrow> collector \<Rightarrow>
    (session_error, unit) result \<times> session \<times> collector" where
  "handlePing w j errText f s c =
     (case DecodePayload (jPing j) (Some f) of
        Inl e \<Rightarrow> violation w errText (BadPing e) s c
      | Inr ping \<Rightarrow>
          let (resolved, s1, c1) = requireResolvedIdentity w s c in
          if \<not> resolved then (Inl IdentityAvailable, s1, c1)
          else
            let (t, c2) = now w (monitor_seen w s1 c1);
                (ok, s2, c3) = send w (PongMsg \<lparr> poEchoUptime = pgUptimeSeconds ping, poUnixNano = t \<rparr>) s1 c2
            in (if ok then Inr () else Inl SendFailed, s2, c3))"

text \<open>
  The two halves of \<open>handshake\<close>: what follows a HELLO of the right version, and the checks before it.
  \<open>hostVersion\<close> is \<^verbatim>\<open>identity.Version\<close>, \<open>maxPayload\<close> the server's frame limit.
\<close>

definition check_missing :: "world \<Rightarrow> nat \<Rightarrow> session \<Rightarrow> collector \<Rightarrow> (session_error, unit) result \<times> collector" where
  "check_missing w firstSequence s c =
     (let (missing, d) = CheckReplay (sKey s) firstSequence (cDedup c);
          c1 = c\<lparr> cDedup := d \<rparr>;
          reason = (if firstSequence > GapLast missing
                    then ''agent cannot replay below its first_sequence''
                    else ''sequence numbers skipped before reconnect'');
          c2 = (if Gap missing
                then reportGap w (GapFirst missing) (GapLast missing) (GapVersion missing) reason s c1
                else c1)
      in (if Blocked missing then Inl EvidenceLimitReached else Inr (), c2))"

definition accept_hello :: "world \<Rightarrow> string \<Rightarrow> nat \<Rightarrow> Hello \<Rightarrow> session \<Rightarrow> collector \<Rightarrow>
    (session_error, unit) result \<times> session \<times> collector" where
  "accept_hello w hostVersion maxPayload hello s c =
     (let s1 = s\<lparr> sSrc := (sSrc s)\<lparr> srcReported := Some (reportedFrom hello) \<rparr>,
                  sKey := \<lparr> keyPeer = bucket (sPeer s), keyBoot = hlBootID hello \<rparr> \<rparr>;
          (resume, d) = ResumeFrom (sKey s1) (cDedup c);
          (ok, s2, c1) = send w (ReadyMsg \<lparr> rdProtocolVersion = unat Frame.Version, rdHostVersion = hostVersion,
             rdSessionID = sId s1, rdResumeFrom = resume, rdMaxPayloadSize = maxPayload \<rparr>) s1 (c\<lparr> cDedup := d \<rparr>)
      in if \<not> ok then (Inl SendFailed, s2, c1)
         else let (r, c2) = check_missing w (hlFirstSequence hello) s2 (monitor_seen w s2 c1) in (r, s2, c2))"

definition handshake :: "world \<Rightarrow> codec \<Rightarrow> (proto_error \<Rightarrow> string) \<Rightarrow> string \<Rightarrow> nat \<Rightarrow> (proto_error, frame) result \<Rightarrow>
    session \<Rightarrow> collector \<Rightarrow> (session_error, unit) result \<times> session \<times> collector" where
  "handshake w j errText hostVersion maxPayload received s c0 =
     (case received of
        Inl e \<Rightarrow> (Inl (ReceiveFailed e), s, c0)
      | Inr f \<Rightarrow>
        let c = c0\<lparr> cFramesReceived := cFramesReceived c0 + 1 \<rparr> in
        if hType (fHeader f) \<noteq> MsgHello then violation w errText (FirstFrameNotHello (hType (fHeader f))) s c
        else case DecodePayload (jHello j) (Some f) of
          Inl e \<Rightarrow> violation w errText (BadHello e) s c
        | Inr hello \<Rightarrow>
            if hlProtocolVersion hello \<noteq> unat Frame.Version
            then violation w errText (UnsupportedVersion (hlProtocolVersion hello)) s c
            else accept_hello w hostVersion maxPayload hello s c)"

datatype serve_outcome = Continue | Ended | Failed session_error

text \<open>One turn of the frame loop \<open>serve\<close>.\<close>

definition serve_frame :: "world \<Rightarrow> codec \<Rightarrow> (proto_error \<Rightarrow> string) \<Rightarrow> (proto_error, frame) result \<Rightarrow>
    session \<Rightarrow> collector \<Rightarrow> serve_outcome \<times> session \<times> collector" where
  "serve_frame w j errText received s c0 =
     (let finish = (\<lambda>(r, s', c'). (case r of Inr _ \<Rightarrow> Continue | Inl e \<Rightarrow> Failed e, s', c')) in
      case received of
        Inl e \<Rightarrow> (Failed (ReceiveFailed e), s, c0)
      | Inr f \<Rightarrow>
        let c = c0\<lparr> cFramesReceived := cFramesReceived c0 + 1 \<rparr>; t = hType (fHeader f) in
        if t = MsgEvent then finish (handleEvent w j errText f s c)
        else if t = MsgPing then finish (handlePing w j errText f s c)
        else if t = MsgShutdown then
          (case DecodePayload (jShutdown j) (Some f) of
             Inl e \<Rightarrow> finish (violation w errText (BadShutdown e) s c :: (session_error, unit) result \<times> session \<times> collector)
           | Inr _ \<Rightarrow> (Ended, s\<lparr> sEndReason := ''guest sent SHUTDOWN'' \<rparr>, c))
        else if t = MsgError then
          (case DecodePayload (jError j) (Some f) of
             Inl e \<Rightarrow> finish (violation w errText (BadErrorMessage e) s c :: (session_error, unit) result \<times> session \<times> collector)
           | Inr em \<Rightarrow> if erFatal em then (Ended, s\<lparr> sEndReason := ''guest reported a fatal error'' \<rparr>, c) else (Continue, s, c))
        else finish (violation w errText (NotAGuestMessage t) s c :: (session_error, unit) result \<times> session \<times> collector))"

text \<open>
  The frame loop and the acknowledgement loop of a session, interleaved with what the rest of the
  collector does to the shared state meanwhile: a frame or a receive error arrives, the
  acknowledgement loop wakes up, or the gap-retry worker runs.
\<close>

datatype session_input = Received "(proto_error, frame) result" | AckWake | GapRetry

fun serve :: "world \<Rightarrow> codec \<Rightarrow> (proto_error \<Rightarrow> string) \<Rightarrow> session_input list \<Rightarrow>
    session \<Rightarrow> collector \<Rightarrow> serve_outcome \<times> session \<times> collector" where
  "serve w j errText [] s c = (Continue, s, c)"
| "serve w j errText (Received f # ins) s c =
     (case serve_frame w j errText f s c of
        (Continue, s1, c1) \<Rightarrow> serve w j errText ins s1 c1
      | r \<Rightarrow> r)"
| "serve w j errText (AckWake # ins) s c =
     (let (_, s1, c1) = ack_wake w s c in serve w j errText ins s1 c1)"
| "serve w j errText (GapRetry # ins) s c = serve w j errText ins s (retryPendingGaps w c)"

definition isViolation :: "session_error \<Rightarrow> bool" where
  "isViolation e = (case e of Violated _ \<Rightarrow> True | ReceiveFailed p \<Rightarrow> IsProtocolError (Some p) | _ \<Rightarrow> False)"

definition violation_event :: "(session_error \<Rightarrow> string) \<Rightarrow> int \<Rightarrow> session_error \<Rightarrow> ErrorCode \<Rightarrow> session \<Rightarrow> event" where
  "violation_event sessText t e code s = NewInternal t TypeProtocolViolation SeverityWarning
     [(''reason'', FStr (sessText e)), (''code'', FStr (error_code_text code)), (''cid'', logCID (sPeer s)),
      (''peer'', FStr (peerAddr (sPeer s))), (''hypervisor_backed'', FBool (peerVsock (sPeer s))), (''session'', FStr (sId s))]"

text \<open>\<open>finish\<close>: the branches that only log do nothing here.\<close>

definition finish_session :: "world \<Rightarrow> (session_error \<Rightarrow> string) \<Rightarrow> session_error option \<Rightarrow> session \<Rightarrow> collector \<Rightarrow> session \<times> collector" where
  "finish_session w sessText err s c0 =
     (case err of
        None \<Rightarrow> (s, c0)
      | Some e \<Rightarrow>
          if \<not> isViolation e then (s, c0)
          else
            let c = c0\<lparr> cFrameErrors := cFrameErrors c0 + 1 \<rparr>;
                (code, s1, c1) = (case sViolationCode s of
                    Some code \<Rightarrow> (code, s, c)
                  | None \<Rightarrow> let (_, s', c') = send w (ErrorMsg \<lparr> erCode = ErrCodeBadFrame, erMessage = sessText e, erFatal = True \<rparr>) s c
                            in (ErrCodeBadFrame, s', c'));
                (t, c2) = now w c1
            in (s1, snd (publish w Internal (sSrc s1) (violation_event sessText t e code s1) c2)))"


definition newSession :: "host_config \<Rightarrow> peer \<Rightarrow> source \<Rightarrow> nat \<Rightarrow> session" where
  "newSession cfg p src n =
     (let digits = dec_text n in
      \<lparr> sPeer = p, sId = bucket p @ ''-'' @ replicate (6 - length digits) (CHR ''0'') @ digits, sSrc = src,
        sKey = \<lparr> keyPeer = [], keyBoot = [] \<rparr>,
        sAckInterval = (if limAckInterval (cfgLimits cfg) < 1 then 1 else limAckInterval (cfgLimits cfg)),
        sViolationCode = None, sEndReason = [], sAckPoint = 0, sAcked = 0, sPending = 0, sSignal = False, sSent = [] \<rparr>)"

definition run_session :: "world \<Rightarrow> codec \<Rightarrow> (proto_error \<Rightarrow> string) \<Rightarrow> (session_error \<Rightarrow> string) \<Rightarrow> string \<Rightarrow> nat \<Rightarrow>
    (proto_error, frame) result \<Rightarrow> session_input list \<Rightarrow> session \<Rightarrow> collector \<Rightarrow> session \<times> collector" where
  "run_session w j errText sessText hostVersion maxPayload hello ins s c =
     (case handshake w j errText hostVersion maxPayload hello s c of
        (Inl e, s1, c1) \<Rightarrow> finish_session w sessText (Some e) s1 c1
      | (Inr _, s1, c1) \<Rightarrow>
          let (r, s2, c2) = serve w j errText ins s1 c1;
              (_, s3, c3) = flushAck w s2 c2
          in finish_session w sessText (case r of Failed e \<Rightarrow> Some e | _ \<Rightarrow> None) s3 c3)"

end
