(* ===== verification/Host_Session_Safety.thy ===== *)
theory Host_Session_Safety
  imports Host_Session
begin

section \<open>A session acknowledges only what is safe\<close>

text \<open>
  The handlers of a session refine the table of theory \<^verbatim>\<open>Dedup_Safety\<close>: whatever a handler does to
  the collector is a sequence of steps of \<open>dedup_step\<close>, with the sequences the sink accepted and the
  gaps reported read off the collector's log. The safety of the acknowledgements a guest receives
  follows from the invariant of the table.
\<close>

definition durable :: "collector \<Rightarrow> streamKey \<Rightarrow> nat set" where
  "durable c k = {Sequence (envEvent e) |e. (EventOf k, e, True) \<in> set (cLog c)}"

definition reported :: "collector \<Rightarrow> streamKey \<Rightarrow> nat set" where
  "reported c k = {n. \<exists>p e. (GapOf p, e, True) \<in> set (cLog c) \<and> pubKey p = k \<and>
     rfirst (pubGap p) \<le> n \<and> n \<le> rlast (pubGap p)}"

definition sim :: "int \<Rightarrow> int \<Rightarrow> history \<Rightarrow> collector \<Rightarrow> bool" where
  "sim W M h c \<longleftrightarrow> reachable W M h \<and> hTable h = cDedup c \<and> hDurable h = durable c \<and>
     hReported h = reported c \<and> \<not> cPanicked c"

definition path :: "history \<Rightarrow> history \<Rightarrow> bool" where
  "path h h' \<longleftrightarrow> dedup_step\<^sup>*\<^sup>* h h'"

text \<open>What a handler does not touch: the table and the evidence in the log.\<close>

definition quiet :: "collector \<Rightarrow> collector \<Rightarrow> bool" where
  "quiet c c' \<longleftrightarrow> cDedup c' = cDedup c \<and> durable c' = durable c \<and> reported c' = reported c \<and>
     cPanicked c' = cPanicked c"

lemma quiet_refl [simp]: "quiet c c"
  by (simp add: quiet_def)

lemma quiet_trans: "quiet a b \<Longrightarrow> quiet b c \<Longrightarrow> quiet a c"
  by (simp add: quiet_def)

lemma sim_quiet: "sim W M h c \<Longrightarrow> quiet c c' \<Longrightarrow> sim W M h c'"
  by (simp add: sim_def quiet_def)

lemma evidence_frame:
  "cLog c' = cLog c \<Longrightarrow> durable c' = durable c" "cLog c' = cLog c \<Longrightarrow> reported c' = reported c"
  by (simp_all add: durable_def reported_def fun_eq_iff)

lemma quiet_fields: "cLog c' = cLog c \<Longrightarrow> cDedup c' = cDedup c \<Longrightarrow> cPanicked c' = cPanicked c \<Longrightarrow> quiet c c'"
  by (simp add: quiet_def evidence_frame [of c' c])

lemma quiet_tick [simp]: "quiet c (tick_world c)"
  by (rule quiet_fields) (simp_all add: tick_world_def)

lemma quiet_now: "now w c = (t, c') \<Longrightarrow> quiet c c'"
  by (auto simp: now_def)

lemma quiet_send: "send w msg s c = (ok, s', c') \<Longrightarrow> quiet c c' \<and> s' = s\<lparr> sSent := sSent s @ [msg] \<rparr>"
  by (auto simp: send_def)

lemma log_append:
  assumes "cLog c' = cLog c @ [(tag, e, b)]"
  shows "durable c' k = durable c k \<union> (if tag = EventOf k \<and> b then {Sequence (envEvent e)} else {})"
    "reported c' k = reported c k \<union>
       (case tag of GapOf p \<Rightarrow> if b \<and> pubKey p = k then {rfirst (pubGap p)..rlast (pubGap p)} else {} | _ \<Rightarrow> {})"
  by (auto simp: durable_def reported_def assms split: log_tag.splits)

lemma publish_fields:
  assumes "publish w tag src ev c = (err, c')"
  shows "cLog c' = cLog c @ [(tag, envelopeFor (wClock w (cTick c)) src ev, err = None)]"
    "cDedup c' = cDedup c" "cPanicked c' = cPanicked c" "cMonitor c' = cMonitor c"
  using assms by (auto simp: publish_def now_def sink_write_def Let_def tick_world_def)

lemma quiet_publish_internal: "publish w Internal src ev c = (err, c') \<Longrightarrow> quiet c c'"
  using log_append [OF publish_fields(1), of w Internal src ev c err c'] publish_fields(2,3) [of w Internal src ev c err c']
  by (simp add: quiet_def fun_eq_iff)

lemma quiet_alerts: "n \<le> length (alerts (cMonitor c)) \<Longrightarrow> quiet c (publish_alerts w n c)"
proof (induction w n c rule: publish_alerts.induct)
  case (2 w n c0)
  let ?c = "tick_world c0"
  show ?case
  proof (cases "wCancelled w (cTick c0)")
    case False
    from 2(2) obtain a as where al: "alerts (cMonitor ?c) = a # as" and n: "n \<le> length as"
      by (cases "alerts (cMonitor c0)") (auto simp: tick_world_def)
    then have Some: "publish_front (cMonitor ?c) = Some a" by (simp add: publish_front_def)
    obtain err c1 where p: "publish w Internal (alSource a) (alEvent a) ?c = (err, c1)"
      by (cases "publish w Internal (alSource a) (alEvent a) ?c")
    have q: "quiet c0 c1" using quiet_publish_internal [OF p] quiet_trans quiet_tick by blast
    show ?thesis
    proof (cases "err = None")
      case True
      let ?c1 = "c1\<lparr> cMonitor := publish_pop (cMonitor c1) \<rparr>"
      have "quiet c1 ?c1" by (rule quiet_fields) simp_all
      moreover have "n \<le> length (alerts (cMonitor ?c1))" using n al publish_fields(4) [OF p] by (simp add: publish_pop_def)
      then have "quiet ?c1 (publish_alerts w n ?c1)"
        using 2(1) [OF refl False Some p [symmetric] refl] True by simp
      ultimately show ?thesis using True q False Some p by (auto simp: Let_def intro: quiet_trans)
    next
      case no: False
      with q False Some p show ?thesis by (auto simp: Let_def)
    qed
  qed (simp add: Let_def)
qed simp

lemma quiet_pending: "quiet c (publishPending w c)"
proof -
  obtain n m where b: "publish_begin (cMonitor c) = (n, m)" by (cases "publish_begin (cMonitor c)")
  have q: "quiet c (c\<lparr> cMonitor := m \<rparr>)" by (rule quiet_fields) simp_all
  show ?thesis
  proof (cases n)
    case None
    with q b show ?thesis by (simp add: publishPending_def)
  next
    case (Some k)
    let ?c = "publish_alerts w k (c\<lparr> cMonitor := m \<rparr>)"
    have "k \<le> length (alerts m)" using b Some by (auto simp: publish_begin_def split: if_splits)
    then have "quiet (c\<lparr> cMonitor := m \<rparr>) ?c" by (intro quiet_alerts) simp
    moreover have "quiet ?c (?c\<lparr> cMonitor := publish_end (cMonitor ?c) \<rparr>)" by (rule quiet_fields) simp_all
    ultimately show ?thesis using q b Some by (auto simp: publishPending_def Let_def intro: quiet_trans)
  qed
qed

lemma quiet_monitor_seen: "quiet c (monitor_seen w s c)"
proof -
  let ?c = "tick_world (tick_world c)"
  have "quiet c (?c\<lparr> cMonitor := m \<rparr>)" for m by (rule quiet_fields) (simp_all add: tick_world_def)
  then show ?thesis unfolding monitor_seen_def now_def Let_def prod.case using quiet_trans quiet_pending by blast
qed

lemma quiet_tick2: "quiet c (tick_world (tick_world c))"
  by (rule quiet_trans [OF quiet_tick quiet_tick])

text \<open>What a session did not do: its point and what it acknowledged are as before, and no ACK was sent.\<close>

fun points_of :: "host_message list \<Rightarrow> nat list" where
  "points_of [] = []"
| "points_of (AckMsg a # ms) = ackSequence a # points_of ms"
| "points_of (_ # ms) = points_of ms"

fun resumes_of :: "host_message list \<Rightarrow> nat list" where
  "resumes_of [] = []"
| "resumes_of (ReadyMsg r # ms) = rdResumeFrom r # resumes_of ms"
| "resumes_of (_ # ms) = resumes_of ms"

lemma points_append [simp]: "points_of (xs @ ys) = points_of xs @ points_of ys"
  by (induction xs rule: points_of.induct) simp_all

lemma resumes_append [simp]: "resumes_of (xs @ ys) = resumes_of xs @ resumes_of ys"
  by (induction xs rule: resumes_of.induct) simp_all

definition no_ack :: "session \<Rightarrow> session \<Rightarrow> bool" where
  "no_ack s s' \<longleftrightarrow> sKey s' = sKey s \<and> sAckPoint s' = sAckPoint s \<and> sAcked s' = sAcked s \<and>
     points_of (sSent s') = points_of (sSent s) \<and> resumes_of (sSent s') = resumes_of (sSent s)"

lemma no_ack_refl [simp]: "no_ack s s"
  by (simp add: no_ack_def)

lemma no_ack_trans: "no_ack a b \<Longrightarrow> no_ack b c \<Longrightarrow> no_ack a c"
  by (simp add: no_ack_def)

lemma quiet_identity: "requireResolvedIdentity w s c = (ok, s', c') \<Longrightarrow> quiet c c' \<and> no_ack s s'"
  by (auto simp: requireResolvedIdentity_def now_def send_def Let_def quiet_tick2 no_ack_def split: if_splits)

lemma quiet_violation: "violation w errText r s c = (res, s', c') \<Longrightarrow> quiet c c' \<and> res = Inl (Violated r) \<and> no_ack s s'"
  by (auto simp: violation_def send_def Let_def no_ack_def)

subsection \<open>Histories only grow\<close>

lemma path_refl [simp]: "path h h"
  by (simp add: path_def)

lemma path_trans: "path a b \<Longrightarrow> path b c \<Longrightarrow> path a c"
  by (simp add: path_def)

lemma path_step: "path a b \<Longrightarrow> dedup_step b c \<Longrightarrow> path a c"
  by (simp add: path_def rtranclp.rtrancl_into_rtrancl)

lemma step_grows: "dedup_step h h' \<Longrightarrow> hDurable h k \<subseteq> hDurable h' k \<and> hReported h k \<subseteq> hReported h' k"
  by (induction rule: dedup_step.induct) (auto simp: note_seen_def)

lemma path_grows: "path h h' \<Longrightarrow> hDurable h k \<subseteq> hDurable h' k \<and> hReported h k \<subseteq> hReported h' k"
  unfolding path_def
proof (induction rule: rtranclp_induct)
  case (step y z)
  then show ?case using step_grows [OF step(2), of k] by blast
qed simp

lemma path_reachable: "path h h' \<Longrightarrow> reachable W M h \<Longrightarrow> reachable W M h'"
  unfolding path_def by (induction rule: rtranclp_induct) (auto intro: reachable.step)


subsection \<open>Gap reports are steps of the table\<close>

definition frame_path :: "history \<Rightarrow> history \<Rightarrow> bool" where
  "frame_path h h' \<longleftrightarrow> path h h' \<and> hInFlight h' = hInFlight h \<and> hClaims h' = hClaims h \<and> hAnchor h' = hAnchor h"

lemma frame_path_refl [simp]: "frame_path h h"
  by (simp add: frame_path_def)

lemma frame_path_trans: "frame_path a b \<Longrightarrow> frame_path b c \<Longrightarrow> frame_path a c"
  by (auto simp: frame_path_def intro: path_trans)

lemma sim_step:
  assumes "sim W M h c" "dedup_step h h'" "hTable h' = cDedup c'" "hDurable h' = durable c'" "hReported h' = reported c'"
    "\<not> cPanicked c'"
  shows "path h h'" "sim W M h' c'"
  using assms path_step [OF path_refl assms(2)] by (auto simp: sim_def intro: reachable.step)

lemma publishGap_sim:
  assumes sim: "sim W M h c" and cl: "hClaims h = p # cs" and pub: "publishGap w p reason c = (ok, c')"
  obtains h' where "path h h'" "sim W M h' c'" "hInFlight h' = hInFlight h" "hClaims h' = cs" "hAnchor h' = hAnchor h"
proof -
  let ?t = "wClock w (cTick c)"
  obtain err c2 where b: "publish w (GapOf p) (pubSource p) (gap_event ?t p reason) (tick_world c) = (err, c2)"
    by (cases "publish w (GapOf p) (pubSource p) (gap_event ?t p reason) (tick_world c)")
  obtain acc d where f: "finishGap p (err = None) (cDedup c2) = (acc, d)" by (cases "finishGap p (err = None) (cDedup c2)")
  note pf = publish_fields [OF b]
  have tw: "cLog (tick_world c) = cLog c" "cDedup (tick_world c) = cDedup c" "cPanicked (tick_world c) = cPanicked c"
    by (simp_all add: tick_world_def)
  let ?h = "h\<lparr> hTable := snd (finishGap p (err = None) (hTable h)),
        hReported := (if err = None
          then (hReported h)(pubKey p := hReported h (pubKey p) \<union> {rfirst (pubGap p)..rlast (pubGap p)})
          else hReported h),
        hClaims := drop_at 0 (hClaims h) \<rparr>"
  have st: "dedup_step h ?h" by (rule finish_claim) (simp_all add: cl)
  have c': "cDedup c' = d" "cLog c' = cLog c2" "cPanicked c' = cPanicked c2"
    using pub unfolding publishGap_def now_def Let_def prod.case b f by (auto split: if_splits)
  note l = log_append [OF c'(2) [unfolded pf(1)  [unfolded tw]]]
  have "hTable ?h = cDedup c'" using sim f pf(2) c'(1) tw by (simp add: sim_def)
  moreover have "hDurable ?h = durable c'" using sim l(1) by (simp add: sim_def fun_eq_iff)
  moreover have "hReported ?h = reported c'" using sim l(2) by (auto simp: sim_def fun_eq_iff)
  moreover have "\<not> cPanicked c'" using sim pf(3) c'(3) tw by (simp add: sim_def)
  ultimately show ?thesis using that [of ?h] sim_step [OF sim st] by (simp add: cl drop_at_def)
qed

lemma cDedup_update_sim:
  assumes "sim W M h c" "dedup_step h h'" "hTable h' = d" "hDurable h' = hDurable h" "hReported h' = hReported h"
  shows "path h h'" "sim W M h' (c\<lparr> cDedup := d \<rparr>)"
proof -
  have e: "durable (c\<lparr> cDedup := d \<rparr>) = durable c" "reported (c\<lparr> cDedup := d \<rparr>) = reported c"
    using evidence_frame [of "c\<lparr> cDedup := d \<rparr>" c] by simp_all
  show "path h h'" "sim W M h' (c\<lparr> cDedup := d \<rparr>)"
    using sim_step [OF assms(1,2), of "c\<lparr> cDedup := d \<rparr>"] assms(1,3-5) e by (simp_all add: sim_def)
qed

lemma sim_table: "sim W M h c \<Longrightarrow> hTable h = cDedup c"
  by (simp add: sim_def)

lemma sim_reachable: "sim W M h c \<Longrightarrow> reachable W M h"
  by (simp add: sim_def)

lemma reportGap_sim:
  assumes sim: "sim W M h c" and le: "lo \<le> hi"
  obtains h' where "frame_path h h'" "sim W M h' (reportGap w lo hi v reason s c)"
proof -
  obtain cl d where cg: "claimGap (sKey s) (sSrc s) lo hi v (hTable h) = (cl, d)"
    by (cases "claimGap (sKey s) (sSrc s) lo hi v (hTable h)")
  note cg' = cg [unfolded sim_table [OF sim]]
  let ?h = "h\<lparr> hTable := d, hClaims := (case cl of Claimed p \<Rightarrow> [p] | _ \<Rightarrow> []) @ hClaims h \<rparr>"
  have st: "dedup_step h ?h" by (rule claim [OF le cg])
  note s1 = cDedup_update_sim [OF sim st, of d, simplified]
  show ?thesis
  proof (cases cl)
    case (Claimed p)
    obtain ok c' where pg: "publishGap w p reason (c\<lparr> cDedup := d \<rparr>) = (ok, c')"
      by (cases "publishGap w p reason (c\<lparr> cDedup := d \<rparr>)")
    obtain h' where h': "path ?h h'" "sim W M h' c'" "hInFlight h' = hInFlight ?h" "hClaims h' = hClaims h" "hAnchor h' = hAnchor ?h"
      by (rule publishGap_sim [OF s1(2) _ pg, of "hClaims h"]) (simp_all add: Claimed)
    have "reportGap w lo hi v reason s c = c'" by (simp add: reportGap_def cg' Claimed pg)
    with h' s1(1) show ?thesis by (intro that [of h']) (auto simp: frame_path_def intro: path_trans)
  next
    case NoClaim
    with s1 show ?thesis by (intro that [of ?h]) (auto simp: frame_path_def reportGap_def cg')
  next
    case NilSource
    with claims_sourced [OF sim_reachable [OF sim], of "sKey s" "sSrc s" lo hi v] cg show ?thesis by simp
  qed
qed

lemma finish_unpublished_sim:
  assumes sim: "sim W M h c" and cl: "hClaims h = p # cs"
  obtains h' where "path h h'" "sim W M h' (c\<lparr> cDedup := snd (finishGap p False (cDedup c)) \<rparr>)"
    "hInFlight h' = hInFlight h" "hClaims h' = cs" "hAnchor h' = hAnchor h"
proof -
  let ?h = "h\<lparr> hTable := snd (finishGap p False (hTable h)), hReported := (if False
          then (hReported h)(pubKey p := hReported h (pubKey p) \<union> {rfirst (pubGap p)..rlast (pubGap p)})
          else hReported h), hClaims := drop_at 0 (hClaims h) \<rparr>"
  have st: "dedup_step h ?h" by (rule finish_claim) (simp_all add: cl)
  have "path h ?h" "sim W M ?h (c\<lparr> cDedup := snd (finishGap p False (cDedup c)) \<rparr>)"
    using cDedup_update_sim [OF sim st, of "snd (finishGap p False (cDedup c))"] sim_table [OF sim] by simp_all
  then show ?thesis by (intro that [of ?h]) (simp_all add: cl drop_at_def)
qed

lemma retry_loop_sim:
  assumes "sim W M h c" "hClaims h = p # cs"
  shows "\<exists>h'. path h h' \<and> sim W M h' (retry_loop w n k p c) \<and> hInFlight h' = hInFlight h \<and> hClaims h' = cs \<and>
    hAnchor h' = hAnchor h"
  using assms
proof (induction n arbitrary: h p c)
  case 0
  show ?case by (rule finish_unpublished_sim [OF 0]) (auto)
next
  case (Suc n)
  have simt: "sim W M h (tick_world c)" by (rule sim_quiet [OF Suc(2) quiet_tick])
  show ?case
  proof (cases "wCancelled w (cTick c)")
    case True
    have d: "cDedup (tick_world c) = cDedup c" by (simp add: tick_world_def)
    show ?thesis by (rule finish_unpublished_sim [OF simt Suc(3)]) (auto simp: True d)
  next
    case False
    obtain ok c1 where pg: "publishGap w p ''retrying retained gap evidence'' (tick_world c) = (ok, c1)"
      by (cases "publishGap w p ''retrying retained gap evidence'' (tick_world c)")
    obtain h1 where h1: "path h h1" "sim W M h1 c1" "hInFlight h1 = hInFlight h" "hClaims h1 = cs" "hAnchor h1 = hAnchor h"
      by (rule publishGap_sim [OF simt Suc(3) pg])
    show ?thesis
    proof (cases ok)
      case no: False
      with h1 show ?thesis by (auto simp: False pg)
    next
      case True
      obtain cl d where tn: "takeNextPendingGap k (hTable h1) = (cl, d)" by (cases "takeNextPendingGap k (hTable h1)")
      note tn' = tn [unfolded sim_table [OF h1(2)]]
      let ?h = "h1\<lparr> hTable := d, hClaims := (case cl of Claimed p \<Rightarrow> [p] | _ \<Rightarrow> []) @ hClaims h1 \<rparr>"
      have st: "dedup_step h1 ?h" by (rule take_next [OF tn])
      note s1 = cDedup_update_sim [OF h1(2) st, of d, simplified]
      show ?thesis
      proof (cases cl)
        case (Claimed q)
        then have "hClaims ?h = q # cs" using h1(4) by simp
        from Suc(1) [OF s1(2) this] obtain h' where h': "path ?h h'" "sim W M h' (retry_loop w n k q (c1\<lparr> cDedup := d \<rparr>))"
          "hInFlight h' = hInFlight ?h" "hClaims h' = cs" "hAnchor h' = hAnchor ?h" by blast
        have "retry_loop w (Suc n) k p c = retry_loop w n k q (c1\<lparr> cDedup := d \<rparr>)" by (simp add: False pg True tn' Claimed)
        moreover have "path h h'" using path_trans [OF path_trans [OF h1(1) s1(1)] h'(1)] .
        ultimately show ?thesis using h' h1 by (intro exI [of _ h']) simp
      next
        case NoClaim
        then have "retry_loop w (Suc n) k p c = c1\<lparr> cDedup := d \<rparr>" by (simp add: False pg True tn')
        with s1 h1 path_trans [OF h1(1) s1(1)] NoClaim show ?thesis by (intro exI [of _ ?h]) simp
      next
        case NilSource
        with claims_sourced [OF sim_reachable [OF h1(2)], of k] tn show ?thesis by simp
      qed
    qed
  qed
qed

lemma retryPendingGaps_sim:
  assumes sim: "sim W M h c"
  obtains h' where "frame_path h h'" "sim W M h' (retryPendingGaps w c)"
proof -
  obtain cl d where tp: "takePendingGap (hTable h) = (cl, d)" by (cases "takePendingGap (hTable h)")
  note tp' = tp [unfolded sim_table [OF sim]]
  let ?h = "h\<lparr> hTable := d, hClaims := (case cl of Claimed p \<Rightarrow> [p] | _ \<Rightarrow> []) @ hClaims h \<rparr>"
  have st: "dedup_step h ?h" by (rule take_pending [OF tp])
  note s1 = cDedup_update_sim [OF sim st, of d, simplified]
  show ?thesis
  proof (cases cl)
    case (Claimed p)
    then have "hClaims ?h = p # hClaims h" by simp
    from retry_loop_sim [OF s1(2) this, of w maxMissingRanges "pubKey p"] obtain h' where
      h': "path ?h h'" "sim W M h' (retry_loop w maxMissingRanges (pubKey p) p (c\<lparr> cDedup := d \<rparr>))"
        "hInFlight h' = hInFlight h" "hClaims h' = hClaims h" "hAnchor h' = hAnchor h" by auto
    then show ?thesis using path_trans [OF s1(1) h'(1)]
      by (intro that [of h']) (simp_all add: frame_path_def retryPendingGaps_def tp' Claimed)
  next
    case NoClaim
    with s1 show ?thesis by (intro that [of ?h]) (simp_all add: frame_path_def retryPendingGaps_def tp')
  next
    case NilSource
    with claims_sourced [OF sim_reachable [OF sim]] tp show ?thesis by simp
  qed
qed

subsection \<open>Events are steps of the table\<close>

lemma safe_gap_range:
  assumes "stream_ok s" "Gap (safePendingGap e s)"
  shows "GapFirst (safePendingGap e s) \<le> GapLast (safePendingGap e s)"
proof -
  have ne: "\<forall>p \<in> set (pending s). rfirst p \<le> rlast p"
    using assms(1) by (simp add: stream_ok_def stream_core_def ranges_ok_def)
  from safe_gap_loop_ok(1) [OF _ ne, of e s, folded safePendingGap_def, OF assms(2)] show ?thesis by blast
qed

lemma check_gap_shape:
  "Gap (fst (check q s)) \<Longrightarrow> \<exists>e. Gap (safePendingGap e (snd (check q s))) \<and>
     GapFirst (fst (check q s)) = GapFirst (safePendingGap e (snd (check q s))) \<and>
     GapLast (fst (check q s)) = GapLast (safePendingGap e (snd (check q s)))"
  by (auto simp: check_def Let_def case_prod_beta pendingGap_def pendingGapExcluding_def zero_result_def)

lemma check_replay_shape:
  "Gap (fst (check_replay q s)) \<Longrightarrow> Gap (pendingGap (snd (check_replay q s))) \<and>
     GapFirst (fst (check_replay q s)) = GapFirst (pendingGap (snd (check_replay q s))) \<and>
     GapLast (fst (check_replay q s)) = GapLast (pendingGap (snd (check_replay q s)))"
  by (cases "if q > written s \<and> q - written s > 1 then queueReplayMissing (q - 1) s else (True, s)")
    (simp add: check_replay_def Let_def split: if_splits)

lemma Check_gap_range:
  assumes "hist_inv (h\<lparr> hTable := snd (Check k q (hTable h)) \<rparr>)" "Gap (fst (Check k q (hTable h)))"
  shows "GapFirst (fst (Check k q (hTable h))) \<le> GapLast (fst (Check k q (hTable h)))"
proof (cases "stream k (hTable h)")
  case (Pair so d1)
  show ?thesis
  proof (cases so)
    case None
    with assms(2) Pair show ?thesis by (simp add: Check_def zero_result_def)
  next
    case (Some s)
    have C: "Check k q (hTable h) = (fst (check q s), put_stream k (snd (check q s)) d1)"
      by (simp add: Check_def Pair Some case_prod_beta)
    have "stream_ok (snd (check q s))"
      using hist_stream_inv [OF assms(1), of k "snd (check q s)"] C by (simp add: stream_inv_def)
    then show ?thesis using check_gap_shape [of q s] assms(2) safe_gap_range by (auto simp: C)
  qed
qed

lemma CheckReplay_gap_range:
  assumes "hist_inv (h\<lparr> hTable := snd (CheckReplay k q (hTable h)) \<rparr>)" "Gap (fst (CheckReplay k q (hTable h)))"
  shows "GapFirst (fst (CheckReplay k q (hTable h))) \<le> GapLast (fst (CheckReplay k q (hTable h)))"
proof (cases "map_of (streams (hTable h)) k")
  case None
  with assms(2) show ?thesis by (simp add: CheckReplay_def zero_result_def)
next
  case (Some s)
  let ?c = "check_replay q (s\<lparr> used := clock (tick (hTable h)) \<rparr>)"
  have C: "CheckReplay k q (hTable h) = (fst ?c, put_stream k (snd ?c) (tick (hTable h)))"
    by (simp add: CheckReplay_def Some case_prod_beta Let_def)
  have "stream_ok (snd ?c)"
    using hist_stream_inv [OF assms(1), of k "snd ?c"] C by (simp add: stream_inv_def)
  then show ?thesis using check_replay_shape assms(2) pendingGap_ok(1) by (auto simp: C)
qed

lemma Check_sim:
  assumes sim: "sim W M h c" and fl: "(a, b) \<in> set (hInFlight h)" "resKey a = k" "resSeq a = q"
    and ch: "Check k q (cDedup c) = (r, d)"
  obtains h' where "frame_path h h'" "sim W M h' (c\<lparr> cDedup := d \<rparr>)" "Gap r \<longrightarrow> GapFirst r \<le> GapLast r"
proof -
  let ?h = "h\<lparr> hTable := snd (Check (resKey a) (resSeq a) (hTable h)) \<rparr>"
  have st: "dedup_step h ?h" by (rule check_arrival [OF fl(1)])
  have d: "snd (Check (resKey a) (resSeq a) (hTable h)) = d" "fst (Check (resKey a) (resSeq a) (hTable h)) = r"
    using ch fl sim_table [OF sim] by simp_all
  note s1 = cDedup_update_sim [OF sim st, of d, simplified, OF d(1)]
  have "hist_inv ?h" using reachable_inv [OF sim_reachable [OF s1(2)]] d(1) by simp
  from Check_gap_range [OF this] d(2) s1 show ?thesis by (intro that [of ?h]) (simp_all add: frame_path_def d(1))
qed

lemma check_event_sim:
  assumes sim: "sim W M h c" and fl: "(a, b) \<in> set (hInFlight h)" "resKey a = sKey s" "resSeq a = q"
    and ch: "check_event w q s c = (r, c')"
  obtains h' where "frame_path h h'" "sim W M h' c'" "Gap r \<longrightarrow> GapFirst r \<le> GapLast r"
proof -
  obtain r1 d1 where c1: "Check (sKey s) q (cDedup c) = (r1, d1)" by (cases "Check (sKey s) q (cDedup c)")
  obtain h1 where h1: "frame_path h h1" "sim W M h1 (c\<lparr> cDedup := d1 \<rparr>)" "Gap r1 \<longrightarrow> GapFirst r1 \<le> GapLast r1"
    by (rule Check_sim [OF sim fl c1])
  show ?thesis
  proof (cases "Blocked r1 \<and> \<not> Gap r1")
    case False
    with ch c1 h1 show ?thesis by (intro that [of h1]) (auto simp: check_event_def)
  next
    case True
    let ?c2 = "retryPendingGaps w (c\<lparr> cDedup := d1 \<rparr>)"
    obtain h2 where h2: "frame_path h1 h2" "sim W M h2 ?c2" by (rule retryPendingGaps_sim [OF h1(2)])
    have fl2: "(a, b) \<in> set (hInFlight h2)" using fl(1) h1(1) h2(1) by (simp add: frame_path_def)
    obtain r2 d2 where c2: "Check (sKey s) q (cDedup ?c2) = (r2, d2)" by (cases "Check (sKey s) q (cDedup ?c2)")
    obtain h3 where h3: "frame_path h2 h3" "sim W M h3 (?c2\<lparr> cDedup := d2 \<rparr>)" "Gap r2 \<longrightarrow> GapFirst r2 \<le> GapLast r2"
      by (rule Check_sim [OF h2(2) fl2 fl(2,3) c2])
    have "(r, c') = (r2, ?c2\<lparr> cDedup := d2 \<rparr>)"
      unfolding ch [symmetric] check_event_def c1 prod.case Let_def if_P [OF True] c2 ..
    with h3 frame_path_trans [OF frame_path_trans [OF h1(1) h2(1)] h3(1)] show ?thesis by (intro that [of h3]) auto
  qed
qed

definition point_safe :: "history \<Rightarrow> streamKey \<Rightarrow> nat \<Rightarrow> bool" where
  "point_safe h k n \<longleftrightarrow> {hAnchor h k<..n} \<subseteq> hDurable h k \<union> hReported h k"

lemma ResumeFrom_sim:
  assumes sim: "sim W M h c" and r: "ResumeFrom k (cDedup c) = (n, d)"
  obtains h' where "frame_path h h'" "sim W M h' (c\<lparr> cDedup := d \<rparr>)" "point_safe h' k n"
proof -
  let ?h = "h\<lparr> hTable := snd (ResumeFrom k (hTable h)) \<rparr>"
  have st: "dedup_step h ?h" by (rule resume)
  have n: "fst (ResumeFrom k (hTable h)) = n" "snd (ResumeFrom k (hTable h)) = d" using r sim_table [OF sim] by simp_all
  note s1 = cDedup_update_sim [OF sim st, of d, simplified, OF n(2)]
  show ?thesis
    using s1 resume_safe [OF reachable_inv [OF sim_reachable [OF sim]], of k] n
    by (intro that [of ?h]) (simp_all add: frame_path_def point_safe_def)
qed

lemma write_event_sim:
  assumes sim: "sim W M h c" and fl: "(a, b) \<in> set (hInFlight h)" "resKey a = sKey s" "resSeq a = Sequence ev"
    and wr: "write_event w ev s c = (s', c')"
  obtains h' where "frame_path h h'" "sim W M h' c'" "s' = s \<or> (\<exists>n. s' = advanceAck n s \<and> point_safe h' (sKey s) n)"
proof -
  let ?env = "envelopeFor (wClock w (cTick c)) (sSrc s) ev"
  let ?err = "wSink w (Suc (cTick c)) ?env"
  let ?c2 = "(tick_world (tick_world c))\<lparr> cLog := cLog c @ [(EventOf (sKey s), ?env, ?err = None)] \<rparr>"
  have sw: "now w c = (wClock w (cTick c), tick_world c)"
      "sink_write w (EventOf (sKey s)) ?env (tick_world c) = (?err, ?c2)"
    by (simp_all add: now_def sink_write_def Let_def tick_world_def)
  have l: "cLog ?c2 = cLog c @ [(EventOf (sKey s), ?env, ?err = None)]" by simp
  have f: "cDedup ?c2 = cDedup c" "cPanicked ?c2 = cPanicked c" by (simp_all add: tick_world_def)
  have env: "Sequence (envEvent ?env) = Sequence ev" by (simp add: envelopeFor_def)
  show ?thesis
  proof (cases ?err)
    case (Some msg)
    let ?c3 = "?c2\<lparr> cOutputErrors := cOutputErrors ?c2 + 1 \<rparr>"
    obtain t c4 where n: "now w ?c3 = (t, c4)" by (cases "now w ?c3")
    obtain e c5 where p: "publish w Internal (sSrc s) (output_failed_event t msg ev s) c4 = (e, c5)"
      by (cases "publish w Internal (sSrc s) (output_failed_event t msg ev s) c4")
    have "quiet c ?c2" using log_append [OF l] f Some by (simp add: quiet_def fun_eq_iff)
    moreover have "quiet ?c2 ?c3" by (rule quiet_fields) simp_all
    ultimately have "quiet c c5" using quiet_now [OF n] quiet_publish_internal [OF p] by (blast intro: quiet_trans)
    moreover have "(s', c') = (s, c5)"
      unfolding wr [symmetric] write_event_def sw Let_def prod.case Some option.case n [simplified Some] p by (simp add: p n [unfolded Some])
    ultimately show ?thesis using sim_quiet [OF sim] by (intro that [of h]) simp_all
  next
    case None
    let ?c3 = "?c2\<lparr> cEventsOutput := cEventsOutput ?c2 + 1 \<rparr>"
    let ?h1 = "h\<lparr> hDurable := (hDurable h)(resKey a := insert (resSeq a) (hDurable h (resKey a))) \<rparr>"
    have st: "dedup_step h ?h1" by (rule sink_accepts [OF fl(1)])
    have e: "durable ?c3 = durable ?c2" "reported ?c3 = reported ?c2" using evidence_frame [of ?c3 ?c2] by simp_all
    have "hTable ?h1 = cDedup ?c3" "\<not> cPanicked ?c3" using sim f by (simp_all add: sim_def)
    moreover have "hDurable ?h1 = durable ?c3" "hReported ?h1 = reported ?c3"
      using sim log_append [OF l] None fl env unfolding e by (auto simp: sim_def fun_eq_iff)
    ultimately have s1: "path h ?h1" "sim W M ?h1 ?c3" using sim_step [OF sim st] by blast+
    obtain ack forgot d where cm: "Commit (sKey s) (Sequence ev) (cDedup ?c3) = ((ack, forgot), d)"
      by (cases "Commit (sKey s) (Sequence ev) (cDedup ?c3)") (metis prod.exhaust)
    let ?h2 = "?h1\<lparr> hTable := snd (Commit (resKey a) (resSeq a) (hTable ?h1)) \<rparr>"
    have fl1: "(a, b) \<in> set (hInFlight ?h1)" "resSeq a \<in> hDurable ?h1 (resKey a)" using fl by simp_all
    have st2: "dedup_step ?h1 ?h2" by (rule commit_arrival [OF fl1])
    have cm': "snd (Commit (resKey a) (resSeq a) (hTable ?h1)) = d" "fst (fst (Commit (resKey a) (resSeq a) (hTable ?h1))) = ack"
      using cm fl(2,3) sim_table [OF s1(2)] by simp_all
    note s2 = cDedup_update_sim [OF s1(2) st2, of d, simplified, OF cm'(1) [simplified]]
    have "(s', c') = (advanceAck ack s, ?c3\<lparr> cDedup := d \<rparr>)"
      unfolding wr [symmetric] write_event_def sw Let_def prod.case None option.case
      using cm None by simp
    moreover have "point_safe ?h2 (sKey s) ack"
      using commit_safe [OF reachable_inv [OF sim_reachable [OF s1(2)]] fl1] cm'(2) fl(2) by (simp add: point_safe_def)
    moreover have "path h ?h2" using path_step [OF s1(1) st2] .
    ultimately show ?thesis using s2 cm' by (intro that [of ?h2]) (auto simp: frame_path_def)
  qed
qed

lemma accept_event_sim:
  assumes sim: "sim W M h c" and fl: "(a, b) \<in> set (hInFlight h)" "resKey a = sKey s" "resSeq a = Sequence ev"
    and ac: "accept_event w ev s c = (r, s', c')"
  obtains h' where "frame_path h h'" "sim W M h' c'" "s' = s \<or> (\<exists>n. s' = advanceAck n s \<and> point_safe h' (sKey s) n)"
proof -
  let ?c0 = "c\<lparr> cEventsReceived := cEventsReceived c + 1 \<rparr>"
  let ?c1 = "monitor_seen w s ?c0"
  have "quiet c ?c0" by (rule quiet_fields) simp_all
  then have s1: "sim W M h ?c1" using sim_quiet [OF sim] quiet_trans quiet_monitor_seen by blast
  obtain res c2 where ch: "check_event w (Sequence ev) s ?c1 = (res, c2)" by (cases "check_event w (Sequence ev) s ?c1")
  obtain h2 where h2: "frame_path h h2" "sim W M h2 c2" "Gap res \<longrightarrow> GapFirst res \<le> GapLast res"
    by (rule check_event_sim [OF s1 fl ch])
  define c3 where "c3 = (if Gap res then reportGap w (GapFirst res) (GapLast res) (GapVersion res) ''sequence numbers skipped'' s c2 else c2)"
  obtain h3 where h3: "frame_path h2 h3" "sim W M h3 c3"
  proof (cases "Gap res")
    case True
    with h2(3) have "GapFirst res \<le> GapLast res" by simp
    from reportGap_sim [OF h2(2) this, of w "GapVersion res" "''sequence numbers skipped''" s] that True show ?thesis
      by (auto simp: c3_def)
  qed (use h2 that [of h2] in \<open>auto simp: c3_def\<close>)
  note f3 = frame_path_trans [OF h2(1) h3(1)]
  have eq: "(r, s', c') = (if Blocked res then (Inl EvidenceLimitReached, s, c3)
      else if Duplicate res
      then let (point, d) = ResumeFrom (sKey s) (cDedup c3)
           in (Inr (), advanceAck point s, c3\<lparr> cDedup := d, cEventsDuplicate := cEventsDuplicate c3 + 1 \<rparr>)
      else let (s1, c4) = write_event w ev s c3 in (Inr (), s1, c4))"
    unfolding ac [symmetric] accept_event_def Let_def ch prod.case c3_def [symmetric] ..
  show ?thesis
  proof (cases "Blocked res")
    case True
    with eq h3 f3 show ?thesis by (intro that [of h3]) simp_all
  next
    case nb: False
    note eq1 = eq [unfolded if_not_P [OF nb]]
    show ?thesis
    proof (cases "Duplicate res")
      case True
      obtain n d where rf: "ResumeFrom (sKey s) (cDedup c3) = (n, d)" by (cases "ResumeFrom (sKey s) (cDedup c3)")
      obtain h4 where h4: "frame_path h3 h4" "sim W M h4 (c3\<lparr> cDedup := d \<rparr>)" "point_safe h4 (sKey s) n"
        by (rule ResumeFrom_sim [OF h3(2) rf])
      have e: "s' = advanceAck n s" "c' = c3\<lparr> cDedup := d, cEventsDuplicate := cEventsDuplicate c3 + 1 \<rparr>"
        using eq1 [unfolded if_P [OF True] rf Let_def prod.case] by simp_all
      have "quiet (c3\<lparr> cDedup := d \<rparr>) c'" by (rule quiet_fields) (simp_all add: e(2))
      with h4 frame_path_trans [OF f3 h4(1)] e(1) show ?thesis by (intro that [of h4]) (auto intro: sim_quiet)
    next
      case False
      obtain s4 c4 where wr: "write_event w ev s c3 = (s4, c4)" by (cases "write_event w ev s c3")
      have fl3: "(a, b) \<in> set (hInFlight h3)" using fl(1) f3 by (simp add: frame_path_def)
      obtain h4 where h4: "frame_path h3 h4" "sim W M h4 c4" "s4 = s \<or> (\<exists>n. s4 = advanceAck n s \<and> point_safe h4 (sKey s) n)"
        by (rule write_event_sim [OF h3(2) fl3 fl(2,3) wr])
      have "s' = s4" "c' = c4" using eq1 [unfolded if_not_P [OF False] wr Let_def prod.case] by simp_all
      with h4 frame_path_trans [OF f3 h4(1)] show ?thesis by (intro that [of h4]) auto
    qed
  qed
qed

definition flight_path :: "history \<Rightarrow> history \<Rightarrow> bool" where
  "flight_path h h' \<longleftrightarrow> path h h' \<and> hInFlight h' = hInFlight h \<and> hClaims h' = hClaims h"

lemma frame_flight: "frame_path h h' \<Longrightarrow> flight_path h h'"
  by (simp add: frame_path_def flight_path_def)

lemma flight_path_trans: "flight_path a b \<Longrightarrow> flight_path b c \<Longrightarrow> flight_path a c"
  by (auto simp: flight_path_def intro: path_trans)

lemma reservation_of: "reserveArrival k seq src d = (Inr a, d') \<Longrightarrow> resKey a = k \<and> resSeq a = seq"
  by (auto simp: reserveArrival_def Let_def case_prod_beta split: option.splits prod.splits if_splits)

lemma reserve_sim:
  assumes sim: "sim W M h c" and q: "0 < seq" "seq \<le> max64" and r: "reserveArrival k seq src (cDedup c) = (r, d)"
  obtains h' where "path h h'" "sim W M h' (c\<lparr> cDedup := d \<rparr>)" "hClaims h' = hClaims h"
    "case r of Inl e \<Rightarrow> hInFlight h' = hInFlight h
     | Inr a \<Rightarrow> resKey a = k \<and> resSeq a = seq \<and> (\<exists>b. hInFlight h' = (a, b) # hInFlight h)"
proof -
  have r': "reserveArrival k seq src (hTable h) = (r, d)" using r sim_table [OF sim] by simp
  show ?thesis
  proof (cases r)
    case (Inl e)
    let ?h = "h\<lparr> hTable := d, hSeen := (hSeen h)(k := insert seq (hSeen h k)) \<rparr>"
    have st: "dedup_step h ?h" by (rule arrive_refused [OF r' [unfolded Inl] q])
    note s1 = cDedup_update_sim [OF sim st, of d, simplified]
    from s1 Inl show ?thesis by (intro that [of ?h]) simp_all
  next
    case (Inr a)
    let ?h = "(note_seen k seq h)\<lparr> hTable := d, hInFlight := (a, open_seq k seq (hTable h)) # hInFlight h \<rparr>"
    have st: "dedup_step h ?h" by (rule arrive [OF r' [unfolded Inr] q])
    have "hTable ?h = d" "hDurable ?h = hDurable h" "hReported ?h = hReported h" "hClaims ?h = hClaims h"
      by (simp_all add: note_seen_def)
    moreover from this have "path h ?h" "sim W M ?h (c\<lparr> cDedup := d \<rparr>)" using cDedup_update_sim [OF sim st, of d] by simp_all
    ultimately show ?thesis using reservation_of [of k seq src "cDedup c" a d] r Inr
      by (intro that [of ?h]) simp_all
  qed
qed

lemma reserve_event_sim:
  assumes sim: "sim W M h c" and q: "0 < seq" "seq \<le> max64" and r: "reserve_event w seq s c = (r, c')"
  obtains h' where "path h h'" "sim W M h' c'" "hClaims h' = hClaims h"
    "case r of Inl e \<Rightarrow> hInFlight h' = hInFlight h
     | Inr a \<Rightarrow> resKey a = sKey s \<and> resSeq a = seq \<and> (\<exists>b. hInFlight h' = (a, b) # hInFlight h)"
proof -
  obtain r1 d1 where r1: "reserveArrival (sKey s) seq (sSrc s) (cDedup c) = (r1, d1)"
    by (cases "reserveArrival (sKey s) seq (sSrc s) (cDedup c)")
  obtain h1 where h1: "path h h1" "sim W M h1 (c\<lparr> cDedup := d1 \<rparr>)" "hClaims h1 = hClaims h"
    "case r1 of Inl e \<Rightarrow> hInFlight h1 = hInFlight h
     | Inr a \<Rightarrow> resKey a = sKey s \<and> resSeq a = seq \<and> (\<exists>b. hInFlight h1 = (a, b) # hInFlight h)"
    by (rule reserve_sim [OF sim q r1])
  show ?thesis
  proof (cases r1)
    case (Inr a)
    then have "(r, c') = (r1, c\<lparr> cDedup := d1 \<rparr>)" using r r1 by (simp add: reserve_event_def)
    with h1 show ?thesis by (intro that [of h1]) auto
  next
    case (Inl e)
    let ?c2 = "retryPendingGaps w (c\<lparr> cDedup := d1 \<rparr>)"
    obtain h2 where h2: "frame_path h1 h2" "sim W M h2 ?c2" by (rule retryPendingGaps_sim [OF h1(2)])
    obtain r2 d2 where r2: "reserveArrival (sKey s) seq (sSrc s) (cDedup ?c2) = (r2, d2)"
      by (cases "reserveArrival (sKey s) seq (sSrc s) (cDedup ?c2)")
    obtain h3 where h3: "path h2 h3" "sim W M h3 (?c2\<lparr> cDedup := d2 \<rparr>)" "hClaims h3 = hClaims h2"
      "case r2 of Inl e \<Rightarrow> hInFlight h3 = hInFlight h2
       | Inr a \<Rightarrow> resKey a = sKey s \<and> resSeq a = seq \<and> (\<exists>b. hInFlight h3 = (a, b) # hInFlight h2)"
      by (rule reserve_sim [OF h2(2) q r2])
    have e: "r = r2" "c' = ?c2\<lparr> cDedup := d2 \<rparr>" using r r1 r2 Inl by (simp_all add: reserve_event_def Let_def)
    have fl: "hInFlight h2 = hInFlight h" "hClaims h2 = hClaims h" "path h1 h2" using h1(3,4) h2(1) Inl by (simp_all add: frame_path_def)
    have "path h h3" using path_trans [OF path_trans [OF h1(1) fl(3)] h3(1)] .
    with h3 fl e show ?thesis by (intro that [of h3]) (simp_all split: sum.splits)
  qed
qed

lemma release_sim:
  assumes sim: "sim W M h c" and fl: "hInFlight h = (a, b) # fl"
  obtains h' where "path h h'" "sim W M h' (c\<lparr> cDedup := release_arrival a (cDedup c) \<rparr>)" "hClaims h' = hClaims h"
    "hInFlight h' = fl" "\<And>k n. point_safe h k n \<Longrightarrow> point_safe h' k n"
proof -
  let ?h = "h\<lparr> hTable := release_arrival a (hTable h), hInFlight := drop_at 0 (hInFlight h) \<rparr>"
  have st: "dedup_step h ?h" by (rule release) (simp_all add: fl)
  have "path h ?h" "sim W M ?h (c\<lparr> cDedup := release_arrival a (cDedup c) \<rparr>)"
    using cDedup_update_sim [OF sim st, of "release_arrival a (cDedup c)"] sim_table [OF sim] by simp_all
  then show ?thesis by (intro that [of ?h]) (simp_all add: fl drop_at_def point_safe_def)
qed

text \<open>What handling an event may do to the session.\<close>

definition acks_event :: "history \<Rightarrow> session \<Rightarrow> session \<Rightarrow> bool" where
  "acks_event h s s' \<longleftrightarrow> no_ack s s' \<or> (\<exists>n s1. no_ack s s1 \<and> s' = advanceAck n s1 \<and> point_safe h (sKey s) n)"

lemma identity_session: "requireResolvedIdentity w s c = (True, s', c') \<Longrightarrow> s' = s"
  by (auto simp: requireResolvedIdentity_def now_def send_def Let_def split: if_splits)

lemma gated_event_sim:
  assumes sim: "sim W M h c" and fl: "(a, b) \<in> set (hInFlight h)" "resKey a = sKey s" "resSeq a = Sequence ev"
    and g: "gated_event w ev s c = (r, s', c')"
  obtains h' where "frame_path h h'" "sim W M h' c'" "acks_event h' s s'"
proof -
  obtain ok s1 c2 where i: "requireResolvedIdentity w s c = (ok, s1, c2)" by (cases "requireResolvedIdentity w s c") auto
  note q = quiet_identity [OF i]
  have s2: "sim W M h c2" "sim W M h (tick_world c2)" using sim_quiet [OF sim] q sim_quiet quiet_tick by blast+
  consider (no) "\<not> ok" | (gate) "ok" "\<not> wGate w (cTick c2)" | (go) "ok" "wGate w (cTick c2)" by blast
  then show ?thesis
  proof cases
    case no
    with g i q s2 show ?thesis by (intro that [of h]) (auto simp: gated_event_def acks_event_def)
  next
    case gate
    with g i q s2 show ?thesis by (intro that [of h]) (auto simp: gated_event_def acks_event_def)
  next
    case go
    then have ac: "accept_event w ev s (tick_world c2) = (r, s', c')"
      using g i identity_session [of w s c s1 c2] by (simp add: gated_event_def)
    obtain h' where h': "frame_path h h'" "sim W M h' c'" "s' = s \<or> (\<exists>n. s' = advanceAck n s \<and> point_safe h' (sKey s) n)"
      by (rule accept_event_sim [OF s2(2) fl ac])
    then show ?thesis by (intro that [of h']) (auto simp: acks_event_def intro: no_ack_refl)
  qed
qed

lemma violation_sim:
  assumes "sim W M h c" "violation w errText v s c = (r, s', c')"
  obtains h' where "flight_path h h'" "sim W M h' c'" "acks_event h' s s'"
  using quiet_violation [OF assms(2)] sim_quiet [OF assms(1)] that [of h] by (auto simp: flight_path_def acks_event_def)

lemma unat64_le: "unat (x :: 64 word) \<le> max64"
  using unsigned_less [of x, where ?'a = nat] by (simp add: max64_def)

lemma handleEvent_sim:
  assumes sim: "sim W M h c" and he: "handleEvent w j errText f s c = (r, s', c')"
  obtains h' where "flight_path h h'" "sim W M h' c'" "acks_event h' s s'"
proof (cases "DecodePayload (jEvent j) (Some f)")
  case (Inl e)
  with he have "violation w errText (BadEvent e) s c = (r, s', c')" by (simp add: handleEvent_def)
  from violation_sim [OF sim this] that show ?thesis by blast
next
  case (Inr msg)
  note he1 = he [unfolded handleEvent_def Inr sum.case]
  show ?thesis
  proof (cases "emEvent msg")
    case None
    from violation_sim [OF sim he1 [unfolded None option.case]] that show ?thesis by blast
  next
    case (Some ev)
    note he2 = he1 [unfolded Some option.case]
    consider (zero) "Sequence ev = 0" | (mismatch) "Sequence ev \<noteq> 0" "unat (hSequence (fHeader f)) \<noteq> Sequence ev"
      | (ok) "Sequence ev \<noteq> 0" "\<not> unat (hSequence (fHeader f)) \<noteq> Sequence ev" by blast
    then show ?thesis
    proof cases
      case zero
      from violation_sim [OF sim he2 [unfolded if_P [OF zero]]] that show ?thesis by blast
    next
      case mismatch
      from violation_sim [OF sim he2 [unfolded if_not_P [OF mismatch(1)] if_P [OF mismatch(2)]]] that show ?thesis by blast
    next
      case ok
      note he3 = he2 [unfolded if_not_P [OF ok(1)] if_not_P [OF ok(2)]]
      have q: "0 < Sequence ev" "Sequence ev \<le> max64" using ok unat64_le [of "hSequence (fHeader f)"] by auto
      obtain ra c1 where re: "reserve_event w (Sequence ev) s c = (ra, c1)" by (cases "reserve_event w (Sequence ev) s c")
      obtain h1 where h1: "path h h1" "sim W M h1 c1" "hClaims h1 = hClaims h"
        "case ra of Inl e \<Rightarrow> hInFlight h1 = hInFlight h
         | Inr a \<Rightarrow> resKey a = sKey s \<and> resSeq a = Sequence ev \<and> (\<exists>b. hInFlight h1 = (a, b) # hInFlight h)"
        by (rule reserve_event_sim [OF sim q re])
      show ?thesis
      proof (cases ra)
        case (Inl e)
        with he3 re h1 show ?thesis by (intro that [of h1]) (auto simp: flight_path_def acks_event_def)
      next
        case (Inr a)
        then obtain b where a: "resKey a = sKey s" "resSeq a = Sequence ev" "hInFlight h1 = (a, b) # hInFlight h"
          using h1(4) by auto
        then have fl: "(a, b) \<in> set (hInFlight h1)" by simp
        obtain r3 s3 c3 where g: "gated_event w ev s c1 = (r3, s3, c3)" by (cases "gated_event w ev s c1") auto
        obtain h2 where h2: "frame_path h1 h2" "sim W M h2 c3" "acks_event h2 s s3"
          by (rule gated_event_sim [OF h1(2) fl a(1,2) g])
        have fl2: "hInFlight h2 = (a, b) # hInFlight h" using a(3) h2(1) by (simp add: frame_path_def)
        obtain h3 where h3: "path h2 h3" "sim W M h3 (c3\<lparr> cDedup := release_arrival a (cDedup c3) \<rparr>)" "hClaims h3 = hClaims h2"
          "hInFlight h3 = hInFlight h" "\<And>k n. point_safe h2 k n \<Longrightarrow> point_safe h3 k n"
          by (rule release_sim [OF h2(2) fl2]) blast
        have e: "s' = s3" "c' = c3\<lparr> cDedup := release_arrival a (cDedup c3) \<rparr>"
          using he3 [unfolded re Inr prod.case sum.case g Let_def] by simp_all
        have "path h h3" using path_trans [OF path_trans [OF h1(1)] h3(1)] h2(1) by (simp add: frame_path_def)
        then have "flight_path h h3" using h3(3,4) h1(3) h2(1) by (simp add: flight_path_def frame_path_def)
        moreover have "acks_event h3 s s3" using h2(3) h3(5) by (auto simp: acks_event_def)
        ultimately show ?thesis using h3(2) e by (intro that [of h3]) simp_all
      qed
    qed
  qed
qed


subsection \<open>Sessions\<close>

text \<open>
  A sequence number is backed when, at some moment since \<open>h0\<close>, everything from the anchor of the
  stream up to it was accepted by the sinks or covered by an accepted loss report.
\<close>

definition backed :: "history \<Rightarrow> history \<Rightarrow> streamKey \<Rightarrow> nat \<Rightarrow> bool" where
  "backed h0 h k n \<longleftrightarrow> n = 0 \<or> (\<exists>h1. path h0 h1 \<and> path h1 h \<and> point_safe h1 k n)"

definition acks_backed :: "history \<Rightarrow> history \<Rightarrow> session \<Rightarrow> bool" where
  "acks_backed h0 h s \<longleftrightarrow> backed h0 h (sKey s) (sAckPoint s) \<and>
     (\<forall>n \<in> set (points_of (sSent s) @ resumes_of (sSent s)). backed h0 h (sKey s) n) \<and>
     sAcked s \<le> sAckPoint s \<and> (\<forall>n \<in> set (points_of (sSent s)). 0 < n \<and> n \<le> sAcked s) \<and>
     sorted_wrt (<) (points_of (sSent s))"

lemma backed_path: "backed h0 h k n \<Longrightarrow> path h h' \<Longrightarrow> backed h0 h' k n"
  unfolding backed_def using path_trans by blast

lemma backed_now: "path h0 h \<Longrightarrow> point_safe h k n \<Longrightarrow> backed h0 h k n"
  unfolding backed_def using path_refl by blast

lemma acks_backed_path: "acks_backed h0 h s \<Longrightarrow> path h h' \<Longrightarrow> no_ack s s' \<Longrightarrow> acks_backed h0 h' s'"
  unfolding acks_backed_def no_ack_def using backed_path by metis

lemma advanceAck_fields [simp]:
  "sKey (advanceAck n s) = sKey s" "sSent (advanceAck n s) = sSent s" "sAcked (advanceAck n s) = sAcked s"
  "sAckPoint (advanceAck n s) = max n (sAckPoint s)"
  by (simp_all add: advanceAck_def Let_def)

lemma acks_backed_event:
  assumes "acks_backed h0 h s" "path h0 h" "path h h'" "acks_event h' s s'"
  shows "acks_backed h0 h' s'"
  using assms(4) unfolding acks_event_def
proof (elim disjE exE conjE)
  assume "no_ack s s'"
  with assms show ?thesis by (blast intro: acks_backed_path)
next
  fix n s1
  assume a: "no_ack s s1" "s' = advanceAck n s1" "point_safe h' (sKey s) n"
  have ok: "acks_backed h0 h' s1" using assms(1,3) a(1) by (rule acks_backed_path)
  have "backed h0 h' (sKey s1) n" using backed_now [OF path_trans [OF assms(2,3)] a(3)] a(1) by (simp add: no_ack_def)
  with ok show ?thesis by (simp add: acks_backed_def a(2) max_def)
qed

lemma flushAck_backed:
  assumes "acks_backed h0 h s" "flushAck w s c = (ok, s', c')"
  shows "acks_backed h0 h s'" "quiet c c'"
proof -
  have "acks_backed h0 h s' \<and> quiet c c'"
  proof (cases "sAckPoint s \<le> sAcked s")
    case True
    with assms show ?thesis by (simp add: flushAck_def)
  next
    case False
    then have s': "s' = s\<lparr> sAcked := sAckPoint s, sPending := 0, sSent := sSent s @ [AckMsg \<lparr> ackSequence = sAckPoint s \<rparr>] \<rparr>"
      "c' = tick_world c" using assms(2) by (auto simp: flushAck_def send_def)
    have "\<forall>n \<in> set (points_of (sSent s)). n < sAckPoint s" using False assms(1) by (auto simp: acks_backed_def)
    moreover have "0 < sAckPoint s" using False by simp
    ultimately show ?thesis using assms(1) s'(2) by (auto simp: s'(1) acks_backed_def sorted_wrt_append)
  qed
  then show "acks_backed h0 h s'" "quiet c c'" by simp_all
qed

lemma ack_wake_backed:
  assumes "acks_backed h0 h s" "ack_wake w s c = (ok, s', c')"
  shows "acks_backed h0 h s'" "quiet c c'"
proof -
  have "acks_backed h0 h (s\<lparr> sSignal := False \<rparr>)" using assms(1) by (simp add: acks_backed_def)
  from flushAck_backed [OF this] assms(2) show "acks_backed h0 h s'" "quiet c c'" by (simp_all add: ack_wake_def)
qed

lemma handlePing_quiet: "handlePing w j errText f s c = (r, s', c') \<Longrightarrow> quiet c c' \<and> no_ack s s'"
proof (cases "DecodePayload (jPing j) (Some f)")
  case (Inl e)
  assume "handlePing w j errText f s c = (r, s', c')"
  with Inl show ?thesis using quiet_violation [of w errText "BadPing e" s c r s' c'] by (simp add: handlePing_def)
next
  case (Inr ping)
  assume hp: "handlePing w j errText f s c = (r, s', c')"
  obtain ok s1 c1 where i: "requireResolvedIdentity w s c = (ok, s1, c1)" by (cases "requireResolvedIdentity w s c") auto
  note q = quiet_identity [OF i]
  obtain t c2 where n: "now w (monitor_seen w s1 c1) = (t, c2)" by (cases "now w (monitor_seen w s1 c1)")
  have q2: "quiet c c2" using q quiet_monitor_seen quiet_now [OF n] quiet_trans by blast
  show ?thesis
  proof (cases ok)
    case False
    with hp q i Inr show ?thesis by (simp add: handlePing_def)
  next
    case True
    have "s' = s1\<lparr> sSent := sSent s1 @ [PongMsg \<lparr> poEchoUptime = pgUptimeSeconds ping, poUnixNano = t \<rparr>] \<rparr>" "c' = tick_world c2"
      using hp True i n Inr by (auto simp: handlePing_def send_def)
    then show ?thesis using q q2 quiet_trans [OF q2 quiet_tick] by (auto simp: no_ack_def)
  qed
qed

text \<open>The collector's state and the acknowledgements of a session, both as they should be.\<close>

definition session_ok :: "int \<Rightarrow> int \<Rightarrow> history \<Rightarrow> session \<Rightarrow> collector \<Rightarrow> history \<Rightarrow> bool" where
  "session_ok W M h0 s c h \<longleftrightarrow> flight_path h0 h \<and> sim W M h c \<and> acks_backed h0 h s"

lemma session_quiet:
  assumes "session_ok W M h0 s c h" "quiet c c'" "no_ack s s'"
  shows "session_ok W M h0 s' c' h"
  using assms sim_quiet acks_backed_path [OF _ path_refl] by (auto simp: session_ok_def)

lemma session_event:
  assumes ok: "session_ok W M h0 s c h" and he: "handleEvent w j errText f s c = (r, s', c')"
  shows "\<exists>h'. session_ok W M h0 s' c' h'"
proof -
  have s: "flight_path h0 h" "sim W M h c" "acks_backed h0 h s" using ok by (simp_all add: session_ok_def)
  obtain h' where h': "flight_path h h'" "sim W M h' c'" "acks_event h' s s'" by (rule handleEvent_sim [OF s(2) he])
  have "acks_backed h0 h' s'" using s h' by (intro acks_backed_event [OF s(3)]) (simp_all add: flight_path_def)
  with h' flight_path_trans [OF s(1) h'(1)] show ?thesis by (auto simp: session_ok_def)
qed

lemma session_retry:
  assumes ok: "session_ok W M h0 s c h"
  shows "\<exists>h'. session_ok W M h0 s (retryPendingGaps w c) h'"
proof -
  have s: "flight_path h0 h" "sim W M h c" "acks_backed h0 h s" using ok by (simp_all add: session_ok_def)
  obtain h' where h': "frame_path h h'" "sim W M h' (retryPendingGaps w c)" by (rule retryPendingGaps_sim [OF s(2)])
  have "acks_backed h0 h' s" using h'(1) by (intro acks_backed_path [OF s(3)]) (simp_all add: frame_path_def)
  with h' flight_path_trans [OF s(1) frame_flight [OF h'(1)]] show ?thesis by (auto simp: session_ok_def)
qed

lemma serve_frame_cases:
  assumes "serve_frame w j errText x s c0 = (out, s', c')" and c: "c = c0\<lparr> cFramesReceived := cFramesReceived c0 + 1 \<rparr>"
  obtains (event) f r where "x = Inr f" "handleEvent w j errText f s c = (r, s', c')"
  | (other) "quiet c0 c'" "no_ack s s'"
proof (cases x)
  case (Inl e)
  with assms other show ?thesis by (simp add: serve_frame_def)
next
  case (Inr f)
  have q: "quiet c0 c" by (rule quiet_fields) (simp_all add: c)
  let ?fin = "\<lambda>(r, s', c'). (case r of Inr _ \<Rightarrow> Continue | Inl e \<Rightarrow> Failed e, s', c')"
  have vio: ?thesis if "?fin (violation w errText v s c :: (session_error, unit) result \<times> session \<times> collector) = (out, s', c')" for v
  proof (cases "violation w errText v s c :: (session_error, unit) result \<times> session \<times> collector")
    case (fields r s1 c1)
    with that quiet_violation [OF fields] quiet_trans [OF q] show ?thesis by (intro other) auto
  qed
  note sf = assms(1) [unfolded serve_frame_def Inr sum.case Let_def, folded c]
  consider "hType (fHeader f) = MsgEvent" | "hType (fHeader f) \<noteq> MsgEvent" "hType (fHeader f) = MsgPing"
    | "hType (fHeader f) \<noteq> MsgEvent" "hType (fHeader f) \<noteq> MsgPing" "hType (fHeader f) = MsgShutdown"
    | "hType (fHeader f) \<noteq> MsgEvent" "hType (fHeader f) \<noteq> MsgPing" "hType (fHeader f) \<noteq> MsgShutdown" "hType (fHeader f) = MsgError"
    | "hType (fHeader f) \<noteq> MsgEvent" "hType (fHeader f) \<noteq> MsgPing" "hType (fHeader f) \<noteq> MsgShutdown" "hType (fHeader f) \<noteq> MsgError"
    by blast
  then show ?thesis
  proof cases
    case 1
    obtain r s1 c1 where he: "handleEvent w j errText f s c = (r, s1, c1)" by (cases "handleEvent w j errText f s c") auto
    show ?thesis using sf [unfolded if_P [OF 1] he] he Inr by (intro event [of f r]) simp_all
  next
    case 2
    obtain r s1 c1 where he: "handlePing w j errText f s c = (r, s1, c1)" by (cases "handlePing w j errText f s c") auto
    show ?thesis using sf [unfolded if_not_P [OF 2(1)] if_P [OF 2(2)] he] handlePing_quiet [OF he] quiet_trans [OF q]
      by (intro other) auto
  next
    case 3
    note sf' = sf [unfolded if_not_P [OF 3(1)] if_not_P [OF 3(2)] if_P [OF 3(3)]]
    show ?thesis
    proof (cases "DecodePayload (jShutdown j) (Some f)")
      case (Inl e)
      from vio [OF sf' [unfolded Inl sum.case]] show ?thesis .
    next
      case (Inr m)
      from sf' [unfolded Inr sum.case] q show ?thesis by (intro other) (auto simp: no_ack_def)
    qed
  next
    case 4
    note sf' = sf [unfolded if_not_P [OF 4(1)] if_not_P [OF 4(2)] if_not_P [OF 4(3)] if_P [OF 4(4)]]
    show ?thesis
    proof (cases "DecodePayload (jError j) (Some f)")
      case (Inl e)
      from vio [OF sf' [unfolded Inl sum.case]] show ?thesis .
    next
      case (Inr m)
      from sf' [unfolded Inr sum.case] q show ?thesis by (intro other) (auto simp: no_ack_def split: if_splits)
    qed
  next
    case 5
    from vio [OF sf [unfolded if_not_P [OF 5(1)] if_not_P [OF 5(2)] if_not_P [OF 5(3)] if_not_P [OF 5(4)]]] show ?thesis .
  qed
qed

lemma session_frame:
  assumes ok: "session_ok W M h0 s c h" and sf: "serve_frame w j errText x s c = (out, s', c')"
  shows "\<exists>h'. session_ok W M h0 s' c' h'"
proof -
  consider (event) f r where "x = Inr f" "handleEvent w j errText f s (c\<lparr> cFramesReceived := cFramesReceived c + 1 \<rparr>) = (r, s', c')"
    | (other) "quiet c c'" "no_ack s s'"
    by (rule serve_frame_cases [OF sf refl])
  then show ?thesis
  proof cases
  case (event f r)
  have "quiet c (c\<lparr> cFramesReceived := cFramesReceived c + 1 \<rparr>)" by (rule quiet_fields) simp_all
  from session_event [OF session_quiet [OF ok this no_ack_refl] event(2)] show ?thesis .
next
  case other
  from session_quiet [OF ok other] show ?thesis by blast
  qed
qed

lemma session_serve:
  assumes "session_ok W M h0 s c h" "serve w j errText ins s c = (out, s', c')"
  shows "\<exists>h'. session_ok W M h0 s' c' h'"
  using assms
proof (induction w j errText ins s c arbitrary: h rule: serve.induct)
  case (2 w j errText f ins s c)
  obtain o1 s1 c1 where sf: "serve_frame w j errText f s c = (o1, s1, c1)" by (cases "serve_frame w j errText f s c") auto
  from session_frame [OF 2(2) sf] obtain h1 where h1: "session_ok W M h0 s1 c1 h1" by blast
  show ?case
  proof (cases o1)
    case Continue
    with 2(1) [OF sf [symmetric] Continue refl h1] 2(3) sf show ?thesis by simp
  qed (use h1 2(3) sf in auto)
next
  case (3 w j errText ins s c)
  obtain ok s1 c1 where aw: "ack_wake w s c = (ok, s1, c1)" by (cases "ack_wake w s c") auto
  have "session_ok W M h0 s1 c1 h"
    using 3(2) ack_wake_backed [OF _ aw] sim_quiet by (auto simp: session_ok_def)
  from 3(1) [OF aw [symmetric] refl refl this] 3(3) aw show ?case by simp
next
  case (4 w j errText ins s c)
  from session_retry [OF 4(2)] obtain h1 where "session_ok W M h0 s (retryPendingGaps w c) h1" by blast
  from 4(1) [OF this] 4(3) show ?case by simp
qed auto

lemma check_missing_sim:
  assumes sim: "sim W M h c" and q: "q \<le> max64" and cm: "check_missing w q s c = (r, c')"
  obtains h' where "frame_path h h'" "sim W M h' c'"
proof -
  obtain m d where cr: "CheckReplay (sKey s) q (cDedup c) = (m, d)" by (cases "CheckReplay (sKey s) q (cDedup c)")
  let ?h = "h\<lparr> hTable := snd (CheckReplay (sKey s) q (hTable h)) \<rparr>"
  have st: "dedup_step h ?h" by (rule replay [OF q])
  have d: "snd (CheckReplay (sKey s) q (hTable h)) = d" "fst (CheckReplay (sKey s) q (hTable h)) = m"
    using cr sim_table [OF sim] by simp_all
  have s1: "path h ?h" "sim W M ?h (c\<lparr> cDedup := d \<rparr>)" using cDedup_update_sim [OF sim st, of d] d(1) by simp_all
  have f1: "frame_path h ?h" using s1(1) by (simp add: frame_path_def)
  have le: "GapFirst m \<le> GapLast m" if "Gap m"
    using CheckReplay_gap_range [OF reachable_inv [OF sim_reachable [OF s1(2)]]] that d(2) by simp
  define reason where "reason = (if q > GapLast m then ''agent cannot replay below its first_sequence''
      else ''sequence numbers skipped before reconnect'')"
  have c': "c' = (if Gap m then reportGap w (GapFirst m) (GapLast m) (GapVersion m) reason s (c\<lparr> cDedup := d \<rparr>)
      else c\<lparr> cDedup := d \<rparr>)"
    using cm unfolding check_missing_def cr Let_def prod.case reason_def [symmetric] by simp
  show ?thesis
  proof (cases "Gap m")
    case True
    obtain h2 where h2: "frame_path ?h h2" "sim W M h2 (reportGap w (GapFirst m) (GapLast m) (GapVersion m) reason s (c\<lparr> cDedup := d \<rparr>))"
      by (rule reportGap_sim [OF s1(2) le [OF True]])
    with True c' frame_path_trans [OF f1 h2(1)] show ?thesis by (intro that [of h2]) simp_all
  next
    case False
    with c' s1 f1 show ?thesis by (intro that [of ?h]) simp_all
  qed
qed

text \<open>A session that has not sent anything yet.\<close>

definition fresh :: "session \<Rightarrow> bool" where
  "fresh s \<longleftrightarrow> sAckPoint s = 0 \<and> sAcked s = 0 \<and> sSent s = []"

lemma fresh_backed: "fresh s \<Longrightarrow> acks_backed h0 h s"
  by (simp add: fresh_def acks_backed_def backed_def)

lemma flight_path_refl [simp]: "flight_path h h"
  by (simp add: flight_path_def)

lemma fresh_ok: "fresh s \<Longrightarrow> sim W M h c \<Longrightarrow> session_ok W M h s c h"
  by (simp add: session_ok_def fresh_backed)

lemma session_hello:
  assumes sim: "sim W M h c" and f: "fresh s" and q: "hlFirstSequence hello \<le> max64"
    and ah: "accept_hello w hv mp hello s c = (r, s', c')"
  shows "\<exists>h'. session_ok W M h s' c' h'"
proof -
  let ?s1 = "s\<lparr> sSrc := (sSrc s)\<lparr> srcReported := Some (reportedFrom hello) \<rparr>,
                  sKey := \<lparr> keyPeer = bucket (sPeer s), keyBoot = hlBootID hello \<rparr> \<rparr>"
  obtain n d where rf: "ResumeFrom (sKey ?s1) (cDedup c) = (n, d)" by (cases "ResumeFrom (sKey ?s1) (cDedup c)")
  let ?msg = "ReadyMsg \<lparr> rdProtocolVersion = unat Frame.Version, rdHostVersion = hv, rdSessionID = sId ?s1,
      rdResumeFrom = n, rdMaxPayloadSize = mp \<rparr>"
  let ?s2 = "?s1\<lparr> sSent := sSent ?s1 @ [?msg] \<rparr>" and ?c1 = "tick_world (c\<lparr> cDedup := d \<rparr>)"
  obtain h1 where h1: "frame_path h h1" "sim W M h1 (c\<lparr> cDedup := d \<rparr>)" "point_safe h1 (sKey ?s1) n"
    by (rule ResumeFrom_sim [OF sim rf])
  have ok1: "session_ok W M h ?s2 ?c1 h1"
    using f h1 sim_quiet [OF h1(2) quiet_tick] backed_now [OF _ h1(3), of h] frame_flight [OF h1(1)]
    by (simp add: session_ok_def acks_backed_def fresh_def backed_def [of _ _ _ 0] flight_path_def)
  obtain r2 c2 where cm: "check_missing w (hlFirstSequence hello) ?s2 (monitor_seen w ?s2 ?c1) = (r2, c2)"
    by (cases "check_missing w (hlFirstSequence hello) ?s2 (monitor_seen w ?s2 ?c1)")
  have sim2: "sim W M h1 (monitor_seen w ?s2 ?c1)" using ok1 sim_quiet [OF _ quiet_monitor_seen] by (simp add: session_ok_def)
  obtain h2 where h2: "frame_path h1 h2" "sim W M h2 c2" by (rule check_missing_sim [OF sim2 q cm])
  have ok2: "session_ok W M h ?s2 c2 h2"
    using ok1 h2 flight_path_trans [OF _ frame_flight [OF h2(1)], of h] acks_backed_path [of h h1 ?s2 h2 ?s2]
    by (simp add: session_ok_def frame_path_def)
  have "(r, s', c') = (if \<not> wSend w (cTick c) then (Inl SendFailed, ?s2, ?c1) else (r2, ?s2, c2))"
    unfolding ah [symmetric] accept_hello_def rf [simplified] using cm rf by (simp add: send_def Let_def)
  then show ?thesis using ok1 ok2 by (cases "wSend w (cTick c)") auto
qed

lemma session_handshake:
  assumes sim: "sim W M h c" and f: "fresh s" and q: "\<forall>p x rest. jHello j p = Some (x, rest) \<longrightarrow> hlFirstSequence x \<le> max64"
    and hs: "handshake w j errText hv mp received s c = (r, s', c')"
  shows "\<exists>h'. session_ok W M h s' c' h'"
proof (cases received)
  case (Inl e)
  with hs fresh_ok [OF f sim] show ?thesis by (auto simp: handshake_def)
next
  case (Inr fr)
  let ?c = "c\<lparr> cFramesReceived := cFramesReceived c + 1 \<rparr>"
  have qc: "quiet c ?c" by (rule quiet_fields) simp_all
  note sim1 = sim_quiet [OF sim qc] and hs1 = hs [unfolded handshake_def Inr sum.case Let_def]
  have vio: ?thesis if "violation w errText v s ?c = (r, s', c')" for v
    using session_quiet [OF fresh_ok [OF f sim1]] quiet_violation [OF that] by blast
  show ?thesis
  proof (cases "hType (fHeader fr) \<noteq> MsgHello")
    case True
    from vio [OF hs1 [unfolded if_P [OF True]]] show ?thesis .
  next
    case False
    note hs2 = hs1 [unfolded if_not_P [OF False]]
    show ?thesis
    proof (cases "DecodePayload (jHello j) (Some fr)")
      case (Inl e)
      from vio [OF hs2 [unfolded Inl sum.case]] show ?thesis .
    next
      case (Inr hello)
      note hs3 = hs2 [unfolded Inr sum.case]
      have "\<exists>rest. jHello j (fPayload fr) = Some (hello, rest)" using Inr by (auto simp: DecodePayload_def split: option.splits if_splits)
      with q have "hlFirstSequence hello \<le> max64" by blast
      then show ?thesis using hs3 vio session_hello [OF sim1 f] by (auto split: if_splits)
    qed
  qed
qed

lemma session_finish: "finish_session w sessText err s c = (s', c') \<Longrightarrow> quiet c c' \<and> no_ack s s'"
proof (cases err)
  case (Some e)
  assume fs: "finish_session w sessText err s c = (s', c')"
  let ?c = "c\<lparr> cFrameErrors := cFrameErrors c + 1 \<rparr>"
  have q: "quiet c ?c" by (rule quiet_fields) simp_all
  define x where "x = (case sViolationCode s of
                    Some code \<Rightarrow> (code, s, ?c)
                  | None \<Rightarrow> let (_, s', c') = send w (ErrorMsg \<lparr> erCode = ErrCodeBadFrame, erMessage = sessText e, erFatal = True \<rparr>) s ?c
                            in (ErrCodeBadFrame, s', c'))"
  obtain code s1 c1 where x: "x = (code, s1, c1)" by (cases x) auto
  have x1: "quiet c c1 \<and> no_ack s s1"
    using x q quiet_trans [OF q quiet_tick] by (auto simp: x_def send_def no_ack_def split: option.splits)
  obtain t c2 where n: "now w c1 = (t, c2)" by (cases "now w c1")
  obtain err' c3 where p: "publish w Internal (sSrc s1) (violation_event sessText t e code s1) c2 = (err', c3)"
    by (cases "publish w Internal (sSrc s1) (violation_event sessText t e code s1) c2")
  have q3: "quiet c c3" using x1 quiet_now [OF n] quiet_publish_internal [OF p] by (blast intro: quiet_trans)
  have "(s', c') = (if \<not> isViolation e then (s, c) else (s1, c3))"
    unfolding fs [symmetric] finish_session_def Some option.case Let_def x_def [symmetric, unfolded Let_def] x prod.case n p by simp
  then show ?thesis using x1 q3 by (cases "isViolation e") simp_all
qed (auto simp: finish_session_def)

lemma session_run:
  assumes sim: "sim W M h c" and f: "fresh s" and q: "\<forall>p x rest. jHello j p = Some (x, rest) \<longrightarrow> hlFirstSequence x \<le> max64"
    and rs: "run_session w j errText sessText hv mp hello ins s c = (s', c')"
  shows "\<exists>h'. session_ok W M h s' c' h'"
proof -
  obtain r s1 c1 where hs: "handshake w j errText hv mp hello s c = (r, s1, c1)"
    by (cases "handshake w j errText hv mp hello s c") auto
  from session_handshake [OF sim f q hs] obtain h1 where h1: "session_ok W M h s1 c1 h1" by blast
  show ?thesis
  proof (cases r)
    case (Inl e)
    with rs hs have "finish_session w sessText (Some e) s1 c1 = (s', c')" by (simp add: run_session_def)
    from session_quiet [OF h1] session_finish [OF this] show ?thesis by blast
  next
    case (Inr u)
    obtain out s2 c2 where sv: "serve w j errText ins s1 c1 = (out, s2, c2)" by (cases "serve w j errText ins s1 c1") auto
    from session_serve [OF h1 sv] obtain h2 where h2: "session_ok W M h s2 c2 h2" by blast
    obtain ok s3 c3 where fa: "flushAck w s2 c2 = (ok, s3, c3)" by (cases "flushAck w s2 c2") auto
    have h3: "session_ok W M h s3 c3 h2" using h2 flushAck_backed [OF _ fa] sim_quiet by (auto simp: session_ok_def)
    have "finish_session w sessText (case out of Failed e \<Rightarrow> Some e | _ \<Rightarrow> None) s3 c3 = (s', c')"
      using rs hs sv fa Inr by (simp add: run_session_def)
    from session_quiet [OF h3] session_finish [OF this] show ?thesis by blast
  qed
qed

end
