(* ===== verification/Host_Session_Guarantees.thy ===== *)
theory Host_Session_Guarantees
  imports Host_Session_Safety
begin

section \<open>What a session guarantees\<close>

text \<open>
  The properties of a guest session: it implements the deduplication table, what it acknowledges is
  safe, its acknowledgements increase, malformed events and failed writes leave no trace but a
  report. A concrete session (HELLO, one EVENT, end of input) shows that the hypotheses can hold.
\<close>

subsection \<open>A concrete session\<close>

definition run_world :: world where
  "run_world = \<lparr> wClock = (\<lambda>_. 0), wSink = (\<lambda>_ _. None), wSend = (\<lambda>_. True), wGate = (\<lambda>_. True), wCancelled = (\<lambda>_. False) \<rparr>"

definition run_event :: "nat \<Rightarrow> event" where
  "run_event n = (NewInternal 0 ''sauron.agent.started'' SeverityInfo [])\<lparr> Sequence := n \<rparr>"

text \<open>A stand-in codec: the payload of an event is its sequence number in unary.\<close>

definition run_codec :: codec where
  "run_codec = \<lparr>
     jHello = (\<lambda>_. Some (\<lparr> hlProtocolVersion = 1, hlAgentVersion = [], hlHostname = [], hlBootID = ''boot'',
        hlMachineID = [], hlKernel = [], hlFirstSequence = 1 \<rparr>, [])),
     jEvent = (\<lambda>p. Some (\<lparr> emEvent = Some (run_event (length p)) \<rparr>, [])),
     jPing = (\<lambda>_. None), jShutdown = (\<lambda>_. None), jError = (\<lambda>_. None) \<rparr>"

definition run_frame :: "byte \<Rightarrow> nat \<Rightarrow> frame" where
  "run_frame t n = \<lparr> fHeader = \<lparr> hVersion = 1, hType = t, hFlags = 0, hSequence = of_nat n, hPayloadLen = 0 \<rparr>,
     fPayload = replicate n 0 \<rparr>"

definition run_monitor :: monitor where
  "run_monitor = \<lparr> moEnabled = False, moTimeout = 0, moStartupGrace = 0, moInterval = 0, moHostName = [], hasExpected = False,
     moVMs = [], lastRefresh = None, refreshErr = None, alerts = [], publishing = False, moOverflow = False, streamsLost = 0 \<rparr>"

definition run_collector :: collector where
  "run_collector = \<lparr> cDedup = newDedup 64 4, cMonitor = run_monitor, cLog = [], cTick = 0,
     cPanicked = False, cFramesReceived = 0, cFrameErrors = 0, cEventsReceived = 0, cEventsDuplicate = 0,
     cEventsOutput = 0, cOutputErrors = 0 \<rparr>"

definition run_guest :: session where
  "run_guest = \<lparr> sPeer = \<lparr> peerCid = 3, peerVsock = True, peerAddr = ''vm(3):1'' \<rparr>, sId = ''cid:3-000001'', sSrc = demo_source,
     sKey = \<lparr> keyPeer = [], keyBoot = [] \<rparr>, sAckInterval = 1, sViolationCode = None, sEndReason = [], sAckPoint = 0,
     sAcked = 0, sPending = 0, sSignal = False, sSent = [] \<rparr>"

lemma run_monitor_seen: "cMonitor c = run_monitor \<Longrightarrow> monitor_seen w s c = tick_world (tick_world c)"
  by (cases c) (simp add: monitor_seen_def now_def tick_world_def seen_def run_monitor_def publishPending_def publish_begin_def publish_end_def)

lemma run_identity: "cMonitor c = run_monitor \<Longrightarrow> requireResolvedIdentity w s c = (True, s, tick_world c)"
  by (simp add: requireResolvedIdentity_def now_def identityAvailable_def run_monitor_def tick_world_def)

lemma run_key: "bucket \<lparr> peerCid = 3, peerVsock = True, peerAddr = x \<rparr> = ''cid:3''"
  by (simp add: bucket_def dec_text.simps digit_char_def) code_simp

definition run_ready :: host_message where
  "run_ready = ReadyMsg \<lparr> rdProtocolVersion = 1, rdHostVersion = ''1.0'', rdSessionID = ''cid:3-000001'', rdResumeFrom = 0, rdMaxPayloadSize = 1024 \<rparr>"

definition run_guest1 :: session where
  "run_guest1 = run_guest\<lparr> sKey := demo_key, sSrc := demo_source\<lparr> srcReported := Some \<lparr> repHostname = [], repMachineID = [], repBootID = ''boot'', repKernel = [], repAgentVersion = [] \<rparr> \<rparr>, sSent := [run_ready] \<rparr>"

lemma run_handshake: "handshake run_world run_codec (\<lambda>_. []) ''1.0'' 1024 (Inr (run_frame MsgHello 0)) run_guest run_collector =
   (Inr (), run_guest1, run_collector\<lparr> cTick := 3, cFramesReceived := 1 \<rparr>)"
  by (simp add: handshake_def run_frame_def run_codec_def DecodePayload_def Version_def accept_hello_def run_guest_def run_key
    Let_def ResumeFrom_def newDedup_def run_collector_def send_def run_world_def run_monitor_seen run_guest1_def check_missing_def
    CheckReplay_def zero_result_def tick_world_def demo_key_def run_ready_def reportedFrom_def)

lemma run_arrive: "reserveArrival demo_key 1 src (newDedup 64 4) = (Inr demo_reservation, demo_table)"
  by (simp add: dedup_eval demo_reservation_def demo_table_def demo_stream_def)

lemma run_check: "Check demo_key 1 demo_table = (zero_result, demo_table\<lparr> clock := 2, streams := [(demo_key, demo_stream\<lparr> used := 2 \<rparr>)] \<rparr>)"
  by (simp add: Check_def dedup_eval demo_reservation_def demo_table_def demo_stream_def pendingGap_def safePendingGap_def zero_result_def)

lemma run_commit: "Commit demo_key 1 (demo_table\<lparr> clock := 2, streams := [(demo_key, demo_stream\<lparr> used := 2 \<rparr>)] \<rparr>) =
   ((1, 0), demo_table\<lparr> clock := 3, streams := [(demo_key, demo_stream\<lparr> used := 3, written := 1 \<rparr>)] \<rparr>)"
proof -
  let ?s = "demo_stream\<lparr> used := 3 \<rparr>"
  have a: "absorb (?s\<lparr> ahead := [1] \<rparr>) = ?s\<lparr> written := 1 \<rparr>"
    by (simp add: absorb.simps takeMissing_def demo_stream_def new_stream_def inc64_def max64_def)
  have p: "prunePending (?s\<lparr> written := 1 \<rparr>) = ?s\<lparr> written := 1 \<rparr>"
    by (rule demo_prune [of _ 1]) (simp_all add: demo_stream_def new_stream_def)
  have "commit 64 1 ?s = ((1, 0), ?s\<lparr> written := 1 \<rparr>)"
    using a p by (simp add: commit_def trim_def demo_stream_def new_stream_def)
  then show ?thesis
    by (simp add: Commit_def stream_def tick_def put_stream_def demo_table_def Let_def inc64_def max64_def)
qed

lemma run_event:
  "\<exists>c'. handleEvent run_world run_codec (\<lambda>_. []) (run_frame MsgEvent 1) run_guest1 (run_collector\<lparr> cTick := 3, cFramesReceived := 2 \<rparr>) =
     (Inr (), advanceAck 1 run_guest1, c')"
  by (simp add: handleEvent_def run_frame_def run_codec_def DecodePayload_def run_event_def NewInternal_def
     reserve_event_def run_guest1_def run_collector_def run_arrive [simplified] gated_event_def run_identity run_world_def accept_event_def
    run_monitor_seen check_event_def run_check [simplified] tick_world_def zero_result_def write_event_def now_def sink_write_def
    run_commit [simplified] Let_def)

definition run_demo :: "session \<times> collector" where
  "run_demo = run_session run_world run_codec (\<lambda>_. []) (\<lambda>_. []) ''1.0'' 1024 (Inr (run_frame MsgHello 0))
     [Received (Inr (run_frame MsgEvent 1))] run_guest run_collector"

lemma run_demo_acks: "points_of (sSent (fst run_demo)) = [1]" "sKey (fst run_demo) = demo_key"
proof -
  obtain c' where e: "handleEvent run_world run_codec (\<lambda>_. []) (run_frame MsgEvent 1) run_guest1
      (run_collector\<lparr> cTick := 3, cFramesReceived := 2 \<rparr>) = (Inr (), advanceAck 1 run_guest1, c')"
    using run_event by blast
  have t: "hType (fHeader (run_frame MsgEvent 1)) = MsgEvent" by (simp add: run_frame_def)
  have s: "serve run_world run_codec (\<lambda>_. []) [Received (Inr (run_frame MsgEvent 1))] run_guest1
      (run_collector\<lparr> cTick := 3, cFramesReceived := 1 \<rparr>) = (Continue, advanceAck 1 run_guest1, c')"
    using e t by (simp add: serve_frame_def numeral_2_eq_2 Let_def)
  have g: "sAckPoint run_guest1 = 0" "sAcked run_guest1 = 0" "sSent run_guest1 = [run_ready]" "sKey run_guest1 = demo_key"
    by (simp_all add: run_guest1_def run_guest_def)
  have "fst run_demo = (advanceAck 1 run_guest1)\<lparr> sAcked := 1, sPending := 0, sSent := [run_ready, AckMsg \<lparr> ackSequence = 1 \<rparr>] \<rparr>"
    unfolding run_demo_def run_session_def run_handshake prod.case sum.case s Let_def
    using g by (simp add: flushAck_def send_def finish_session_def max_def)
  then show "points_of (sSent (fst run_demo)) = [1]" "sKey (fst run_demo) = demo_key" using g by (simp_all add: run_ready_def)
qed


lemma run_demo_eq: "run_session run_world run_codec (\<lambda>_. []) (\<lambda>_. []) ''1.0'' 1024 (Inr (run_frame MsgHello 0))
     [Received (Inr (run_frame MsgEvent 1))] run_guest run_collector = (fst run_demo, snd run_demo)"
  by (simp add: run_demo_def)

lemma run_sim: "sim 64 4 (history_init 64 4) run_collector"
  by (simp add: sim_def run_collector_def history_init_def durable_def reported_def fun_eq_iff reachable.init [of 64 4, unfolded history_init_def])

lemma run_fresh: "fresh run_guest"
  by (simp add: fresh_def run_guest_def)

lemma run_hello_bound: "\<forall>p x rest. jHello run_codec p = Some (x, rest) \<longrightarrow> hlFirstSequence x \<le> max64"
  by (auto simp: run_codec_def max64_def)

subsection \<open>Properties\<close>

text \<open>
  C6: A session implements the table. Whatever frames a guest sends, whatever the sinks, the clock,
  the gates and the connection answer, and however the acknowledgement loop and the gap-retry worker
  interleave, a session takes the collector through steps of the deduplication table. The sequences
  the table holds as written and reported are those of the collector's log, every reservation is
  released and every claim finished at the end of the session, and no nil pointer or empty queue is
  dereferenced.
\<close>

theorem session_refines_table:
  assumes "sim W M h c" "fresh s" "\<forall>p x rest. jHello j p = Some (x, rest) \<longrightarrow> hlFirstSequence x \<le> max64"
    "run_session w j errText sessText hostVersion maxPayload hello ins s c = (s', c')"
  shows "\<exists>h'. dedup_step\<^sup>*\<^sup>* h h' \<and> hInFlight h' = hInFlight h \<and> hClaims h' = hClaims h \<and>
    hTable h' = cDedup c' \<and> hDurable h' = durable c' \<and> hReported h' = reported c' \<and> reachable W M h' \<and> \<not> cPanicked c'"
  using session_run [OF assms] by (auto simp: session_ok_def flight_path_def path_def sim_def)

theorem session_refines_table_witness:
  "\<exists>h'. dedup_step\<^sup>*\<^sup>* (history_init 64 4) h' \<and> hInFlight h' = [] \<and> hDurable h' = durable (snd run_demo) \<and>
     \<not> cPanicked (snd run_demo)"
  using session_refines_table [OF run_sim run_fresh run_hello_bound run_demo_eq]
  by (auto simp: history_init_def)

lemma session_point_covered:
  assumes ok: "session_ok W M h s' c' h'" and n: "n \<in> set (points_of (sSent s') @ resumes_of (sSent s'))"
  shows "n = 0 \<or> (\<exists>h1. dedup_step\<^sup>*\<^sup>* h h1 \<and> {hAnchor h1 (sKey s')<..n} \<subseteq> durable c' (sKey s') \<union> reported c' (sKey s'))"
proof -
  have "backed h h' (sKey s') n" using ok n by (simp add: session_ok_def acks_backed_def)
  then consider "n = 0" | h1 where "path h h1" "path h1 h'" "point_safe h1 (sKey s') n" by (auto simp: backed_def)
  then show ?thesis
  proof cases
    case (2 h1)
    have "hDurable h' = durable c'" "hReported h' = reported c'" using ok by (simp_all add: session_ok_def sim_def)
    with path_grows [OF 2(2), of "sKey s'"] 2(3) have "{hAnchor h1 (sKey s')<..n} \<subseteq> durable c' (sKey s') \<union> reported c' (sKey s')"
      by (auto simp: point_safe_def)
    with 2(1) show ?thesis by (auto simp: path_def)
  qed simp
qed



text \<open>The acknowledgements of a session strictly increase.\<close>

theorem session_acks_increase:
  assumes "sim W M h c" "fresh s" "\<forall>p x rest. jHello j p = Some (x, rest) \<longrightarrow> hlFirstSequence x \<le> max64"
    "run_session w j errText sessText hostVersion maxPayload hello ins s c = (s', c')"
  shows "sorted_wrt (<) (points_of (sSent s')) \<and> (\<forall>n \<in> set (points_of (sSent s')). 0 < n)"
  using session_run [OF assms] by (auto simp: session_ok_def acks_backed_def)

theorem session_acks_increase_witness:
  "points_of (sSent (fst run_demo)) = [1] \<and> sorted_wrt (<) (points_of (sSent (fst run_demo)))"
  using session_acks_increase [OF run_sim run_fresh run_hello_bound run_demo_eq] run_demo_acks by blast

text \<open>
  C31: A malformed EVENT (a payload that does not decode or holds no event, a sequence number of zero or
  different from the frame's) is answered with one fatal ERROR that says why, and changes nothing
  else: the table, the log and the monitor are as before, and nothing is acknowledged.
\<close>

theorem bad_event_rejected:
  assumes "case DecodePayload (jEvent j) (Some f) of Inl e \<Rightarrow> v = BadEvent e
    | Inr m \<Rightarrow> (case emEvent m of None \<Rightarrow> v = NoEventObject
       | Some ev \<Rightarrow> Sequence ev = 0 \<and> v = SequenceZero \<or>
          Sequence ev \<noteq> 0 \<and> Sequence ev \<noteq> unat (hSequence (fHeader f)) \<and>
          v = SequenceMismatch (Sequence ev) (unat (hSequence (fHeader f))))"
  shows "handleEvent w j errText f s c = (Inl (Violated v),
    s\<lparr> sViolationCode := Some (violation_code v), sSent := sSent s @
       [ErrorMsg \<lparr> erCode = violation_code v, erMessage = violation_text errText v, erFatal = True \<rparr>] \<rparr>,
    c\<lparr> cTick := Suc (cTick c) \<rparr>)"
  using assms
  by (auto simp: handleEvent_def violation_def send_def tick_world_def split: sum.splits option.splits)

theorem bad_event_rejected_witness:
  "handleEvent run_world run_codec (\<lambda>_. []) (run_frame MsgEvent 0) run_guest run_collector =
   (Inl (Violated SequenceZero), run_guest\<lparr> sViolationCode := Some ErrCodeBadSequence, sSent := sSent run_guest @
       [ErrorMsg \<lparr> erCode = ErrCodeBadSequence, erMessage = violation_text (\<lambda>_. []) SequenceZero, erFatal = True \<rparr>] \<rparr>,
    run_collector\<lparr> cTick := Suc (cTick run_collector) \<rparr>)"
  using bad_event_rejected [where j = run_codec and f = "run_frame MsgEvent 0" and v = SequenceZero and w = run_world
      and errText = "\<lambda>_. []" and s = run_guest and c = run_collector]
  by (simp add: run_codec_def run_frame_def DecodePayload_def run_event_def)

text \<open>
  An event the sinks refuse is not acknowledged: the session and the table are as before, the log
  gains no accepted event, and an alert about the failure follows the refused write. An event the
  sinks accept is in the log before the table commits it, and the acknowledgement point advances to
  what the commit returns.
\<close>

theorem write_event_outcome:
  assumes "write_event w ev s c = (s', c')" "env = envelopeFor (wClock w (cTick c)) (sSrc s) ev"
  shows "case wSink w (Suc (cTick c)) env of
      Some msg \<Rightarrow> s' = s \<and> cDedup c' = cDedup c \<and> durable c' = durable c \<and> reported c' = reported c \<and>
        (\<exists>t e b. cLog c' = cLog c @ [(EventOf (sKey s), env, False), (Internal, e, b)] \<and>
           envEvent e = output_failed_event t msg ev s)
    | None \<Rightarrow> cLog c' = cLog c @ [(EventOf (sKey s), env, True)] \<and> Sequence ev \<in> durable c' (sKey s) \<and>
        s' = advanceAck (fst (fst (Commit (sKey s) (Sequence ev) (cDedup c)))) s \<and>
        cDedup c' = snd (Commit (sKey s) (Sequence ev) (cDedup c))"
proof (cases "wSink w (Suc (cTick c)) env")
  case None
  then have e: "s' = advanceAck (fst (fst (Commit (sKey s) (Sequence ev) (cDedup c)))) s"
    "cDedup c' = snd (Commit (sKey s) (Sequence ev) (cDedup c))" "cLog c' = cLog c @ [(EventOf (sKey s), env, True)]"
    using assms by (auto simp: write_event_def now_def sink_write_def Let_def tick_world_def case_prod_beta)
  have "Sequence (envEvent env) = Sequence ev" by (simp add: assms(2) envelopeFor_def)
  with log_append(1) [OF e(3), of "sKey s"] None e show ?thesis by simp
next
  case (Some msg)
  then have e: "s' = s" "cDedup c' = cDedup c" "\<exists>t e b. cLog c' = cLog c @ [(EventOf (sKey s), env, False), (Internal, e, b)] \<and>
           envEvent e = output_failed_event t msg ev s"
    using assms by (auto simp: write_event_def now_def sink_write_def publish_def envelopeFor_def Let_def tick_world_def)
  from e(3) obtain e1 b where l: "cLog c' = cLog c @ [(EventOf (sKey s), env, False), (Internal, e1, b)]" by blast
  have "durable c' = durable c" "reported c' = reported c" by (simp_all add: durable_def reported_def fun_eq_iff l)
  with e show ?thesis using Some by simp
qed

theorem write_event_outcome_witness:
  "wSink run_world 1 (envelopeFor 0 demo_source (run_event 1)) = None \<and>
   1 \<in> durable (snd (write_event run_world (run_event 1) run_guest run_collector)) (sKey run_guest)"
  using write_event_outcome [of run_world "run_event 1" run_guest run_collector
      "fst (write_event run_world (run_event 1) run_guest run_collector)"
      "snd (write_event run_world (run_event 1) run_guest run_collector)"]
  by (simp add: run_world_def run_event_def)

end
