(* ===== verification/Segment.thy ===== *)
theory Segment
  imports Prelude
begin

section \<open>Spool segments\<close>

text \<open>
  \<^verbatim>\<open>SauronAgent/internal/spool/segment.go\<close>: the record format of a spool file and the walk that reads
  it back, resynchronising after damage. A file is a list of bytes. The callback of the walk threads
  an accumulator. Extracting the sequence number from a payload (JSON) is the parameter \<open>sequenceOf\<close>.
  CRC-32C is \<^verbatim>\<open>hash/crc32\<close> with the Castagnoli table, bit by bit.
\<close>

unbundle bit_operations_syntax

subsection \<open>CRC-32C\<close>

definition crc_shift :: "32 word \<Rightarrow> 32 word" where
  "crc_shift c = (if bit c 0 then drop_bit 1 c XOR 0x82F63B78 else drop_bit 1 c)"

definition crc_byte :: "32 word \<Rightarrow> byte \<Rightarrow> 32 word" where
  "crc_byte c b = (crc_shift ^^ 8) (c XOR ucast b)"

definition Checksum :: "bytes \<Rightarrow> 32 word" where
  "Checksum bs = NOT (foldl crc_byte (NOT 0) bs)"

lemma crc_rounds: "(crc_shift ^^ 8) c =
    crc_shift (crc_shift (crc_shift (crc_shift (crc_shift (crc_shift (crc_shift (crc_shift c)))))))"
  by (simp add: eval_nat_numeral)

lemmas crc_eval = Checksum_def crc_byte_def crc_shift_def crc_rounds

subsection \<open>Names and records\<close>

definition recordHeaderSize :: nat where "recordHeaderSize = 12"
definition maxRecordSize :: nat where "maxRecordSize = 8388608"
definition segmentNameDigits :: nat where "segmentNameDigits = 20"
definition segmentSuffix :: string where "segmentSuffix = ''.seg''"
definition recordMagic :: bytes where "recordMagic = [0x53, 0x52, 0x45, 0x43]"

definition segmentName :: "nat \<Rightarrow> string" where
  "segmentName seq = replicate (segmentNameDigits - length (dec_text seq)) (CHR ''0'') @ dec_text seq @ segmentSuffix"

text \<open>\<open>ParseUint\<close> of \<^verbatim>\<open>strconv\<close> in base 10 with 64 bits: digits only, and in range.\<close>

definition ParseUint :: "string \<Rightarrow> nat option" where
  "ParseUint cs = (if cs = [] \<or> \<not> list_all is_digit cs \<or> dec_value cs > max64 then None else Some (dec_value cs))"

definition parseSegmentName :: "string \<Rightarrow> nat option" where
  "parseSegmentName name =
     (let n = length name - length segmentSuffix; digits = take n name in
      if length name < length segmentSuffix \<or> drop n name \<noteq> segmentSuffix \<or> length digits \<noteq> segmentNameDigits then None
      else ParseUint digits)"

definition encodeRecord :: "bytes \<Rightarrow> bytes" where
  "encodeRecord payload = recordMagic @ PutUint32 (word_of_nat (length payload)) @ PutUint32 (Checksum payload) @ payload"

subsection \<open>The walk\<close>

record walkStats =
  wsCount :: nat
  wsValidEnd :: nat
  wsSkipped :: nat
  wsGapLow :: nat
  wsGapHigh :: nat
  wsTorn :: nat
  wsStopped :: bool

definition zero_stats :: "nat \<Rightarrow> walkStats" where
  "zero_stats start = \<lparr> wsCount = 0, wsValidEnd = start, wsSkipped = 0, wsGapLow = 0, wsGapHigh = 0, wsTorn = 0, wsStopped = False \<rparr>"

text \<open>The header at the front of the remaining bytes: whether a record may start here, and its length.\<close>

definition header_length :: "bytes \<Rightarrow> nat" where
  "header_length rest = unat (Uint32 (slice 4 8 rest))"

definition plausible :: "nat \<Rightarrow> nat \<Rightarrow> bytes \<Rightarrow> bool" where
  "plausible fileSize off rest \<longleftrightarrow> slice 0 4 rest = recordMagic \<and> header_length rest \<noteq> 0 \<and>
     header_length rest \<le> maxRecordSize \<and> off + recordHeaderSize + header_length rest \<le> fileSize"

definition record_payload :: "bytes \<Rightarrow> bytes" where
  "record_payload rest = take (header_length rest) (drop recordHeaderSize rest)"

definition accepted_sequence :: "(bytes \<Rightarrow> nat option) \<Rightarrow> nat \<Rightarrow> bool \<Rightarrow> bytes \<Rightarrow> nat option" where
  "accepted_sequence sequenceOf prevSeq havePrev rest =
     (if Checksum (record_payload rest) \<noteq> Uint32 (slice 8 12 rest) then None
      else case sequenceOf (record_payload rest) of
        None \<Rightarrow> None
      | Some seq \<Rightarrow> if seq = 0 \<or> (havePrev \<and> seq \<le> prevSeq) then None else Some seq)"

definition note_damage :: "nat \<Rightarrow> nat \<Rightarrow> walkStats \<Rightarrow> walkStats" where
  "note_damage prevSeq seq st =
     (let low = inc64 prevSeq; high = (if seq - 1 < low then low else seq - 1) in
      st\<lparr> wsSkipped := wsSkipped st + 1, wsGapLow := (if wsGapLow st = 0 then low else wsGapLow st), wsGapHigh := high \<rparr>)"

text \<open>
  \<open>failing\<close> says how the reader ends, with a read error or with the end of the file. The first
  component of the result says whether the walk returned a read error.
\<close>

function walk_loop :: "(bytes \<Rightarrow> nat option) \<Rightarrow> nat \<Rightarrow> bool \<Rightarrow> ('a \<Rightarrow> nat \<Rightarrow> bytes \<Rightarrow> nat \<Rightarrow> bool \<times> 'a) \<Rightarrow>
    bytes \<Rightarrow> nat \<Rightarrow> nat \<Rightarrow> bool \<Rightarrow> bool \<Rightarrow> walkStats \<Rightarrow> 'a \<Rightarrow> bool \<times> walkStats \<times> 'a" where
  "walk_loop sequenceOf fileSize failing fn rest off prevSeq havePrev inDamage st a =
     (if length rest < recordHeaderSize then (failing, st, a)
      else if \<not> plausible fileSize off rest
      then walk_loop sequenceOf fileSize failing fn (drop 1 rest) (off + 1) prevSeq havePrev True st a
      else if length (drop recordHeaderSize rest) < header_length rest then (failing, st, a)
      else
        let end = off + recordHeaderSize + header_length rest;
            rest' = drop (recordHeaderSize + header_length rest) rest
        in case accepted_sequence sequenceOf prevSeq havePrev rest of
             None \<Rightarrow> walk_loop sequenceOf fileSize failing fn rest' end prevSeq havePrev True st a
           | Some seq \<Rightarrow>
               let st1 = (if inDamage then note_damage prevSeq seq st else st);
                   st2 = st1\<lparr> wsCount := wsCount st1 + 1, wsValidEnd := end \<rparr>;
                   (cont, a') = fn a seq (record_payload rest) end
               in if \<not> cont then (False, st2\<lparr> wsStopped := True \<rparr>, a')
                  else walk_loop sequenceOf fileSize failing fn rest' end seq True False st2 a')"
  by pat_completeness auto
termination
  by (relation "measure (\<lambda>(_, _, _, _, rest, _). length rest)") (auto simp: recordHeaderSize_def)

declare walk_loop.simps [simp del]

definition walkRecords :: "(bytes \<Rightarrow> nat option) \<Rightarrow> bool \<Rightarrow> bytes \<Rightarrow> nat \<Rightarrow> nat \<Rightarrow>
    ('a \<Rightarrow> nat \<Rightarrow> bytes \<Rightarrow> nat \<Rightarrow> bool \<times> 'a) \<Rightarrow> 'a \<Rightarrow> bool \<times> walkStats \<times> 'a" where
  "walkRecords sequenceOf failing r start fileSize fn a = walk_loop sequenceOf fileSize failing fn r start 0 False False (zero_stats start) a"

record segment =
  sgPath :: string
  sgBase :: nat
  sgLast :: nat
  sgCount :: nat
  sgSize :: nat
  sgReported :: nat
  sgUndecodable :: nat

text \<open>What happens to one attempt to read a file: it cannot be opened, or reading stops with an error after some bytes.\<close>

datatype read_outcome = ReadOk | OpenFails | ReadFails nat

definition walk :: "(bytes \<Rightarrow> nat option) \<Rightarrow> read_outcome \<Rightarrow> bytes option \<Rightarrow> nat \<Rightarrow>
    ('a \<Rightarrow> nat \<Rightarrow> bytes \<Rightarrow> nat \<Rightarrow> bool \<times> 'a) \<Rightarrow> 'a \<Rightarrow> bool \<times> walkStats \<times> 'a" where
  "walk sequenceOf outcome file start fn a =
     (case file of
        None \<Rightarrow> (True, zero_stats start, a)
      | Some bs \<Rightarrow>
          (case outcome of
             OpenFails \<Rightarrow> (True, zero_stats start, a)
           | ReadFails n \<Rightarrow> walkRecords sequenceOf True (take n (drop start bs)) start (length bs) fn a
           | ReadOk \<Rightarrow> walkRecords sequenceOf False (drop start bs) start (length bs) fn a))"

definition scan_step :: "segment \<Rightarrow> nat \<Rightarrow> bytes \<Rightarrow> nat \<Rightarrow> bool \<times> segment" where
  "scan_step sg seq payload end =
     (True, sg\<lparr> sgBase := (if sgCount sg = 0 then seq else sgBase sg), sgCount := sgCount sg + 1, sgLast := seq \<rparr>)"

text \<open>
  \<open>scanSegment\<close>: the segment, the statistics, and the file cut back to its last valid record.
  \<open>statOk\<close> and \<open>truncates\<close> say whether asking for the size of the file and cutting it succeed.
\<close>

definition scanSegment :: "(bytes \<Rightarrow> nat option) \<Rightarrow> read_outcome \<Rightarrow> bool \<Rightarrow> bool \<Rightarrow> bytes option \<Rightarrow> string \<Rightarrow> nat \<Rightarrow>
    (segment \<times> walkStats \<times> bytes) option" where
  "scanSegment sequenceOf outcome statOk truncates file path nameBase =
     (case walk sequenceOf outcome file 0 scan_step
         \<lparr> sgPath = path, sgBase = nameBase, sgLast = 0, sgCount = 0, sgSize = 0, sgReported = 0, sgUndecodable = 0 \<rparr> of
        (True, _) \<Rightarrow> None
      | (False, st, sg) \<Rightarrow>
          let sg1 = sg\<lparr> sgSize := wsValidEnd st, sgReported := wsSkipped st \<rparr>;
              low = (if wsGapLow st \<noteq> 0 \<and> wsGapLow st < nameBase then nameBase else wsGapLow st);
              high = (if wsGapHigh st < low then low else wsGapHigh st);
              bs = (case file of Some bs \<Rightarrow> bs | None \<Rightarrow> [])
          in if \<not> statOk then None
             else if length bs > wsValidEnd st
             then if truncates
                  then Some (sg1, st\<lparr> wsGapLow := low, wsGapHigh := high, wsTorn := length bs - wsValidEnd st \<rparr>, take (wsValidEnd st) bs)
                  else None
             else Some (sg1, st\<lparr> wsGapLow := low, wsGapHigh := high \<rparr>, bs))"

subsection \<open>One record\<close>

lemma length_encodeRecord [simp]: "length (encodeRecord p) = recordHeaderSize + length p"
  by (simp add: encodeRecord_def recordMagic_def recordHeaderSize_def)

lemma record_header:
  assumes "length p < 2 ^ 32"
  shows "slice 0 4 (encodeRecord p @ r) = recordMagic" "header_length (encodeRecord p @ r) = length p"
    "slice 8 12 (encodeRecord p @ r) = PutUint32 (Checksum p)" "drop recordHeaderSize (encodeRecord p @ r) = p @ r"
proof -
  have l: "length (PutUint32 x) = 4" for x by simp
  show "slice 0 4 (encodeRecord p @ r) = recordMagic" by (simp add: encodeRecord_def slice_def recordMagic_def)
  have "slice 4 8 (encodeRecord p @ r) = PutUint32 (word_of_nat (length p))"
    using l by (simp add: encodeRecord_def slice_def recordMagic_def)
  then show "header_length (encodeRecord p @ r) = length p"
    using assms by (simp add: header_length_def unat_of_nat)
  show "slice 8 12 (encodeRecord p @ r) = PutUint32 (Checksum p)"
    using l by (simp add: encodeRecord_def slice_def recordMagic_def)
  show "drop recordHeaderSize (encodeRecord p @ r) = p @ r"
    using l by (simp add: encodeRecord_def recordMagic_def recordHeaderSize_def)
qed

text \<open>A payload \<open>p\<close> that may be written with sequence number \<open>q\<close>.\<close>

definition record_ok :: "(bytes \<Rightarrow> nat option) \<Rightarrow> nat \<times> bytes \<Rightarrow> bool" where
  "record_ok sequenceOf qp \<longleftrightarrow> sequenceOf (snd qp) = Some (fst qp) \<and> 0 < fst qp \<and> snd qp \<noteq> [] \<and> length (snd qp) \<le> maxRecordSize"

definition encode_all :: "(nat \<times> bytes) list \<Rightarrow> bytes" where
  "encode_all qps = concat (map (\<lambda>qp. encodeRecord (snd qp)) qps)"

lemma encode_all_simps [simp]:
  "encode_all [] = []" "encode_all (qp # qps) = encodeRecord (snd qp) @ encode_all qps"
  "encode_all (xs @ ys) = encode_all xs @ encode_all ys"
  by (simp_all add: encode_all_def)

lemma record_step:
  assumes ok: "record_ok sequenceOf (q, p)" and prev: "havePrev \<longrightarrow> prevSeq < q" and sz: "off + recordHeaderSize + length p \<le> fileSize"
  shows "walk_loop sequenceOf fileSize failing fn (encodeRecord p @ r) off prevSeq havePrev inDamage st a =
    (let st1 = (if inDamage then note_damage prevSeq q st else st);
         end = off + recordHeaderSize + length p;
         st2 = st1\<lparr> wsCount := wsCount st1 + 1, wsValidEnd := end \<rparr>;
         (cont, a') = fn a q p end
     in if \<not> cont then (False, st2\<lparr> wsStopped := True \<rparr>, a')
        else walk_loop sequenceOf fileSize failing fn r end q True False st2 a')"
proof -
  have p: "length p < 2 ^ 32" "length p \<le> maxRecordSize" "p \<noteq> []" using ok by (auto simp: record_ok_def maxRecordSize_def)
  note h = record_header [OF p(1), of r]
  have pl: "plausible fileSize off (encodeRecord p @ r)"
    using p sz unfolding plausible_def h by simp
  have py: "record_payload (encodeRecord p @ r) = p" unfolding record_payload_def h by simp
  have ac: "accepted_sequence sequenceOf prevSeq havePrev (encodeRecord p @ r) = Some q"
    using ok prev unfolding accepted_sequence_def py h by (auto simp: record_ok_def)
  have d: "drop (recordHeaderSize + length p) (encodeRecord p @ r) = r" by simp
  show ?thesis
    by (subst walk_loop.simps) (simp add: pl ac py h(2) h(4) d Let_def)
qed

subsection \<open>Runs of records, and damage\<close>

text \<open>Calling back for every record of a run until the callback stops: whether it went on to the end, how many records, where they end.\<close>

fun deliver :: "('a \<Rightarrow> nat \<Rightarrow> bytes \<Rightarrow> nat \<Rightarrow> bool \<times> 'a) \<Rightarrow> nat \<Rightarrow> (nat \<times> bytes) list \<Rightarrow> 'a \<Rightarrow> bool \<times> nat \<times> nat \<times> 'a" where
  "deliver fn off [] a = (True, 0, off, a)"
| "deliver fn off (qp # qps) a =
     (let end = off + recordHeaderSize + length (snd qp); (cont, a') = fn a (fst qp) (snd qp) end in
      if \<not> cont then (False, 1, end, a')
      else let (b, n, e, a'') = deliver fn end qps a' in (b, n + 1, e, a''))"

definition rising :: "(nat \<times> bytes) list \<Rightarrow> bool" where
  "rising qps \<longleftrightarrow> sorted_wrt (<) (map fst qps)"

lemma rising_simps [simp]: "rising []" "rising (qp # qps) \<longleftrightarrow> (\<forall>x \<in> set qps. fst qp < fst x) \<and> rising qps"
  by (auto simp: rising_def)

lemma rising_append: "rising (xs @ ys) \<longleftrightarrow> rising xs \<and> rising ys \<and> (\<forall>x \<in> set xs. \<forall>y \<in> set ys. fst x < fst y)"
  by (auto simp: rising_def sorted_wrt_append)

lemma deliver_end: "deliver fn off qps a = (True, n, e, a') \<Longrightarrow> n = length qps \<and> e = off + length (encode_all qps)"
proof (induction qps arbitrary: off a n e a')
  case (Cons qp qps)
  obtain c a1 where f: "fn a (fst qp) (snd qp) (off + recordHeaderSize + length (snd qp)) = (c, a1)" by fastforce
  obtain b n1 e1 a2 where d: "deliver fn (off + recordHeaderSize + length (snd qp)) qps a1 = (b, n1, e1, a2)" by (metis prod.exhaust)
  from Cons(2) f d have "b" "n = Suc n1" "e = e1" "a' = a2" by (auto simp: Let_def split: if_splits)
  with Cons(1) [of "off + recordHeaderSize + length (snd qp)" a1 n1 e1 a2] d show ?case by simp
qed simp

lemma walk_run:
  assumes "list_all (record_ok sequenceOf) qps" "rising qps" "havePrev \<longrightarrow> (\<forall>x \<in> set qps. prevSeq < fst x)"
    "off + length (encode_all qps) \<le> fileSize" "wsValidEnd st = off"
  shows "walk_loop sequenceOf fileSize failing fn (encode_all qps @ r) off prevSeq havePrev False st a =
    (let (b, n, e, a') = deliver fn off qps a; st' = st\<lparr> wsCount := wsCount st + n, wsValidEnd := e \<rparr> in
     if \<not> b then (False, st'\<lparr> wsStopped := True \<rparr>, a')
     else walk_loop sequenceOf fileSize failing fn r e (if qps = [] then prevSeq else fst (last qps)) (havePrev \<or> qps \<noteq> []) False st' a')"
  using assms
proof (induction qps arbitrary: off prevSeq havePrev st a)
  case Nil
  then have "st\<lparr> wsCount := wsCount st + 0, wsValidEnd := off \<rparr> = st" by simp
  then show ?case by simp
next
  case (Cons qp qps)
  obtain q p where qp: "qp = (q, p)" by (cases qp)
  let ?e = "off + recordHeaderSize + length p"
  obtain c a1 where f: "fn a q p ?e = (c, a1)" by fastforce
  have ok: "record_ok sequenceOf (q, p)" and prev: "havePrev \<longrightarrow> prevSeq < q" and sz: "?e \<le> fileSize"
    using Cons(2,4,5) by (auto simp: qp)
  let ?st = "st\<lparr> wsCount := wsCount st + 1, wsValidEnd := ?e \<rparr>"
  have step: "walk_loop sequenceOf fileSize failing fn (encodeRecord p @ encode_all qps @ r) off prevSeq havePrev False st a =
      (if \<not> c then (False, ?st\<lparr> wsStopped := True \<rparr>, a1)
       else walk_loop sequenceOf fileSize failing fn (encode_all qps @ r) ?e q True False ?st a1)"
    unfolding record_step [OF ok prev sz] using f by (simp add: Let_def)
  show ?case
  proof (cases c)
    case False
    then show ?thesis using f by (simp add: qp step Let_def)
  next
    case True
    obtain b n e a2 where d: "deliver fn ?e qps a1 = (b, n, e, a2)" by (metis prod.exhaust)
    have "walk_loop sequenceOf fileSize failing fn (encode_all qps @ r) ?e q True False ?st a1 =
      (let (b, n, e, a') = deliver fn ?e qps a1; st' = ?st\<lparr> wsCount := wsCount ?st + n, wsValidEnd := e \<rparr> in
       if \<not> b then (False, st'\<lparr> wsStopped := True \<rparr>, a')
       else walk_loop sequenceOf fileSize failing fn r e (if qps = [] then q else fst (last qps)) (True \<or> qps \<noteq> []) False st' a')"
      by (rule Cons.IH) (use Cons(2-6) in \<open>auto simp: qp\<close>)
    then show ?thesis using True f d by (simp add: qp step Let_def)
  qed
qed

text \<open>Bytes among which no record may start are skipped one by one.\<close>

definition damaged :: "nat \<Rightarrow> nat \<Rightarrow> nat \<Rightarrow> bytes \<Rightarrow> bool" where
  "damaged fileSize off n bs \<longleftrightarrow> (\<forall>i < n. \<not> plausible fileSize (off + i) (drop i bs))"

lemma damaged_code: "damaged fileSize off n bs = list_all (\<lambda>i. \<not> plausible fileSize (off + i) (drop i bs)) [0..<n]"
  by (auto simp: damaged_def list_all_iff)

lemma walk_short: "length rest < recordHeaderSize \<Longrightarrow>
    walk_loop sequenceOf fileSize failing fn rest off prevSeq havePrev inDamage st a = (failing, st, a)"
  by (subst walk_loop.simps) simp

lemma walk_damage:
  assumes "damaged fileSize off n bs" "n \<le> length bs"
  shows "walk_loop sequenceOf fileSize failing fn bs off prevSeq havePrev inDamage st a =
    walk_loop sequenceOf fileSize failing fn (drop n bs) (off + n) prevSeq havePrev (inDamage \<or> 0 < n) st a"
  using assms
proof (induction n arbitrary: off bs inDamage)
  case (Suc n)
  show ?case
  proof (cases "length bs < recordHeaderSize")
    case True
    then have "length (drop (Suc n) bs) < recordHeaderSize" by simp
    with True show ?thesis by (simp add: walk_short)
  next
    case False
    have np: "\<not> plausible fileSize off bs" using Suc(2) by (auto simp: damaged_def dest: spec [of _ 0])
    have "damaged fileSize (off + 1) n (drop 1 bs)" using Suc(2) by (auto simp: damaged_def)
    from Suc(1) [OF this] Suc(3) have "walk_loop sequenceOf fileSize failing fn (drop 1 bs) (off + 1) prevSeq havePrev True st a =
      walk_loop sequenceOf fileSize failing fn (drop (Suc n) bs) (off + Suc n) prevSeq havePrev True st a" by simp
    with False np show ?thesis by (subst walk_loop.simps) simp
  qed
qed simp

text \<open>The segment and the statistics a scan collects from a run of records.\<close>

definition scan_all :: "(nat \<times> bytes) list \<Rightarrow> segment \<Rightarrow> segment" where
  "scan_all qps sg = fold (\<lambda>qp sg. snd (scan_step sg (fst qp) (snd qp) 0)) qps sg"

lemma scan_all_simps [simp]:
  "scan_all [] sg = sg" "scan_all (qp # qps) sg = scan_all qps (snd (scan_step sg (fst qp) (snd qp) 0))"
  "scan_all (xs @ ys) sg = scan_all ys (scan_all xs sg)"
  by (simp_all add: scan_all_def scan_step_def)

lemma scan_run: "deliver scan_step off qps sg = (True, length qps, off + length (encode_all qps), scan_all qps sg)"
  by (induction qps arbitrary: off sg) (simp_all add: scan_step_def Let_def)

lemma scan_all_eq:
  "qps \<noteq> [] \<Longrightarrow> scan_all qps sg = sg\<lparr> sgBase := (if sgCount sg = 0 then fst (hd qps) else sgBase sg),
     sgCount := sgCount sg + length qps, sgLast := fst (last qps) \<rparr>"
proof (induction qps arbitrary: sg)
  case (Cons qp qps)
  then show ?case by (cases "qps = []") (simp_all add: scan_step_def)
qed simp

text \<open>
  What a scan recovers of a file with two runs of records around a stretch of damage: everything
  but the damage. With no second run the damage is a torn tail and is cut off; otherwise it is one
  skipped region whose bounds are the sequences on either side.
\<close>

lemma scan_recovers:
  assumes ok: "list_all (record_ok sequenceOf) (xs @ ys)" and up: "rising (xs @ ys)"
    and f: "file = encode_all xs @ junk @ encode_all ys"
    and dam: "damaged (length file) (length (encode_all xs)) (length junk) (junk @ encode_all ys)"
    and st: "st = zero_stats 0"
  shows "walk_loop sequenceOf (length file) False scan_step file 0 0 False False st sg =
    (False,
     (if ys = [] then st\<lparr> wsCount := length xs, wsValidEnd := length (encode_all xs) \<rparr>
      else (if junk = [] then st else note_damage (if xs = [] then 0 else fst (last xs)) (fst (hd ys)) st)
        \<lparr> wsCount := length (xs @ ys), wsValidEnd := length file \<rparr>),
     scan_all (xs @ ys) sg)"
proof -
  let ?n = "length (encode_all xs)" and ?st = "st\<lparr> wsCount := length xs, wsValidEnd := length (encode_all xs) \<rparr>"
  have xs: "list_all (record_ok sequenceOf) xs" "rising xs" and ys: "list_all (record_ok sequenceOf) ys" "rising ys"
    using ok up by (simp_all add: rising_append)
  define prev where "prev = (if xs = [] then 0 else fst (last xs))"
  let ?sg1 = "scan_all xs sg"
  have 1: "walk_loop sequenceOf (length file) False scan_step file 0 0 False False st sg =
      walk_loop sequenceOf (length file) False scan_step (junk @ encode_all ys) ?n prev (xs \<noteq> []) False ?st ?sg1"
    unfolding f
    by (subst walk_run [OF xs]) (simp_all add: scan_run st zero_stats_def prev_def)
  also have "\<dots> = walk_loop sequenceOf (length file) False scan_step (encode_all ys) (?n + length junk) prev (xs \<noteq> []) (junk \<noteq> []) ?st ?sg1"
    by (subst walk_damage [OF dam]) simp_all
  finally have 2: "walk_loop sequenceOf (length file) False scan_step file 0 0 False False st sg =
      walk_loop sequenceOf (length file) False scan_step (encode_all ys) (?n + length junk) prev (xs \<noteq> []) (junk \<noteq> []) ?st ?sg1" .
  show ?thesis
  proof (cases ys)
    case Nil
    then show ?thesis unfolding 2 by (simp add: walk_short recordHeaderSize_def)
  next
    case (Cons y ys')
    obtain q p where y: "y = (q, p)" by (cases y)
    let ?e = "?n + length junk + recordHeaderSize + length p"
    let ?st1 = "(if junk \<noteq> [] then note_damage prev q ?st else ?st)"
    have q: "record_ok sequenceOf (q, p)" "xs \<noteq> [] \<longrightarrow> prev < q" "?e \<le> length file"
      using ys up by (auto simp: Cons y f prev_def rising_append)
    define sg2 where "sg2 = snd (scan_step ?sg1 q p 0)"
    have sc: "scan_step ?sg1 q p e = (True, sg2)" for e by (simp add: scan_step_def sg2_def)
    let ?st2 = "?st1\<lparr> wsCount := wsCount ?st1 + 1, wsValidEnd := ?e \<rparr>"
    have 3: "walk_loop sequenceOf (length file) False scan_step file 0 0 False False st sg =
        walk_loop sequenceOf (length file) False scan_step (encode_all ys' @ []) ?e q True False ?st2 sg2"
      unfolding 2 Cons y encode_all_simps snd_conv record_step [OF q] by (simp add: sc Let_def)
    have ys': "list_all (record_ok sequenceOf) ys'" "rising ys'" "True \<longrightarrow> (\<forall>x \<in> set ys'. q < fst x)"
      "?e + length (encode_all ys') \<le> length file" "wsValidEnd ?st2 = ?e"
      using ys by (simp_all add: Cons y f)
    have le: "?e + length (encode_all ys') = length file" by (simp add: Cons y f)
    show ?thesis unfolding 3 walk_run [OF ys'] scan_run le
      by (simp add: Cons y walk_short recordHeaderSize_def st zero_stats_def note_damage_def prev_def Let_def sg2_def)
  qed
qed

subsection \<open>What a walk hands out\<close>

lemma header_parts: "take recordHeaderSize rest = slice 0 4 rest @ slice 4 8 rest @ slice 8 12 rest"
  using take_add [of 4 8 rest] take_add [of 4 4 "drop 4 rest"] by (simp add: slice_def recordHeaderSize_def)

lemma accepted_record:
  assumes "recordHeaderSize \<le> length rest" "plausible fileSize off rest" "\<not> length (drop recordHeaderSize rest) < header_length rest"
    "accepted_sequence sequenceOf prevSeq havePrev rest = Some q"
  shows "take (recordHeaderSize + header_length rest) rest = encodeRecord (record_payload rest)"
    "record_ok sequenceOf (q, record_payload rest)" "length (record_payload rest) = header_length rest" "havePrev \<longrightarrow> prevSeq < q"
proof -
  show l: "length (record_payload rest) = header_length rest" using assms(3) by (simp add: record_payload_def)
  have c: "Checksum (record_payload rest) = Uint32 (slice 8 12 rest)" and q: "sequenceOf (record_payload rest) = Some q" "q \<noteq> 0" "havePrev \<longrightarrow> prevSeq < q"
    using assms(4) by (auto simp: accepted_sequence_def split: if_splits option.splits)
  from q(3) show "havePrev \<longrightarrow> prevSeq < q" .
  show "record_ok sequenceOf (q, record_payload rest)"
    using q l assms(2) by (auto simp: record_ok_def plausible_def)
  have "length (slice 4 8 rest) = 4" "length (slice 8 12 rest) = 4" using assms(1) by (simp_all add: slice_def recordHeaderSize_def)
  then have "PutUint32 (word_of_nat (header_length rest)) = slice 4 8 rest" "PutUint32 (Checksum (record_payload rest)) = slice 8 12 rest"
    using Put_Uint32 by (simp_all add: header_length_def c)
  moreover have "slice 0 4 rest = recordMagic" using assms(2) by (simp add: plausible_def)
  ultimately have "take recordHeaderSize rest @ record_payload rest = encodeRecord (record_payload rest)"
    by (simp add: header_parts encodeRecord_def l)
  then show "take (recordHeaderSize + header_length rest) rest = encodeRecord (record_payload rest)"
    by (simp add: record_payload_def take_add)
qed

text \<open>\<open>collect\<close> gathers what a walk hands out: sequence, payload and end offset.\<close>

definition collect :: "(nat \<times> bytes \<times> nat) list \<Rightarrow> nat \<Rightarrow> bytes \<Rightarrow> nat \<Rightarrow> bool \<times> (nat \<times> bytes \<times> nat) list" where
  "collect acc q p e = (True, acc @ [(q, p, e)])"

definition record_at :: "(bytes \<Rightarrow> nat option) \<Rightarrow> bytes \<Rightarrow> nat \<times> bytes \<times> nat \<Rightarrow> bool" where
  "record_at sequenceOf file r \<longleftrightarrow> (case r of (q, p, e) \<Rightarrow> record_ok sequenceOf (q, p) \<and> recordHeaderSize + length p \<le> e \<and>
     e \<le> length file \<and> slice (e - (recordHeaderSize + length p)) e file = encodeRecord p)"

definition follows :: "nat \<times> bytes \<times> nat \<Rightarrow> nat \<times> bytes \<times> nat \<Rightarrow> bool" where
  "follows r r' \<longleftrightarrow> (case r of (q, p, e) \<Rightarrow> case r' of (q', p', e') \<Rightarrow> q < q' \<and> e + recordHeaderSize + length p' \<le> e')"

definition handed_out :: "(bytes \<Rightarrow> nat option) \<Rightarrow> bytes \<Rightarrow> (nat \<times> bytes \<times> nat) list \<Rightarrow> bool" where
  "handed_out sequenceOf file acc \<longleftrightarrow> (\<forall>r \<in> set acc. record_at sequenceOf file r) \<and> sorted_wrt follows acc"

lemma walk_handed_out:
  assumes "rest = drop off file" "off \<le> length file" "handed_out sequenceOf file acc"
    "\<forall>(q, p, e) \<in> set acc. havePrev \<and> q \<le> prevSeq \<and> e \<le> off"
  shows "handed_out sequenceOf file (snd (snd (walk_loop sequenceOf fileSize failing collect rest off prevSeq havePrev inDamage st acc)))"
  using assms
proof (induction sequenceOf fileSize failing "collect :: (nat \<times> bytes \<times> nat) list \<Rightarrow> _" rest off prevSeq havePrev inDamage st acc
    rule: walk_loop.induct)
  case (1 sequenceOf fileSize failing rest off prevSeq havePrev inDamage st acc)
  let ?e = "off + recordHeaderSize + header_length rest" and ?rest = "drop (recordHeaderSize + header_length rest) rest"
  consider (short) "length rest < recordHeaderSize"
    | (skip) "\<not> length rest < recordHeaderSize" "\<not> plausible fileSize off rest"
    | (cut) "\<not> length rest < recordHeaderSize" "plausible fileSize off rest" "length (drop recordHeaderSize rest) < header_length rest"
    | (rec) "\<not> length rest < recordHeaderSize" "\<not> \<not> plausible fileSize off rest" "\<not> length (drop recordHeaderSize rest) < header_length rest"
    by blast
  then show ?case
  proof cases
    case short
    then show ?thesis using 1(6) by (simp add: walk_short)
  next
    case skip
    have "handed_out sequenceOf file (snd (snd (walk_loop sequenceOf fileSize failing collect (drop 1 rest) (off + 1) prevSeq havePrev True st acc)))"
      by (rule 1(1) [OF skip]) (use 1(4-7) skip in \<open>auto simp: recordHeaderSize_def\<close>)
    then show ?thesis by (subst walk_loop.simps) (simp only: skip if_False if_True not_False_eq_True)
  next
    case cut
    then show ?thesis using 1(6) by (subst walk_loop.simps) simp
  next
    case rec
    have le: "?e \<le> length file" using rec(1,3) 1(4,5) by auto
    have rest': "?rest = drop ?e file" using 1(4) by (simp add: ac_simps)
    show ?thesis
    proof (cases "accepted_sequence sequenceOf prevSeq havePrev rest")
      case None
      have "handed_out sequenceOf file (snd (snd (walk_loop sequenceOf fileSize failing collect ?rest ?e prevSeq havePrev True st acc)))"
        by (rule 1(2) [OF rec refl refl None]) (use 1(6,7) le rest' in auto)
      then show ?thesis by (subst walk_loop.simps) (simp only: rec None option.case Let_def if_False if_True not_False_eq_True)
    next
      case (Some q)
      let ?p = "record_payload rest"
      note a = accepted_record [OF _ rec(2) [unfolded not_not] rec(3) Some]
      have hl: "recordHeaderSize \<le> length rest" using rec(1) by simp
      have at: "record_at sequenceOf file (q, ?p, ?e)"
        using a(1-3) [OF hl] le 1(4) by (simp add: record_at_def slice_def take_drop ac_simps)
      have "handed_out sequenceOf file (acc @ [(q, ?p, ?e)])"
        using 1(6,7) at a(3,4) [OF hl] by (fastforce simp: handed_out_def sorted_wrt_append follows_def)
      moreover define st1 where "st1 = (if inDamage then note_damage prevSeq q st else st)"
      define st2 where "st2 = st1\<lparr> wsCount := wsCount st1 + 1, wsValidEnd := ?e \<rparr>"
      have c: "(True, acc @ [(q, ?p, ?e)]) = collect acc q ?p ?e" by (simp add: collect_def)
      have nn: "\<not> \<not> True" by simp
      have "\<forall>(q', p', e') \<in> set (acc @ [(q, ?p, ?e)]). True \<and> q' \<le> q \<and> e' \<le> ?e"
        using 1(7) a(4) [OF hl] by fastforce
      ultimately have "handed_out sequenceOf file (snd (snd (walk_loop sequenceOf fileSize failing collect ?rest ?e q True False st2
          (acc @ [(q, ?p, ?e)]))))"
        by (intro 1(3) [OF rec refl refl Some st1_def st2_def c refl nn rest' le])
      then show ?thesis by (subst walk_loop.simps) (simp add: rec Some collect_def st1_def st2_def Let_def del: length_drop)
    qed
  qed
qed

subsection \<open>Segment names\<close>

lemma digit_char_val: "is_digit c \<Longrightarrow> digit_char (digit_val c) = c"
  by (auto simp: is_digit_def digit_char_def digit_val_def)

lemma digit_val_less: "is_digit c \<Longrightarrow> digit_val c < 10"
  by (auto simp: is_digit_def digit_val_def)

lemma replicate_snoc: "replicate n x @ [x] = replicate (Suc n) x"
  by (simp add: replicate_append_same)

lemma padded_digits:
  assumes "list_all is_digit cs" "cs \<noteq> []"
  shows "length (dec_text (dec_value cs)) \<le> length cs \<and>
    cs = replicate (length cs - length (dec_text (dec_value cs))) (CHR ''0'') @ dec_text (dec_value cs)"
  using assms
proof (induction cs rule: rev_induct)
  case (snoc c cs)
  have c: "is_digit c" "digit_val c < 10" "digit_char (digit_val c) = c"
    using snoc(2) digit_val_less digit_char_val by simp_all
  let ?v = "dec_value cs"
  have v: "dec_value (cs @ [c]) = ?v * 10 + digit_val c" by (rule dec_value_snoc)
  show ?case
  proof (cases "?v = 0")
    case True
    then have t: "dec_text (dec_value (cs @ [c])) = [c]" using v c by (simp add: dec_text.simps)
    have "cs = replicate (length cs) (CHR ''0'')"
    proof (cases "cs = []")
      case False
      have z: "dec_text 0 = [CHR ''0'']" by (simp add: dec_text.simps digit_char_def) code_simp
      from snoc(1) snoc(2) False True z have "cs = replicate (length cs - 1) (CHR ''0'') @ [CHR ''0'']" by simp
      then show ?thesis using replicate_snoc [of "length cs - 1" "CHR ''0''"] False by (simp add: Suc_diff_1)
    qed simp
    with t show ?thesis by simp
  next
    case False
    then have ne: "cs \<noteq> []" by auto
    have t: "dec_text (dec_value (cs @ [c])) = dec_text ?v @ [c]"
      using v c False by (subst dec_text.simps) (auto simp: div_mult1_eq)
    from snoc(1) [OF _ ne] snoc(2) have "length (dec_text ?v) \<le> length cs"
      "cs = replicate (length cs - length (dec_text ?v)) (CHR ''0'') @ dec_text ?v" by simp_all
    then show ?thesis by (simp add: t)
  qed
qed simp

lemma dec_value_zeros: "dec_value (replicate n (CHR ''0'') @ cs) = dec_value cs"
proof -
  have z: "digit_val (CHR ''0'') = 0" by (simp add: digit_val_def)
  have "foldl (\<lambda>a c. a * 10 + digit_val c) 0 (replicate n (CHR ''0'')) = 0" by (induction n) (simp_all add: z)
  then show ?thesis by (simp add: dec_value_def)
qed

lemma zero_digit: "is_digit (CHR ''0'')"
  by (simp add: is_digit_def)

lemma dec_text_all_digits: "list_all is_digit (dec_text n)"
  using dec_text_digits by (simp add: list_all_iff)

lemma parse_only:
  assumes p: "parseSegmentName name = Some n"
  shows "name = segmentName n" "n \<le> max64"
proof -
  let ?k = "length name - length segmentSuffix"
  have d: "drop ?k name = segmentSuffix" "length (take ?k name) = segmentNameDigits" "ParseUint (take ?k name) = Some n"
    using p by (auto simp: parseSegmentName_def Let_def split: if_splits)
  then have n: "list_all is_digit (take ?k name)" "dec_value (take ?k name) = n" "n \<le> max64" "take ?k name \<noteq> []"
    by (auto simp: ParseUint_def split: if_splits)
  from padded_digits [OF n(1,4)] n(2) d(2)
  have "take ?k name = replicate (segmentNameDigits - length (dec_text n)) (CHR ''0'') @ dec_text n" by simp
  with d(1) show "name = segmentName n"
    using append_take_drop_id [of ?k name] by (simp add: segmentName_def)
  show "n \<le> max64" by (rule n(3))
qed

lemma parse_segmentName:
  assumes "n \<le> max64"
  shows "parseSegmentName (segmentName n) = Some n"
proof -
  have "n < 10 ^ 20" using assms by (simp add: max64_def)
  then have l: "length (dec_text n) \<le> segmentNameDigits" using length_dec_text [of n 20] by (simp add: segmentNameDigits_def)
  define ds where "ds = replicate (segmentNameDigits - length (dec_text n)) (CHR ''0'') @ dec_text n"
  have ds: "length ds = segmentNameDigits" "list_all is_digit ds" "dec_value ds = n" "ds \<noteq> []"
    using l by (simp_all add: ds_def dec_value_zeros dec_text_all_digits list_all_iff zero_digit) (auto simp: zero_digit dec_text_digits)
  have "segmentName n = ds @ segmentSuffix" by (simp add: segmentName_def ds_def)
  then show ?thesis using ds assms by (simp add: parseSegmentName_def ParseUint_def Let_def)
qed

subsection \<open>Properties\<close>


text \<open>
  C36: A walk over any bytes, whatever damage or tampering they carry, hands out only complete records:
  each payload sits in the file behind its own header with the right length and checksum, has a
  non-zero sequence number and is at most 8 MiB; the records do not overlap, and their sequence
  numbers strictly increase.
\<close>

theorem segment_walk_sound:
  "handed_out sequenceOf file (snd (snd (walkRecords sequenceOf failing file 0 fileSize collect [])))"
  unfolding walkRecords_def by (rule walk_handed_out) (simp_all add: handed_out_def)



lemma nat_be_four: "nat_be 4 v = [word_of_nat (v div 256 div 256 div 256 mod 256), word_of_nat (v div 256 div 256 mod 256),
    word_of_nat (v div 256 mod 256), word_of_nat (v mod 256)]"
proof -
  have "(4 :: nat) = Suc (Suc (Suc (Suc 0)))" by simp
  then show ?thesis by (simp only: nat_be.simps append.simps)
qed



end
