(* ===== verification/Spool.thy ===== *)
theory Spool
  imports Segment Events "HOL-Library.List_Lexorder" "HOL-Library.Char_ord"
begin

section \<open>The disk spool\<close>

text \<open>
  \<^verbatim>\<open>SauronAgent/internal/spool/spool.go\<close>: the durable log of events that wait for an acknowledgement.
  The state holds the in-memory fields of the Go struct and the files of the spool directory. An
  operation asks the disk for every system call; the world \<open>w\<close> answers the n-th question (counted by
  \<open>spTick\<close>): whether a call succeeds, how far a failing write gets, how a read goes, what the clock
  says. The JSON codec of events is the argument \<open>J\<close>. The metrics are present (\<^verbatim>\<open>Metrics != nil\<close>) and log
  lines are dropped. \<open>file_of\<close>, \<open>put_file\<close>, \<open>set_active\<close> and \<open>and_then\<close> are Go idioms; the mutex makes each
  exported method one step.
\<close>

record event_codec =
  ecMarshal :: "event \<Rightarrow> bytes option"
  ecUnmarshal :: "bytes \<Rightarrow> event option"
  ecSequence :: "bytes \<Rightarrow> nat option"

record disk_world =
  dwOk :: "nat \<Rightarrow> bool"
  dwWrite :: "nat \<Rightarrow> nat option"
  dwRead :: "nat \<Rightarrow> read_outcome"
  dwClock :: "nat \<Rightarrow> int"

record spool_options =
  soDir :: string
  soMaxSize :: int
  soSegmentSize :: int
  soSyncOnWrite :: bool
  soSyncInterval :: int

record spool =
  spOpts :: spool_options
  spSegs :: "segment list"
  spW :: "string option"
  spLastSeq :: nat
  spAckedThrough :: nat
  spFirstPending :: nat
  spPending :: nat
  spBytes :: nat
  spAckedInFirst :: nat
  spAckOffset :: nat
  spDropped :: nat
  spDroppedLow :: nat
  spDroppedHigh :: nat
  spLastSync :: int
  spDirty :: bool
  spClosed :: bool
  spFiles :: "(string \<times> bytes) list"
  spTick :: nat
  smEventsDropped :: nat
  smSpoolBytes :: nat
  smSpoolEvents :: nat

datatype disk_op =
    MakeDir | ReadDirectory | ScanSegment | RemoveSegment | OpenSegment | CreateSegment | WriteSegment
  | SyncSegment | CloseSegment | ReadSegment | SyncDirectory | CreateCheckpoint | WriteCheckpointFile
  | SyncCheckpoint | CloseCheckpoint | RenameCheckpoint

datatype spool_error =
    DirNotSet | NilEvent | SpoolClosed | SequenceNotGreater nat nat | EncodingFailed | RecordTooLarge nat
  | IoFailed disk_op | Joined "spool_error list" | Panicked

type_synonym 'a spool_result = "(spool_error, 'a) result \<times> spool"

text \<open>The Go idiom \<^verbatim>\<open>if err != nil { return err }\<close>.\<close>

definition and_then :: "'a spool_result \<Rightarrow> ('a \<Rightarrow> spool \<Rightarrow> 'b spool_result) \<Rightarrow> 'b spool_result" where
  "and_then r k = (case r of (Inl e, s) \<Rightarrow> (Inl e, s) | (Inr x, s) \<Rightarrow> k x s)"

definition ask :: "spool \<Rightarrow> spool" where
  "ask s = s\<lparr> spTick := Suc (spTick s) \<rparr>"

definition syscall :: "disk_world \<Rightarrow> disk_op \<Rightarrow> spool \<Rightarrow> unit spool_result" where
  "syscall w op s = (if dwOk w (spTick s) then Inr () else Inl (IoFailed op), ask s)"

definition syncDir :: "disk_world \<Rightarrow> spool \<Rightarrow> unit spool_result" where
  "syncDir w s = syscall w SyncDirectory s"

text \<open>\<^verbatim>\<open>os.Remove\<close>, where the caller ignores that the file does not exist.\<close>

definition remove_file :: "disk_world \<Rightarrow> string \<Rightarrow> spool \<Rightarrow> unit spool_result" where
  "remove_file w path s =
     (if map_of (spFiles s) path = None then (Inr (), ask s)
      else and_then (syscall w RemoveSegment s) (\<lambda>_ s. (Inr (), s\<lparr> spFiles := AList.delete path (spFiles s) \<rparr>)))"

subsection \<open>Accounting\<close>

definition LastSequence :: "spool \<Rightarrow> nat" where "LastSequence s = spLastSeq s"
definition PendingCount :: "spool \<Rightarrow> nat" where "PendingCount s = spPending s"
definition Bytes :: "spool \<Rightarrow> nat" where "Bytes s = spBytes s"

definition recordLoss :: "nat \<Rightarrow> nat \<Rightarrow> nat \<Rightarrow> spool \<Rightarrow> spool" where
  "recordLoss count low high s =
     (if count = 0 then s
      else s\<lparr> spDropped := add64 (spDropped s) count,
              spDroppedLow := (if spDroppedLow s = 0 \<or> (low > 0 \<and> low < spDroppedLow s) then low else spDroppedLow s),
              spDroppedHigh := (if high > spDroppedHigh s then high else spDroppedHigh s),
              smEventsDropped := add64 (smEventsDropped s) count \<rparr>)"

definition recount :: "spool \<Rightarrow> spool" where
  "recount s =
     (let bytes = sum_list (map sgSize (spSegs s)); count = sum_list (map sgCount (spSegs s));
          pending = count - spAckedInFirst s
      in s\<lparr> spBytes := bytes, spPending := pending, spFirstPending := (if pending = 0 then 0 else spFirstPending s) \<rparr>)"

definition publishMetrics :: "spool \<Rightarrow> spool" where
  "publishMetrics s = s\<lparr> smSpoolBytes := spBytes s, smSpoolEvents := spPending s \<rparr>"

text \<open>The segment and the loss that a read of it reveals.\<close>

definition reportNewDamage :: "segment \<Rightarrow> walkStats \<Rightarrow> spool \<Rightarrow> segment \<times> spool" where
  "reportNewDamage sg st s =
     (if wsSkipped st \<le> sgReported sg then (sg, s)
      else (sg\<lparr> sgReported := wsSkipped st \<rparr>, recordLoss (wsSkipped st - sgReported sg) (wsGapLow st) (wsGapHigh st) s))"

definition firstUnacked :: "spool \<Rightarrow> nat" where
  "firstUnacked s = (if spPending s > 0 \<and> spFirstPending s > 0 then spFirstPending s else inc64 (spLastSeq s))"

definition FirstUnacked :: "spool \<Rightarrow> nat" where "FirstUnacked s = firstUnacked s"

definition DrainDropped :: "spool \<Rightarrow> (nat \<times> nat \<times> nat) option \<times> spool" where
  "DrainDropped s =
     (if spDropped s = 0 then (None, s)
      else (Some (spDropped s, spDroppedLow s, spDroppedHigh s), s\<lparr> spDropped := 0, spDroppedLow := 0, spDroppedHigh := 0 \<rparr>))"

subsection \<open>Flushing\<close>

definition sync :: "disk_world \<Rightarrow> spool \<Rightarrow> unit spool_result" where
  "sync w s =
     (if spW s = None \<or> \<not> spDirty s then (Inr (), (ask s)\<lparr> spLastSync := dwClock w (spTick s) \<rparr>)
      else and_then (syscall w SyncSegment s)
        (\<lambda>_ s. (Inr (), (ask s)\<lparr> spDirty := False, spLastSync := dwClock w (spTick s) \<rparr>)))"

definition Sync :: "disk_world \<Rightarrow> spool \<Rightarrow> unit spool_result" where
  "Sync w s = (if spClosed s then (Inl SpoolClosed, s) else sync w s)"

definition Close_spool :: "disk_world \<Rightarrow> spool \<Rightarrow> unit spool_result" where
  "Close_spool w s =
     (if spClosed s then (Inr (), s)
      else case sync w (s\<lparr> spClosed := True \<rparr>) of (r, s1) \<Rightarrow>
        if spW s1 = None then (r, s1)
        else case syscall w CloseSegment s1 of (c, s2) \<Rightarrow>
          ((case r of Inl e \<Rightarrow> Inl e | Inr _ \<Rightarrow> c), s2\<lparr> spW := None \<rparr>))"

definition maybeSync :: "disk_world \<Rightarrow> spool \<Rightarrow> unit spool_result" where
  "maybeSync w s =
     (if soSyncOnWrite (spOpts s) then sync w s
      else if soSyncInterval (spOpts s) > 0
      then (if dwClock w (spTick s) - spLastSync s \<ge> soSyncInterval (spOpts s) then sync w (ask s) else (Inr (), ask s))
      else (Inr (), s))"

subsection \<open>Acknowledged and evicted segments\<close>

text \<open>The loop of \<open>dropAckedSegments\<close>; the list is \<open>spSegs s\<close>, the flag says whether a segment was removed.\<close>

fun drop_acked_loop :: "disk_world \<Rightarrow> segment list \<Rightarrow> bool \<Rightarrow> spool \<Rightarrow> bool spool_result" where
  "drop_acked_loop w [] removed s = (Inr removed, s)"
| "drop_acked_loop w (sg # sgs) removed s =
     (if \<not> sgLast sg \<le> spAckedThrough s then (Inr removed, s)
      else
        and_then
          (if sgs = [] \<and> spW s \<noteq> None
           then and_then (case syscall w CloseSegment s of (r, s1) \<Rightarrow> (r, s1\<lparr> spW := None \<rparr>)) (\<lambda>_ s. (Inr (), s\<lparr> spDirty := False \<rparr>))
           else (Inr (), s))
          (\<lambda>_ s1. and_then (remove_file w (sgPath sg) s1)
             (\<lambda>_ s2. drop_acked_loop w sgs True
                (s2\<lparr> spSegs := sgs, spAckedInFirst := 0, spAckOffset := 0,
                     spFirstPending := (case sgs of [] \<Rightarrow> 0 | sg' # _ \<Rightarrow> sgBase sg') \<rparr>))))"

definition dropAckedSegments :: "disk_world \<Rightarrow> spool \<Rightarrow> unit spool_result" where
  "dropAckedSegments w s =
     and_then (drop_acked_loop w (spSegs s) False s) (\<lambda>removed s. if removed then syncDir w s else (Inr (), s))"

text \<open>The callback of \<open>advanceAckCursor\<close>: records acknowledged, where they end, the first one outstanding.\<close>

definition cursor_step :: "nat \<Rightarrow> nat \<times> nat \<times> nat \<Rightarrow> nat \<Rightarrow> bytes \<Rightarrow> nat \<Rightarrow> bool \<times> nat \<times> nat \<times> nat" where
  "cursor_step acked a seq payload end =
     (case a of (n, off, pending) \<Rightarrow> if seq > acked then (False, n, off, seq) else (True, n + 1, end, pending))"

definition advanceAckCursor :: "event_codec \<Rightarrow> disk_world \<Rightarrow> spool \<Rightarrow> unit spool_result" where
  "advanceAckCursor J w s =
     (case spSegs s of
        [] \<Rightarrow> (Inr (), s\<lparr> spFirstPending := 0, spAckedInFirst := 0, spAckOffset := 0 \<rparr>)
      | sg # sgs \<Rightarrow>
          if sgBase sg > spAckedThrough s
          then (Inr (), s\<lparr> spAckedInFirst := 0, spAckOffset := 0, spFirstPending := sgBase sg \<rparr>)
          else
            (case walk (ecSequence J) (dwRead w (spTick s)) (map_of (spFiles s) (sgPath sg)) (spAckOffset s)
                (cursor_step (spAckedThrough s)) (0, spAckOffset s, 0) of
               (True, _) \<Rightarrow> (Inl (IoFailed ReadSegment), ask s)
             | (False, st, n, off, pending) \<Rightarrow>
                 let (sg1, s1) = reportNewDamage sg st (ask s);
                     k = spAckedInFirst s1 + n
                 in (Inr (), s1\<lparr> spSegs := sg1 # sgs, spAckOffset := off,
                       spAckedInFirst := (if pending = 0 \<and> k > sgCount sg1 then sgCount sg1 else k),
                       spFirstPending := (if pending = 0 then inc64 (sgLast sg1) else pending) \<rparr>)))"

fun enforce_loop :: "disk_world \<Rightarrow> segment list \<Rightarrow> spool \<Rightarrow> unit spool_result" where
  "enforce_loop w (sg # sg' # sgs) s =
     (if int (spBytes s) > soMaxSize (spOpts s)
      then
        let lost = sgCount sg - spAckedInFirst s;
            low = (if spFirstPending s = 0 \<or> spFirstPending s < sgBase sg then sgBase sg else spFirstPending s);
            s1 = recordLoss lost low (sgLast sg) s
        in and_then (remove_file w (sgPath sg) s1)
             (\<lambda>_ s2. and_then (syncDir w (recount (s2\<lparr> spSegs := sg' # sgs, spAckedInFirst := 0, spAckOffset := 0,
                                                        spFirstPending := sgBase sg' \<rparr>)))
                (\<lambda>_ s3. enforce_loop w (sg' # sgs) s3))
      else (Inr (), s))"
| "enforce_loop w sgs s = (Inr (), s)"

definition enforceMaxSize :: "disk_world \<Rightarrow> spool \<Rightarrow> unit spool_result" where
  "enforceMaxSize w s =
     and_then (if int (spBytes s) > soMaxSize (spOpts s) \<and> length (spSegs s) > 1 then sync w s else (Inr (), s))
       (\<lambda>_ s. enforce_loop w (spSegs s) s)"

subsection \<open>The checkpoint\<close>

definition checkpointName :: string where "checkpointName = ''checkpoint''"
definition checkpointTemp :: string where "checkpointTemp = ''checkpoint.tmp''"
definition checkpointMagic :: bytes where "checkpointMagic = [0x53, 0x43, 0x4B, 0x50]"

definition checkpoint_bytes :: "nat \<Rightarrow> bytes" where
  "checkpoint_bytes seq = checkpointMagic @ PutUint64 (word_of_nat seq) @ PutUint32 (Checksum (PutUint64 (word_of_nat seq)))"

definition readCheckpoint :: "disk_world \<Rightarrow> spool \<Rightarrow> nat option \<times> spool" where
  "readCheckpoint w s =
     (case map_of (spFiles s) checkpointName of
        None \<Rightarrow> (None, ask s)
      | Some data \<Rightarrow>
          (if \<not> dwOk w (spTick s) \<or> length data \<noteq> 16 \<or> slice 0 4 data \<noteq> checkpointMagic \<or>
              Checksum (slice 4 12 data) \<noteq> Uint32 (slice 12 16 data) then None
           else Some (unat (Uint64 (slice 4 12 data))), ask s))"

text \<open>The temporary file is removed on the error paths; that this may fail in turn is ignored.\<close>

definition discard_temp :: "disk_world \<Rightarrow> disk_op \<Rightarrow> spool \<Rightarrow> unit spool_result" where
  "discard_temp w op s =
     (Inl (IoFailed op), (ask s)\<lparr> spFiles := (if dwOk w (spTick s) then AList.delete checkpointTemp (spFiles s) else spFiles s) \<rparr>)"

definition put_file :: "string \<Rightarrow> bytes \<Rightarrow> spool \<Rightarrow> spool" where
  "put_file path bs s = s\<lparr> spFiles := AList.update path bs (spFiles s) \<rparr>"

definition writeCheckpoint :: "disk_world \<Rightarrow> nat \<Rightarrow> spool \<Rightarrow> unit spool_result" where
  "writeCheckpoint w seq s =
     (let buf = checkpoint_bytes seq in
      and_then (syscall w CreateCheckpoint s) (\<lambda>_ s1.
        case dwWrite w (spTick s1) of
          Some n \<Rightarrow> discard_temp w WriteCheckpointFile (put_file checkpointTemp (take n buf) (ask s1))
        | None \<Rightarrow>
            let s2 = put_file checkpointTemp buf (ask s1) in
            (case syscall w SyncCheckpoint s2 of
               (Inl _, s3) \<Rightarrow> discard_temp w SyncCheckpoint s3
             | (Inr _, s3) \<Rightarrow>
                 (case syscall w CloseCheckpoint s3 of
                    (Inl _, s4) \<Rightarrow> discard_temp w CloseCheckpoint s4
                  | (Inr _, s4) \<Rightarrow>
                      (case syscall w RenameCheckpoint s4 of
                         (Inl _, s5) \<Rightarrow> discard_temp w RenameCheckpoint s5
                       | (Inr _, s5) \<Rightarrow>
                           syncDir w (put_file checkpointName buf (s5\<lparr> spFiles := AList.delete checkpointTemp (spFiles s5) \<rparr>)))))))"

subsection \<open>Appending\<close>

definition roll :: "disk_world \<Rightarrow> nat \<Rightarrow> spool \<Rightarrow> unit spool_result" where
  "roll w seq s =
     and_then
       (if spW s \<noteq> None
        then and_then (sync w s) (\<lambda>_ s1. and_then (syscall w CloseSegment s1) (\<lambda>_ s2. (Inr (), s2\<lparr> spW := None \<rparr>)))
        else (Inr (), s))
       (\<lambda>_ s1.
          let path = segmentName seq in
          if map_of (spFiles s1) path \<noteq> None then (Inl (IoFailed CreateSegment), ask s1)
          else and_then (syscall w CreateSegment s1) (\<lambda>_ s2.
            syncDir w ((put_file path [] s2)\<lparr> spW := Some path, spSegs := spSegs s2 @
              [\<lparr> sgPath = path, sgBase = seq, sgLast = 0, sgCount = 0, sgSize = 0, sgReported = 0, sgUndecodable = 0 \<rparr>] \<rparr>)))"

definition needs_roll :: "nat \<Rightarrow> spool \<Rightarrow> bool" where
  "needs_roll recLen s \<longleftrightarrow> spW s = None \<or>
     (spSegs s \<noteq> [] \<and> sgCount (last (spSegs s)) > 0 \<and>
      int (sgSize (last (spSegs s))) + int recLen > soSegmentSize (spOpts s))"

definition set_active :: "(segment \<Rightarrow> segment) \<Rightarrow> spool \<Rightarrow> spool" where
  "set_active f s = s\<lparr> spSegs := butlast (spSegs s) @ [f (last (spSegs s))] \<rparr>"

definition file_of :: "string \<Rightarrow> spool \<Rightarrow> bytes" where
  "file_of path s = (case map_of (spFiles s) path of Some bs \<Rightarrow> bs | None \<Rightarrow> [])"

definition write_record :: "disk_world \<Rightarrow> nat \<Rightarrow> bytes \<Rightarrow> spool \<Rightarrow> unit spool_result" where
  "write_record w seq payload s =
     (case spW s of
        None \<Rightarrow> (Inl Panicked, s)
      | Some path \<Rightarrow>
          if spSegs s = [] then (Inl Panicked, s)
          else
            let buf = encodeRecord payload in
            (case dwWrite w (spTick s) of
               Some n \<Rightarrow>
                 let s1 = put_file path (file_of path s @ take n buf) (ask s);
                     s2 = ask s1
                 in (Inl (IoFailed WriteSegment),
                     if dwOk w (spTick s1)
                     then publishMetrics (recount (set_active (\<lambda>sg. sg\<lparr> sgSize := length (file_of path s1) \<rparr>) s2)) else s2)
             | None \<Rightarrow>
                 let s1 = put_file path (file_of path s @ buf) (ask s);
                     s2 = set_active (\<lambda>sg. sg\<lparr> sgBase := (if sgCount sg = 0 then seq else sgBase sg), sgCount := sgCount sg + 1,
                        sgLast := seq, sgSize := sgSize sg + length buf \<rparr>) s1
                 in (Inr (), recount (s2\<lparr> spLastSeq := seq,
                       spFirstPending := (if spFirstPending s2 = 0 then seq else spFirstPending s2), spDirty := True \<rparr>))))"

definition Append :: "event_codec \<Rightarrow> disk_world \<Rightarrow> event option \<Rightarrow> spool \<Rightarrow> unit spool_result" where
  "Append J w eo s =
     (case eo of
        None \<Rightarrow> (Inl NilEvent, s)
      | Some e \<Rightarrow>
          if spClosed s then (Inl SpoolClosed, s)
          else if Sequence e \<le> spLastSeq s then (Inl (SequenceNotGreater (Sequence e) (spLastSeq s)), s)
          else case ecMarshal J e of
            None \<Rightarrow> (Inl EncodingFailed, s)
          | Some payload \<Rightarrow>
              if length payload > maxRecordSize then (Inl (RecordTooLarge (length payload)), s)
              else
                and_then (if needs_roll (recordHeaderSize + length payload) s then roll w (Sequence e) s else (Inr (), s)) (\<lambda>_ s1.
                and_then (write_record w (Sequence e) payload s1) (\<lambda>_ s2.
                and_then (maybeSync w s2) (\<lambda>_ s3.
                and_then (enforceMaxSize w s3) (\<lambda>_ s4. (Inr (), publishMetrics s4))))))"

subsection \<open>Reading\<close>

text \<open>The callback of \<open>NextAfter\<close>: the events so far, and the undecodable records with their range.\<close>

definition next_step :: "event_codec \<Rightarrow> nat \<Rightarrow> nat \<Rightarrow> nat \<Rightarrow> event list \<times> nat \<times> nat \<times> nat \<Rightarrow> nat \<Rightarrow> bytes \<Rightarrow> nat \<Rightarrow>
    bool \<times> event list \<times> nat \<times> nat \<times> nat" where
  "next_step J from through maxi a seq payload end =
     (case a of (out, bad, badLow, badHigh) \<Rightarrow>
        if seq < from then (True, a)
        else case ecUnmarshal J payload of
          None \<Rightarrow> (length out < maxi, out, bad + 1, (if badLow = 0 then seq else badLow), seq)
        | Some ev \<Rightarrow> if seq \<le> through then (True, a) else (length out + 1 < maxi, out @ [ev], bad, badLow, badHigh))"

fun next_loop :: "event_codec \<Rightarrow> disk_world \<Rightarrow> nat \<Rightarrow> nat \<Rightarrow> nat \<Rightarrow> segment list \<Rightarrow> segment list \<Rightarrow> event list \<Rightarrow> spool \<Rightarrow>
    event list spool_result" where
  "next_loop J w from through maxi before [] out s = (Inr out, s)"
| "next_loop J w from through maxi before (sg # sgs) out s =
     (if length out \<ge> maxi then (Inr out, s)
      else if sgCount sg = 0 \<or> sgLast sg < from \<or> sgLast sg \<le> through
      then next_loop J w from through maxi (before @ [sg]) sgs out s
      else
        (case walk (ecSequence J) (dwRead w (spTick s)) (map_of (spFiles s) (sgPath sg)) (if before = [] then spAckOffset s else 0)
            (next_step J from through maxi) (out, 0, 0, 0) of
           (True, _) \<Rightarrow> (Inl (IoFailed ReadSegment), ask s)
         | (False, st, out', bad, badLow, badHigh) \<Rightarrow>
             let (sg1, s1) = reportNewDamage sg st (ask s);
                 (sg2, s2) = (if bad > sgUndecodable sg1
                    then (sg1\<lparr> sgUndecodable := bad \<rparr>, recordLoss (bad - sgUndecodable sg1) badLow badHigh s1) else (sg1, s1))
             in next_loop J w from through maxi (before @ [sg2]) sgs out' (s2\<lparr> spSegs := before @ sg2 # sgs \<rparr>)))"

definition NextAfter :: "event_codec \<Rightarrow> disk_world \<Rightarrow> nat \<Rightarrow> int \<Rightarrow> spool \<Rightarrow> event list spool_result" where
  "NextAfter J w through maxi s =
     (if spClosed s then (Inl SpoolClosed, s)
      else if maxi \<le> 0 \<or> spPending s = 0 \<or> through \<ge> spLastSeq s then (Inr [], s)
      else next_loop J w (spFirstPending s) through (nat maxi) [] (spSegs s) [] s)"

definition Next :: "event_codec \<Rightarrow> disk_world \<Rightarrow> int \<Rightarrow> spool \<Rightarrow> event list spool_result" where
  "Next J w maxi s = NextAfter J w 0 maxi s"

subsection \<open>Acknowledging\<close>

definition errors_of :: "(spool_error, unit) result list \<Rightarrow> spool_error list" where
  "errors_of rs = concat (map (\<lambda>r. case r of Inl e \<Rightarrow> [e] | Inr _ \<Rightarrow> []) rs)"

definition cleanup :: "event_codec \<Rightarrow> disk_world \<Rightarrow> spool \<Rightarrow> unit spool_result" where
  "cleanup J w s =
     (let (dropErr, s1) = dropAckedSegments w s;
          (cursorErr, s2) = advanceAckCursor J w s1;
          errs = errors_of [dropErr, cursorErr]
      in (if errs = [] then Inr () else Inl (Joined errs), publishMetrics (recount s2)))"

definition Ack_spool :: "event_codec \<Rightarrow> disk_world \<Rightarrow> nat \<Rightarrow> spool \<Rightarrow> unit spool_result" where
  "Ack_spool J w n s =
     (if spClosed s then (Inl SpoolClosed, s)
      else
        let seq = (if n > spLastSeq s then spLastSeq s else n) in
        if n = 0 \<or> seq = 0 then (Inr (), s)
        else and_then
          (if seq > spAckedThrough s
           then and_then (writeCheckpoint w seq s) (\<lambda>_ s1. (Inr (), s1\<lparr> spAckedThrough := seq \<rparr>))
           else (Inr (), s))
          (\<lambda>_ s1. cleanup J w s1))"

subsection \<open>Opening\<close>

definition zero_spool :: "spool_options \<Rightarrow> int \<Rightarrow> (string \<times> bytes) list \<Rightarrow> nat \<Rightarrow> spool" where
  "zero_spool opts now files tick =
     \<lparr> spOpts = opts, spSegs = [], spW = None, spLastSeq = 0, spAckedThrough = 0, spFirstPending = 0, spPending = 0,
       spBytes = 0, spAckedInFirst = 0, spAckOffset = 0, spDropped = 0, spDroppedLow = 0, spDroppedHigh = 0,
       spLastSync = now, spDirty = False, spClosed = False, spFiles = files, spTick = tick,
       smEventsDropped = 0, smSpoolBytes = 0, smSpoolEvents = 0 \<rparr>"

definition normalize_options :: "spool_options \<Rightarrow> spool_options" where
  "normalize_options o0 =
     (let o1 = (if soMaxSize o0 \<le> 0 then o0\<lparr> soMaxSize := 1073741824 \<rparr> else o0);
          o2 = (if soSegmentSize o1 \<le> 0 then o1\<lparr> soSegmentSize := 16777216 \<rparr> else o1)
      in if soSegmentSize o2 > soMaxSize o2 then o2\<lparr> soSegmentSize := soMaxSize o2 \<rparr> else o2)"

text \<open>The loop of \<open>recover\<close> over the directory entries, which \<^verbatim>\<open>os.ReadDir\<close> sorts by name.\<close>

fun recover_loop :: "event_codec \<Rightarrow> disk_world \<Rightarrow> string list \<Rightarrow> spool \<Rightarrow> unit spool_result" where
  "recover_loop J w [] s = (Inr (), s)"
| "recover_loop J w (name # names) s =
     (case parseSegmentName name of
        None \<Rightarrow> recover_loop J w names s
      | Some nameBase \<Rightarrow>
          (case scanSegment (ecSequence J) (dwRead w (spTick s)) (dwOk w (spTick s)) (dwOk w (Suc (spTick s)))
              (map_of (spFiles s) name) name nameBase of
             None \<Rightarrow> (Inl (IoFailed ScanSegment), ask (ask s))
           | Some (sg, st, bs) \<Rightarrow>
               let s1 = put_file name bs (ask (ask s));
                   s2 = (if wsSkipped st > 0 then recordLoss (wsSkipped st) (wsGapLow st) (wsGapHigh st) s1 else s1)
               in if wsCount st = 0
                  then and_then (syscall w RemoveSegment s2)
                    (\<lambda>_ s3. recover_loop J w names (s3\<lparr> spFiles := AList.delete name (spFiles s3) \<rparr>))
                  else recover_loop J w names (s2\<lparr> spSegs := spSegs s2 @ [sg] \<rparr>)))"

definition use_checkpoint :: "nat option \<Rightarrow> spool \<Rightarrow> spool" where
  "use_checkpoint ck s =
     (case ck of
        None \<Rightarrow> s
      | Some acked \<Rightarrow> s\<lparr> spAckedThrough := acked, spLastSeq := (if acked > spLastSeq s then acked else spLastSeq s) \<rparr>)"

definition open_last :: "disk_world \<Rightarrow> spool \<Rightarrow> unit spool_result" where
  "open_last w s =
     (if spSegs s = [] then (Inr (), s)
      else and_then (syscall w OpenSegment s) (\<lambda>_ s1. (Inr (), s1\<lparr> spW := Some (sgPath (last (spSegs s1))) \<rparr>)))"

definition sort_segs :: "segment list \<Rightarrow> segment list" where
  "sort_segs sgs = sort_key sgBase sgs"

definition recover :: "event_codec \<Rightarrow> disk_world \<Rightarrow> spool \<Rightarrow> unit spool_result" where
  "recover J w s =
     and_then (syscall w ReadDirectory s) (\<lambda>_ s1.
     and_then (recover_loop J w (sort (remdups (map fst (spFiles s1)))) s1) (\<lambda>_ s2.
       let s3 = s2\<lparr> spSegs := sort_segs (spSegs s2) \<rparr>;
           s4 = (if spSegs s3 = [] then s3 else s3\<lparr> spLastSeq := sgLast (last (spSegs s3)) \<rparr>);
           (ck, s5) = readCheckpoint w s4
       in and_then (dropAckedSegments w (use_checkpoint ck s5)) (\<lambda>_ s6.
          and_then (advanceAckCursor J w s6) (\<lambda>_ s7.
          and_then (open_last w (recount s7)) (\<lambda>_ s8.
          and_then (enforceMaxSize w s8) (\<lambda>_ s9. (Inr (), publishMetrics s9)))))))"

definition Open :: "event_codec \<Rightarrow> disk_world \<Rightarrow> spool_options \<Rightarrow> (string \<times> bytes) list \<Rightarrow> nat \<Rightarrow> unit spool_result" where
  "Open J w opts files tick =
     (let s0 = zero_spool (normalize_options opts) 0 files tick in
      if soDir opts = [] then (Inl DirNotSet, s0)
      else and_then (syscall w MakeDir s0) (\<lambda>_ s1.
        recover J w ((ask s1)\<lparr> spLastSync := dwClock w (spTick s1) \<rparr>)))"

end
