(* ===== verification/Spool_Inv.thy ===== *)
theory Spool_Inv
  imports Spool
begin

section \<open>The contents of a spool\<close>

text \<open>
  The invariant of a spool: every segment file is exactly the encoding of a run of records, and the
  counters and cursors of the segments and of the spool describe these runs. \<open>rss\<close> are the runs, one
  per segment. The invariant is kept by every operation whatever system calls fail, provided that a
  failing write writes nothing (\<open>whole_writes\<close>; theorem \<open>torn_append_swallows_next\<close> shows what a short
  write does).
\<close>

subsection \<open>Reading intact files\<close>

definition rec_ok :: "event_codec \<Rightarrow> nat \<times> bytes \<Rightarrow> bool" where
  "rec_ok J qp \<longleftrightarrow> record_ok (ecSequence J) qp \<and> fst qp \<le> max64 \<and> ecUnmarshal J (snd qp) \<noteq> None"

lemma rec_ok_all: "list_all (rec_ok J) rs \<Longrightarrow> list_all (record_ok (ecSequence J)) rs"
  by (auto simp: list_all_iff rec_ok_def)

definition intact_walk :: "('a \<Rightarrow> nat \<Rightarrow> bytes \<Rightarrow> nat \<Rightarrow> bool \<times> 'a) \<Rightarrow> nat \<Rightarrow> (nat \<times> bytes) list \<Rightarrow> walkStats \<Rightarrow> 'a \<Rightarrow> bool \<times> walkStats \<times> 'a" where
  "intact_walk fn off rs st a =
     (let (b, n, e, a') = deliver fn off rs a; st' = st\<lparr> wsCount := wsCount st + n, wsValidEnd := e \<rparr>
      in (False, if b then st' else st'\<lparr> wsStopped := True \<rparr>, a'))"

lemma walk_loop_intact:
  assumes "list_all (record_ok sequenceOf) rs" "rising rs" "havePrev \<longrightarrow> (\<forall>x \<in> set rs. prevSeq < fst x)"
    "off + length (encode_all rs) \<le> fileSize" "wsValidEnd st = off"
  shows "walk_loop sequenceOf fileSize False fn (encode_all rs) off prevSeq havePrev False st a = intact_walk fn off rs st a"
proof -
  obtain b n e a' where d: "deliver fn off rs a = (b, n, e, a')" by (metis prod.exhaust)
  show ?thesis
    using walk_run [OF assms, of False fn "[]" a] d
    by (simp add: intact_walk_def walk_short recordHeaderSize_def Let_def)
qed

text \<open>A read that fails part of the way: the walk fails, or the callback had stopped it before.\<close>

lemma walk_loop_partial:
  assumes "list_all (record_ok sequenceOf) rs" "rising rs" "havePrev \<longrightarrow> (\<forall>x \<in> set rs. prevSeq < fst x)"
    "off + length (encode_all rs) \<le> fileSize" "wsValidEnd st = off"
  shows "fst (walk_loop sequenceOf fileSize True fn (take n (encode_all rs)) off prevSeq havePrev False st a) \<or>
    walk_loop sequenceOf fileSize True fn (take n (encode_all rs)) off prevSeq havePrev False st a = intact_walk fn off rs st a"
  using assms
proof (induction rs arbitrary: n off prevSeq havePrev st a)
  case Nil
  then show ?case by (simp add: walk_short recordHeaderSize_def)
next
  case (Cons qp rs)
  obtain q p where qp: "qp = (q, p)" by (cases qp)
  let ?e = "off + recordHeaderSize + length p" and ?n = "n - (recordHeaderSize + length p)"
  have ok: "record_ok sequenceOf (q, p)" "havePrev \<longrightarrow> prevSeq < q" "?e \<le> fileSize" using Cons(2,4,5) by (auto simp: qp)
  have p: "length p < 2 ^ 32" "length p \<le> maxRecordSize" "p \<noteq> []" using ok(1) by (auto simp: record_ok_def maxRecordSize_def)
  consider (short) "n < recordHeaderSize" | (cut) "recordHeaderSize \<le> n" "n < recordHeaderSize + length p" | (full) "recordHeaderSize + length p \<le> n"
    by linarith
  then show ?case
  proof cases
    case short
    then show ?thesis by (simp add: walk_short)
  next
    case cut
    define rest where "rest = take n (encode_all (qp # rs))"
    have r: "rest = take n (encodeRecord p)" using cut by (simp add: rest_def qp)
    have t: "slice i j rest = slice i j (encodeRecord p)" if "i \<le> j" "j \<le> recordHeaderSize" for i j
      using that cut unfolding r by (simp add: slice_def drop_take min_def)
    have hl: "header_length rest = length p"
      using record_header(2) [OF p(1), of "[]"] t [of 4 8] by (simp add: header_length_def recordHeaderSize_def)
    have "plausible fileSize off rest"
      using record_header(1) [OF p(1), of "[]"] t [of 0 4] p ok(3) by (simp add: plausible_def hl recordHeaderSize_def)
    moreover have "length rest = n" using cut by (simp add: r)
    moreover have "n - recordHeaderSize < length p" using cut by linarith
    ultimately show ?thesis using cut unfolding rest_def [symmetric] by (subst walk_loop.simps) (simp add: hl)
  next
    case full
    have r: "take n (encode_all (qp # rs)) = encodeRecord p @ take ?n (encode_all rs)" using full by (simp add: qp)
    obtain c a1 where f: "fn a q p ?e = (c, a1)" by fastforce
    let ?st = "st\<lparr> wsCount := wsCount st + 1, wsValidEnd := ?e \<rparr>"
    have step: "walk_loop sequenceOf fileSize True fn (take n (encode_all (qp # rs))) off prevSeq havePrev False st a =
      (if \<not> c then (False, ?st\<lparr> wsStopped := True \<rparr>, a1)
       else walk_loop sequenceOf fileSize True fn (take ?n (encode_all rs)) ?e q True False ?st a1)"
      unfolding r record_step [OF ok] using f by (simp add: Let_def)
    obtain b k e a2 where d: "deliver fn ?e rs a1 = (b, k, e, a2)" by (metis prod.exhaust)
    show ?thesis
    proof (cases c)
      case False
      then show ?thesis unfolding step using f by (simp add: intact_walk_def qp Let_def)
    next
      case True
      have "intact_walk fn off (qp # rs) st a = intact_walk fn ?e rs ?st a1"
        using True f d by (simp add: intact_walk_def qp Let_def)
      moreover have "fst (walk_loop sequenceOf fileSize True fn (take ?n (encode_all rs)) ?e q True False ?st a1) \<or>
          walk_loop sequenceOf fileSize True fn (take ?n (encode_all rs)) ?e q True False ?st a1 = intact_walk fn ?e rs ?st a1"
        by (rule Cons.IH) (use Cons(2-6) in \<open>auto simp: qp\<close>)
      ultimately show ?thesis unfolding step using True by simp
    qed
  qed
qed

lemma walk_intact:
  assumes "list_all (record_ok sequenceOf) rs" "rising rs"
  shows "fst (walk sequenceOf outcome (Some (encode_all rs)) (length (encode_all (take k rs))) fn a) \<or>
    walk sequenceOf outcome (Some (encode_all rs)) (length (encode_all (take k rs))) fn a =
      intact_walk fn (length (encode_all (take k rs))) (drop k rs) (zero_stats (length (encode_all (take k rs)))) a"
    "walk sequenceOf ReadOk (Some (encode_all rs)) (length (encode_all (take k rs))) fn a =
      intact_walk fn (length (encode_all (take k rs))) (drop k rs) (zero_stats (length (encode_all (take k rs)))) a"
proof -
  let ?o = "length (encode_all (take k rs))"
  have e: "encode_all rs = encode_all (take k rs) @ encode_all (drop k rs)" by (metis append_take_drop_id encode_all_simps(3))
  then have d: "drop ?o (encode_all rs) = encode_all (drop k rs)" by simp
  have ok: "list_all (record_ok sequenceOf) (drop k rs)" "rising (drop k rs)"
    using assms by (auto simp: list_all_iff rising_def drop_map [symmetric] sorted_wrt_drop dest: in_set_dropD)
  have sz: "?o + length (encode_all (drop k rs)) \<le> length (encode_all rs)" using e by simp
  have z: "wsValidEnd (zero_stats ?o) = ?o" by (simp add: zero_stats_def)
  show 2: "walk sequenceOf ReadOk (Some (encode_all rs)) ?o fn a = intact_walk fn ?o (drop k rs) (zero_stats ?o) a"
    using walk_loop_intact [OF ok _ sz z, of False 0 fn a] by (simp add: walk_def walkRecords_def d)
  show "fst (walk sequenceOf outcome (Some (encode_all rs)) ?o fn a) \<or>
    walk sequenceOf outcome (Some (encode_all rs)) ?o fn a = intact_walk fn ?o (drop k rs) (zero_stats ?o) a"
  proof (cases outcome)
    case ReadOk
    with 2 show ?thesis by simp
  next
    case (ReadFails n)
    then show ?thesis using walk_loop_partial [OF ok _ sz z, of False 0 fn n a] by (simp add: walk_def walkRecords_def d)
  qed (simp add: walk_def)
qed

subsection \<open>The invariant\<close>

definition seg_ok :: "event_codec \<Rightarrow> (string \<times> bytes) list \<Rightarrow> segment \<Rightarrow> (nat \<times> bytes) list \<Rightarrow> bool" where
  "seg_ok J files sg rs \<longleftrightarrow> map_of files (sgPath sg) = Some (encode_all rs) \<and> list_all (rec_ok J) rs \<and>
     0 < sgBase sg \<and> sgCount sg = length rs \<and> sgSize sg = length (encode_all rs) \<and>
     (rs \<noteq> [] \<longrightarrow> sgBase sg = fst (hd rs)) \<and> sgLast sg = (if rs = [] then 0 else fst (last rs))"

text \<open>The base of a segment is a lower bound of what it and its successors hold.\<close>

fun bases_ok :: "segment list \<Rightarrow> (nat \<times> bytes) list list \<Rightarrow> bool" where
  "bases_ok (sg # sgs) (rs # rss) \<longleftrightarrow> (\<forall>x \<in> set (concat (rs # rss)). sgBase sg \<le> fst x) \<and> bases_ok sgs rss"
| "bases_ok _ _ \<longleftrightarrow> True"

definition segs_inv :: "event_codec \<Rightarrow> (nat \<times> bytes) list list \<Rightarrow> spool \<Rightarrow> bool" where
  "segs_inv J rss s \<longleftrightarrow> list_all2 (seg_ok J (spFiles s)) (spSegs s) rss \<and> rising (concat rss) \<and> bases_ok (spSegs s) rss \<and>
     (\<forall>x \<in> set (concat rss). fst x \<le> spLastSeq s) \<and> spLastSeq s \<le> max64 \<and> spAckedThrough s \<le> spLastSeq s \<and>
     distinct (map sgPath (spSegs s)) \<and>
     {p. map_of (spFiles s) p \<noteq> None \<and> parseSegmentName p \<noteq> None} = set (map sgPath (spSegs s)) \<and>
     (\<forall>p. spW s = Some p \<longrightarrow> spSegs s \<noteq> [] \<and> p = sgPath (last (spSegs s)))"

text \<open>The checkpoint names a sequence between the one in memory and the highest one acknowledged, \<open>A\<close>.\<close>

definition ckpt_inv :: "nat \<Rightarrow> spool \<Rightarrow> bool" where
  "ckpt_inv A s \<longleftrightarrow> (map_of (spFiles s) checkpointName = None \<longrightarrow> spAckedThrough s = 0) \<and>
     (\<forall>b. map_of (spFiles s) checkpointName = Some b \<longrightarrow>
        (\<exists>c. b = checkpoint_bytes c \<and> spAckedThrough s \<le> c \<and> c \<le> A \<and> c \<le> max64))"

definition first_run :: "(nat \<times> bytes) list list \<Rightarrow> (nat \<times> bytes) list" where
  "first_run rss = (case rss of [] \<Rightarrow> [] | rs # _ \<Rightarrow> rs)"

definition cursor_inv :: "(nat \<times> bytes) list list \<Rightarrow> spool \<Rightarrow> bool" where
  "cursor_inv rss s \<longleftrightarrow> spAckedInFirst s \<le> length (first_run rss) \<and>
     spAckOffset s = length (encode_all (take (spAckedInFirst s) (first_run rss))) \<and>
     (\<forall>x \<in> set (take (spAckedInFirst s) (first_run rss)). fst x \<le> spAckedThrough s)"

definition first_inv :: "(nat \<times> bytes) list list \<Rightarrow> spool \<Rightarrow> bool" where
  "first_inv rss s \<longleftrightarrow> (\<forall>x \<in> set (concat rss). spAckedThrough s < fst x \<longrightarrow> spFirstPending s \<le> fst x) \<and>
     (spFirstPending s = 0 \<longrightarrow> (\<forall>x \<in> set (concat rss). fst x \<le> spAckedThrough s)) \<and>
     (spFirstPending s \<le> Suc (spLastSeq s) \<or> (\<exists>sg \<in> set (spSegs s). spFirstPending s \<le> sgBase sg))"

definition counts_inv :: "(nat \<times> bytes) list list \<Rightarrow> spool \<Rightarrow> bool" where
  "counts_inv rss s \<longleftrightarrow> spPending s = length (concat rss) - spAckedInFirst s \<and>
     spBytes s = length (encode_all (concat rss))"

text \<open>While \<open>Open\<close> works on the state the first pending sequence is not known yet; \<open>b\<close> says whether it is.\<close>

definition core_inv :: "bool \<Rightarrow> event_codec \<Rightarrow> nat \<Rightarrow> (nat \<times> bytes) list list \<Rightarrow> spool \<Rightarrow> bool" where
  "core_inv b J A rss s \<longleftrightarrow> segs_inv J rss s \<and> ckpt_inv A s \<and> cursor_inv rss s \<and> (b \<longrightarrow> first_inv rss s)"

definition spool_inv :: "event_codec \<Rightarrow> nat \<Rightarrow> (nat \<times> bytes) list list \<Rightarrow> spool \<Rightarrow> bool" where
  "spool_inv J A rss s \<longleftrightarrow> core_inv True J A rss s \<and> counts_inv rss s"

lemmas spool_invs = spool_inv_def core_inv_def segs_inv_def ckpt_inv_def cursor_inv_def first_inv_def counts_inv_def

text \<open>Fields the invariant does not read.\<close>

definition same_core :: "spool \<Rightarrow> spool \<Rightarrow> bool" where
  "same_core s s' \<longleftrightarrow> spSegs s' = spSegs s \<and> spFiles s' = spFiles s \<and> spW s' = spW s \<and> spLastSeq s' = spLastSeq s \<and>
     spAckedThrough s' = spAckedThrough s \<and> spFirstPending s' = spFirstPending s \<and> spPending s' = spPending s \<and>
     spBytes s' = spBytes s \<and> spAckedInFirst s' = spAckedInFirst s \<and> spAckOffset s' = spAckOffset s \<and> spOpts s' = spOpts s \<and>
     spClosed s' = spClosed s"

definition same_loss :: "spool \<Rightarrow> spool \<Rightarrow> bool" where
  "same_loss s s' \<longleftrightarrow> spDropped s' = spDropped s \<and> spDroppedLow s' = spDroppedLow s \<and> spDroppedHigh s' = spDroppedHigh s"

lemma same_core_refl [simp]: "same_core s s" "same_loss s s"
  by (simp_all add: same_core_def same_loss_def)

lemma same_core_trans: "same_core a b \<Longrightarrow> same_core b c \<Longrightarrow> same_core a c" "same_loss a b \<Longrightarrow> same_loss b c \<Longrightarrow> same_loss a c"
  by (simp_all add: same_core_def same_loss_def)

lemma inv_core:
  assumes "same_core s s'"
  shows "segs_inv J rss s' = segs_inv J rss s" "ckpt_inv A s' = ckpt_inv A s" "cursor_inv rss s' = cursor_inv rss s"
    "first_inv rss s' = first_inv rss s" "counts_inv rss s' = counts_inv rss s" "core_inv b J A rss s' = core_inv b J A rss s" "spool_inv J A rss s' = spool_inv J A rss s"
  using assms by (simp_all add: spool_invs same_core_def)

lemma core_ask [simp]: "same_core s (ask s)" "same_loss s (ask s)"
  by (simp_all add: same_core_def same_loss_def ask_def)

lemma core_publishMetrics [simp]: "same_core s (publishMetrics s)" "same_loss s (publishMetrics s)"
  by (simp_all add: same_core_def same_loss_def publishMetrics_def)

lemma core_recordLoss [simp]: "same_core s (recordLoss n lo hi s)"
  by (simp add: same_core_def recordLoss_def)

lemma and_then_cases:
  assumes "and_then r k = (x, s')"
  obtains (err) e where "r = (Inl e, s')" "x = Inl e" | (ok) a s1 where "r = (Inr a, s1)" "k a s1 = (x, s')"
  using assms by (auto simp: and_then_def split: sum.splits prod.splits)

lemma core_syscall: "syscall w op s = (r, s') \<Longrightarrow> same_core s s' \<and> same_loss s s'"
  by (auto simp: syscall_def)

lemma core_sync: "sync w s = (r, s') \<Longrightarrow> same_core s s' \<and> same_loss s s'"
  by (auto simp: sync_def and_then_def syscall_def same_core_def same_loss_def ask_def split: if_splits)

lemma core_ask_then: "same_core (ask s) s' \<and> same_loss (ask s) s' \<Longrightarrow> same_core s s' \<and> same_loss s s'"
  by (simp add: same_core_def same_loss_def ask_def)

lemma core_maybeSync: "maybeSync w s = (r, s') \<Longrightarrow> same_core s s' \<and> same_loss s s'"
proof -
  assume m: "maybeSync w s = (r, s')"
  consider (1) "sync w s = (r, s')" | (2) "sync w (ask s) = (r, s')" | (3) "s' = ask s" | (4) "s' = s"
    using m by (auto simp: maybeSync_def split: if_splits)
  then show ?thesis
  proof cases
    case 1
    then show ?thesis by (rule core_sync)
  next
    case 2
    from core_ask_then [OF core_sync [OF 2]] show ?thesis .
  qed simp_all
qed

lemma core_syncDir: "syncDir w s = (r, s') \<Longrightarrow> same_core s s' \<and> same_loss s s'"
  by (simp add: syncDir_def core_syscall)

text \<open>\<open>recount\<close> makes the totals right.\<close>

lemma seg_sums:
  assumes "list_all2 (seg_ok J files) sgs rss"
  shows "sum_list (map sgSize sgs) = length (encode_all (concat rss))" "sum_list (map sgCount sgs) = length (concat rss)"
  using assms by (induction rule: list_all2_induct) (simp_all add: seg_ok_def)

lemma recount_fields [simp]:
  "spSegs (recount s) = spSegs s" "spFiles (recount s) = spFiles s" "spW (recount s) = spW s" "spLastSeq (recount s) = spLastSeq s"
  "spAckedThrough (recount s) = spAckedThrough s" "spAckedInFirst (recount s) = spAckedInFirst s"
  "spAckOffset (recount s) = spAckOffset s" "spOpts (recount s) = spOpts s" "spTick (recount s) = spTick s"
  "spDropped (recount s) = spDropped s" "spDroppedLow (recount s) = spDroppedLow s" "spDroppedHigh (recount s) = spDroppedHigh s"
  "spClosed (recount s) = spClosed s"
  by (simp_all add: recount_def Let_def)

lemma recount_inv:
  assumes "core_inv True J A rss s"
  shows "spool_inv J A rss (recount s)"
proof -
  have assms: "segs_inv J rss s" "ckpt_inv A s" "cursor_inv rss s" "first_inv rss s" using assms by (simp_all add: core_inv_def)
  have l: "list_all2 (seg_ok J (spFiles s)) (spSegs s) rss" using assms(1) by (simp add: segs_inv_def)
  have "segs_inv J rss (recount s)" using assms(1) unfolding segs_inv_def recount_fields .
  moreover have "ckpt_inv A (recount s)" using assms(2) unfolding ckpt_inv_def recount_fields .
  moreover have "cursor_inv rss (recount s)" using assms(3) unfolding cursor_inv_def recount_fields .
  moreover have "first_inv rss (recount s)"
  proof (cases "sum_list (map sgCount (spSegs s)) \<le> spAckedInFirst s")
    case True
    then have "spFirstPending (recount s) = 0" by (simp add: recount_def Let_def)
    moreover have "x \<in> set (take (spAckedInFirst s) (first_run rss))" if "x \<in> set (concat rss)" for x
    proof (cases rss)
      case (Cons rs rss')
      have "length (concat rss) \<le> spAckedInFirst s" "spAckedInFirst s \<le> length rs"
        using True seg_sums(2) [OF l] assms(3) by (simp_all add: cursor_inv_def first_run_def Cons)
      moreover have "length (concat rss) = length rs + length (concat rss')" by (simp add: Cons)
      ultimately have "length (concat rss') = 0" "spAckedInFirst s = length rs" by linarith+
      then have "concat rss = rs" "spAckedInFirst s = length rs" by (simp_all only: length_0_conv Cons concat.simps append_Nil2)
      then show ?thesis using that by (auto simp: first_run_def Cons)
    qed (use that in simp)
    ultimately show ?thesis using assms(3) by (auto simp: first_inv_def cursor_inv_def)
  next
    case False
    then have "spFirstPending (recount s) = spFirstPending s" by (simp add: recount_def Let_def)
    then show ?thesis using assms(4) unfolding first_inv_def recount_fields by simp
  qed
  moreover have "counts_inv rss (recount s)" using seg_sums [OF l] by (simp add: counts_inv_def recount_def Let_def)
  ultimately show ?thesis by (simp add: spool_inv_def core_inv_def)
qed

subsection \<open>Removing the oldest segment\<close>

lemma seg_ok_delete:
  assumes "list_all2 (seg_ok J files) sgs rss" "p \<notin> set (map sgPath sgs)"
  shows "list_all2 (seg_ok J (AList.delete p files)) sgs rss"
  using assms by (induction rule: list_all2_induct) (auto simp: seg_ok_def delete_conv')

lemma segment_path_names: "parseSegmentName checkpointName = None" "parseSegmentName checkpointTemp = None"
  by (simp_all add: parseSegmentName_def checkpointName_def checkpointTemp_def segmentSuffix_def segmentNameDigits_def)

lemma remove_file_cases:
  assumes "remove_file w path s = (r, s')"
  obtains (fails) e where "r = Inl e" "same_core s s'" "same_loss s s'"
  | (removed) "r = Inr ()" "same_core (s\<lparr> spFiles := AList.delete path (spFiles s) \<rparr>) s'" "same_loss s s'"
proof (cases "map_of (spFiles s) path")
  case None
  then have "AList.delete path (spFiles s) = spFiles s" by (simp add: map_of_eq_None_iff delete_idem)
  with assms None removed show ?thesis by (auto simp: remove_file_def same_core_def same_loss_def ask_def)
next
  case (Some b)
  then show ?thesis using assms fails removed
    by (auto simp: remove_file_def and_then_def syscall_def same_core_def same_loss_def ask_def split: if_splits)
qed

lemma remove_front:
  assumes inv: "core_inv b J A (rs # rss) s" and sg: "spSegs s = sg # sgs" and w: "sgs = [] \<longrightarrow> spW s = None"
    and rem: "same_core (s\<lparr> spFiles := AList.delete (sgPath sg) (spFiles s) \<rparr>) s2"
    and s3: "s3 = s2\<lparr> spSegs := sgs, spAckedInFirst := 0, spAckOffset := 0, spFirstPending := f \<rparr>"
    and f: "f = (case sgs of [] \<Rightarrow> 0 | sg' # _ \<Rightarrow> sgBase sg')"
  shows "core_inv c J A rss s3"
proof -
  note inv = inv [unfolded core_inv_def, THEN conjunct1] inv [unfolded core_inv_def, THEN conjunct2, THEN conjunct1]
  note i = inv(1) [unfolded segs_inv_def sg]
  have l: "list_all2 (seg_ok J (spFiles s)) sgs rss" "seg_ok J (spFiles s) sg rs" using i by simp_all
  have np: "sgPath sg \<notin> set (map sgPath sgs)" "distinct (map sgPath sgs)" using i by auto
  have fs: "spFiles s3 = AList.delete (sgPath sg) (spFiles s)" "spSegs s3 = sgs" "spW s3 = spW s" "spLastSeq s3 = spLastSeq s"
    "spAckedThrough s3 = spAckedThrough s" "spFirstPending s3 = f" "spAckedInFirst s3 = 0" "spAckOffset s3 = 0"
    using rem by (simp_all add: s3 same_core_def)
  have ps: "parseSegmentName (sgPath sg) \<noteq> None" using i by auto
  then have ck: "checkpointName \<noteq> sgPath sg" using segment_path_names(1) by auto
  have b: "bases_ok sgs rss" using i by simp
  have nm: "{p. map_of (spFiles s3) p \<noteq> None \<and> parseSegmentName p \<noteq> None} = set (map sgPath sgs)"
  proof -
    have "{p. map_of (spFiles s3) p \<noteq> None \<and> parseSegmentName p \<noteq> None} =
        {p. map_of (spFiles s) p \<noteq> None \<and> parseSegmentName p \<noteq> None} - {sgPath sg}"
      by (auto simp: fs(1) delete_conv')
    also have "\<dots> = set (map sgPath sgs)" using i np(1) by auto
    finally show ?thesis .
  qed
  have "segs_inv J rss s3"
    using i w seg_ok_delete [OF l(1) np(1)] np(2) b nm
    unfolding segs_inv_def fs by (auto simp: rising_append)
  moreover have "ckpt_inv A s3" using inv(2) ck unfolding ckpt_inv_def fs by (simp add: delete_conv')
  moreover have "cursor_inv rss s3" by (simp add: cursor_inv_def fs)
  moreover have "first_inv rss s3"
  proof (cases sgs)
    case Nil
    then have "rss = []" "f = 0" using l(1) f by simp_all
    then show ?thesis by (simp add: first_inv_def fs)
  next
    case (Cons sg' sgs')
    obtain rs' rss' where r: "rss = rs' # rss'" using l(1) Cons by (cases rss) auto
    have "\<forall>x \<in> set (concat rss). f \<le> fst x" "0 < f" using b f l(1) by (simp_all add: Cons r seg_ok_def)
    then show ?thesis using f Cons by (auto simp: first_inv_def fs)
  qed
  ultimately show ?thesis by (simp add: core_inv_def)
qed

subsection \<open>Dropping acknowledged segments\<close>

text \<open>What no operation but \<open>Append\<close>, \<open>Ack\<close> and \<open>Close\<close> changes.\<close>

definition kept :: "spool \<Rightarrow> spool \<Rightarrow> bool" where
  "kept s s' \<longleftrightarrow> spLastSeq s' = spLastSeq s \<and> spAckedThrough s' = spAckedThrough s \<and> spOpts s' = spOpts s \<and>
     spClosed s' = spClosed s"

lemma kept_trans: "kept a b \<Longrightarrow> kept b c \<Longrightarrow> kept a c"
  by (simp add: kept_def)

lemma kept_core: "same_core s s' \<Longrightarrow> kept s s'"
  by (simp add: kept_def same_core_def)

lemma core_inv_close: "core_inv b J A rss s \<Longrightarrow> core_inv b J A rss (s\<lparr> spW := None \<rparr>)"
  by (simp add: spool_invs)

lemma core_inv_dirty: "core_inv b J A rss (s\<lparr> spDirty := d \<rparr>) = core_inv b J A rss s"
  by (simp add: spool_invs)

lemma seg_runs: "core_inv b J A rss s \<Longrightarrow> list_all2 (seg_ok J (spFiles s)) (spSegs s) rss"
  by (simp add: core_inv_def segs_inv_def)

lemma rising_last: "rising rs \<Longrightarrow> x \<in> set rs \<Longrightarrow> fst x \<le> fst (last rs)"
proof -
  assume a: "rising rs" "x \<in> set rs"
  then have rs: "butlast rs @ [last rs] = rs" by (auto intro: append_butlast_last_id)
  with a have "x \<in> set (butlast rs) \<or> x = last rs" "rising (butlast rs @ [last rs])"
    by (metis in_set_conv_decomp set_ConsD Un_iff set_append list.set(1) empty_iff, simp)
  then show ?thesis by (auto simp: rising_append)
qed

lemma seg_last_bound: "seg_ok J fs sg rs \<Longrightarrow> rising rs \<Longrightarrow> x \<in> set rs \<Longrightarrow> fst x \<le> sgLast sg"
  by (auto simp: seg_ok_def rising_last split: if_splits)

lemma front_rising: "core_inv b J A (rs # rss) s \<Longrightarrow> rising rs"
  by (simp add: core_inv_def segs_inv_def rising_append)

lemma drop_acked_loop_inv:
  assumes "core_inv b J A rss s" "drop_acked_loop w sgs removed s = (r, s')" "spSegs s = sgs"
  shows "\<exists>j. core_inv b J A (drop j rss) s' \<and> (\<forall>x \<in> set (concat (take j rss)). fst x \<le> spAckedThrough s) \<and> kept s s' \<and> same_loss s s' \<and>
    set (spSegs s') \<subseteq> set (spSegs s) \<and> (\<forall>x. r = Inr x \<longrightarrow> spSegs s' \<noteq> [] \<longrightarrow> spAckedThrough s < sgLast (hd (spSegs s')))"
  using assms
proof (induction w sgs removed s arbitrary: rss r s' rule: drop_acked_loop.induct)
  case (1 w removed s)
  then show ?case by (intro exI [of _ 0]) (auto simp: kept_def)
next
  case (2 w sg sgs removed s)
  have l: "list_all2 (seg_ok J (spFiles s)) (sg # sgs) rss" using seg_runs [OF 2(2)] 2(4) by simp
  then obtain rs rss' where rss: "rss = rs # rss'" and so: "seg_ok J (spFiles s) sg rs" by (cases rss) auto
  show ?case
  proof (cases "sgLast sg \<le> spAckedThrough s")
    case False
    with 2(2-4) show ?thesis by (intro exI [of _ 0]) (auto simp: kept_def)
  next
    case True
    define c where "c = (if sgs = [] \<and> spW s \<noteq> None
      then and_then (case syscall w CloseSegment s of (r, s1) \<Rightarrow> (r, s1\<lparr> spW := None \<rparr>)) (\<lambda>_ s. (Inr (), s\<lparr> spDirty := False \<rparr>))
      else (Inr (), s))"
    define k where "k = (\<lambda>(_::unit) s1. and_then (remove_file w (sgPath sg) s1)
      (\<lambda>_ s2. drop_acked_loop w sgs True (s2\<lparr> spSegs := sgs, spAckedInFirst := 0, spAckOffset := 0,
         spFirstPending := (case sgs of [] \<Rightarrow> 0 | sg' # _ \<Rightarrow> sgBase sg') \<rparr>)))"
    have e: "and_then c k = (r, s')" using 2(3) True unfolding c_def k_def by simp
    have cl: "core_inv b J A rss s1 \<and> kept s s1 \<and> same_loss s s1 \<and> spSegs s1 = sg # sgs \<and> (\<forall>u. x = Inr u \<longrightarrow> sgs = [] \<longrightarrow> spW s1 = None)"
      if "c = (x, s1)" for x s1
    proof (cases "sgs = [] \<and> spW s \<noteq> None")
      case True
      obtain y s0 where y: "syscall w CloseSegment s = (y, s0)" by fastforce
      have s0: "same_core s s0" "same_loss s s0" using core_syscall [OF y] by simp_all
      have i: "core_inv b J A rss (s0\<lparr> spW := None \<rparr>)" using core_inv_close inv_core(6) [OF s0(1)] 2(2) by blast
      have "s1 = s0\<lparr> spW := None \<rparr> \<or> s1 = s0\<lparr> spW := None \<rparr>\<lparr> spDirty := False \<rparr>"
        using that True by (cases y) (auto simp: c_def y and_then_def)
      then show ?thesis using i s0 2(4) True by (auto simp: core_inv_dirty kept_def same_core_def same_loss_def)
    next
      case False
      then show ?thesis using that 2(2,4) unfolding c_def by (auto simp: kept_def)
    qed
    show ?thesis
      using e
    proof (cases rule: and_then_cases)
      case (err x)
      with cl [OF err(1)] 2(4) show ?thesis by (intro exI [of _ 0]) auto
    next
      case (ok u s1)
      note c1 = cl [OF ok(1)]
      show ?thesis
        using ok(2) [unfolded k_def]
      proof (cases rule: and_then_cases)
        case (err x)
        from err(1) show ?thesis
        proof (cases rule: remove_file_cases)
          case (fails y)
          then have "core_inv b J A rss s'" "kept s1 s'" "same_loss s1 s'" "spSegs s' = spSegs s1"
            using c1 inv_core(6) [OF fails(2)] kept_core fails(2) by (auto simp: same_core_def)
          with c1 err(2) 2(4) show ?thesis by (intro exI [of _ 0]) (auto simp: kept_def same_loss_def)
        qed simp
      next
        case (ok v s2)
        define s3 where "s3 = s2\<lparr> spSegs := sgs, spAckedInFirst := 0, spAckOffset := 0,
          spFirstPending := (case sgs of [] \<Rightarrow> 0 | sg' # _ \<Rightarrow> sgBase sg') \<rparr>"
        from ok(1) have rem: "same_core (s1\<lparr> spFiles := AList.delete (sgPath sg) (spFiles s1) \<rparr>) s2" "same_loss s1 s2"
          by (auto elim: remove_file_cases)
        have i3: "core_inv b J A rss' s3"
          by (rule remove_front [OF _ _ _ rem(1) s3_def]) (use c1 \<open>c = (Inr u, s1)\<close> in \<open>auto simp: rss split: list.splits\<close>)
        have k3: "kept s s3" "same_loss s s3" using c1 rem by (auto simp: s3_def kept_def same_core_def same_loss_def)
        have "drop_acked_loop w sgs True s3 = (r, s')" "spSegs s3 = sgs" using ok(2) by (simp_all add: s3_def)
        from 2(1) [OF _ i3 [unfolded s3_def] this [unfolded s3_def]] True
        obtain j where j: "core_inv b J A (drop j rss') s'" "\<forall>x \<in> set (concat (take j rss')). fst x \<le> spAckedThrough s3" "kept s3 s'" "same_loss s3 s'"
          "set (spSegs s') \<subseteq> set (spSegs s3)" "\<forall>x. r = Inr x \<longrightarrow> spSegs s' \<noteq> [] \<longrightarrow> spAckedThrough s3 < sgLast (hd (spSegs s'))"
          unfolding s3_def [symmetric] by auto
        have rs: "\<forall>x \<in> set rs. fst x \<le> spAckedThrough s" 
          using seg_last_bound [OF so front_rising] 2(2) True unfolding rss by (meson le_trans)
        have "set (spSegs s') \<subseteq> set (spSegs s)" using j(5) 2(4) by (auto simp: s3_def)
        then show ?thesis using j k3 rs by (intro exI [of _ "Suc j"]) (auto simp: rss kept_def same_loss_def)
      qed
    qed
  qed
qed

lemma dropAckedSegments_inv:
  assumes "core_inv b J A rss s" "dropAckedSegments w s = (r, s')"
  obtains j where "core_inv b J A (drop j rss) s'" "\<forall>x \<in> set (concat (take j rss)). fst x \<le> spAckedThrough s" "kept s s'" "same_loss s s'"
    "set (spSegs s') \<subseteq> set (spSegs s)" "r = Inr () \<longrightarrow> spSegs s' \<noteq> [] \<longrightarrow> spAckedThrough s < sgLast (hd (spSegs s'))"
proof -
  obtain x s1 where d: "drop_acked_loop w (spSegs s) False s = (x, s1)" by fastforce
  from drop_acked_loop_inv [OF assms(1) d refl] obtain j where j: "core_inv b J A (drop j rss) s1"
    "\<forall>x \<in> set (concat (take j rss)). fst x \<le> spAckedThrough s" "kept s s1" "same_loss s s1"
    "set (spSegs s1) \<subseteq> set (spSegs s)" "\<forall>b. x = Inr b \<longrightarrow> spSegs s1 \<noteq> [] \<longrightarrow> spAckedThrough s < sgLast (hd (spSegs s1))" by blast
  have "same_core s1 s' \<and> same_loss s1 s' \<and> (r = Inr () \<longrightarrow> (\<exists>b. x = Inr b))"
    using assms(2) unfolding dropAckedSegments_def d
  proof (cases rule: and_then_cases)
    case (ok b s2)
    then show ?thesis by (cases b) (auto dest: core_syncDir)
  qed auto
  then show thesis using j inv_core(6) [of s1 s' b J A "drop j rss"] kept_trans [OF j(3) kept_core [of s1 s']]
    by (intro that [of j]) (auto simp: same_core_def intro: same_core_trans(2))
qed

subsection \<open>The acknowledgement cursor\<close>

lemma intact_walk_result:
  assumes "intact_walk fn off rs (zero_stats k) a = (b, st, a')"
  shows "\<not> b" "wsSkipped st = 0" "a' = snd (snd (snd (deliver fn off rs a)))"
  using assms by (auto simp: intact_walk_def zero_stats_def Let_def split: prod.splits if_splits)

lemma cursor_step_apply: "cursor_step acked (n, off, pending) seq payload end =
    (if seq > acked then (False, n, off, seq) else (True, n + 1, end, pending))"
  by (simp add: cursor_step_def)

lemma deliver_cursor:
  "snd (snd (snd (deliver (cursor_step acked) off rs (n, off, 0)))) =
    (let t = takeWhile (\<lambda>x. fst x \<le> acked) rs
     in (n + length t, off + length (encode_all t), if length t = length rs then 0 else fst (rs ! length t)))"
proof (induction rs arbitrary: n off)
  case (Cons qp rs)
  let ?e = "off + recordHeaderSize + length (snd qp)"
  obtain b k e a where d: "deliver (cursor_step acked) ?e rs (n + 1, ?e, 0) = (b, k, e, a)" by (metis prod.exhaust)
  show ?case
  proof (cases "fst qp \<le> acked")
    case False
    then show ?thesis by (simp add: cursor_step_apply Let_def)
  next
    case True
    have "a = (let t = takeWhile (\<lambda>x. fst x \<le> acked) rs
        in (n + 1 + length t, ?e + length (encode_all t), if length t = length rs then 0 else fst (rs ! length t)))"
      using Cons [where off = ?e and n = "n + 1"] d by simp
    then show ?thesis using True d by (simp add: cursor_step_apply Let_def)
  qed
qed simp

definition with_cursor :: "nat \<Rightarrow> nat \<Rightarrow> nat \<Rightarrow> spool \<Rightarrow> spool" where
  "with_cursor k off f s = s\<lparr> spAckedInFirst := k, spAckOffset := off, spFirstPending := f \<rparr>"

lemma core_inv_cursor:
  assumes "core_inv b J A rss s" "k \<le> length (first_run rss)" "off = length (encode_all (take k (first_run rss)))"
    "\<forall>x \<in> set (take k (first_run rss)). fst x \<le> spAckedThrough s"
    "\<forall>x \<in> set (concat rss). spAckedThrough s < fst x \<longrightarrow> f \<le> fst x" "f \<le> Suc (spLastSeq s) \<or> (\<exists>sg \<in> set (spSegs s). f \<le> sgBase sg)"
    "f = 0 \<longrightarrow> (\<forall>x \<in> set (concat rss). fst x \<le> spAckedThrough s)"
  shows "core_inv c J A rss (with_cursor k off f s)"
proof -
  have "segs_inv J rss (with_cursor k off f s) = segs_inv J rss s" "ckpt_inv A (with_cursor k off f s) = ckpt_inv A s"
    by (simp_all add: segs_inv_def ckpt_inv_def with_cursor_def)
  moreover have "cursor_inv rss (with_cursor k off f s)" "first_inv rss (with_cursor k off f s)"
    using assms(2-7) by (simp_all add: cursor_inv_def first_inv_def with_cursor_def)
  ultimately show ?thesis using assms(1) by (simp add: core_inv_def)
qed

lemma with_cursor_same [simp]: "kept s (with_cursor k off f s)" "same_loss s (with_cursor k off f s)"
  "spSegs (with_cursor k off f s) = spSegs s" "spW (with_cursor k off f s) = spW s" "spFiles (with_cursor k off f s) = spFiles s"
  "spAckedInFirst (with_cursor k off f s) = k"
  by (simp_all add: with_cursor_def kept_def same_loss_def)

lemma runs_ok: "list_all2 (seg_ok J fs) sgs rss \<Longrightarrow> x \<in> set (concat rss) \<Longrightarrow> rec_ok J x"
  by (induction rule: list_all2_induct) (auto simp: seg_ok_def list_all_iff)

lemma later_above:
  assumes "core_inv b J A (rs # rss) s" "seg_ok J fs sg rs" "x \<in> set (concat rss)"
  shows "sgLast sg < fst x" "fst x \<le> max64"
proof -
  have a: "rising (rs @ concat rss)" "fst x \<le> max64" "list_all2 (seg_ok J (spFiles s)) (spSegs s) (rs # rss)"
    using assms(1,3) by (auto simp: core_inv_def segs_inv_def intro: le_trans)
  have "rec_ok J x" using runs_ok [OF a(3), of x] assms(3) by simp
  then have "0 < fst x" by (simp add: rec_ok_def record_ok_def)
  then show "sgLast sg < fst x" "fst x \<le> max64" using a assms(2,3) by (auto simp: seg_ok_def rising_append last_in_set)
qed

lemma filter_rising:
  assumes "rising rs" "\<forall>x \<in> set (take k rs). fst x \<le> n" "k \<le> length rs"
  shows "filter (\<lambda>x. fst x \<le> n) rs = take (k + length (takeWhile (\<lambda>x. fst x \<le> n) (drop k rs))) rs"
proof -
  have t: "filter (\<lambda>x. fst x \<le> n) rs = takeWhile (\<lambda>x. fst x \<le> n) rs" if "rising rs" for rs :: "(nat \<times> bytes) list"
    using that
  proof (induction rs)
    case (Cons qp rs)
    have "\<not> fst qp \<le> n \<Longrightarrow> \<forall>x \<in> set rs. \<not> fst x \<le> n" using Cons(2) by fastforce
    with Cons show ?case by (cases "fst qp \<le> n") (simp_all add: filter_empty_conv)
  qed simp
  have "takeWhile (\<lambda>x. fst x \<le> n) (take k rs @ drop k rs) = take k rs @ takeWhile (\<lambda>x. fst x \<le> n) (drop k rs)"
    using assms(2) by (intro takeWhile_append2) blast
  then have "filter (\<lambda>x. fst x \<le> n) rs = take k rs @ takeWhile (\<lambda>x. fst x \<le> n) (drop k rs)" using t [OF assms(1)] by simp
  also have "\<dots> = take k rs @ take (length (takeWhile (\<lambda>x. fst x \<le> n) (drop k rs))) (drop k rs)"
    by (metis takeWhile_eq_take)
  finally show ?thesis by (simp add: take_add)
qed

lemma advanceAckCursor_inv:
  assumes inv: "core_inv b J A rss s" and adv: "advanceAckCursor J w s = (r, s')"
  shows "core_inv b J A rss s'" "kept s s'" "same_loss s s'" "spSegs s' = spSegs s" "spW s' = spW s" "spFiles s' = spFiles s"
    "r = Inr () \<longrightarrow> core_inv True J A rss s' \<and> spAckedInFirst s' = length (filter (\<lambda>x. fst x \<le> spAckedThrough s) (first_run rss))"
proof -
  have "core_inv b J A rss s' \<and> kept s s' \<and> same_loss s s' \<and> spSegs s' = spSegs s \<and> spW s' = spW s \<and> spFiles s' = spFiles s \<and>
    (r = Inr () \<longrightarrow> core_inv True J A rss s' \<and> spAckedInFirst s' = length (filter (\<lambda>x. fst x \<le> spAckedThrough s) (first_run rss)))"
  proof (cases "spSegs s")
    case Nil
    then have "rss = []" using seg_runs [OF inv] by simp
    moreover have "r = Inr ()" "s' = with_cursor 0 0 0 s" using adv by (auto simp: advanceAckCursor_def Nil with_cursor_def)
    ultimately show ?thesis using core_inv_cursor [OF inv, of 0 0 0 b] core_inv_cursor [OF inv, of 0 0 0 True] by (simp add: first_run_def)
  next
    case (Cons sg sgs)
    note l = seg_runs [OF inv, unfolded Cons]
    obtain rs rss' where rss: "rss = rs # rss'" using l by (cases rss) auto
    have so: "seg_ok J (spFiles s) sg rs" using l by (simp add: rss)
    have base: "\<forall>x \<in> set (concat rss). sgBase sg \<le> fst x" using inv by (simp add: core_inv_def segs_inv_def Cons rss)
    show ?thesis
    proof (cases "sgBase sg > spAckedThrough s")
      case True
      then have s': "r = Inr ()" "s' = with_cursor 0 0 (sgBase sg) s"
        using adv by (simp_all add: advanceAckCursor_def Cons with_cursor_def)
      have "filter (\<lambda>x. fst x \<le> spAckedThrough s) rs = []"
        unfolding filter_empty_conv using base True by (auto simp: rss not_le intro: less_le_trans)
      then show ?thesis using core_inv_cursor [OF inv, of 0 0 "sgBase sg" b] core_inv_cursor [OF inv, of 0 0 "sgBase sg" True] base so by (simp add: s' first_run_def rss Cons seg_ok_def)
    next
      case False
      define k where "k = spAckedInFirst s"
      define t where "t = takeWhile (\<lambda>x. fst x \<le> spAckedThrough s) (drop k rs)"
      define fp where "fp = (if length t = length (drop k rs) then 0 else fst (drop k rs ! length t))"
      have ok: "list_all (record_ok (ecSequence J)) rs" "rising rs" using so front_rising inv rec_ok_all by (auto simp: seg_ok_def rss)
      have cur: "k \<le> length rs" "spAckOffset s = length (encode_all (take k rs))" "\<forall>x \<in> set (take k rs). fst x \<le> spAckedThrough s"
        using inv by (auto simp: core_inv_def cursor_inv_def first_run_def rss k_def)
      let ?w = "walk (ecSequence J) (dwRead w (spTick s)) (map_of (spFiles s) (sgPath sg)) (spAckOffset s)
        (cursor_step (spAckedThrough s)) (0, spAckOffset s, 0)"
      obtain f st n off pd where w: "?w = (f, st, n, off, pd)" by (metis prod.exhaust)
      have fl: "map_of (spFiles s) (sgPath sg) = Some (encode_all rs)" using so by (simp add: seg_ok_def)
      show ?thesis
      proof (cases f)
        case True
        then have "s' = ask s" "r \<noteq> Inr ()" using adv w False by (auto simp: advanceAckCursor_def Cons)
        then show ?thesis using inv inv_core(6) [OF core_ask(1)] by (auto simp: kept_def same_loss_def ask_def)
      next
        case False
        have "?w = intact_walk (cursor_step (spAckedThrough s)) (spAckOffset s) (drop k rs) (zero_stats (spAckOffset s)) (0, spAckOffset s, 0)"
          using walk_intact(1) [OF ok, of "dwRead w (spTick s)" k "cursor_step (spAckedThrough s)" "(0, spAckOffset s, 0)"] w False
          unfolding fl cur(2) by auto
        note res = intact_walk_result [OF this [unfolded w, symmetric]]
        have a: "n = length t" "off = length (encode_all (take k rs)) + length (encode_all t)" "pd = fp"
          using res(3) unfolding deliver_cursor Let_def t_def [symmetric] by (simp_all add: cur(2) fp_def)
        define m where "m = k + length t"
        have m: "m \<le> length rs" "filter (\<lambda>x. fst x \<le> spAckedThrough s) rs = take m rs"
          using cur(1) length_takeWhile_le [of _ "drop k rs"] filter_rising [OF ok(2) cur(3,1)] by (auto simp: m_def t_def le_diff_conv2 add.commute)
        have off: "off = length (encode_all (take m rs))"
          by (simp add: a(2) m_def take_add) (metis t_def takeWhile_eq_take)
        define f where "f = (if fp = 0 then inc64 (sgLast sg) else fp)"
        have s': "r = Inr ()" "s' = with_cursor m off f (ask s)"
          using adv w False \<open>\<not> sgBase sg > spAckedThrough s\<close> res(2) m(1) so
          by (auto simp: advanceAckCursor_def Cons reportNewDamage_def Let_def with_cursor_def a f_def m_def k_def seg_ok_def ask_def)
        have first: "(\<forall>x \<in> set (concat rss). spAckedThrough s < fst x \<longrightarrow> f \<le> fst x) \<and>
          (f = 0 \<longrightarrow> (\<forall>x \<in> set (concat rss). fst x \<le> spAckedThrough s))"
        proof (cases "length t = length (drop k rs)")
          case True
          then have "fp = 0" "take m rs = rs" using cur(1) by (simp_all add: fp_def m_def)
          then have all: "\<forall>x \<in> set rs. fst x \<le> spAckedThrough s" using m(2) by (metis filter_id_conv)
          have "inc64 (sgLast sg) \<le> fst x \<and> 0 < inc64 (sgLast sg)" if "x \<in> set (concat rss')" for x
            using later_above [OF inv [unfolded rss] so that] by (simp add: inc64_less)
          then have "f \<le> fst x \<and> 0 < f" if "x \<in> set (concat rss')" for x using that \<open>fp = 0\<close> by (simp add: f_def)
          moreover have "x \<in> set rs \<or> x \<in> set (concat rss')" if "x \<in> set (concat rss)" for x using that by (simp add: rss)
          ultimately have "fst x \<le> spAckedThrough s \<or> f \<le> fst x \<and> 0 < f" if "x \<in> set (concat rss)" for x using all that by blast
          then show ?thesis by (metis leD not_less_zero)
        next
          case False
          then have lt: "m < length rs" and fp: "fp = fst (rs ! m)"
            using length_takeWhile_le [of "\<lambda>x. fst x \<le> spAckedThrough s" "drop k rs"] by (auto simp: m_def t_def fp_def)
          then have d: "rs = take m rs @ rs ! m # drop (Suc m) rs" by (simp add: Cons_nth_drop_Suc)
          have "rec_ok J (rs ! m)" using so lt by (simp add: seg_ok_def list_all_length)
          then have f: "f = fst (rs ! m)" "f \<noteq> 0" by (simp_all add: f_def fp rec_ok_def record_ok_def)
          define R where "R = drop (Suc m) rs @ concat rss'"
          have cc: "concat rss = take m rs @ rs ! m # R" unfolding rss R_def by (subst d) simp
          then have up: "\<forall>x \<in> set R. fst (rs ! m) < fst x" using inv by (simp add: core_inv_def segs_inv_def rising_append)
          have lo: "\<forall>x \<in> set (take m rs). fst x \<le> spAckedThrough s" by (simp flip: m(2))
          have "fst (rs ! m) \<le> fst x" if x: "x \<in> set (concat rss)" "spAckedThrough s < fst x" for x
          proof -
            from x have "x \<in> set (take m rs @ rs ! m # R)" by (simp only: cc)
            with x(2)
            have "x = rs ! m \<or> x \<in> set R" using lo leD by auto
            then show "fst (rs ! m) \<le> fst x" using up less_imp_le by blast
          qed
          then show ?thesis using f by simp
        qed
        have lo: "\<forall>x \<in> set (take m rs). fst x \<le> spAckedThrough s" by (simp flip: m(2))
        have le: "\<forall>x \<in> set rs. fst x \<le> spLastSeq s" using inv by (simp add: core_inv_def segs_inv_def rss)
        have "sgLast sg \<le> spLastSeq s" using so le by (auto simp: seg_ok_def)
        moreover have "inc64 (sgLast sg) \<le> Suc (sgLast sg)" by (simp add: inc64_def)
        moreover have "fp \<le> spLastSeq s"
        proof (cases "length t = length (drop k rs)")
          case False
          then have "length t < length (drop k rs)" using length_takeWhile_le [of "\<lambda>x. fst x \<le> spAckedThrough s" "drop k rs"] by (simp add: t_def)
          then have "drop k rs ! length t \<in> set rs" by (metis nth_mem in_set_dropD)
          then show ?thesis using le by (simp add: fp_def)
        qed (simp add: fp_def)
        ultimately have fb: "f \<le> Suc (spLastSeq s)" unfolding f_def by (simp add: le_SucI)
        have as: "core_inv b J A rss (ask s)" "spAckedThrough (ask s) = spAckedThrough s" using inv_core(6) [OF core_ask(1)] inv by (auto simp: ask_def)
        then have "core_inv c J A rss s'" for c
          unfolding s'(2) using m(1) off first lo fb by (intro core_inv_cursor [OF as(1)]) (simp_all add: first_run_def rss ask_def)
        moreover have "length (filter (\<lambda>x. fst x \<le> spAckedThrough s) rs) = m" using m by simp
        ultimately show ?thesis by (simp add: s' first_run_def rss kept_def same_loss_def ask_def with_cursor_def)
      qed
    qed
  qed
  then show "core_inv b J A rss s'" "kept s s'" "same_loss s s'" "spSegs s' = spSegs s" "spW s' = spW s" "spFiles s' = spFiles s"
    "r = Inr () \<longrightarrow> core_inv True J A rss s' \<and> spAckedInFirst s' = length (filter (\<lambda>x. fst x \<le> spAckedThrough s) (first_run rss))" by blast+
qed

subsection \<open>Evicting the oldest segments\<close>

text \<open>The sequence lies in the range of losses still to be reported.\<close>

definition covers :: "spool \<Rightarrow> nat \<Rightarrow> bool" where
  "covers s q \<longleftrightarrow> 0 < spDroppedLow s \<and> spDroppedLow s \<le> q \<and> q \<le> spDroppedHigh s"

lemma covers_recordLoss:
  "covers s q \<Longrightarrow> 0 < low \<Longrightarrow> covers (recordLoss n low high s) q"
  "0 < n \<Longrightarrow> 0 < low \<Longrightarrow> low \<le> q \<Longrightarrow> q \<le> high \<Longrightarrow> covers (recordLoss n low high s) q"
  by (auto simp: covers_def recordLoss_def)

lemma covers_same: "same_loss s s' \<Longrightarrow> covers s' q = covers s q"
  by (simp add: covers_def same_loss_def)

lemma spool_core: "spool_inv J A rss s \<Longrightarrow> core_inv True J A rss s"
  by (simp add: spool_inv_def)

lemma evicted_covered:
  assumes inv: "core_inv True J A (rs # rss) s" and sg: "spSegs s = sg # sgs"
    and low: "low = (if spFirstPending s = 0 \<or> spFirstPending s < sgBase sg then sgBase sg else spFirstPending s)"
    and s1: "s1 = recordLoss (sgCount sg - spAckedInFirst s) low (sgLast sg) s"
  shows "\<forall>q. covers s q \<longrightarrow> covers s1 q" "\<forall>x \<in> set rs. fst x \<le> spAckedThrough s \<or> covers s1 (fst x)"
proof -
  have so: "seg_ok J (spFiles s) sg rs" using seg_runs [OF inv] by (simp add: sg)
  have base: "\<forall>x \<in> set rs. sgBase sg \<le> fst x" using inv by (simp add: core_inv_def segs_inv_def sg)
  have pos: "0 < low" if "sgCount sg \<noteq> 0"
  proof -
    have "rs \<noteq> []" "rec_ok J (hd rs)" using so that by (auto simp: seg_ok_def list_all_iff)
    then have "0 < sgBase sg" using so by (simp add: seg_ok_def rec_ok_def record_ok_def)
    then show ?thesis by (simp add: low)
  qed
  show "\<forall>q. covers s q \<longrightarrow> covers s1 q"
  proof (cases "sgCount sg = 0")
    case False
    then show ?thesis using covers_recordLoss(1) [OF _ pos] by (simp add: s1)
  qed (simp add: s1 recordLoss_def)
  show "\<forall>x \<in> set rs. fst x \<le> spAckedThrough s \<or> covers s1 (fst x)"
  proof (intro ballI disjCI)
    fix x assume x: "x \<in> set rs" "\<not> covers s1 (fst x)"
    show "fst x \<le> spAckedThrough s"
    proof (rule ccontr)
      assume n: "\<not> fst x \<le> spAckedThrough s"
      then have "x \<notin> set (take (spAckedInFirst s) rs)" using inv by (auto simp: core_inv_def cursor_inv_def first_run_def)
      then have "spAckedInFirst s < length rs" using x(1) by (metis not_le take_all)
      then have c: "sgCount sg - spAckedInFirst s > 0" "sgCount sg \<noteq> 0" using so by (auto simp: seg_ok_def)
      have "low \<le> fst x" using base x(1) n inv by (auto simp: low core_inv_def first_inv_def)
      moreover have "fst x \<le> sgLast sg" using seg_last_bound [OF so front_rising [OF inv] x(1)] .
      ultimately show False using covers_recordLoss(2) [OF c(1) pos [OF c(2)]] x(2) by (simp add: s1)
    qed
  qed
qed

lemma enforce_loop_inv:
  assumes "spool_inv J A rss s" "enforce_loop w sgs s = (r, s')" "spSegs s = sgs"
  shows "\<exists>j. spool_inv J A (drop j rss) s' \<and> (j > 0 \<longrightarrow> j < length rss) \<and> kept s s' \<and> (\<forall>q. covers s q \<longrightarrow> covers s' q) \<and>
    (\<forall>x \<in> set (concat (take j rss)). fst x \<le> spAckedThrough s \<or> covers s' (fst x)) \<and> set (spSegs s') \<subseteq> set (spSegs s) \<and>
    (r = Inr () \<longrightarrow> int (spBytes s') \<le> soMaxSize (spOpts s') \<or> length (spSegs s') \<le> 1)"
  using assms
proof (induction w sgs s arbitrary: rss r s' rule: enforce_loop.induct)
  case (1 w sg sg' sgs s)
  have l: "list_all2 (seg_ok J (spFiles s)) (sg # sg' # sgs) rss" using seg_runs [OF spool_core [OF 1(2)]] 1(4) by simp
  then obtain rs rs' rss' where rss: "rss = rs # rs' # rss'" by (auto simp: list_all2_Cons1)
  show ?case
  proof (cases "int (spBytes s) > soMaxSize (spOpts s)")
    case False
    with 1(2-4) show ?thesis by (intro exI [of _ 0]) (auto simp: kept_def)
  next
    case True
    define low where "low = (if spFirstPending s = 0 \<or> spFirstPending s < sgBase sg then sgBase sg else spFirstPending s)"
    define s1 where "s1 = recordLoss (sgCount sg - spAckedInFirst s) low (sgLast sg) s"
    define k where "k = (\<lambda>(_::unit) s2. and_then (syncDir w (recount (s2\<lparr> spSegs := sg' # sgs, spAckedInFirst := 0, spAckOffset := 0,
      spFirstPending := sgBase sg' \<rparr>))) (\<lambda>_ s3. enforce_loop w (sg' # sgs) s3))"
    have e: "and_then (remove_file w (sgPath sg) s1) k = (r, s')" using 1(3) True unfolding s1_def low_def k_def by (simp add: Let_def)
    note cov = evicted_covered [OF spool_core [OF 1(2) [unfolded rss]] 1(4) low_def s1_def]
    have c1: "same_core s s1" by (simp add: s1_def)
    have i1: "spool_inv J A rss s1" using inv_core(7) [OF c1] 1(2) by simp
    show ?thesis
      using e
    proof (cases rule: and_then_cases)
      case (err x)
      from err(1) show ?thesis
      proof (cases rule: remove_file_cases)
        case (fails y)
        have "spool_inv J A rss s'" "kept s s'" "spSegs s' = spSegs s"
          using inv_core(7) [OF fails(2)] i1 kept_trans [OF kept_core kept_core] c1 fails(2) by (auto simp: same_core_def)
        moreover have "\<forall>q. covers s q \<longrightarrow> covers s' q" using cov(1) covers_same [OF fails(3)] by simp
        ultimately show ?thesis using err(2) by (intro exI [of _ 0]) auto
      qed simp
    next
      case (ok u s2)
      define s3 where "s3 = s2\<lparr> spSegs := sg' # sgs, spAckedInFirst := 0, spAckOffset := 0, spFirstPending := sgBase sg' \<rparr>"
      from ok(1) have rem: "same_core (s1\<lparr> spFiles := AList.delete (sgPath sg) (spFiles s1) \<rparr>) s2" "same_loss s1 s2"
        by (auto elim: remove_file_cases)
      have "core_inv True J A (rs' # rss') s3"
        by (rule remove_front [OF spool_core [OF i1 [unfolded rss]] _ _ rem(1) s3_def]) (use c1 1(4) in \<open>auto simp: same_core_def\<close>)
      then have i3: "spool_inv J A (rs' # rss') (recount s3)" by (rule recount_inv)
      have k3: "kept s (recount s3)" "same_loss s1 (recount s3)" "spSegs (recount s3) = sg' # sgs"
        using c1 rem by (auto simp: s3_def kept_def same_core_def same_loss_def)
      note cov3 = cov [folded covers_same [OF k3(2)]]
      show ?thesis
        using ok(2) [unfolded k_def, folded s3_def]
      proof (cases rule: and_then_cases)
        case (err x)
        note d = core_syncDir [OF err(1)]
        have "spool_inv J A (rs' # rss') s'" "kept s s'" "set (spSegs s') \<subseteq> set (spSegs s)"
          using inv_core(7) [OF conjunct1 [OF d]] i3 kept_trans [OF k3(1) kept_core] d k3(3) 1(4) by (auto simp: same_core_def)
        moreover have "\<forall>q. covers s' q = covers (recount s3) q" using d covers_same by blast
        ultimately show ?thesis using cov3 err(2) by (intro exI [of _ 1]) (simp add: rss)
      next
        case (ok v s4)
        note d = core_syncDir [OF ok(1)]
        have i4: "spool_inv J A (rs' # rss') s4" "kept s s4" "spSegs s4 = sg' # sgs"
          using inv_core(7) [OF conjunct1 [OF d]] i3 kept_trans [OF k3(1) kept_core] d k3(3) by (auto simp: same_core_def)
        have cs: "covers s4 q = covers (recount s3) q" for q using d covers_same by blast
        from 1(1) [OF True _ _ _ i4(1) ok(2) i4(3)] low_def s1_def obtain j where
          j: "spool_inv J A (drop j (rs' # rss')) s'" "j > 0 \<longrightarrow> j < length (rs' # rss')" "kept s4 s'" "\<forall>q. covers s4 q \<longrightarrow> covers s' q"
            "\<forall>x \<in> set (concat (take j (rs' # rss'))). fst x \<le> spAckedThrough s4 \<or> covers s' (fst x)"
            "set (spSegs s') \<subseteq> set (spSegs s4)"
            "r = Inr () \<longrightarrow> int (spBytes s') \<le> soMaxSize (spOpts s') \<or> length (spSegs s') \<le> 1" by blast
        have "set (spSegs s') \<subseteq> set (spSegs s)" using j(6) i4(3) 1(4) by auto
        moreover have "spAckedThrough s4 = spAckedThrough s" using i4(2) by (simp add: kept_def)
        ultimately show ?thesis using j(1-5,7) cov3 cs kept_trans [OF i4(2) j(3)]
          by (intro exI [of _ "Suc j"]) (auto simp: rss)
      qed
    qed
  qed
qed (auto intro!: exI [of _ 0] simp: kept_def)

lemma enforceMaxSize_inv:
  assumes "spool_inv J A rss s" "enforceMaxSize w s = (r, s')"
  obtains j where "spool_inv J A (drop j rss) s'" "j > 0 \<longrightarrow> j < length rss" "kept s s'" "\<forall>q. covers s q \<longrightarrow> covers s' q"
    "\<forall>x \<in> set (concat (take j rss)). fst x \<le> spAckedThrough s \<or> covers s' (fst x)" "set (spSegs s') \<subseteq> set (spSegs s)"
    "r = Inr () \<longrightarrow> int (spBytes s') \<le> soMaxSize (spOpts s') \<or> length (spSegs s') \<le> 1"
proof -
  define a where "a = (if int (spBytes s) > soMaxSize (spOpts s) \<and> length (spSegs s) > 1 then sync w s else (Inr (), s))"
  have c: "same_core s s1 \<and> same_loss s s1" if "a = (x, s1)" for x s1 using that core_sync by (auto simp: a_def split: if_splits)
  have i: "spool_inv J A rss s1" "kept s s1" "covers s1 q = covers s q" if "a = (x, s1)" for x s1 q
    using c [OF that] inv_core(7) [of s s1] assms(1) kept_core covers_same by blast+
  from assms(2) [unfolded enforceMaxSize_def, folded a_def] show thesis
  proof (cases rule: and_then_cases)
    case (err e)
    then show thesis using i [OF err(1)] c [OF err(1)] by (intro that [of 0]) (auto simp: same_core_def)
  next
    case (ok u s1)
    from enforce_loop_inv [OF i(1) [OF ok(1)] ok(2) refl] obtain j where j: "spool_inv J A (drop j rss) s'" "j > 0 \<longrightarrow> j < length rss" "kept s1 s'"
      "\<forall>q. covers s1 q \<longrightarrow> covers s' q" "\<forall>x \<in> set (concat (take j rss)). fst x \<le> spAckedThrough s1 \<or> covers s' (fst x)"
      "set (spSegs s') \<subseteq> set (spSegs s1)" "r = Inr () \<longrightarrow> int (spBytes s') \<le> soMaxSize (spOpts s') \<or> length (spSegs s') \<le> 1" by blast
    then show thesis using i [OF ok(1)] c [OF ok(1)] by (intro that [of j]) (auto simp: kept_def same_core_def)
  qed
qed

subsection \<open>The checkpoint\<close>

text \<open>What writing the checkpoint of \<open>seq\<close> may change, finished or not.\<close>

definition checkpoint_only :: "nat \<Rightarrow> spool \<Rightarrow> spool \<Rightarrow> bool" where
  "checkpoint_only seq s s' \<longleftrightarrow> same_core (s\<lparr> spFiles := spFiles s' \<rparr>) s' \<and> same_loss s s' \<and>
     (\<forall>p. p \<noteq> checkpointName \<longrightarrow> p \<noteq> checkpointTemp \<longrightarrow> map_of (spFiles s') p = map_of (spFiles s) p) \<and>
     map_of (spFiles s') checkpointName \<in> {map_of (spFiles s) checkpointName, Some (checkpoint_bytes seq)}"

lemma checkpoint_only_trans [trans]: "checkpoint_only q a b \<Longrightarrow> checkpoint_only q b c \<Longrightarrow> checkpoint_only q a c"
  by (auto simp: checkpoint_only_def same_core_def same_loss_def)

lemma checkpoint_names: "checkpointName \<noteq> checkpointTemp"
  by (simp add: checkpointName_def checkpointTemp_def)

lemma checkpoint_only_steps:
  "checkpoint_only q s s" "checkpoint_only q s (ask s)" "syscall w op s = (r, s') \<Longrightarrow> checkpoint_only q s s'"
  "checkpoint_only q s (put_file checkpointTemp bs s)" "discard_temp w op s = (r, s') \<Longrightarrow> checkpoint_only q s s'"
  "checkpoint_only q s (put_file checkpointName (checkpoint_bytes q) (s\<lparr> spFiles := AList.delete checkpointTemp (spFiles s) \<rparr>))"
  "syncDir w s = (r, s') \<Longrightarrow> checkpoint_only q s s'"
  using checkpoint_names
  by (auto simp: checkpoint_only_def same_core_def same_loss_def ask_def syscall_def syncDir_def put_file_def discard_temp_def
      update_conv' delete_conv')

lemma writeCheckpoint_only:
  assumes "writeCheckpoint w q s = (r, s')"
  shows "checkpoint_only q s s'" "r = Inr () \<Longrightarrow> map_of (spFiles s') checkpointName = Some (checkpoint_bytes q)"
proof -
  note t = checkpoint_only_trans and st = checkpoint_only_steps
  have "checkpoint_only q s s' \<and> (r = Inr () \<longrightarrow> map_of (spFiles s') checkpointName = Some (checkpoint_bytes q))"
    using assms unfolding writeCheckpoint_def Let_def
  proof (cases rule: and_then_cases)
    case (err e)
    then show ?thesis using st(3) by auto
  next
    case (ok u s1)
    note a = st(3) [OF ok(1)]
    show ?thesis
    proof (cases "dwWrite w (spTick s1)")
      case (Some n)
      then have d: "discard_temp w WriteCheckpointFile (put_file checkpointTemp (take n (checkpoint_bytes q)) (ask s1)) = (r, s')" using ok(2) by simp
      moreover have "r \<noteq> Inr ()" using d by (auto simp: discard_temp_def)
      ultimately show ?thesis using t [OF t [OF t [OF a st(2)] st(4)] st(5) [OF d]] by simp
    next
      case None
      define s2 where "s2 = put_file checkpointTemp (checkpoint_bytes q) (ask s1)"
      have b: "checkpoint_only q s s2" unfolding s2_def by (rule t [OF t [OF a st(2)] st(4)])
      obtain r3 s3 where c3: "syscall w SyncCheckpoint s2 = (r3, s3)" by fastforce
      obtain r4 s4 where c4: "syscall w CloseCheckpoint s3 = (r4, s4)" by fastforce
      obtain r5 s5 where c5: "syscall w RenameCheckpoint s4 = (r5, s5)" by fastforce
      note b3 = t [OF b st(3) [OF c3]] note b4 = t [OF b3 st(3) [OF c4]] note b5 = t [OF b4 st(3) [OF c5]]
      consider (1) "discard_temp w SyncCheckpoint s3 = (r, s')" | (2) "discard_temp w CloseCheckpoint s4 = (r, s')"
        | (3) "discard_temp w RenameCheckpoint s5 = (r, s')"
        | (4) "syncDir w (put_file checkpointName (checkpoint_bytes q) (s5\<lparr> spFiles := AList.delete checkpointTemp (spFiles s5) \<rparr>)) = (r, s')"
        using ok(2) None c3 c4 c5 unfolding s2_def by (cases r3; cases r4; cases r5) auto
      then show ?thesis
      proof cases
        case 1
        then show ?thesis using t [OF b3 st(5) [OF 1]] by (auto simp: discard_temp_def)
      next
        case 2
        then show ?thesis using t [OF b4 st(5) [OF 2]] by (auto simp: discard_temp_def)
      next
        case 3
        then show ?thesis using t [OF b5 st(5) [OF 3]] by (auto simp: discard_temp_def)
      next
        case 4
        then have "map_of (spFiles s') checkpointName = Some (checkpoint_bytes q)"
          by (auto simp: syncDir_def syscall_def ask_def put_file_def update_conv')
        then show ?thesis using t [OF t [OF b5 st(6)] st(7) [OF 4]] by simp
      qed
    qed
  qed
  then show "checkpoint_only q s s'" "r = Inr () \<Longrightarrow> map_of (spFiles s') checkpointName = Some (checkpoint_bytes q)" by blast+
qed

lemma checkpoint_only_inv:
  assumes inv: "core_inv b J A rss s" and c: "checkpoint_only q s s'" and q: "spAckedThrough s \<le> q" "q \<le> max64"
  shows "core_inv b J (max A q) rss s'"
proof -
  have f: "spSegs s' = spSegs s" "spW s' = spW s" "spLastSeq s' = spLastSeq s" "spAckedThrough s' = spAckedThrough s"
    "spFirstPending s' = spFirstPending s" "spAckedInFirst s' = spAckedInFirst s" "spAckOffset s' = spAckOffset s"
    using c by (simp_all add: checkpoint_only_def same_core_def)
  have seg: "map_of (spFiles s') p = map_of (spFiles s) p" if "parseSegmentName p \<noteq> None" for p
  proof -
    have "p \<noteq> checkpointName" "p \<noteq> checkpointTemp" using that segment_path_names by auto
    then show ?thesis using c by (simp add: checkpoint_only_def)
  qed
  have ps: "parseSegmentName (sgPath sg) \<noteq> None" if "sg \<in> set (spSegs s)" for sg
    using inv that by (auto simp: core_inv_def segs_inv_def)
  have "list_all2 (seg_ok J (spFiles s')) (spSegs s) rss"
    using seg_runs [OF inv] by (rule list.rel_mono_strong) (use seg ps in \<open>auto simp: seg_ok_def\<close>)
  moreover have "{p. map_of (spFiles s') p \<noteq> None \<and> parseSegmentName p \<noteq> None} = {p. map_of (spFiles s) p \<noteq> None \<and> parseSegmentName p \<noteq> None}"
    using seg by metis
  ultimately have "segs_inv J rss s'" using inv unfolding core_inv_def segs_inv_def f by metis
  moreover have "ckpt_inv (max A q) s'"
  proof (cases "map_of (spFiles s') checkpointName = Some (checkpoint_bytes q)")
    case True
    then show ?thesis using q unfolding ckpt_inv_def f by auto
  next
    case False
    then have e: "map_of (spFiles s') checkpointName = map_of (spFiles s) checkpointName" using c by (auto simp: checkpoint_only_def)
    show ?thesis using inv unfolding core_inv_def ckpt_inv_def f e by (meson max.coboundedI1)
  qed
  moreover have "cursor_inv rss s'" "b \<longrightarrow> first_inv rss s'" using inv unfolding core_inv_def cursor_inv_def first_inv_def f by blast+
  ultimately show ?thesis by (simp add: core_inv_def)
qed

lemma acked_inv:
  assumes inv: "core_inv b J A rss s" and ck: "map_of (spFiles s) checkpointName = Some (checkpoint_bytes q)"
    and q: "spAckedThrough s \<le> q" "q \<le> spLastSeq s" "q \<le> A"
  shows "core_inv b J A rss (s\<lparr> spAckedThrough := q \<rparr>)"
proof -
  have "q \<le> max64" using inv q by (simp add: core_inv_def segs_inv_def)
  then have "ckpt_inv A (s\<lparr> spAckedThrough := q \<rparr>)" using ck q by (auto simp: ckpt_inv_def)
  moreover have "segs_inv J rss (s\<lparr> spAckedThrough := q \<rparr>)" using inv q by (simp add: core_inv_def segs_inv_def)
  moreover have "cursor_inv rss (s\<lparr> spAckedThrough := q \<rparr>)"
    using inv le_trans [OF _ q(1)] by (simp add: core_inv_def cursor_inv_def)
  moreover have "b \<longrightarrow> first_inv rss (s\<lparr> spAckedThrough := q \<rparr>)"
    using inv le_trans [OF _ q(1)] le_less_trans [OF q(1)] by (simp add: core_inv_def first_inv_def)
  ultimately show ?thesis by (simp add: core_inv_def)
qed

end
