(* ===== verification/Spool_Ops.thy ===== *)
theory Spool_Ops
  imports Spool_Inv
begin

section \<open>What the operations of the spool do\<close>

text \<open>
  One lemma per exported method, for every answer of the disk: the invariant, the records that leave
  the spool and why, and the result. \<open>outstanding\<close> is the abstract spool: the records that wait for an
  acknowledgement, in order.
\<close>

definition outstanding :: "(nat \<times> bytes) list list \<Rightarrow> spool \<Rightarrow> (nat \<times> bytes) list" where
  "outstanding rss s = filter (\<lambda>x. spAckedThrough s < fst x) (concat rss)"

subsection \<open>Acknowledging\<close>

lemma front_exact:
  assumes inv: "core_inv b J A rss s" and k: "k = length (filter (\<lambda>x. fst x \<le> spAckedThrough s) (first_run rss))"
    and front: "spSegs s \<noteq> [] \<longrightarrow> spAckedThrough s < sgLast (hd (spSegs s))"
  shows "length (concat rss) - k = length (outstanding rss s)"
proof (cases rss)
  case Nil
  then show ?thesis by (simp add: outstanding_def)
next
  case (Cons rs rss')
  then obtain sg sgs where sg: "spSegs s = sg # sgs" and so: "seg_ok J (spFiles s) sg rs"
    using seg_runs [OF inv] by (auto simp: list_all2_Cons2)
  have "\<forall>x \<in> set (concat rss'). spAckedThrough s < fst x"
    using later_above(1) [OF inv [unfolded Cons] so] front by (auto simp: sg intro: less_trans)
  then have "filter (\<lambda>x. spAckedThrough s < fst x) (concat rss') = concat rss'" by (simp add: filter_id_conv)
  moreover have "length rs = k + length (filter (\<lambda>x. spAckedThrough s < fst x) rs)"
    using sum_length_filter_compl [of "\<lambda>x. fst x \<le> spAckedThrough s" rs] by (simp add: k first_run_def Cons not_le)
  ultimately show ?thesis by (simp add: outstanding_def Cons)
qed

lemma cleanup_inv:
  assumes inv: "core_inv True J A rss s" and c: "cleanup J w s = (r, s')"
  obtains j where "spool_inv J A (drop j rss) s'" "\<forall>x \<in> set (concat (take j rss)). fst x \<le> spAckedThrough s" "kept s s'" "same_loss s s'"
    "set (spSegs s') \<subseteq> set (spSegs s)" "r = Inr () \<longrightarrow> spPending s' = length (outstanding (drop j rss) s')"
proof -
  obtain d s1 where d: "dropAckedSegments w s = (d, s1)" by fastforce
  obtain e s2 where e: "advanceAckCursor J w s1 = (e, s2)" by fastforce
  have s': "s' = publishMetrics (recount s2)" and r: "r = Inr () \<longrightarrow> d = Inr () \<and> e = Inr ()"
    using c by (auto simp: cleanup_def d e errors_of_def Let_def split: sum.splits if_splits)
  from dropAckedSegments_inv [OF inv d] obtain j where j: "core_inv True J A (drop j rss) s1"
    "\<forall>x \<in> set (concat (take j rss)). fst x \<le> spAckedThrough s" "kept s s1" "same_loss s s1"
    "set (spSegs s1) \<subseteq> set (spSegs s)" "d = Inr () \<longrightarrow> spSegs s1 \<noteq> [] \<longrightarrow> spAckedThrough s < sgLast (hd (spSegs s1))" by blast
  note a = advanceAckCursor_inv [OF j(1) e]
  have i: "spool_inv J A (drop j rss) s'" using recount_inv [OF a(1)] inv_core(7) [OF core_publishMetrics(1)] by (simp add: s')
  have eq: "spAckedThrough s1 = spAckedThrough s" "spAckedThrough s2 = spAckedThrough s" using j(3) a(2) by (simp_all add: kept_def)
  have p: "spPending s' = length (outstanding (drop j rss) s')" if "r = Inr ()"
  proof -
    have "length (concat (drop j rss)) - spAckedInFirst s2 = length (outstanding (drop j rss) s2)"
      by (rule front_exact [OF a(1)]) (use that r a(4,7) j(6) eq in auto)
    moreover have "spAckedInFirst s' = spAckedInFirst s2" "outstanding (drop j rss) s' = outstanding (drop j rss) s2"
      by (simp_all add: s' publishMetrics_def outstanding_def)
    ultimately show ?thesis using i by (simp add: spool_inv_def counts_inv_def)
  qed
  show thesis
  proof (rule that [OF i j(2)])
    show "kept s s'" "same_loss s s'" using j(3,4) a(2,3) by (auto simp: s' kept_def same_loss_def publishMetrics_def)
    show "set (spSegs s') \<subseteq> set (spSegs s)" using j(5) a(4) by (simp add: s' publishMetrics_def)
    show "r = Inr () \<longrightarrow> spPending s' = length (outstanding (drop j rss) s')" using p by simp
  qed
qed

lemma core_inv_mono: "core_inv b J A rss s \<Longrightarrow> A \<le> B \<Longrightarrow> core_inv b J B rss s" "spool_inv J A rss s \<Longrightarrow> A \<le> B \<Longrightarrow> spool_inv J B rss s"
  unfolding spool_inv_def core_inv_def ckpt_inv_def by (meson le_trans)+

lemma no_records: "core_inv b J A rss s \<Longrightarrow> spLastSeq s = 0 \<Longrightarrow> concat rss = []"
proof -
  assume a: "core_inv b J A rss s" "spLastSeq s = 0"
  have "x \<notin> set (concat rss)" for x
  proof
    assume x: "x \<in> set (concat rss)"
    then have "rec_ok J x" using runs_ok [OF seg_runs [OF a(1)]] by blast
    moreover have "fst x = 0" using a x unfolding core_inv_def segs_inv_def by auto
    ultimately show False by (simp add: rec_ok_def record_ok_def)
  qed
  then show ?thesis by (meson last_in_set)
qed

lemma Ack_spool_inv:
  assumes inv: "spool_inv J A rss s" and ack: "Ack_spool J w n s = (r, s')"
  obtains j where "spool_inv J (max A (min n (spLastSeq s))) (drop j rss) s'" "\<forall>x \<in> set (concat (take j rss)). fst x \<le> spAckedThrough s'"
    "spAckedThrough s \<le> spAckedThrough s'" "spAckedThrough s' \<le> max (spAckedThrough s) (min n (spLastSeq s))"
    "spLastSeq s' = spLastSeq s" "spOpts s' = spOpts s" "spClosed s' = spClosed s" "same_loss s s'"
    "set (spSegs s') \<subseteq> set (spSegs s)" "r = Inr () \<longrightarrow> 0 < n \<longrightarrow>
      spAckedThrough s' = max (spAckedThrough s) (min n (spLastSeq s)) \<and> spPending s' = length (outstanding (drop j rss) s')"
proof -
  define q where "q = min n (spLastSeq s)"
  have q: "(if n > spLastSeq s then spLastSeq s else n) = q" by (simp add: q_def min_def)
  have qb: "q \<le> spLastSeq s" "q \<le> max64" using inv by (auto simp: q_def spool_inv_def core_inv_def segs_inv_def)
  note weak = core_inv_mono(2) [OF inv max.cobounded1]
  note that = that [folded q_def]
  consider (closed) "spClosed s" | (zero) "\<not> spClosed s" "n = 0 \<or> q = 0" | (go) "\<not> spClosed s" "n \<noteq> 0" "q \<noteq> 0" by blast
  then show thesis
  proof cases
    case closed
    with ack weak show thesis by (intro that [of 0]) (auto simp: Ack_spool_def)
  next
    case zero
    then have e: "r = Inr ()" "s' = s" using ack by (auto simp: Ack_spool_def Let_def q)
    have "outstanding rss s = [] \<and> spPending s = 0" if "0 < n"
    proof -
      have "spLastSeq s = 0" using zero that by (auto simp: q_def min_def split: if_splits)
      then have "concat rss = []" by (rule no_records [OF spool_core [OF inv]])
      then show ?thesis using inv unfolding outstanding_def spool_inv_def counts_inv_def by (simp only: list.size filter.simps diff_0_eq_0 simp_thms)
    qed
    then show thesis using e weak zero by (intro that [of 0]) auto
  next
    case go
    define c where "c = (if q > spAckedThrough s then and_then (writeCheckpoint w q s) (\<lambda>_ s1. (Inr (), s1\<lparr> spAckedThrough := q \<rparr>)) else (Inr (), s))"
    have a: "and_then c (\<lambda>_ s1. cleanup J w s1) = (r, s')" using ack go unfolding c_def by (auto simp: Ack_spool_def Let_def q)
    have step: "core_inv True J (max A q) rss s1 \<and> same_loss s s1 \<and> spLastSeq s1 = spLastSeq s \<and> spOpts s1 = spOpts s \<and> spClosed s1 = spClosed s \<and> spSegs s1 = spSegs s \<and>
        (\<exists>e. x = Inl e \<and> counts_inv rss s1 \<and> spAckedThrough s1 = spAckedThrough s \<or> x = Inr () \<and> spAckedThrough s1 = max (spAckedThrough s) q)"
      if "c = (x, s1)" for x s1
    proof (cases "q > spAckedThrough s")
      case False
      then show ?thesis using that weak unfolding c_def by (auto simp: spool_inv_def)
    next
      case True
      obtain y s0 where y: "writeCheckpoint w q s = (y, s0)" by fastforce
      note o = writeCheckpoint_only [OF y]
      have i: "core_inv True J (max A q) rss s0" by (rule checkpoint_only_inv [OF spool_core [OF inv] o(1)]) (use True qb in simp_all)
      have f: "spLastSeq s0 = spLastSeq s" "spAckedThrough s0 = spAckedThrough s" "spOpts s0 = spOpts s" "spClosed s0 = spClosed s" "same_loss s s0"
        "spSegs s0 = spSegs s" "counts_inv rss s0 = counts_inv rss s"
        using o(1) by (auto simp: checkpoint_only_def same_core_def counts_inv_def)
      show ?thesis
      proof (cases y)
        case (Inl e)
        then show ?thesis using that True y i f inv unfolding c_def by (auto simp: and_then_def spool_inv_def)
      next
        case (Inr u)
        then have s1: "x = Inr ()" "s1 = s0\<lparr> spAckedThrough := q \<rparr>" using that True y unfolding c_def by (auto simp: and_then_def)
        have "core_inv True J (max A q) rss s1" unfolding s1(2)
          by (rule acked_inv [OF i o(2)]) (use Inr True qb f in simp_all)
        then show ?thesis using f True by (simp add: s1 same_loss_def)
      qed
    qed
    from a show thesis
    proof (cases rule: and_then_cases)
      case (err e)
      with step [OF err(1)] show thesis by (intro that [of 0]) (auto simp: spool_inv_def)
    next
      case (ok u s1)
      note s1 = step [OF ok(1)]
      from s1 have "core_inv True J (max A q) rss s1" by simp
      then obtain j where j: "spool_inv J (max A q) (drop j rss) s'" "\<forall>x \<in> set (concat (take j rss)). fst x \<le> spAckedThrough s1" "kept s1 s'" "same_loss s1 s'"
        "set (spSegs s') \<subseteq> set (spSegs s1)" "r = Inr () \<longrightarrow> spPending s' = length (outstanding (drop j rss) s')" using ok(2) by (auto elim: cleanup_inv)
      with s1 show thesis by (intro that [of j]) (auto simp: kept_def same_loss_def)
    qed
  qed
qed

subsection \<open>Appending\<close>

lemma seg_ok_update:
  assumes "list_all2 (seg_ok J files) sgs rss" "p \<notin> set (map sgPath sgs)"
  shows "list_all2 (seg_ok J (AList.update p b files)) sgs rss"
  using assms by (induction rule: list_all2_induct) (auto simp: seg_ok_def update_conv')

lemma bases_ok_snoc:
  "length sgs = length rss \<Longrightarrow>
    bases_ok (sgs @ [sg]) (rss @ [rs]) \<longleftrightarrow> bases_ok sgs rss \<and> (\<forall>g \<in> set (sgs @ [sg]). \<forall>x \<in> set rs. sgBase g \<le> fst x)"
  by (induction sgs rss rule: list_induct2) auto

lemma first_run_snoc: "first_run (rss @ [[]]) = first_run rss"
  by (simp add: first_run_def split: list.splits)

text \<open>A new, empty segment.\<close>

lemma new_segment_inv:
  assumes inv: "spool_inv J A rss s" and q: "0 < q" "q \<le> max64" and fresh: "map_of (spFiles s) (segmentName q) = None"
    and s': "s' = (put_file (segmentName q) [] s)\<lparr> spW := Some (segmentName q), spSegs := spSegs s @
      [\<lparr> sgPath = segmentName q, sgBase = q, sgLast = 0, sgCount = 0, sgSize = 0, sgReported = 0, sgUndecodable = 0 \<rparr>] \<rparr>"
  shows "spool_inv J A (rss @ [[]]) s'"
proof -
  note c = spool_core [OF inv]
  have pn: "parseSegmentName (segmentName q) = Some q" using q by (simp add: parse_segmentName)
  then have ck: "segmentName q \<noteq> checkpointName" using segment_path_names by auto
  have ps: "{p. map_of (spFiles s) p \<noteq> None \<and> parseSegmentName p \<noteq> None} = set (map sgPath (spSegs s))"
    using c by (simp add: core_inv_def segs_inv_def)
  then have np: "segmentName q \<notin> set (map sgPath (spSegs s))" using fresh by blast
  have f: "spFiles s' = AList.update (segmentName q) [] (spFiles s)" by (simp add: s' put_file_def)
  have "list_all2 (seg_ok J (spFiles s')) (spSegs s') (rss @ [[]])"
    using seg_ok_update [OF seg_runs [OF c] np] q by (simp add: f s' put_file_def list_all2_appendI seg_ok_def update_conv')
  moreover have "bases_ok (spSegs s') (rss @ [[]])"
    using c list_all2_lengthD [OF seg_runs [OF c]] by (simp add: s' bases_ok_snoc core_inv_def segs_inv_def)
  moreover have "{p. map_of (spFiles s') p \<noteq> None \<and> parseSegmentName p \<noteq> None} = set (map sgPath (spSegs s'))"
  proof -
    have "{p. map_of (spFiles s') p \<noteq> None \<and> parseSegmentName p \<noteq> None} =
        insert (segmentName q) {p. map_of (spFiles s) p \<noteq> None \<and> parseSegmentName p \<noteq> None}"
      using pn by (auto simp: f update_conv')
    then show ?thesis using ps by (simp add: s')
  qed
  ultimately have "segs_inv J (rss @ [[]]) s'" using c np unfolding core_inv_def segs_inv_def by (simp add: s' put_file_def)
  moreover have "ckpt_inv A s'" using c ck by (simp add: core_inv_def ckpt_inv_def f update_conv') (simp add: s' put_file_def)
  moreover have "cursor_inv (rss @ [[]]) s'" "first_inv (rss @ [[]]) s'" "counts_inv (rss @ [[]]) s'"
    using inv unfolding spool_inv_def core_inv_def cursor_inv_def first_inv_def counts_inv_def first_run_snoc
    by (auto simp: s' put_file_def)
  ultimately show ?thesis by (simp add: spool_inv_def core_inv_def)
qed

lemma inv_close: "spool_inv J A rss s \<Longrightarrow> spool_inv J A rss (s\<lparr> spW := None \<rparr>)"
  by (simp add: spool_invs)

lemma same_result:
  assumes "same_core s s' \<and> same_loss s s'" "spool_inv J A rss s"
  shows "spool_inv J A rss s' \<and> kept s s' \<and> same_loss s s' \<and> spSegs s' = spSegs s \<and> spW s' = spW s \<and> spFiles s' = spFiles s"
  using assms inv_core(7) [of s s'] kept_core [of s s'] by (simp add: same_core_def)

lemma roll_inv:
  assumes inv: "spool_inv J A rss s" and q: "0 < q" "q \<le> max64" and roll: "roll w q s = (r, s')"
  shows "\<exists>rss'. rss' \<in> {rss, rss @ [[]]} \<and> spool_inv J A rss' s' \<and> kept s s' \<and> same_loss s s' \<and>
    (\<forall>sg \<in> set (spSegs s'). sgBase sg = q \<or> sg \<in> set (spSegs s)) \<and> (r = Inr () \<longrightarrow> spW s' \<noteq> None)"
proof -
  define a where "a = (if spW s \<noteq> None
    then and_then (sync w s) (\<lambda>_ s1. and_then (syscall w CloseSegment s1) (\<lambda>_ s2. (Inr (), s2\<lparr> spW := None \<rparr>))) else (Inr (), s))"
  have ca: "spool_inv J A rss s1 \<and> kept s s1 \<and> same_loss s s1 \<and> spSegs s1 = spSegs s" if "a = (x, s1)" for x s1
  proof (cases "spW s = None")
    case True
    then show ?thesis using that inv by (simp add: a_def kept_def)
  next
    case False
    then have "and_then (sync w s) (\<lambda>_ s1. and_then (syscall w CloseSegment s1) (\<lambda>_ s2. (Inr (), s2\<lparr> spW := None \<rparr>))) = (x, s1)"
      using that by (simp add: a_def)
    then show ?thesis
    proof (cases rule: and_then_cases)
      case (err e)
      then show ?thesis using same_result [OF core_sync [OF err(1)] inv] by simp
    next
      case (ok u s2)
      note c2 = core_sync [OF ok(1)]
      from ok(2) show ?thesis
      proof (cases rule: and_then_cases)
        case (err e)
        have "same_core s s1 \<and> same_loss s s1" using c2 core_syscall [OF err(1)] same_core_trans by blast
        from same_result [OF this inv] show ?thesis by simp
      next
        case (ok v s3)
        have c3: "same_core s s3 \<and> same_loss s s3" using c2 core_syscall [OF ok(1)] same_core_trans by blast
        have "s1 = s3\<lparr> spW := None \<rparr>" using ok(2) by simp
        then show ?thesis using same_result [OF c3 inv] inv_close [of J A rss s3] by (simp add: kept_def same_loss_def)
      qed
    qed
  qed
  from roll [unfolded roll_def, folded a_def] show ?thesis
  proof (cases rule: and_then_cases)
    case (err e)
    then show ?thesis using ca [OF err(1)] by (intro exI [of _ rss]) auto
  next
    case (ok u s1)
    note c1 = ca [OF ok(1)]
    show ?thesis
    proof (cases "map_of (spFiles s1) (segmentName q)")
      case (Some b)
      then have "s' = ask s1" "r \<noteq> Inr ()" using ok(2) by (auto simp: Let_def)
      then show ?thesis using c1 inv_core(7) [OF core_ask(1)] by (intro exI [of _ rss]) (auto simp: kept_def same_loss_def ask_def)
    next
      case None
      define s2 where "s2 = ask s1"
      have c2: "spool_inv J A rss s2" "kept s s2" "same_loss s s2" "spSegs s2 = spSegs s" "map_of (spFiles s2) (segmentName q) = None"
        using c1 None inv_core(7) [OF core_ask(1)] by (auto simp: kept_def same_loss_def ask_def s2_def)
      define s3 where "s3 = (put_file (segmentName q) [] s2)\<lparr> spW := Some (segmentName q), spSegs := spSegs s2 @
        [\<lparr> sgPath = segmentName q, sgBase = q, sgLast = 0, sgCount = 0, sgSize = 0, sgReported = 0, sgUndecodable = 0 \<rparr>] \<rparr>"
      have i3: "spool_inv J A (rss @ [[]]) s3" by (rule new_segment_inv [OF c2(1) q c2(5) s3_def])
      have k3: "kept s s3" "same_loss s s3" "\<forall>sg \<in> set (spSegs s3). sgBase sg = q \<or> sg \<in> set (spSegs s)" "spW s3 \<noteq> None"
        using c2 by (auto simp: s3_def kept_def same_loss_def put_file_def)
      have "s' = s2 \<and> r \<noteq> Inr () \<or> syncDir w s3 = (r, s')"
        using ok(2) None by (auto simp: Let_def and_then_def syscall_def s2_def s3_def split: if_splits)
      then show ?thesis
      proof
        assume "s' = s2 \<and> r \<noteq> Inr ()"
        then show ?thesis using c2 by (intro exI [of _ rss]) auto
      next
        assume "syncDir w s3 = (r, s')"
        from core_syncDir [OF this] show ?thesis using i3 k3 inv_core(7) [of s3 s']
          by (intro exI [of _ "rss @ [[]]"]) (auto simp: same_core_def kept_def same_loss_def)
      qed
    qed
  qed
qed

text \<open>The record enters the run of the active segment.\<close>

definition add_record :: "nat \<times> bytes \<Rightarrow> (nat \<times> bytes) list list \<Rightarrow> (nat \<times> bytes) list list" where
  "add_record qp rss = butlast rss @ [last rss @ [qp]]"

lemma add_record_snoc [simp]: "add_record qp (rss @ [rs]) = rss @ [rs @ [qp]]"
  by (simp add: add_record_def)

lemma active_split:
  assumes "core_inv b J A rss s" "spW s = Some path"
  obtains sgs sg rss0 rs where "spSegs s = sgs @ [sg]" "rss = rss0 @ [rs]" "path = sgPath sg"
    "list_all2 (seg_ok J (spFiles s)) sgs rss0" "seg_ok J (spFiles s) sg rs" "sgPath sg \<notin> set (map sgPath sgs)"
proof -
  have w: "spSegs s \<noteq> []" "path = sgPath (last (spSegs s))" and d: "distinct (map sgPath (spSegs s))"
    using assms by (auto simp: core_inv_def segs_inv_def)
  obtain sgs sg where sg: "spSegs s = sgs @ [sg]" using w(1) by (metis append_butlast_last_id)
  from seg_runs [OF assms(1), unfolded sg] obtain rss0 rs where "rss = rss0 @ [rs]"
    "list_all2 (seg_ok J (spFiles s)) sgs rss0" "seg_ok J (spFiles s) sg rs"
    by (auto simp: list_all2_append1 list_all2_Cons1)
  with sg w d show thesis by (intro that) auto
qed

lemma first_run_add: "first_run (rss0 @ [rs @ [qp]]) = (if rss0 = [] then rs @ [qp] else first_run (rss0 @ [rs]))"
  by (cases rss0) (simp_all add: first_run_def)

lemma stored_inv:
  assumes inv: "core_inv True J A (rss0 @ [rs]) s" and sg: "spSegs s = sgs @ [sg]" and path: "path = sgPath sg"
    and l: "list_all2 (seg_ok J (spFiles s)) sgs rss0" "seg_ok J (spFiles s) sg rs" "sgPath sg \<notin> set (map sgPath sgs)"
    and rec: "rec_ok J (q, p)" and q: "spLastSeq s < q" and base: "\<forall>g \<in> set (spSegs s). sgBase g \<le> q"
    and s': "spFiles s' = AList.update path (encode_all (rs @ [(q, p)])) (spFiles s)" "spW s' = spW s"
      "spSegs s' = sgs @ [sg\<lparr> sgBase := (if sgCount sg = 0 then q else sgBase sg), sgCount := sgCount sg + 1, sgLast := q,
         sgSize := sgSize sg + length (encodeRecord p) \<rparr>]"
      "spLastSeq s' = q" "spAckedThrough s' = spAckedThrough s" "spAckedInFirst s' = spAckedInFirst s" "spAckOffset s' = spAckOffset s"
      "spFirstPending s' = (if spFirstPending s = 0 then q else spFirstPending s)"
  shows "core_inv True J A (rss0 @ [rs @ [(q, p)]]) s'"
proof -
  note i = inv [unfolded core_inv_def segs_inv_def]
  have le: "\<forall>x \<in> set (concat rss0) \<union> set rs. fst x \<le> spLastSeq s" using i by auto
  have lt: "\<forall>x \<in> set (concat rss0) \<union> set rs. fst x < q" using le q by (meson le_less_trans)
  have q0: "0 < q" "q \<le> max64" using rec by (auto simp: rec_ok_def record_ok_def)
  have ps: "parseSegmentName path \<noteq> None" using i by (auto simp: sg path)
  have ck: "checkpointName \<noteq> path" using segment_path_names ps by auto
  have "list_all2 (seg_ok J (spFiles s')) (spSegs s') (rss0 @ [rs @ [(q, p)]])"
    using seg_ok_update [OF l(1,3)] l(2) rec q0
    by (auto simp: s' path seg_ok_def update_conv' list_all2_appendI)
  moreover have "rising (concat (rss0 @ [rs @ [(q, p)]]))" using i lt by (auto simp: rising_append)
  moreover have "bases_ok (spSegs s') (rss0 @ [rs @ [(q, p)]])"
  proof -
    have n: "length sgs = length rss0" using list_all2_lengthD [OF l(1)] .
    have "bases_ok (sgs @ [sg]) (rss0 @ [rs])" using i by (simp add: sg)
    then show ?thesis using base l(2) by (auto simp: s'(3) sg bases_ok_snoc n seg_ok_def)
  qed
  moreover have "\<forall>x \<in> set (concat (rss0 @ [rs @ [(q, p)]])). fst x \<le> spLastSeq s'"
    using lt by (simp add: s'(4) ball_Un) (meson less_imp_le)
  moreover have "{p. map_of (spFiles s') p \<noteq> None \<and> parseSegmentName p \<noteq> None} = set (map sgPath (spSegs s'))"
  proof -
    have "map_of (spFiles s) path \<noteq> None" using l(2) by (simp add: path seg_ok_def)
    then have "{p. map_of (spFiles s') p \<noteq> None \<and> parseSegmentName p \<noteq> None} = {p. map_of (spFiles s) p \<noteq> None \<and> parseSegmentName p \<noteq> None}"
      by (auto simp: s'(1) update_conv')
    also have "\<dots> = set (map sgPath (spSegs s))" using i by blast
    finally show ?thesis by (simp add: sg s'(3))
  qed
  moreover have "spAckedThrough s' \<le> spLastSeq s'" using i q by (simp add: s')
  ultimately have "segs_inv J (rss0 @ [rs @ [(q, p)]]) s'" using i q0 unfolding segs_inv_def by (simp add: s' sg)
  moreover have "ckpt_inv A s'" using inv ck by (auto simp: core_inv_def ckpt_inv_def s' update_conv')
  moreover have "cursor_inv (rss0 @ [rs @ [(q, p)]]) s'"
  proof (cases "rss0 = []")
    case True
    then show ?thesis using inv by (simp add: core_inv_def cursor_inv_def first_run_def s')
  next
    case False
    then show ?thesis using inv unfolding core_inv_def cursor_inv_def first_run_add s' by simp
  qed
  moreover have "first_inv (rss0 @ [rs @ [(q, p)]]) s'"
  proof -
    have fb: "spFirstPending s \<le> q" using inv q base by (auto simp: core_inv_def first_inv_def)
    show ?thesis
    proof (cases "spFirstPending s = 0")
      case True
      then have "\<forall>x \<in> set (concat (rss0 @ [rs])). \<not> spAckedThrough s < fst x" using inv by (simp add: core_inv_def first_inv_def not_less)
      then show ?thesis using True q0 by (simp add: first_inv_def s' ball_Un)
    next
      case False
      then show ?thesis using inv fb by (auto simp: core_inv_def first_inv_def s')
    qed
  qed
  ultimately show ?thesis by (simp add: core_inv_def)
qed

lemma files_inv:
  assumes "map_of fs = map_of (spFiles s)"
  shows "spool_inv J A rss (s\<lparr> spFiles := fs \<rparr>) = spool_inv J A rss s"
proof -
  have "seg_ok J fs = seg_ok J (spFiles s)" using assms by (intro ext) (simp add: seg_ok_def)
  then show ?thesis using assms by (simp add: spool_invs)
qed

lemma write_record_inv:
  assumes inv: "spool_inv J A rss s" and w: "spW s \<noteq> None" and rec: "rec_ok J (q, p)" and q: "spLastSeq s < q"
    and base: "\<forall>g \<in> set (spSegs s). sgBase g \<le> q" and whole: "\<forall>k. dwWrite w (spTick s) = Some k \<longrightarrow> k = 0"
    and wr: "write_record w q p s = (r, s')"
  shows "r = Inr () \<and> spool_inv J A (add_record (q, p) rss) s' \<and> spLastSeq s' = q \<and> rss \<noteq> [] \<or>
      r = Inl (IoFailed WriteSegment) \<and> spool_inv J A rss s' \<and> spLastSeq s' = spLastSeq s"
    "spAckedThrough s' = spAckedThrough s" "spOpts s' = spOpts s" "spClosed s' = spClosed s" "same_loss s s'"
    "\<forall>g \<in> set (spSegs s'). sgBase g \<le> q"
proof -
  obtain path where path: "spW s = Some path" using w by auto
  note core = spool_core [OF inv]
  obtain sgs sg rss0 rs where a: "spSegs s = sgs @ [sg]" "rss = rss0 @ [rs]" "path = sgPath sg"
    "list_all2 (seg_ok J (spFiles s)) sgs rss0" "seg_ok J (spFiles s) sg rs" "sgPath sg \<notin> set (map sgPath sgs)"
    by (rule active_split [OF core path])
  have fo: "map_of (spFiles s) path = Some (encode_all rs)" "sgSize sg = length (encode_all rs)" using a(3,5) by (simp_all add: seg_ok_def)
  let ?fs = "AList.update path (encode_all rs) (spFiles s)"
  have mo: "map_of ?fs = map_of (spFiles s)" using fo(1) by (auto simp: update_conv' fun_eq_iff)
  have "(r = Inr () \<and> spool_inv J A (add_record (q, p) rss) s' \<and> spLastSeq s' = q \<and> rss \<noteq> [] \<or>
      r = Inl (IoFailed WriteSegment) \<and> spool_inv J A rss s' \<and> spLastSeq s' = spLastSeq s) \<and>
    spAckedThrough s' = spAckedThrough s \<and> spOpts s' = spOpts s \<and> spClosed s' = spClosed s \<and> same_loss s s' \<and>
    (\<forall>g \<in> set (spSegs s'). sgBase g \<le> q)"
  proof (cases "dwWrite w (spTick s)")
    case None
    define s1 where "s1 = (set_active (\<lambda>sg. sg\<lparr> sgBase := (if sgCount sg = 0 then q else sgBase sg), sgCount := sgCount sg + 1,
        sgLast := q, sgSize := sgSize sg + length (encodeRecord p) \<rparr>) (put_file path (file_of path s @ encodeRecord p) (ask s)))"
    define s2 where "s2 = s1\<lparr> spLastSeq := q, spFirstPending := (if spFirstPending s1 = 0 then q else spFirstPending s1), spDirty := True \<rparr>"
    have s': "r = Inr ()" "s' = recount s2" using wr None path a(1) by (auto simp: write_record_def Let_def s1_def s2_def)
    have f: "spFiles s2 = AList.update path (encode_all (rs @ [(q, p)])) (spFiles s)" "spW s2 = spW s"
      "spSegs s2 = sgs @ [sg\<lparr> sgBase := (if sgCount sg = 0 then q else sgBase sg), sgCount := sgCount sg + 1, sgLast := q,
         sgSize := sgSize sg + length (encodeRecord p) \<rparr>]"
      "spLastSeq s2 = q" "spAckedThrough s2 = spAckedThrough s" "spAckedInFirst s2 = spAckedInFirst s" "spAckOffset s2 = spAckOffset s"
      "spFirstPending s2 = (if spFirstPending s = 0 then q else spFirstPending s)"
      by (simp_all add: s2_def s1_def set_active_def put_file_def ask_def file_of_def fo a(1))
    have "core_inv True J A (rss0 @ [rs @ [(q, p)]]) s2"
      by (rule stored_inv [OF core [unfolded a(2)] a(1,3,4-6) rec q base f])
    then have "spool_inv J A (add_record (q, p) rss) s'" unfolding s'(2) a(2) add_record_snoc by (rule recount_inv)
    moreover have "\<forall>g \<in> set (spSegs s'). sgBase g \<le> q" using base a(1) by (auto simp: s' f(3))
    ultimately show ?thesis using f(4,5) a(2) by (simp add: s' s2_def s1_def set_active_def put_file_def ask_def same_loss_def)
  next
    case (Some k)
    define s1 where "s1 = put_file path (file_of path s @ take k (encodeRecord p)) (ask s)"
    define s2 where "s2 = set_active (\<lambda>sg. sg\<lparr> sgSize := length (file_of path s1) \<rparr>) (ask s1)"
    have k: "k = 0" using whole Some by simp
    have s1: "s1 = (ask s)\<lparr> spFiles := ?fs \<rparr>" by (simp add: s1_def k put_file_def file_of_def fo ask_def)
    have fs1: "file_of path s1 = encode_all rs" by (simp add: s1 file_of_def update_conv')
    have sg1: "spSegs (ask s1) = sgs @ [sg]" by (simp add: s1 ask_def a(1))
    have "sg\<lparr> sgSize := length (encode_all rs) \<rparr> = sg" by (simp flip: fo(2))
    then have "s2 = (ask s1)\<lparr> spSegs := spSegs (ask s1) \<rparr>" unfolding s2_def set_active_def fs1 by (simp add: sg1)
    then have s2: "s2 = ask s1" by simp
    have s': "r = Inl (IoFailed WriteSegment)" "s' = publishMetrics (recount s2) \<or> s' = ask s1"
      using wr Some path a(1) by (auto simp: write_record_def Let_def s1_def s2_def)
    have i1: "spool_inv J A rss (ask s1)"
    proof -
      have "spool_inv J A rss (ask s)" using inv inv_core(7) [OF core_ask(1)] by simp
      then have "spool_inv J A rss s1" unfolding s1 using files_inv [of ?fs "ask s" J A rss] mo by (simp add: ask_def)
      then show ?thesis using inv_core(7) [OF core_ask(1)] by simp
    qed
    then have i2: "spool_inv J A rss (publishMetrics (recount s2))"
      using recount_inv [OF spool_core] inv_core(7) [OF core_publishMetrics(1)] s2 by simp
    have "spool_inv J A rss s'" using s'(2) i1 i2 by auto
    moreover have "kept s s' \<and> same_loss s s' \<and> spSegs s' = spSegs s" using s'(2) by (auto simp: s2 s1 ask_def publishMetrics_def kept_def same_loss_def)
    ultimately show ?thesis using s'(1) base by (simp add: kept_def)
  qed
  then show "r = Inr () \<and> spool_inv J A (add_record (q, p) rss) s' \<and> spLastSeq s' = q \<and> rss \<noteq> [] \<or>
      r = Inl (IoFailed WriteSegment) \<and> spool_inv J A rss s' \<and> spLastSeq s' = spLastSeq s"
    "spAckedThrough s' = spAckedThrough s" "spOpts s' = spOpts s" "spClosed s' = spClosed s" "same_loss s s'" "\<forall>g \<in> set (spSegs s'). sgBase g \<le> q" by blast+
qed

text \<open>
  What is assumed of the outside. \<open>codec_ok\<close>: an encoded event is not empty, has its sequence number in the
  field \<open>sequence\<close>, and can be decoded. \<open>whole_writes\<close>: a write that fails has written nothing.
\<close>

definition codec_ok :: "event_codec \<Rightarrow> bool" where
  "codec_ok J \<longleftrightarrow> (\<forall>e p. ecMarshal J e = Some p \<longrightarrow> p \<noteq> [] \<and> ecSequence J p = Some (Sequence e) \<and> ecUnmarshal J p \<noteq> None)"

definition whole_writes :: "disk_world \<Rightarrow> bool" where
  "whole_writes w \<longleftrightarrow> (\<forall>n k. dwWrite w n = Some k \<longrightarrow> k = 0)"

text \<open>The only errors of the helpers are those of system calls.\<close>

definition io_only :: "'a spool_result \<Rightarrow> bool" where
  "io_only r \<longleftrightarrow> (\<forall>e. fst r = Inl e \<longrightarrow> (\<exists>op. e = IoFailed op))"

lemma io_and_then [intro!]: "io_only r \<Longrightarrow> (\<And>x s. io_only (k x s)) \<Longrightarrow> io_only (and_then r k)"
  by (auto simp: io_only_def and_then_def split: sum.splits prod.splits)

lemma io_ok [intro!]: "io_only (Inr x, s)" "io_only (Inl (IoFailed op), s)"
  by (simp_all add: io_only_def)

lemma io_helpers [intro!]:
  "io_only (syscall w op s)" "io_only (syncDir w s)" "io_only (sync w s)" "io_only (remove_file w path s)"
proof -
  show a: "io_only (syscall w op s)" for op s by (simp add: io_only_def syscall_def)
  then show "io_only (syncDir w s)" by (simp add: syncDir_def)
  show "io_only (sync w s)" using a by (auto simp: sync_def)
  show "io_only (remove_file w path s)" using a by (auto simp: remove_file_def)
qed

lemma io_roll [intro!]: "io_only (roll w q s)"
  unfolding roll_def Let_def by (intro io_and_then) (auto simp del: split_paired_All split: if_splits)

lemma io_maybeSync [intro!]: "io_only (maybeSync w s)"
  by (auto simp: maybeSync_def)

lemma io_enforce_loop: "io_only (enforce_loop w sgs s)"
  by (induction w sgs s rule: enforce_loop.induct) (auto simp: Let_def)

lemma io_enforceMaxSize [intro!]: "io_only (enforceMaxSize w s)"
  by (auto simp: enforceMaxSize_def io_enforce_loop)

lemma io_no_panic: "io_only (r, s) \<Longrightarrow> r \<noteq> Inl Panicked"
  by (auto simp: io_only_def)

text \<open>An append that got past its checks, up to the eviction: \<open>new\<close> is what was stored.\<close>

definition appended :: "event_codec \<Rightarrow> nat \<Rightarrow> (nat \<times> bytes) list list \<Rightarrow> nat \<Rightarrow> bytes \<Rightarrow> spool \<Rightarrow>
    (nat \<times> bytes) list list \<Rightarrow> (nat \<times> bytes) list \<Rightarrow> spool \<Rightarrow> bool" where
  "appended J A rss q p s rss2 new s' \<longleftrightarrow> spool_inv J A rss2 s' \<and> concat rss2 = concat rss @ new \<and>
     (new = [] \<and> spLastSeq s' = spLastSeq s \<or> new = [(q, p)] \<and> spLastSeq s' = q \<and> rss2 \<noteq> [] \<and> (q, p) \<in> set (last rss2)) \<and>
     spAckedThrough s' = spAckedThrough s \<and> spOpts s' = spOpts s \<and> spClosed s' = spClosed s \<and> same_loss s s' \<and>
     (\<forall>g \<in> set (spSegs s'). sgBase g \<le> q)"

lemma appended_same:
  "appended J A rss q p s rss2 new s1 \<Longrightarrow> same_core s1 s2 \<and> same_loss s1 s2 \<Longrightarrow> appended J A rss q p s rss2 new s2"
  using same_result [of s1 s2 J A rss2] unfolding appended_def kept_def same_loss_def by auto

definition append_body :: "disk_world \<Rightarrow> nat \<Rightarrow> bytes \<Rightarrow> spool \<Rightarrow> unit spool_result" where
  "append_body w q p s =
     and_then (if needs_roll (recordHeaderSize + length p) s then roll w q s else (Inr (), s)) (\<lambda>_ s1.
     and_then (write_record w q p s1) (\<lambda>_ s2. maybeSync w s2))"

lemma append_body_inv:
  assumes inv: "spool_inv J A rss s" and rec: "rec_ok J (q, p)" and q: "spLastSeq s < q" and base: "\<forall>g \<in> set (spSegs s). sgBase g \<le> q"
    and whole: "whole_writes w" and body: "append_body w q p s = (r, s')"
  obtains rss2 new where "appended J A rss q p s rss2 new s'" "r = Inr () \<longrightarrow> new \<noteq> []" "r \<noteq> Inl Panicked"
proof -
  have q0: "0 < q" "q \<le> max64" using rec by (auto simp: rec_ok_def record_ok_def)
  define a where "a = (if needs_roll (recordHeaderSize + length p) s then roll w q s else (Inr (), s))"
  have rolled: "\<exists>rss1. concat rss1 = concat rss \<and> spool_inv J A rss1 s1 \<and> kept s s1 \<and> same_loss s s1 \<and> (\<forall>g \<in> set (spSegs s1). sgBase g \<le> q) \<and>
      (x = Inr () \<longrightarrow> spW s1 \<noteq> None) \<and> x \<noteq> Inl Panicked" if "a = (x, s1)" for x s1
  proof (cases "needs_roll (recordHeaderSize + length p) s")
    case True
    then have r: "roll w q s = (x, s1)" using that by (simp add: a_def)
    from roll_inv [OF inv q0 r] obtain rss1 where r1: "rss1 \<in> {rss, rss @ [[]]}" "spool_inv J A rss1 s1" "kept s s1" "same_loss s s1"
      "\<forall>sg \<in> set (spSegs s1). sgBase sg = q \<or> sg \<in> set (spSegs s)" "x = Inr () \<longrightarrow> spW s1 \<noteq> None" by blast
    moreover have "x \<noteq> Inl Panicked" using r io_no_panic io_roll by metis
    ultimately show ?thesis using base by (intro exI [of _ rss1]) auto
  next
    case False
    then show ?thesis using that inv base by (intro exI [of _ rss]) (auto simp: a_def needs_roll_def kept_def)
  qed
  from body [unfolded append_body_def, folded a_def] show thesis
  proof (cases rule: and_then_cases)
    case (err e)
    from rolled [OF err(1)] obtain rss1 where "concat rss1 = concat rss" "spool_inv J A rss1 s'" "kept s s'" "same_loss s s'"
      "\<forall>g \<in> set (spSegs s'). sgBase g \<le> q" "e \<noteq> Panicked" by auto
    then show thesis using err(2) by (intro that [of rss1 "[]"]) (auto simp: appended_def kept_def)
  next
    case (ok u s1)
    from rolled [OF ok(1)] obtain rss1 where r1: "concat rss1 = concat rss" "spool_inv J A rss1 s1" "kept s s1" "same_loss s s1"
      "\<forall>g \<in> set (spSegs s1). sgBase g \<le> q" "spW s1 \<noteq> None" by auto
    have q1: "spLastSeq s1 < q" using q r1(3) by (simp add: kept_def)
    have wh: "\<forall>k. dwWrite w (spTick s1) = Some k \<longrightarrow> k = 0" using whole by (simp add: whole_writes_def)
    obtain y s2 where y: "write_record w q p s1 = (y, s2)" by fastforce
    note wr = write_record_inv [OF r1(2,6) rec q1 r1(5) wh y]
    consider (stored) "y = Inr ()" "spool_inv J A (add_record (q, p) rss1) s2" "spLastSeq s2 = q" "rss1 \<noteq> []"
      | (failed) "y = Inl (IoFailed WriteSegment)" "spool_inv J A rss1 s2" "spLastSeq s2 = spLastSeq s1" using wr(1) by blast
    then show thesis
    proof cases
      case stored
      have c: "concat (add_record (q, p) rss1) = concat rss @ [(q, p)]" "add_record (q, p) rss1 \<noteq> []" "(q, p) \<in> set (last (add_record (q, p) rss1))"
        using stored(4) r1(1) by (auto simp: add_record_def) (metis append_butlast_last_id concat_append concat.simps append_Nil2 append_assoc)
      have "appended J A rss q p s (add_record (q, p) rss1) [(q, p)] s2"
        using stored c wr(2-6) r1(3,4) unfolding appended_def by (auto simp: kept_def same_loss_def)
      moreover have "maybeSync w s2 = (r, s')" using ok(2) y stored(1) by (simp add: and_then_def)
      moreover have "r \<noteq> Inl Panicked" using calculation(2) io_no_panic io_maybeSync by metis
      ultimately show thesis using appended_same core_maybeSync by (intro that [of "add_record (q, p) rss1" "[(q, p)]"]) blast+
    next
      case failed
      then have s': "s' = s2" "r = y" using ok(2) y by (auto simp: and_then_def)
      have "appended J A rss q p s rss1 [] s2"
        using failed wr(2-6) r1 unfolding appended_def by (auto simp: kept_def same_loss_def)
      then show thesis using failed(1) s' by (intro that [of rss1 "[]"]) auto
    qed
  qed
qed

lemma and_then_assoc: "and_then (and_then r k) k' = and_then r (\<lambda>x s. and_then (k x s) k')"
  by (auto simp: and_then_def split: prod.splits sum.splits)

lemma Append_go:
  assumes "\<not> spClosed s" "\<not> Sequence e \<le> spLastSeq s" "ecMarshal J e = Some p" "\<not> length p > maxRecordSize"
  shows "Append J w (Some e) s =
    and_then (append_body w (Sequence e) p s) (\<lambda>_ s3. and_then (enforceMaxSize w s3) (\<lambda>_ s4. (Inr (), publishMetrics s4)))"
  using assms by (simp add: Append_def append_body_def and_then_assoc)

text \<open>How an append ends: the runs with the new record, of which the first \<open>j\<close> were evicted.\<close>

definition append_end :: "event_codec \<Rightarrow> nat \<Rightarrow> (nat \<times> bytes) list list \<Rightarrow> event \<Rightarrow> spool \<Rightarrow>
    (nat \<times> bytes) list list \<Rightarrow> (nat \<times> bytes) list \<Rightarrow> nat \<Rightarrow> (spool_error, unit) result \<Rightarrow> spool \<Rightarrow> bool" where
  "append_end J A rss e s rss2 new j r s' \<longleftrightarrow> concat rss2 = concat rss @ new \<and> spool_inv J A (drop j rss2) s' \<and>
     (new = [] \<and> spLastSeq s' = spLastSeq s \<or>
      (\<exists>p. ecMarshal J e = Some p \<and> new = [(Sequence e, p)]) \<and> spLastSeq s < Sequence e \<and> spLastSeq s' = Sequence e) \<and>
     set new \<subseteq> set (concat (drop j rss2)) \<and> (\<forall>x \<in> set (concat (take j rss2)). fst x \<le> spAckedThrough s \<or> covers s' (fst x)) \<and>
     (\<forall>q. covers s q \<longrightarrow> covers s' q) \<and> spAckedThrough s' = spAckedThrough s \<and> spOpts s' = spOpts s \<and> spClosed s' = spClosed s \<and>
     (\<forall>g \<in> set (spSegs s'). sgBase g \<le> Sequence e) \<and> r \<noteq> Inl Panicked \<and>
     (r = Inr () \<longrightarrow> new \<noteq> [] \<and> (int (spBytes s') \<le> soMaxSize (spOpts s') \<or> length (spSegs s') \<le> 1))"

lemma append_end_publish: "append_end J A rss e s rss2 new j r s' \<Longrightarrow> append_end J A rss e s rss2 new j r (publishMetrics s')"
proof -
  have e1: "covers (publishMetrics s') q = covers s' q" for q by (simp add: covers_def publishMetrics_def)
  have e2: "spLastSeq (publishMetrics s') = spLastSeq s'" "spAckedThrough (publishMetrics s') = spAckedThrough s'"
    "spOpts (publishMetrics s') = spOpts s'" "spClosed (publishMetrics s') = spClosed s'" "spSegs (publishMetrics s') = spSegs s'"
    "spBytes (publishMetrics s') = spBytes s'" by (simp_all add: publishMetrics_def)
  assume "append_end J A rss e s rss2 new j r s'"
  then show ?thesis unfolding append_end_def e1 e2 inv_core(7) [OF core_publishMetrics(1)] .
qed

lemma Append_inv:
  assumes inv: "spool_inv J A rss s" and codec: "codec_ok J" and bound: "Sequence e \<le> max64"
    and base: "\<forall>g \<in> set (spSegs s). sgBase g \<le> Sequence e" and whole: "whole_writes w" and app: "Append J w (Some e) s = (r, s')"
  shows "\<exists>rss2 new j. append_end J A rss e s rss2 new j r s'"
proof (cases "spClosed s \<or> Sequence e \<le> spLastSeq s \<or> ecMarshal J e = None \<or> length (the (ecMarshal J e)) > maxRecordSize")
  case True
  then have "s' = s" "r \<noteq> Inr ()" "r \<noteq> Inl Panicked" using app by (auto simp: Append_def split: if_splits option.splits)
  then show ?thesis using inv base by (intro exI [of _ rss] exI [of _ "[]"] exI [of _ 0]) (simp add: append_end_def)
next
  case False
  then obtain p where p: "\<not> spClosed s" "\<not> Sequence e \<le> spLastSeq s" "ecMarshal J e = Some p" "\<not> length p > maxRecordSize" by auto
  have rec: "rec_ok J (Sequence e, p)" using p codec bound by (auto simp: rec_ok_def record_ok_def codec_ok_def)
  have q: "spLastSeq s < Sequence e" using p(2) by simp
  from app [unfolded Append_go [OF p]] show ?thesis
  proof (cases rule: and_then_cases)
    case (err x)
    obtain rss2 new where a: "appended J A rss (Sequence e) p s rss2 new s'" "r = Inr () \<longrightarrow> new \<noteq> []" "r \<noteq> Inl Panicked"
      by (rule append_body_inv [OF inv rec q base whole err(1)]) (use err(2) in auto)
    have sl: "same_loss s s'" using a(1) by (simp add: appended_def)
    have "append_end J A rss e s rss2 new 0 r s'"
      using a q p(3) err(2) covers_same [OF sl] unfolding appended_def append_end_def by (elim conjE disjE) simp_all
    then show ?thesis by blast
  next
    case (ok u s3)
    obtain rss2 new where a: "appended J A rss (Sequence e) p s rss2 new s3" "new \<noteq> []"
      by (rule append_body_inv [OF inv rec q base whole ok(1)]) auto
    note ap = a(1) [unfolded appended_def]
    have n: "new = [(Sequence e, p)]" "spLastSeq s3 = Sequence e" "rss2 \<noteq> []" "(Sequence e, p) \<in> set (last rss2)" using ap a(2) by auto
    obtain y s4 where y: "enforceMaxSize w s3 = (y, s4)" by fastforce
    have i3: "spool_inv J A rss2 s3" using ap by blast
    obtain j where j: "spool_inv J A (drop j rss2) s4" "j > 0 \<longrightarrow> j < length rss2" "kept s3 s4" "\<forall>q. covers s3 q \<longrightarrow> covers s4 q"
      "\<forall>x \<in> set (concat (take j rss2)). fst x \<le> spAckedThrough s3 \<or> covers s4 (fst x)" "set (spSegs s4) \<subseteq> set (spSegs s3)"
      "y = Inr () \<longrightarrow> int (spBytes s4) \<le> soMaxSize (spOpts s4) \<or> length (spSegs s4) \<le> 1"
      by (rule enforceMaxSize_inv [OF i3 y])
    have yp: "y \<noteq> Inl Panicked" using y io_no_panic io_enforceMaxSize by metis
    have s': "s' = s4 \<and> r = y \<and> y \<noteq> Inr () \<or> s' = publishMetrics s4 \<and> r = Inr () \<and> y = Inr ()"
      using ok(2) y by (cases y) (auto simp: and_then_def)
    have "last rss2 \<in> set (drop j rss2)" using j(2) n(3) by (metis drop0 last_drop last_in_set drop_eq_Nil not_le gr0I)
    then have new: "set new \<subseteq> set (concat (drop j rss2))" using n by auto
    have k: "spAckedThrough s3 = spAckedThrough s" "spAckedThrough s4 = spAckedThrough s" "spOpts s4 = spOpts s" "spClosed s4 = spClosed s"
      "spLastSeq s4 = Sequence e" using ap j(3) n(2) by (simp_all add: kept_def)
    have cc: "concat rss2 = concat rss @ new" and sl: "same_loss s s3" and g3: "\<forall>g \<in> set (spSegs s3). sgBase g \<le> Sequence e" using ap by simp_all
    have cov: "\<forall>q. covers s q \<longrightarrow> covers s4 q" using j(4) covers_same [OF sl] by simp
    have g: "\<forall>g \<in> set (spSegs s4). sgBase g \<le> Sequence e" using g3 j(6) by blast
    have "append_end J A rss e s rss2 new j y s4"
      unfolding append_end_def using cc j(1,5,7) n(1) new yp q p(3) k cov g by simp
    then have "append_end J A rss e s rss2 new j r s'" using s' append_end_publish by auto
    then show ?thesis by blast
  qed
qed

subsection \<open>Reading\<close>

definition decoded :: "event_codec \<Rightarrow> nat \<times> bytes \<Rightarrow> event" where
  "decoded J x = the (ecUnmarshal J (snd x))"

definition wanted :: "nat \<Rightarrow> nat \<Rightarrow> (nat \<times> bytes) list \<Rightarrow> (nat \<times> bytes) list" where
  "wanted from through rs = filter (\<lambda>x. from \<le> fst x \<and> through < fst x) rs"

lemma next_step_apply:
  "ecUnmarshal J payload = Some ev \<Longrightarrow> next_step J from through maxi (out, bad, lo, hi) seq payload end =
    (if seq < from \<or> seq \<le> through then (True, out, bad, lo, hi) else (length out + 1 < maxi, out @ [ev], bad, lo, hi))"
  by (simp add: next_step_def)

lemma deliver_next:
  assumes "list_all (rec_ok J) rs" "length out < maxi"
  shows "snd (snd (snd (deliver (next_step J from through maxi) off rs (out, bad, lo, hi)))) =
    (take maxi (out @ map (decoded J) (wanted from through rs)), bad, lo, hi)"
  using assms
proof (induction rs arbitrary: out off)
  case (Cons x rs)
  let ?e = "off + recordHeaderSize + length (snd x)"
  obtain ev where ev: "ecUnmarshal J (snd x) = Some ev" using Cons(2) by (auto simp: rec_ok_def)
  have ok: "list_all (rec_ok J) rs" using Cons(2) by simp
  obtain b k e a where d: "deliver (next_step J from through maxi) ?e rs (out, bad, lo, hi) = (b, k, e, a)" by (metis prod.exhaust)
  obtain b2 k2 e2 a2 where d2: "deliver (next_step J from through maxi) ?e rs (out @ [ev], bad, lo, hi) = (b2, k2, e2, a2)" by (metis prod.exhaust)
  show ?case
  proof (cases "fst x < from \<or> fst x \<le> through")
    case True
    then show ?thesis using Cons(1) [OF ok Cons(3), of ?e] d by (auto simp: next_step_apply [OF ev] wanted_def Let_def)
  next
    case False
    show ?thesis
    proof (cases "length out + 1 < maxi")
      case True
      then show ?thesis using Cons(1) [OF ok, of "out @ [ev]" ?e] d2 False ev
        by (simp add: next_step_apply [OF ev] wanted_def Let_def decoded_def)
    next
      case f: False
      then have "maxi = Suc (length out)" using Cons(3) by simp
      then show ?thesis using False f ev by (simp add: next_step_apply [OF ev] wanted_def Let_def decoded_def)
    qed
  qed
qed (simp add: wanted_def)

lemma wanted_none: "\<forall>x \<in> set rs. fst x \<le> n \<Longrightarrow> n < from \<or> n \<le> through \<Longrightarrow> wanted from through rs = []"
  by (auto simp: wanted_def filter_empty_conv)

lemma next_loop_spec:
  assumes "list_all2 (seg_ok J (spFiles s)) sgs rss" "rising (concat rss)" "spSegs s = before @ sgs" "length out \<le> maxi"
    "if before = [] then k \<le> length (first_run rss) \<and> spAckOffset s = length (encode_all (take k (first_run rss))) else k = 0"
    "next_loop J w from through maxi before sgs out s = (r, s')"
  shows "same_core s s' \<and> same_loss s s' \<and> (\<forall>evs. r = Inr evs \<longrightarrow> evs = take maxi (out @ map (decoded J) (wanted from through (drop k (concat rss)))))"
  using assms
proof (induction sgs arbitrary: before out s rss k)
  case Nil
  then show ?case by (auto simp: wanted_def)
next
  case (Cons sg sgs)
  obtain rs rss' where rss: "rss = rs # rss'" and so: "seg_ok J (spFiles s) sg rs" and l: "list_all2 (seg_ok J (spFiles s)) sgs rss'"
    using Cons(2) by (auto simp: list_all2_Cons1)
  have k: "k \<le> length rs" "(if before = [] then spAckOffset s else 0) = length (encode_all (take k rs))"
    using Cons(6) by (auto simp: rss first_run_def split: if_splits)
  have up: "rising rs" "rising (concat rss')" using Cons(3) by (simp_all add: rss rising_append)
  have split: "wanted from through (drop k (concat rss)) = wanted from through (drop k rs) @ wanted from through (concat rss')"
    using k(1) by (simp add: rss wanted_def)
  have le: "\<forall>x \<in> set (drop k rs). fst x \<le> sgLast sg" using seg_last_bound [OF so up(1)] by (meson in_set_dropD)
  consider (full) "maxi \<le> length out" | (skip) "length out < maxi" "sgCount sg = 0 \<or> sgLast sg < from \<or> sgLast sg \<le> through"
    | (read) "length out < maxi" "\<not> (sgCount sg = 0 \<or> sgLast sg < from \<or> sgLast sg \<le> through)" using not_le by blast
  then show ?case
  proof cases
    case full
    then show ?thesis using Cons(5,7) by auto
  next
    case skip
    have "wanted from through (drop k rs) = []"
    proof (cases "sgCount sg = 0")
      case True
      then show ?thesis using so by (simp add: seg_ok_def wanted_def)
    next
      case False
      then have "sgLast sg < from \<or> sgLast sg \<le> through" using skip(2) by simp
      then show ?thesis by (rule wanted_none [OF le])
    qed
    moreover have "next_loop J w from through maxi (before @ [sg]) sgs out s = (r, s')" using Cons(7) skip by simp
    from Cons(1) [OF l up(2) _ Cons(5) _ this, of 0] Cons(4) have "same_core s s' \<and> same_loss s s' \<and>
      (\<forall>evs. r = Inr evs \<longrightarrow> evs = take maxi (out @ map (decoded J) (wanted from through (concat rss'))))" by simp
    ultimately show ?thesis by (simp add: split)
  next
    case read
    have ok: "list_all (record_ok (ecSequence J)) rs" "list_all (rec_ok J) (drop k rs)"
      using so rec_ok_all by (auto simp: seg_ok_def list_all_iff dest: in_set_dropD)
    have fl: "map_of (spFiles s) (sgPath sg) = Some (encode_all rs)" using so by (simp add: seg_ok_def)
    let ?w = "walk (ecSequence J) (dwRead w (spTick s)) (Some (encode_all rs)) (length (encode_all (take k rs)))
      (next_step J from through maxi) (out, 0, 0, 0)"
    obtain f st out' bad lo hi where w: "?w = (f, st, out', bad, lo, hi)" by (metis prod.exhaust)
    show ?thesis
    proof (cases f)
      case True
      then have "s' = ask s" "\<forall>evs. r \<noteq> Inr evs" using Cons(7) read w by (auto simp: fl k(2))
      then show ?thesis by simp
    next
      case False
      have "?w = intact_walk (next_step J from through maxi) (length (encode_all (take k rs))) (drop k rs)
          (zero_stats (length (encode_all (take k rs)))) (out, 0, 0, 0)"
        using walk_intact(1) [OF ok(1) up(1), of "dwRead w (spTick s)" k "next_step J from through maxi" "(out, 0, 0, 0)"] w False by auto
      note res = intact_walk_result [OF this [unfolded w, symmetric]]
      have a: "out' = take maxi (out @ map (decoded J) (wanted from through (drop k rs)))" "bad = 0"
        using res(3) unfolding deliver_next [OF ok(2) read(1)] by simp_all
      have "next_loop J w from through maxi (before @ [sg]) sgs out' ((ask s)\<lparr> spSegs := before @ sg # sgs \<rparr>) = (r, s')"
        using Cons(7) read w False res(2) a(2) by (simp add: fl k(2) reportNewDamage_def)
      moreover have "(ask s)\<lparr> spSegs := before @ sg # sgs \<rparr> = ask s" using Cons(4) by (simp add: ask_def)
      ultimately have nl: "next_loop J w from through maxi (before @ [sg]) sgs out' (ask s) = (r, s')" by simp
      have "list_all2 (seg_ok J (spFiles (ask s))) sgs rss'" using l by (simp add: ask_def)
      from Cons(1) [OF this up(2) _ _ _ nl, of 0] Cons(4) a(1)
      have c: "same_core (ask s) s' \<and> same_loss (ask s) s' \<and> (\<forall>evs. r = Inr evs \<longrightarrow> evs = take maxi (out' @ map (decoded J) (wanted from through (concat rss'))))"
        by (simp add: ask_def)
      have "take maxi (out' @ map (decoded J) (wanted from through (concat rss'))) =
          take maxi (out @ map (decoded J) (wanted from through (drop k (concat rss))))" unfolding split a(1) by (simp add: min_def)
      then show ?thesis using c core_ask_then by metis
    qed
  qed
qed

lemma NextAfter_spec:
  assumes inv: "spool_inv J A rss s" and nx: "NextAfter J w through m s = (r, s')"
  shows "same_core s s' \<and> same_loss s s'"
    "r = Inr evs \<Longrightarrow> evs = take (nat m) (map (decoded J) (wanted (spFirstPending s) through (drop (spAckedInFirst s) (concat rss))))"
proof -
  have cnt: "spPending s = length (concat rss) - spAckedInFirst s" using inv by (simp add: spool_inv_def counts_inv_def)
  have le: "\<forall>x \<in> set (concat rss). fst x \<le> spLastSeq s" using inv unfolding spool_inv_def core_inv_def segs_inv_def by blast
  have "same_core s s' \<and> same_loss s s' \<and> (\<forall>evs. r = Inr evs \<longrightarrow>
    evs = take (nat m) (map (decoded J) (wanted (spFirstPending s) through (drop (spAckedInFirst s) (concat rss)))))"
  proof (cases "spClosed s \<or> m \<le> 0 \<or> spPending s = 0 \<or> through \<ge> spLastSeq s")
    case True
    then have e: "s' = s" "\<forall>evs. r = Inr evs \<longrightarrow> evs = [] \<and> (m \<le> 0 \<or> spPending s = 0 \<or> through \<ge> spLastSeq s)"
      using nx by (auto simp: NextAfter_def split: if_splits)
    have w1: "wanted (spFirstPending s) through (drop (spAckedInFirst s) (concat rss)) = []" if "through \<ge> spLastSeq s"
    proof (rule wanted_none [of _ "spLastSeq s"])
      show "\<forall>x \<in> set (drop (spAckedInFirst s) (concat rss)). fst x \<le> spLastSeq s" using le in_set_dropD by metis
    qed (use that in simp)
    have w2: "wanted (spFirstPending s) through (drop (spAckedInFirst s) (concat rss)) = []" if "spPending s = 0"
    proof -
      have "drop (spAckedInFirst s) (concat rss) = []" using that cnt by (simp only: drop_eq_Nil diff_is_0_eq)
      then show ?thesis by (simp only: wanted_def filter.simps)
    qed
    have "evs = take (nat m) (map (decoded J) (wanted (spFirstPending s) through (drop (spAckedInFirst s) (concat rss))))" if "r = Inr evs" for evs
    proof -
      have "evs = []" "m \<le> 0 \<or> spPending s = 0 \<or> through \<ge> spLastSeq s" using e(2) that by blast+
      then show ?thesis using w1 w2 by (elim disjE) simp_all
    qed
    then show ?thesis using e(1) by simp
  next
    case False
    then have "next_loop J w (spFirstPending s) through (nat m) [] (spSegs s) [] s = (r, s')" using nx by (auto simp: NextAfter_def)
    from next_loop_spec [OF seg_runs [OF spool_core [OF inv]] _ _ _ _ this, of "spAckedInFirst s"] inv
    show ?thesis by (simp add: spool_inv_def core_inv_def segs_inv_def cursor_inv_def)
  qed
  then show "same_core s s' \<and> same_loss s s'"
    "r = Inr evs \<Longrightarrow> evs = take (nat m) (map (decoded J) (wanted (spFirstPending s) through (drop (spAckedInFirst s) (concat rss))))" by blast+
qed

text \<open>A cursor at or above the acknowledged position reads exactly what follows it.\<close>

lemma wanted_exact:
  assumes inv: "spool_inv J A rss s" and t: "spAckedThrough s \<le> through"
  shows "wanted (spFirstPending s) through (drop (spAckedInFirst s) (concat rss)) = filter (\<lambda>x. through < fst x) (concat rss)"
proof -
  let ?k = "spAckedInFirst s"
  note c = spool_core [OF inv]
  have "take ?k (concat rss) = take ?k (first_run rss)" using c by (cases rss) (simp_all add: core_inv_def cursor_inv_def first_run_def)
  then have "\<forall>x \<in> set (take ?k (concat rss)). \<not> through < fst x" using c t by (auto simp: core_inv_def cursor_inv_def)
  then have "filter (\<lambda>x. through < fst x) (take ?k (concat rss)) = []" by (simp add: filter_empty_conv)
  then have "filter (\<lambda>x. through < fst x) (concat rss) = filter (\<lambda>x. through < fst x) (drop ?k (concat rss))"
    by (metis append_take_drop_id filter_append append_Nil)
  moreover have "\<forall>x \<in> set (concat rss). through < fst x \<longrightarrow> spFirstPending s \<le> fst x"
    using c t le_less_trans unfolding core_inv_def first_inv_def by blast
  then have "filter (\<lambda>x. spFirstPending s \<le> fst x \<and> through < fst x) (drop ?k (concat rss)) = filter (\<lambda>x. through < fst x) (drop ?k (concat rss))"
    by (intro filter_cong refl) (meson in_set_dropD)
  ultimately show ?thesis by (simp add: wanted_def)
qed

end
