(* ===== verification/Spool_Recover.thy ===== *)
theory Spool_Recover
  imports Spool_Ops "HOL-Library.Multiset"
begin

section \<open>Opening a spool\<close>

text \<open>
  What \<open>Open\<close> makes of a directory whose segment files are runs of records, each with a torn tail at
  most: it keeps every record that the checkpoint does not cover, cuts the tails, and reports what it
  has to evict.
\<close>

subsection \<open>The checkpoint, read back\<close>

lemma checkpoint_read:
  assumes "c \<le> max64"
  shows "length (checkpoint_bytes c) = 16" "slice 0 4 (checkpoint_bytes c) = checkpointMagic"
    "Checksum (slice 4 12 (checkpoint_bytes c)) = Uint32 (slice 12 16 (checkpoint_bytes c))"
    "unat (Uint64 (slice 4 12 (checkpoint_bytes c))) = c"
proof -
  have s: "slice 4 12 (checkpoint_bytes c) = PutUint64 (word_of_nat c)"
    "slice 12 16 (checkpoint_bytes c) = PutUint32 (Checksum (PutUint64 (word_of_nat c)))"
    by (simp_all add: checkpoint_bytes_def slice_def checkpointMagic_def)
  show "length (checkpoint_bytes c) = 16" "slice 0 4 (checkpoint_bytes c) = checkpointMagic"
    by (simp_all add: checkpoint_bytes_def slice_def checkpointMagic_def)
  show "Checksum (slice 4 12 (checkpoint_bytes c)) = Uint32 (slice 12 16 (checkpoint_bytes c))" by (simp add: s)
  show "unat (Uint64 (slice 4 12 (checkpoint_bytes c))) = c" using assms by (simp add: s unat_of_nat max64_def)
qed

lemma readCheckpoint_result:
  assumes "\<forall>b. map_of (spFiles s) checkpointName = Some b \<longrightarrow> (\<exists>c. b = checkpoint_bytes c \<and> c \<le> A \<and> c \<le> max64)"
    "readCheckpoint w s = (ck, s')"
  shows "s' = ask s \<and> (ck = None \<or> (\<exists>c. ck = Some c \<and> map_of (spFiles s) checkpointName = Some (checkpoint_bytes c) \<and> c \<le> A \<and> c \<le> max64))"
proof (cases "map_of (spFiles s) checkpointName")
  case None
  then show ?thesis using assms(2) by (auto simp: readCheckpoint_def)
next
  case (Some b)
  then obtain c where "b = checkpoint_bytes c" "c \<le> A" "c \<le> max64" using assms(1) by blast
  then show ?thesis using assms(2) Some checkpoint_read [of c] by (auto simp: readCheckpoint_def split: if_splits)
qed

subsection \<open>Scanning one file\<close>

lemma walk_failing:
  assumes "\<And>a q p e. fst (fn a q p e)"
  shows "fst (walk_loop sequenceOf fileSize True fn rest off prevSeq havePrev inDamage st a)"
proof (induction "length rest" arbitrary: rest off prevSeq havePrev inDamage st a rule: less_induct)
  case less
  show ?case
  proof (cases "length rest < recordHeaderSize \<or> plausible fileSize off rest \<and> length (drop recordHeaderSize rest) < header_length rest")
    case True
    then show ?thesis by (subst walk_loop.simps) auto
  next
    case False
    have shorter: "length (drop (Suc n) rest) < length rest" for n using False by (auto simp: recordHeaderSize_def)
    show ?thesis
    proof (cases "plausible fileSize off rest")
      case pl: False
      then show ?thesis using False less [OF shorter [of 0]] by (subst walk_loop.simps) auto
    next
      case pl: True
      note IH = less [OF shorter [of "11 + header_length rest"]]
      show ?thesis
      proof (cases "accepted_sequence sequenceOf prevSeq havePrev rest")
        case None
        then show ?thesis using False pl IH by (subst walk_loop.simps) (auto simp: recordHeaderSize_def Let_def)
      next
        case (Some q)
        obtain c a1 where f: "fn a q (record_payload rest) (off + recordHeaderSize + header_length rest) = (c, a1)" by fastforce
        then have "c" using assms by (metis fst_conv)
        with f show ?thesis using False pl IH Some by (subst walk_loop.simps) (simp add: recordHeaderSize_def Let_def)
      qed
    qed
  qed
qed

text \<open>The segment a run of records is recovered as.\<close>

definition seg_of :: "string \<Rightarrow> (nat \<times> bytes) list \<Rightarrow> segment" where
  "seg_of path rs = \<lparr> sgPath = path, sgBase = fst (hd rs), sgLast = fst (last rs), sgCount = length rs,
     sgSize = length (encode_all rs), sgReported = 0, sgUndecodable = 0 \<rparr>"

definition torn :: "(nat \<times> bytes) list \<Rightarrow> bytes \<Rightarrow> bool" where
  "torn rs t \<longleftrightarrow> damaged (length (encode_all rs @ t)) (length (encode_all rs)) (length t) t"

lemma scan_intact:
  assumes ok: "list_all (record_ok sequenceOf) rs" "rising rs" and t: "torn rs t"
    and sc: "scanSegment sequenceOf outcome statOk truncates (Some (encode_all rs @ t)) path nameBase = Some (sg, st, bs)"
  shows "bs = encode_all rs" "wsSkipped st = 0" "wsCount st = length rs" "rs \<noteq> [] \<Longrightarrow> sg = seg_of path rs"
proof -
  let ?sg0 = "\<lparr> sgPath = path, sgBase = nameBase, sgLast = 0, sgCount = 0, sgSize = 0, sgReported = 0, sgUndecodable = 0 \<rparr>"
  have out: "outcome = ReadOk"
  proof (cases outcome)
    case OpenFails
    then show ?thesis using sc by (simp add: scanSegment_def walk_def)
  next
    case (ReadFails n)
    have "fst (walk sequenceOf outcome (Some (encode_all rs @ t)) 0 scan_step ?sg0)"
      using walk_failing [of scan_step] by (simp add: ReadFails walk_def walkRecords_def scan_step_def)
    then show ?thesis using sc by (auto simp: scanSegment_def split: prod.splits bool.splits)
  qed
  have w: "walk_loop sequenceOf (length (encode_all rs @ t)) False scan_step (encode_all rs @ t) 0 0 False False (zero_stats 0) ?sg0 =
    (False, (zero_stats 0)\<lparr> wsCount := length rs, wsValidEnd := length (encode_all rs) \<rparr>, scan_all rs ?sg0)"
    using scan_recovers [of sequenceOf rs "[]" "encode_all rs @ t" t "zero_stats 0" ?sg0] ok t by (simp add: torn_def)
  have sg: "rs \<noteq> [] \<Longrightarrow> scan_all rs ?sg0 = ?sg0\<lparr> sgBase := fst (hd rs), sgCount := length rs, sgLast := fst (last rs) \<rparr>"
    using scan_all_eq [of rs ?sg0] by simp
  show "bs = encode_all rs" "wsSkipped st = 0" "wsCount st = length rs" "rs \<noteq> [] \<Longrightarrow> sg = seg_of path rs"
    using sc w sg by (auto simp: scanSegment_def walk_def walkRecords_def out zero_stats_def seg_of_def Let_def split: if_splits)
qed

subsection \<open>Scanning the directory\<close>

text \<open>\<open>R\<close> gives the run of records each segment file holds.\<close>

definition run_file :: "event_codec \<Rightarrow> (string \<Rightarrow> (nat \<times> bytes) list) \<Rightarrow> (string \<times> bytes) list \<Rightarrow> string \<Rightarrow> bool" where
  "run_file J R files p \<longleftrightarrow> list_all (rec_ok J) (R p) \<and> rising (R p) \<and> (\<exists>t. torn (R p) t \<and> map_of files p = Some (encode_all (R p) @ t))"

definition scanned :: "(string \<Rightarrow> (nat \<times> bytes) list) \<Rightarrow> (string \<times> bytes) list \<Rightarrow> (string \<times> bytes) list \<Rightarrow> string \<Rightarrow> bool" where
  "scanned R files files' p \<longleftrightarrow> map_of files' p = map_of files p \<or>
     parseSegmentName p \<noteq> None \<and> (map_of files' p = Some (encode_all (R p)) \<or> R p = [] \<and> map_of files' p = None)"

lemma scanned_trans: "scanned R a b p \<Longrightarrow> scanned R b c p \<Longrightarrow> scanned R a c p"
  by (auto simp: scanned_def)

definition untouched :: "spool \<Rightarrow> spool \<Rightarrow> bool" where
  "untouched s s' \<longleftrightarrow> spOpts s' = spOpts s \<and> spW s' = spW s \<and> spLastSeq s' = spLastSeq s \<and> spAckedThrough s' = spAckedThrough s \<and>
     spFirstPending s' = spFirstPending s \<and> spAckedInFirst s' = spAckedInFirst s \<and> spAckOffset s' = spAckOffset s \<and>
     spClosed s' = spClosed s \<and> same_loss s s'"

lemma untouched_trans: "untouched a b \<Longrightarrow> untouched b c \<Longrightarrow> untouched a c"
  by (simp add: untouched_def same_loss_def)

definition kept_names :: "(string \<Rightarrow> (nat \<times> bytes) list) \<Rightarrow> string list \<Rightarrow> string list" where
  "kept_names R names = filter (\<lambda>p. parseSegmentName p \<noteq> None \<and> R p \<noteq> []) names"

lemma recover_loop_spec:
  assumes "\<forall>p \<in> set names. parseSegmentName p \<noteq> None \<longrightarrow> run_file J R (spFiles s) p" "distinct names" "recover_loop J w names s = (r, s')"
  shows "untouched s s' \<and> (\<forall>p. scanned R (spFiles s) (spFiles s') p) \<and> (\<forall>p. p \<notin> set names \<longrightarrow> map_of (spFiles s') p = map_of (spFiles s) p) \<and>
    (r = Inr () \<longrightarrow> spSegs s' = spSegs s @ map (\<lambda>p. seg_of p (R p)) (kept_names R names) \<and>
       (\<forall>p \<in> set names. parseSegmentName p \<noteq> None \<longrightarrow> map_of (spFiles s') p = (if R p = [] then None else Some (encode_all (R p)))))"
  using assms
proof (induction names arbitrary: s)
  case Nil
  then show ?case by (auto simp: untouched_def scanned_def kept_names_def)
next
  case (Cons name names)
  show ?case
  proof (cases "parseSegmentName name")
    case None
    then have "recover_loop J w names s = (r, s')" using Cons(4) by simp
    from Cons(1) [OF _ _ this] Cons(2,3) None show ?thesis by (auto simp: kept_names_def)
  next
    case (Some base)
    from Cons(2) Some obtain t where rf: "list_all (rec_ok J) (R name)" "rising (R name)" "torn (R name) t"
      "map_of (spFiles s) name = Some (encode_all (R name) @ t)" by (auto simp: run_file_def)
    let ?sc = "scanSegment (ecSequence J) (dwRead w (spTick s)) (dwOk w (spTick s)) (dwOk w (Suc (spTick s))) (map_of (spFiles s) name) name base"
    show ?thesis
    proof (cases ?sc)
      case None
      then have "s' = ask (ask s)" "r \<noteq> Inr ()" using Cons(4) Some by auto
      then show ?thesis by (auto simp: untouched_def scanned_def ask_def same_loss_def)
    next
      case sc: (Some x)
      obtain sg st bs where x: "x = (sg, st, bs)" by (cases x)
      note si = scan_intact [OF rec_ok_all [OF rf(1)] rf(2,3) sc [unfolded x rf(4)]]
      define s1 where "s1 = put_file name (encode_all (R name)) (ask (ask s))"
      have u1: "untouched s s1" "map_of (spFiles s1) p = (if p = name then Some (encode_all (R name)) else map_of (spFiles s) p)"
          "spSegs s1 = spSegs s" for p
        by (simp_all add: untouched_def s1_def put_file_def ask_def update_conv' same_loss_def)
      have go: ?thesis if u: "untouched s s3" and m: "\<And>p. map_of (spFiles s3) p =
            (if p = name then if R name = [] then None else Some (encode_all (R name)) else map_of (spFiles s) p)"
          and sg: "spSegs s3 = spSegs s @ (if R name = [] then [] else [seg_of name (R name)])" and rec: "recover_loop J w names s3 = (r, s')" for s3
      proof -
        have "\<forall>p \<in> set names. parseSegmentName p \<noteq> None \<longrightarrow> run_file J R (spFiles s3) p"
          using Cons(2,3) m by (auto simp: run_file_def)
        note IH = Cons(1) [OF this _ rec]
        have "scanned R (spFiles s) (spFiles s3) p" for p using m Some by (auto simp: scanned_def)
        then have "\<forall>p. scanned R (spFiles s) (spFiles s') p" using IH Cons(3) scanned_trans by (metis distinct.simps(2))
        moreover have "untouched s s'" using IH Cons(3) untouched_trans [OF u] by simp
        ultimately show ?thesis using IH Cons(3) m sg Some by (auto simp: kept_names_def)
      qed
      show ?thesis
      proof (cases "R name = []")
        case False
        then have "recover_loop J w names (s1\<lparr> spSegs := spSegs s1 @ [seg_of name (R name)] \<rparr>) = (r, s')"
          using Cons(4) Some sc x si by (simp add: s1_def Let_def)
        then show ?thesis using u1 False by (intro go) (auto simp: untouched_def same_loss_def)
      next
        case True
        then have "and_then (syscall w RemoveSegment s1) (\<lambda>_ s3. recover_loop J w names (s3\<lparr> spFiles := AList.delete name (spFiles s3) \<rparr>)) = (r, s')"
          using Cons(4) Some sc x si by (simp add: s1_def Let_def)
        then show ?thesis
        proof (cases rule: and_then_cases)
          case (err e)
          then have "s' = ask s1" by (simp add: syscall_def split: if_splits)
          then have "untouched s s'" "map_of (spFiles s') p = map_of (spFiles s1) p" for p
            using u1(1) by (auto simp: ask_def untouched_def same_loss_def)
          then show ?thesis using err(2) u1(2) Some by (auto simp: scanned_def)
        next
          case (ok u s3)
          then have "s3 = ask s1" by (simp add: syscall_def split: if_splits)
          then show ?thesis using ok(2) u1 True
            by (intro go) (auto simp: ask_def untouched_def same_loss_def delete_conv')
        qed
      qed
    qed
  qed
qed

subsection \<open>The directory between two runs of the agent\<close>

definition ckpt_file :: "nat \<Rightarrow> (string \<times> bytes) list \<Rightarrow> bool" where
  "ckpt_file A fs \<longleftrightarrow> (\<forall>b. map_of fs checkpointName = Some b \<longrightarrow> (\<exists>c. b = checkpoint_bytes c \<and> c \<le> A \<and> c \<le> max64))"

definition disk_inv :: "event_codec \<Rightarrow> nat \<Rightarrow> (string \<times> (nat \<times> bytes) list) list \<Rightarrow> (string \<times> bytes) list \<Rightarrow> bool" where
  "disk_inv J A prs fs \<longleftrightarrow> distinct (map fst prs) \<and> {p. map_of fs p \<noteq> None \<and> parseSegmentName p \<noteq> None} = fst ` set prs \<and>
     (\<forall>x \<in> set prs. list_all (rec_ok J) (snd x) \<and> (\<exists>t. torn (snd x) t \<and> map_of fs (fst x) = Some (encode_all (snd x) @ t))) \<and>
     rising (concat (map snd prs)) \<and> ckpt_file A fs"

lemma torn_none [simp]: "torn rs []"
  by (simp add: torn_def damaged_def)

lemma disk_of_core:
  assumes "core_inv b J A rss s"
  shows "disk_inv J A (zip (map sgPath (spSegs s)) rss) (spFiles s)" "map snd (zip (map sgPath (spSegs s)) rss) = rss"
proof -
  note l = seg_runs [OF assms]
  have n: "length (map sgPath (spSegs s)) = length rss" using list_all2_lengthD [OF l] by simp
  have "list_all (rec_ok J) (snd x) \<and> map_of (spFiles s) (fst x) = Some (encode_all (snd x) @ [])" if x: "x \<in> set (zip (map sgPath (spSegs s)) rss)" for x
  proof -
    obtain i where "i < length rss" "x = (sgPath (spSegs s ! i), rss ! i)" using x n by (auto simp: set_zip)
    moreover have "seg_ok J (spFiles s) (spSegs s ! i) (rss ! i)" using l calculation(1) n by (simp add: list_all2_conv_all_nth)
    ultimately show ?thesis by (simp add: seg_ok_def)
  qed
  moreover have "fst ` set (zip (map sgPath (spSegs s)) rss) = set (map sgPath (spSegs s))" using n by (metis map_fst_zip set_map)
  ultimately show "disk_inv J A (zip (map sgPath (spSegs s)) rss) (spFiles s)"
    using assms n torn_none unfolding disk_inv_def core_inv_def segs_inv_def ckpt_inv_def ckpt_file_def
    by (simp add: map_fst_zip map_snd_zip) blast
  show "map snd (zip (map sgPath (spSegs s)) rss) = rss" using n by (simp add: map_snd_zip)
qed

definition run_of :: "(string \<times> (nat \<times> bytes) list) list \<Rightarrow> string \<Rightarrow> (nat \<times> bytes) list" where
  "run_of prs p = (case map_of prs p of Some rs \<Rightarrow> rs | None \<Rightarrow> [])"

lemma run_of_mem: "distinct (map fst prs) \<Longrightarrow> x \<in> set prs \<Longrightarrow> run_of prs (fst x) = snd x"
  by (cases x) (simp add: run_of_def)

lemma concat_nonempty: "concat (map snd (filter (\<lambda>x. snd x \<noteq> []) prs)) = concat (map snd prs)"
  by (induction prs) auto

lemma concat_filter: "\<forall>x \<in> set prs. \<not> P x \<longrightarrow> snd x = [] \<Longrightarrow> concat (map snd (filter P prs)) = concat (map snd prs)"
  by (induction prs) auto

lemma disk_scanned:
  assumes d: "disk_inv J A prs fs" and sc: "\<forall>p. scanned (run_of prs) fs fs' p" and out: "\<forall>p. map_of fs p = None \<longrightarrow> map_of fs' p = None"
  shows "\<exists>prs'. disk_inv J A prs' fs' \<and> concat (map snd prs') = concat (map snd prs)"
proof -
  let ?prs = "filter (\<lambda>x. map_of fs' (fst x) \<noteq> None) prs"
  note di = d [unfolded disk_inv_def]
  have dist: "distinct (map fst prs)" using di by simp
  have runs: "list_all (rec_ok J) (snd x) \<and> (\<exists>t. torn (snd x) t \<and> map_of fs (fst x) = Some (encode_all (snd x) @ t))" if "x \<in> set prs" for x
    using di that by blast
  have names: "{p. map_of fs p \<noteq> None \<and> parseSegmentName p \<noteq> None} = fst ` set prs" using di by blast
  have gone: "snd x = []" if "x \<in> set prs" "map_of fs' (fst x) = None" for x
    using sc [rule_format, of "fst x"] runs [OF that(1)] that run_of_mem [OF dist that(1)] by (auto simp: scanned_def)
  have eq: "concat (map snd ?prs) = concat (map snd prs)" using gone by (intro concat_filter) auto
  have "disk_inv J A ?prs fs'"
    unfolding disk_inv_def
  proof (intro conjI ballI)
    show "distinct (map fst ?prs)" using dist by (simp add: distinct_map_filter)
    have "p \<in> fst ` set ?prs" if "map_of fs' p \<noteq> None" "parseSegmentName p \<noteq> None" for p
    proof -
      have "map_of fs p \<noteq> None" using out [rule_format, of p] that(1) by auto
      then have "p \<in> {p. map_of fs p \<noteq> None \<and> parseSegmentName p \<noteq> None}" using that(2) by simp
      then have "p \<in> fst ` set prs" unfolding names .
      then show ?thesis using that(1) by auto
    qed
    moreover have "parseSegmentName p \<noteq> None \<and> map_of fs' p \<noteq> None" if "p \<in> fst ` set ?prs" for p
    proof -
      from that obtain x where x: "x \<in> set prs" "map_of fs' (fst x) \<noteq> None" "p = fst x" by auto
      then have "p \<in> {p. map_of fs p \<noteq> None \<and> parseSegmentName p \<noteq> None}" unfolding names by simp
      then show ?thesis using x(2,3) by simp
    qed
    ultimately show "{p. map_of fs' p \<noteq> None \<and> parseSegmentName p \<noteq> None} = fst ` set ?prs" by blast
    show "rising (concat (map snd ?prs))" using eq di by simp
    show "list_all (rec_ok J) (snd x)" if "x \<in> set ?prs" for x using that runs by simp
    show "\<exists>t. torn (snd x) t \<and> map_of fs' (fst x) = Some (encode_all (snd x) @ t)" if "x \<in> set ?prs" for x
    proof -
      have x: "x \<in> set prs" "map_of fs' (fst x) \<noteq> None" using that by auto
      from sc [rule_format, of "fst x"] consider "map_of fs' (fst x) = map_of fs (fst x)" | "map_of fs' (fst x) = Some (encode_all (snd x) @ [])"
        using x(2) run_of_mem [OF dist x(1)] by (auto simp: scanned_def)
      then show ?thesis using runs [OF x(1)] torn_none by cases metis+
    qed
    show "ckpt_file A fs'" using di sc [rule_format, of checkpointName] segment_path_names(1) by (simp add: scanned_def ckpt_file_def)
  qed
  with eq show ?thesis by blast
qed

subsection \<open>The recovered state\<close>

lemma heads_rising:
  "rising (concat (map snd xs)) \<Longrightarrow> \<forall>x \<in> set xs. snd x \<noteq> [] \<Longrightarrow> sorted_wrt (<) (map (\<lambda>x. fst (hd (snd x))) xs)"
proof (induction xs)
  case (Cons x xs)
  have "fst (hd (snd x)) < fst (hd (snd y))" if y: "y \<in> set xs" for y
  proof -
    have "hd (snd y) \<in> set (concat (map snd xs))" "hd (snd x) \<in> set (snd x)" using Cons(3) y hd_in_set by fastforce+
    moreover have "\<forall>a \<in> set (snd x). \<forall>b \<in> set (concat (map snd xs)). fst a < fst b"
      using Cons(2) unfolding list.map concat.simps rising_append by blast
    ultimately show ?thesis by blast
  qed
  then show ?case using Cons by (auto simp: rising_append)
qed simp

lemma sort_recovered:
  assumes d: "disk_inv J A prs fs" and names: "distinct names" "set names = {p. map_of fs p \<noteq> None}"
  shows "sort_segs (map (\<lambda>p. seg_of p (run_of prs p)) (kept_names (run_of prs) names)) =
    map (\<lambda>x. seg_of (fst x) (snd x)) (filter (\<lambda>x. snd x \<noteq> []) prs)"
proof -
  let ?n = "filter (\<lambda>x. snd x \<noteq> []) prs" and ?R = "run_of prs"
  have dist: "distinct (map fst prs)" and fs: "{p. map_of fs p \<noteq> None \<and> parseSegmentName p \<noteq> None} = fst ` set prs"
    and up: "rising (concat (map snd prs))" using d by (simp_all add: disk_inv_def)
  have "set (kept_names ?R names) = {p \<in> fst ` set prs. ?R p \<noteq> []}" using fs names(2) by (auto simp: kept_names_def)
  also have "\<dots> = set (map fst ?n)" using run_of_mem [OF dist] by auto
  finally have "set (kept_names ?R names) = set (map fst ?n)" .
  moreover have "distinct (kept_names ?R names)" using names(1) by (simp add: kept_names_def)
  moreover have "distinct (map fst ?n)" using dist by (rule distinct_map_filter)
  ultimately have mn: "mset (kept_names ?R names) = mset (map fst ?n)" by (simp only: set_eq_iff_mset_eq_distinct)
  have "mset (map (\<lambda>p. seg_of p (?R p)) (kept_names ?R names)) = mset (map (\<lambda>p. seg_of p (?R p)) (map fst ?n))"
    using arg_cong [OF mn, of "image_mset (\<lambda>p. seg_of p (?R p))"] by (simp only: mset_map)
  moreover have eq: "map (\<lambda>p. seg_of p (?R p)) (map fst ?n) = map (\<lambda>x. seg_of (fst x) (snd x)) ?n" using run_of_mem [OF dist] by simp
  ultimately have m: "mset (map (\<lambda>p. seg_of p (?R p)) (kept_names ?R names)) = mset (map (\<lambda>x. seg_of (fst x) (snd x)) ?n)" by (simp only:)
  have h: "sorted_wrt (<) (map (\<lambda>x. fst (hd (snd x))) ?n)" by (rule heads_rising) (use up in \<open>simp_all add: concat_nonempty\<close>)
  have b: "map sgBase (map (\<lambda>x. seg_of (fst x) (snd x)) ?n) = map (\<lambda>x. fst (hd (snd x))) ?n" by (simp add: seg_of_def)
  have "sorted (map sgBase (map (\<lambda>x. seg_of (fst x) (snd x)) ?n))" using h unfolding b by (rule strict_sorted_imp_sorted)
  moreover have "inj_on sgBase (set (map (\<lambda>p. seg_of p (?R p)) (kept_names ?R names)))"
  proof -
    have "distinct (map sgBase (map (\<lambda>x. seg_of (fst x) (snd x)) ?n))" using h unfolding b by (simp add: strict_sorted_iff)
    then show ?thesis using mset_eq_setD [OF m] by (simp only: distinct_map)
  qed
  ultimately show ?thesis unfolding sort_segs_def by (intro sort_key_inj_key_eq [OF m])
qed

lemma seg_of_ok: "map_of fs p = Some (encode_all rs) \<Longrightarrow> list_all (rec_ok J) rs \<Longrightarrow> rs \<noteq> [] \<Longrightarrow> seg_ok J fs (seg_of p rs) rs"
  by (auto simp: seg_ok_def seg_of_def rec_ok_def record_ok_def list_all_iff)

lemma bases_of_heads:
  "rising (concat (map snd xs)) \<Longrightarrow> \<forall>x \<in> set xs. snd x \<noteq> [] \<Longrightarrow> bases_ok (map (\<lambda>x. seg_of (fst x) (snd x)) xs) (map snd xs)"
proof (induction xs)
  case (Cons x xs)
  then obtain h t where ht: "snd x = h # t" by (cases "snd x") auto
  have "\<forall>y \<in> set (t @ concat (map snd xs)). fst h \<le> fst y" using Cons(2) by (auto simp: ht rising_append intro: less_imp_le)
  then show ?case using Cons by (auto simp: ht seg_of_def rising_append)
qed simp

abbreviation nonempty :: "(string \<times> (nat \<times> bytes) list) list \<Rightarrow> (string \<times> (nat \<times> bytes) list) list" where
  "nonempty prs \<equiv> filter (\<lambda>x. snd x \<noteq> []) prs"

definition fresh :: "spool \<Rightarrow> bool" where
  "fresh s \<longleftrightarrow> spSegs s = [] \<and> spW s = None \<and> spLastSeq s = 0 \<and> spAckedThrough s = 0 \<and> spAckedInFirst s = 0 \<and> spAckOffset s = 0"

lemma concat_last: "xs \<noteq> [] \<Longrightarrow> concat (map snd xs) = concat (map snd (butlast xs)) @ snd (last xs)"
  by (cases xs rule: rev_cases) simp_all

lemma recovered_core:
  assumes d: "disk_inv J A prs fs"
    and seg: "\<forall>p. map_of fs p \<noteq> None \<longrightarrow> parseSegmentName p \<noteq> None \<longrightarrow>
      map_of (spFiles s) p = (if run_of prs p = [] then None else Some (encode_all (run_of prs p)))"
    and other: "\<forall>p. map_of fs p = None \<or> parseSegmentName p = None \<longrightarrow> map_of (spFiles s) p = map_of fs p"
    and sgs: "spSegs s = map (\<lambda>x. seg_of (fst x) (snd x)) (nonempty prs)"
    and w: "spW s = None" "spAckedInFirst s = 0" "spAckOffset s = 0"
    and acked: "spAckedThrough s = 0 \<or> map_of fs checkpointName = Some (checkpoint_bytes (spAckedThrough s)) \<and> spAckedThrough s \<le> A"
    and last: "spLastSeq s = max (if nonempty prs = [] then 0 else sgLast (last (spSegs s))) (spAckedThrough s)" "spAckedThrough s \<le> max64"
  shows "core_inv False J A (map snd (nonempty prs)) s"
proof -
  let ?n = "nonempty prs"
  have dist: "distinct (map fst prs)" and fs: "{p. map_of fs p \<noteq> None \<and> parseSegmentName p \<noteq> None} = fst ` set prs"
    and up: "rising (concat (map snd prs))" and ck: "ckpt_file A fs" and rec: "\<And>x. x \<in> set prs \<Longrightarrow> list_all (rec_ok J) (snd x)"
    using d by (auto simp: disk_inv_def)
  have upn: "rising (concat (map snd ?n))" using up by (simp add: concat_nonempty)
  have fl: "map_of (spFiles s) (fst x) = Some (encode_all (snd x))" "parseSegmentName (fst x) \<noteq> None" if "x \<in> set ?n" for x
  proof -
    have "fst x \<in> {p. map_of fs p \<noteq> None \<and> parseSegmentName p \<noteq> None}" unfolding fs using that by simp
    then show "map_of (spFiles s) (fst x) = Some (encode_all (snd x))" "parseSegmentName (fst x) \<noteq> None"
      using seg run_of_mem [OF dist, of x] that by auto
  qed
  have ok: "list_all2 (seg_ok J (spFiles s)) (spSegs s) (map snd ?n)"
    unfolding sgs list_all2_map1 list_all2_map2 list_all2_same using seg_of_ok fl rec by auto
  have le: "fst x \<le> spLastSeq s" "fst x \<le> max64" if x: "x \<in> set (concat (map snd ?n))" for x
  proof -
    obtain y where y: "y \<in> set ?n" "x \<in> set (snd y)" using x by auto
    have ne: "concat (map snd ?n) \<noteq> []" "?n \<noteq> []" using x y(1) by (metis list.set(1) empty_iff)+
    then have "last ?n \<in> set ?n" by (intro last_in_set)
    then have ne3: "snd (last ?n) \<noteq> []" by simp
    have "last (concat (map snd ?n)) = last (snd (last ?n))"
    proof -
      show ?thesis unfolding concat_last [OF ne(2)] using ne3 by simp
    qed
    moreover have "sgLast (last (spSegs s)) = fst (last (snd (last ?n)))" using ne(2) by (simp add: sgs last_map seg_of_def)
    ultimately show "fst x \<le> spLastSeq s" using rising_last [OF upn x] last(1) ne(2) by simp
    have "y \<in> set prs" using y(1) by simp
    from rec [OF this] show "fst x \<le> max64" using y(2) by (simp add: list_all_iff rec_ok_def)
  qed
  have "spLastSeq s \<le> max64"
  proof (cases "?n = []")
    case False
    have "last ?n \<in> set ?n" using False by (rule last_in_set)
    then have "snd (last ?n) \<noteq> []" by simp
    then have "last (snd (last ?n)) \<in> set (concat (map snd ?n))" unfolding concat_last [OF False] by simp
    then have "sgLast (last (spSegs s)) \<le> max64" using le(2) False by (simp add: sgs last_map seg_of_def)
    then show ?thesis using last by simp
  qed (use last in simp)
  moreover have "{p. map_of (spFiles s) p \<noteq> None \<and> parseSegmentName p \<noteq> None} = set (map sgPath (spSegs s))"
  proof -
    have "p \<in> fst ` set ?n" if "map_of (spFiles s) p \<noteq> None" "parseSegmentName p \<noteq> None" for p
    proof -
      have m: "map_of fs p \<noteq> None" using other that(1) by metis
      then have ne: "run_of prs p \<noteq> []" using seg that by metis
      have "p \<in> {p. map_of fs p \<noteq> None \<and> parseSegmentName p \<noteq> None}" using m that(2) by simp
      then have "p \<in> fst ` set prs" unfolding fs .
      then show ?thesis using ne run_of_mem [OF dist] by auto
    qed
    then have "{p. map_of (spFiles s) p \<noteq> None \<and> parseSegmentName p \<noteq> None} = fst ` set ?n" using fl by fastforce
    then show ?thesis by (simp add: sgs seg_of_def image_image)
  qed
  moreover have "distinct (map sgPath (spSegs s))" using distinct_map_filter [OF dist] by (simp add: sgs seg_of_def comp_def)
  moreover have "bases_ok (spSegs s) (map snd ?n)" unfolding sgs by (rule bases_of_heads [OF upn]) simp
  ultimately have "segs_inv J (map snd ?n) s" using ok upn le(1) last(1) w(1) unfolding segs_inv_def by simp
  moreover have "ckpt_inv A s"
    using ck acked other [rule_format, of checkpointName] segment_path_names(1) last(2) unfolding ckpt_file_def ckpt_inv_def by auto
  moreover have "cursor_inv (map snd ?n) s" using w by (simp add: cursor_inv_def)
  ultimately show ?thesis by (simp add: core_inv_def)
qed

text \<open>From the scanned state on: drop what is acknowledged, place the cursor, open the last file, evict.\<close>

definition open_tail :: "event_codec \<Rightarrow> disk_world \<Rightarrow> spool \<Rightarrow> unit spool_result" where
  "open_tail J w s =
     and_then (dropAckedSegments w s) (\<lambda>_ s6.
     and_then (advanceAckCursor J w s6) (\<lambda>_ s7.
     and_then (open_last w (recount s7)) (\<lambda>_ s8.
     and_then (enforceMaxSize w s8) (\<lambda>_ s9. (Inr (), publishMetrics s9)))))"

definition tail_end :: "event_codec \<Rightarrow> nat \<Rightarrow> (nat \<times> bytes) list list \<Rightarrow> spool \<Rightarrow> (nat \<times> bytes) list list \<Rightarrow> (spool_error, unit) result \<Rightarrow> spool \<Rightarrow> bool" where
  "tail_end J A rss s rss' r s' \<longleftrightarrow> (\<exists>b. core_inv b J A rss' s') \<and> kept s s' \<and> set (spSegs s') \<subseteq> set (spSegs s) \<and>
     (\<exists>j. rss' = drop j rss \<and> (\<forall>x \<in> set (concat (take j rss)). fst x \<le> spAckedThrough s \<or> covers s' (fst x))) \<and>
     (r = Inr () \<longrightarrow> spool_inv J A rss' s')"

lemma concat_take_add: "set (concat (take (i + j) xs)) = set (concat (take i xs)) \<union> set (concat (take j (drop i xs)))"
  by (simp add: take_add)

lemma open_last_inv:
  assumes inv: "spool_inv J A rss s" and ol: "open_last w s = (r, s')"
  shows "spool_inv J A rss s' \<and> kept s s' \<and> spSegs s' = spSegs s \<and> same_loss s s'"
proof (cases "spSegs s = []")
  case True
  then show ?thesis using ol inv by (simp add: open_last_def kept_def)
next
  case False
  then have "and_then (syscall w OpenSegment s) (\<lambda>_ s1. (Inr (), s1\<lparr> spW := Some (sgPath (last (spSegs s1))) \<rparr>)) = (r, s')" using ol by (simp add: open_last_def)
  then show ?thesis
  proof (cases rule: and_then_cases)
    case (err e)
    from same_result [OF core_syscall [OF err(1)] inv] show ?thesis by simp
  next
    case (ok u s1)
    note c = same_result [OF core_syscall [OF ok(1)] inv]
    have s': "s' = s1\<lparr> spW := Some (sgPath (last (spSegs s1))) \<rparr>" using ok(2) by simp
    have "spSegs s1 \<noteq> []" "spool_inv J A rss s1" using c False by simp_all
    then have "spool_inv J A rss s'" unfolding s' by (simp add: spool_invs)
    then show ?thesis using c by (simp add: s' kept_def same_loss_def)
  qed
qed

lemma open_tail_inv:
  assumes inv: "core_inv False J A rss s" and ot: "open_tail J w s = (r, s')"
  shows "\<exists>rss'. tail_end J A rss s rss' r s'"
  using ot unfolding open_tail_def
proof (cases rule: and_then_cases)
  case (err e)
  obtain j where j: "core_inv False J A (drop j rss) s'" "\<forall>x \<in> set (concat (take j rss)). fst x \<le> spAckedThrough s" "kept s s'"
    "set (spSegs s') \<subseteq> set (spSegs s)" by (rule dropAckedSegments_inv [OF inv err(1)]) blast
  then have "tail_end J A rss s (drop j rss) r s'" using err(2) unfolding tail_end_def by auto
  then show ?thesis by blast
next
  case (ok u s6)
  obtain j where j: "core_inv False J A (drop j rss) s6" "\<forall>x \<in> set (concat (take j rss)). fst x \<le> spAckedThrough s" "kept s s6"
    "set (spSegs s6) \<subseteq> set (spSegs s)" by (rule dropAckedSegments_inv [OF inv ok(1)]) blast
  from ok(2) show ?thesis
  proof (cases rule: and_then_cases)
    case (err e)
    note a = advanceAckCursor_inv [OF j(1) err(1)]
    have "tail_end J A rss s (drop j rss) r s'" using err(2) a(1,2,4) j kept_trans [OF j(3) a(2)] unfolding tail_end_def by auto
    then show ?thesis by blast
  next
    case (ok v s7)
    note a = advanceAckCursor_inv [OF j(1) ok(1)]
    have i7: "spool_inv J A (drop j rss) (recount s7)" using a(7) by (intro recount_inv) simp
    have k7: "kept s (recount s7)" "set (spSegs (recount s7)) \<subseteq> set (spSegs s)" using kept_trans [OF j(3) a(2)] a(4) j(4) by (auto simp: kept_def)
    from ok(2) show ?thesis
    proof (cases rule: and_then_cases)
      case (err e)
      note o = open_last_inv [OF i7 err(1)]
      have "tail_end J A rss s (drop j rss) r s'"
        using err(2) o j(2) k7 kept_trans [OF k7(1)] spool_core [of J A "drop j rss" s'] unfolding tail_end_def by auto
      then show ?thesis by blast
    next
      case (ok v s8)
      note o = open_last_inv [OF i7 ok(1)]
      obtain y s9 where y: "enforceMaxSize w s8 = (y, s9)" by fastforce
      have i8: "spool_inv J A (drop j rss) s8" and k8: "kept s s8" "set (spSegs s8) \<subseteq> set (spSegs s)" using o k7 kept_trans by auto
      obtain i where i: "spool_inv J A (drop i (drop j rss)) s9" "kept s8 s9" "\<forall>x \<in> set (concat (take i (drop j rss))). fst x \<le> spAckedThrough s8 \<or> covers s9 (fst x)"
        "set (spSegs s9) \<subseteq> set (spSegs s8)" by (rule enforceMaxSize_inv [OF i8 y]) blast
      have "s' = s9 \<and> r = y \<and> y \<noteq> Inr () \<or> s' = publishMetrics s9 \<and> r = Inr ()" using ok(2) y by (cases y) (auto simp: and_then_def)
      then have f: "spool_inv J A (drop (j + i) rss) s'" "kept s9 s'" "spSegs s' = spSegs s9" "same_loss s9 s'"
        using i(1) same_result [of s9 "publishMetrics s9" J A "drop (j + i) rss"] by (auto simp: add.commute kept_def)
      have "\<forall>x \<in> set (concat (take (j + i) rss)). fst x \<le> spAckedThrough s \<or> covers s' (fst x)"
        using j(2) i(3) k8(1) covers_same [OF f(4)] unfolding concat_take_add by (auto simp: kept_def)
      then have "tail_end J A rss s (drop (j + i) rss) r s'"
        using f i k8 kept_trans [OF kept_trans [OF k8(1) i(2)] f(2)] spool_core [OF f(1)] unfolding tail_end_def by (intro conjI) auto
      then show ?thesis by blast
    qed
  qed
qed

abbreviation recs :: "(string \<times> (nat \<times> bytes) list) list \<Rightarrow> (nat \<times> bytes) list" where
  "recs prs \<equiv> concat (map snd prs)"

text \<open>How an attempt to open ends: what is on the disk then, and when it succeeded the spool.\<close>

definition open_end :: "event_codec \<Rightarrow> nat \<Rightarrow> (string \<times> (nat \<times> bytes) list) list \<Rightarrow> (string \<times> (nat \<times> bytes) list) list \<Rightarrow>
    (spool_error, unit) result \<Rightarrow> spool \<Rightarrow> bool" where
  "open_end J A prs prs' r s' \<longleftrightarrow> disk_inv J A prs' (spFiles s') \<and> set (recs prs') \<subseteq> set (recs prs) \<and>
     (\<forall>x \<in> set (recs prs). x \<in> set (recs prs') \<or> fst x \<le> A \<or> covers s' (fst x)) \<and>
     (r = Inr () \<longrightarrow> \<not> spClosed s' \<and> (\<forall>g \<in> set (spSegs s'). \<exists>x \<in> set (recs prs). sgBase g = fst x) \<and>
        (\<exists>rss. spool_inv J A rss s' \<and> concat rss = recs prs' \<and> (\<forall>x \<in> set (recs prs). fst x \<le> spLastSeq s') \<and> spAckedThrough s' \<le> A \<and>
          (spLastSeq s' = 0 \<or> spLastSeq s' \<in> fst ` set (recs prs) \<or> spLastSeq s' \<le> A)))"

lemma seg_of_base: "x \<in> set (nonempty prs) \<Longrightarrow> \<exists>y \<in> set (recs prs). sgBase (seg_of (fst x) (snd x)) = fst y"
proof -
  assume "x \<in> set (nonempty prs)"
  then have "x \<in> set prs" "hd (snd x) \<in> set (snd x)" by auto
  then have "hd (snd x) \<in> set (recs prs)" by auto
  then show ?thesis by (auto simp: seg_of_def)
qed

lemma rising_run: "rising (concat xss) \<Longrightarrow> xs \<in> set xss \<Longrightarrow> rising xs"
  by (induction xss) (auto simp: rising_append)

lemma run_files:
  assumes d: "disk_inv J A prs fs" and p: "map_of fs p \<noteq> None" "parseSegmentName p \<noteq> None"
  shows "run_file J (run_of prs) fs p"
proof -
  have dist: "distinct (map fst prs)" and up: "rising (recs prs)" using d by (simp_all add: disk_inv_def)
  have "p \<in> {p. map_of fs p \<noteq> None \<and> parseSegmentName p \<noteq> None}" using p by simp
  then have "p \<in> fst ` set prs" using d unfolding disk_inv_def by metis
  then obtain x where x: "x \<in> set prs" "p = fst x" by auto
  have "rising (snd x)" using rising_run [OF up] x(1) by simp
  moreover have "list_all (rec_ok J) (snd x) \<and> (\<exists>t. torn (snd x) t \<and> map_of fs (fst x) = Some (encode_all (snd x) @ t))"
    using d x(1) unfolding disk_inv_def by blast
  ultimately show ?thesis using run_of_mem [OF dist x(1)] x(2) by (simp add: run_file_def)
qed

text \<open>The state after the scan.\<close>

definition after_scan :: "disk_world \<Rightarrow> spool \<Rightarrow> spool" where
  "after_scan w s2 =
     (let s3 = s2\<lparr> spSegs := sort_segs (spSegs s2) \<rparr>;
          s4 = (if spSegs s3 = [] then s3 else s3\<lparr> spLastSeq := sgLast (last (spSegs s3)) \<rparr>);
          (ck, s5) = readCheckpoint w s4
      in use_checkpoint ck s5)"

lemma recover_unfold:
  "recover J w s = and_then (syscall w ReadDirectory s) (\<lambda>_ s1.
     and_then (recover_loop J w (sort (remdups (map fst (spFiles s1)))) s1) (\<lambda>_ s2. open_tail J w (after_scan w s2)))"
  unfolding recover_def after_scan_def open_tail_def Let_def by (intro arg_cong2 [where f = and_then] refl ext) (simp split: prod.splits)

lemma after_scan_core:
  assumes d: "disk_inv J A prs fs" and f1: "spW s2 = None" "spLastSeq s2 = 0" "spAckedThrough s2 = 0" "spAckedInFirst s2 = 0" "spAckOffset s2 = 0"
    and seg: "\<forall>p. map_of fs p \<noteq> None \<longrightarrow> parseSegmentName p \<noteq> None \<longrightarrow>
      map_of (spFiles s2) p = (if run_of prs p = [] then None else Some (encode_all (run_of prs p)))"
    and other: "\<forall>p. map_of fs p = None \<or> parseSegmentName p = None \<longrightarrow> map_of (spFiles s2) p = map_of fs p"
    and sgs: "sort_segs (spSegs s2) = map (\<lambda>x. seg_of (fst x) (snd x)) (nonempty prs)"
  shows "core_inv False J A (map snd (nonempty prs)) (after_scan w s2)" "spSegs (after_scan w s2) = sort_segs (spSegs s2)"
    "spClosed (after_scan w s2) = spClosed s2" "spAckedThrough (after_scan w s2) \<le> A"
    "spLastSeq (after_scan w s2) = max (if nonempty prs = [] then 0 else sgLast (last (sort_segs (spSegs s2)))) (spAckedThrough (after_scan w s2))"
proof -
  define s3 where "s3 = s2\<lparr> spSegs := sort_segs (spSegs s2) \<rparr>"
  define s4 where "s4 = (if spSegs s3 = [] then s3 else s3\<lparr> spLastSeq := sgLast (last (spSegs s3)) \<rparr>)"
  obtain ck s5 where rc: "readCheckpoint w s4 = (ck, s5)" by fastforce
  have a: "after_scan w s2 = use_checkpoint ck s5" using rc by (simp add: after_scan_def Let_def flip: s3_def s4_def)
  have fl4: "spFiles s4 = spFiles s2" by (simp add: s4_def s3_def)
  have mc: "map_of (spFiles s4) checkpointName = map_of fs checkpointName" using other segment_path_names(1) fl4 by simp
  have "ckpt_file A fs" using d by (simp add: disk_inv_def)
  then have "\<forall>b. map_of (spFiles s4) checkpointName = Some b \<longrightarrow> (\<exists>c. b = checkpoint_bytes c \<and> c \<le> A \<and> c \<le> max64)" unfolding mc ckpt_file_def .
  from readCheckpoint_result [OF this rc] have s5: "s5 = ask s4" and ck: "ck = None \<or> (\<exists>c. ck = Some c \<and> map_of fs checkpointName = Some (checkpoint_bytes c) \<and> c \<le> A \<and> c \<le> max64)"
    unfolding mc by auto
  define s6 where "s6 = after_scan w s2"
  have l4: "spLastSeq s4 = (if nonempty prs = [] then 0 else sgLast (last (sort_segs (spSegs s2))))" using f1(2) by (simp add: s4_def s3_def sgs)
  have f6: "spSegs s6 = sort_segs (spSegs s2)" "spFiles s6 = spFiles s2" "spW s6 = None" "spAckedInFirst s6 = 0" "spAckOffset s6 = 0" "spClosed s6 = spClosed s2"
    using f1 by (auto simp: s6_def a use_checkpoint_def s5 ask_def s4_def s3_def split: option.splits)
  have ac: "spAckedThrough s6 = 0 \<or> map_of fs checkpointName = Some (checkpoint_bytes (spAckedThrough s6)) \<and> spAckedThrough s6 \<le> A" "spAckedThrough s6 \<le> max64"
    using ck f1(3) by (auto simp: s6_def a use_checkpoint_def s5 ask_def s4_def s3_def)
  have la: "spLastSeq s6 = max (spLastSeq s4) (spAckedThrough s6)"
    using f1(3) by (auto simp: s6_def a use_checkpoint_def s5 ask_def s4_def s3_def split: option.splits)
  show "core_inv False J A (map snd (nonempty prs)) (after_scan w s2)"
    unfolding s6_def [symmetric]
    by (rule recovered_core [OF d]) (use seg other sgs f6 ac la l4 in simp_all)
  show "spSegs (after_scan w s2) = sort_segs (spSegs s2)" "spClosed (after_scan w s2) = spClosed s2" "spAckedThrough (after_scan w s2) \<le> A"
    "spLastSeq (after_scan w s2) = max (if nonempty prs = [] then 0 else sgLast (last (sort_segs (spSegs s2)))) (spAckedThrough (after_scan w s2))"
    using f6 ac la l4 unfolding s6_def by auto
qed

lemma recover_inv:
  assumes d: "disk_inv J A prs (spFiles s)" and fr: "fresh s" "\<not> spClosed s" and rc: "recover J w s = (r, s')"
  shows "\<exists>prs'. open_end J A prs prs' r s'"
  using rc unfolding recover_unfold
proof (cases rule: and_then_cases)
  case (err e)
  then have "s' = ask s" by (simp add: syscall_def split: if_splits)
  then have "spFiles s' = spFiles s" by (simp add: ask_def)
  with d err(2) have "open_end J A prs prs r s'" by (simp add: open_end_def)
  then show ?thesis by blast
next
  case (ok u s1)
  then have s1: "s1 = ask s" by (simp add: syscall_def split: if_splits)
  have d1: "disk_inv J A prs (spFiles s1)" and f1: "fresh s1" "\<not> spClosed s1" using d fr by (simp_all add: s1 ask_def fresh_def)
  define names where "names = sort (remdups (map fst (spFiles s1)))"
  have names: "distinct names" "set names = {p. map_of (spFiles s1) p \<noteq> None}"
    by (simp_all add: names_def map_of_eq_None_iff)
  have rf: "\<forall>p \<in> set names. parseSegmentName p \<noteq> None \<longrightarrow> run_file J (run_of prs) (spFiles s1) p"
    using run_files [OF d1] names(2) by blast
  obtain y s2 where y: "recover_loop J w names s1 = (y, s2)" by fastforce
  note rl = recover_loop_spec [OF rf names(1) y]
  have out: "\<forall>p. map_of (spFiles s1) p = None \<longrightarrow> map_of (spFiles s2) p = None" using rl names(2) by auto
  show ?thesis
  proof (cases y)
    case (Inl e)
    then have "s' = s2" "r \<noteq> Inr ()" using ok(2) y by (auto simp: names_def and_then_def)
    moreover obtain prs' where "disk_inv J A prs' (spFiles s2)" "recs prs' = recs prs" using disk_scanned [OF d1 _ out] rl by blast
    ultimately show ?thesis by (intro exI [of _ prs']) (simp add: open_end_def del: set_concat)
  next
    case (Inr v)
    then have y: "y = Inr ()" "open_tail J w (after_scan w s2) = (r, s')" using ok(2) y by (auto simp: names_def and_then_def)
    have seg: "\<forall>p. map_of (spFiles s1) p \<noteq> None \<longrightarrow> parseSegmentName p \<noteq> None \<longrightarrow>
        map_of (spFiles s2) p = (if run_of prs p = [] then None else Some (encode_all (run_of prs p)))" using rl names(2) y(1) by blast
    have other: "\<forall>p. map_of (spFiles s1) p = None \<or> parseSegmentName p = None \<longrightarrow> map_of (spFiles s2) p = map_of (spFiles s1) p"
      using rl out by (metis scanned_def)
    have "spSegs s2 = map (\<lambda>p. seg_of p (run_of prs p)) (kept_names (run_of prs) names)" using rl y(1) f1 by (simp add: fresh_def)
    then have sgs: "sort_segs (spSegs s2) = map (\<lambda>x. seg_of (fst x) (snd x)) (nonempty prs)" using sort_recovered [OF d1 names] by simp
    have f2: "spW s2 = None" "spLastSeq s2 = 0" "spAckedThrough s2 = 0" "spAckedInFirst s2 = 0" "spAckOffset s2 = 0" "\<not> spClosed s2"
      using rl f1 by (simp_all add: untouched_def fresh_def)
    note as = after_scan_core [OF d1 f2(1-5) seg other sgs, of w]
    define s6 where "s6 = after_scan w s2"
    from open_tail_inv [OF as(1) y(2)] obtain rss' where te: "tail_end J A (map snd (nonempty prs)) s6 rss' r s'" unfolding s6_def by blast
    then obtain b j where b: "core_inv b J A rss' s'" and k: "kept s6 s'" and sub: "set (spSegs s') \<subseteq> set (spSegs s6)"
      and j: "rss' = drop j (map snd (nonempty prs))" "\<forall>x \<in> set (concat (take j (map snd (nonempty prs)))). fst x \<le> spAckedThrough s6 \<or> covers s' (fst x)"
      and fin: "r = Inr () \<longrightarrow> spool_inv J A rss' s'" by (auto simp: tail_end_def)
    let ?prs = "zip (map sgPath (spSegs s')) rss'"
    note dk = disk_of_core [OF b]
    have all: "recs prs = concat (take j (map snd (nonempty prs))) @ concat rss'"
      unfolding j(1) concat_append [symmetric] append_take_drop_id by (simp add: concat_nonempty)
    have A6: "spAckedThrough s6 \<le> A" using as(4) by (simp add: s6_def)
    have acc: "\<forall>x \<in> set (recs prs). x \<in> set (concat rss') \<or> fst x \<le> A \<or> covers s' (fst x)"
    proof
      fix x assume "x \<in> set (recs prs)"
      then have "x \<in> set (concat (take j (map snd (nonempty prs)))) \<or> x \<in> set (concat rss')" unfolding all by simp
      then show "x \<in> set (concat rss') \<or> fst x \<le> A \<or> covers s' (fst x)" using j(2) le_trans [OF _ A6] by blast
    qed
    have ok6: "\<forall>x \<in> set (recs prs). fst x \<le> spLastSeq s6" using as(1) unfolding core_inv_def segs_inv_def s6_def concat_nonempty by blast
    have bases: "\<forall>g \<in> set (spSegs s'). \<exists>x \<in> set (recs prs). sgBase g = fst x"
    proof
      fix g assume "g \<in> set (spSegs s')"
      then have "g \<in> set (map (\<lambda>x. seg_of (fst x) (snd x)) (nonempty prs))" using sub as(2) sgs by (auto simp: s6_def)
      then obtain x where "x \<in> set (nonempty prs)" "g = seg_of (fst x) (snd x)" unfolding set_map by blast
      then show "\<exists>x \<in> set (recs prs). sgBase g = fst x" using seg_of_base by blast
    qed
    have last6: "spLastSeq s6 = 0 \<or> spLastSeq s6 \<in> fst ` set (recs prs) \<or> spLastSeq s6 \<le> A"
    proof (cases "nonempty prs = []")
      case True
      then show ?thesis using as(5) A6 by (simp add: s6_def)
    next
      case False
      have "last (nonempty prs) \<in> set (nonempty prs)" using False by (rule last_in_set)
      then have "snd (last (nonempty prs)) \<noteq> []" "last (nonempty prs) \<in> set prs" by simp_all
      then have "last (snd (last (nonempty prs))) \<in> set (recs prs)" using last_in_set by auto
      moreover have "sgLast (last (sort_segs (spSegs s2))) = fst (last (snd (last (nonempty prs))))" using False by (simp add: sgs last_map seg_of_def)
      ultimately show ?thesis using as(5) A6 False by (auto simp: s6_def max_def)
    qed
    have "open_end J A prs ?prs r s'"
      unfolding open_end_def dk(2)
    proof (intro conjI impI)
      show "disk_inv J A ?prs (spFiles s')" by (rule dk(1))
      show "set (concat rss') \<subseteq> set (recs prs)" unfolding all by simp
      show "\<forall>x \<in> set (recs prs). x \<in> set (concat rss') \<or> fst x \<le> A \<or> covers s' (fst x)" by (rule acc)
      show "\<forall>g \<in> set (spSegs s'). \<exists>x \<in> set (recs prs). sgBase g = fst x" by (rule bases)
      show "\<not> spClosed s'" using k f2(6) as(3) by (simp add: kept_def s6_def)
      assume "r = Inr ()"
      then have "spool_inv J A rss' s'" using fin by simp
      moreover have "spLastSeq s' = spLastSeq s6" "spAckedThrough s' \<le> A" using k A6 by (simp_all add: kept_def)
      ultimately show "\<exists>rss. spool_inv J A rss s' \<and> concat rss = concat rss' \<and> (\<forall>x \<in> set (recs prs). fst x \<le> spLastSeq s') \<and> spAckedThrough s' \<le> A \<and>
          (spLastSeq s' = 0 \<or> spLastSeq s' \<in> fst ` set (recs prs) \<or> spLastSeq s' \<le> A)" using ok6 last6 by metis
    qed
    then show ?thesis by blast
  qed
qed

lemma Open_inv:
  assumes d: "disk_inv J A prs fs" and op: "Open J w opts fs tick = (r, s')"
  shows "\<exists>prs'. open_end J A prs prs' r s'"
proof (cases "soDir opts = []")
  case True
  then have "spFiles s' = fs" "r \<noteq> Inr ()" using op by (auto simp: Open_def zero_spool_def Let_def)
  then show ?thesis using d by (intro exI [of _ prs]) (simp add: open_end_def)
next
  case False
  then have "and_then (syscall w MakeDir (zero_spool (normalize_options opts) 0 fs tick)) (\<lambda>_ s1. recover J w ((ask s1)\<lparr> spLastSync := dwClock w (spTick s1) \<rparr>)) = (r, s')"
    using op by (simp add: Open_def Let_def)
  then show ?thesis
  proof (cases rule: and_then_cases)
    case (err e)
    then have "spFiles s' = fs" by (auto simp: syscall_def ask_def zero_spool_def)
    then show ?thesis using d err(2) by (intro exI [of _ prs]) (simp add: open_end_def)
  next
    case (ok u s1)
    then have "s1 = ask (zero_spool (normalize_options opts) 0 fs tick)" by (simp add: syscall_def split: if_splits)
    then show ?thesis using d by (intro recover_inv [OF _ _ _ ok(2)]) (simp_all add: ask_def zero_spool_def fresh_def)
  qed
qed

end
