(* ===== verification/Spool_Guarantees.thy ===== *)
theory Spool_Guarantees
  imports Spool_Recover
begin

section \<open>Guarantees of the spool\<close>

subsection \<open>The records a directory holds\<close>

text \<open>
  The abstraction: what the segment files of a directory hold, read with the walk of the spool itself
  and put in the order of the sequence numbers.
\<close>

definition file_records :: "event_codec \<Rightarrow> bytes \<Rightarrow> (nat \<times> bytes) list" where
  "file_records J bs = map (\<lambda>(q, p, e). (q, p)) (snd (snd (walkRecords (ecSequence J) False bs 0 (length bs) collect [])))"

definition spool_view :: "event_codec \<Rightarrow> (string \<times> bytes) list \<Rightarrow> (nat \<times> bytes) list" where
  "spool_view J fs = sort_key fst (concat (map (\<lambda>p. if parseSegmentName p = None then []
     else case map_of fs p of Some bs \<Rightarrow> file_records J bs | None \<Rightarrow> []) (remdups (map fst fs))))"

lemma deliver_collect:
  "\<exists>n e ends. deliver collect off rs acc = (True, n, e, acc @ ends) \<and> map (\<lambda>(q, p, e). (q, p)) ends = rs"
proof (induction rs arbitrary: off acc)
  case (Cons x rs)
  let ?e = "off + recordHeaderSize + length (snd x)"
  have c: "collect acc (fst x) (snd x) ?e = (True, acc @ [(fst x, snd x, ?e)])" by (simp add: collect_def)
  obtain n e ends where "deliver collect ?e rs (acc @ [(fst x, snd x, ?e)]) = (True, n, e, (acc @ [(fst x, snd x, ?e)]) @ ends)"
    "map (\<lambda>(q, p, e). (q, p)) ends = rs" using Cons by blast
  then show ?case by (intro exI [of _ "n + 1"] exI [of _ e] exI [of _ "(fst x, snd x, ?e) # ends"]) (simp add: c Let_def)
qed simp

lemma file_records_run:
  assumes ok: "list_all (record_ok (ecSequence J)) rs" "rising rs" and t: "torn rs t"
  shows "file_records J (encode_all rs @ t) = rs"
proof -
  obtain n e ends where d: "deliver collect 0 rs [] = (True, n, e, ends)" "map (\<lambda>(q, p, e). (q, p)) ends = rs"
    using deliver_collect [of 0 rs "[]"] by auto
  have e: "e = length (encode_all rs)" using deliver_end [OF d(1)] by simp
  let ?w = "walk_loop (ecSequence J) (length (encode_all rs @ t)) False collect"
  obtain hp pv st where "?w (encode_all rs @ t) 0 0 False False (zero_stats 0) [] = ?w t e pv hp False st ends"
    using walk_run [OF ok, of False 0 0 "length (encode_all rs @ t)" "zero_stats 0" False collect t "[]"] d(1)
    by (auto simp: zero_stats_def Let_def)
  also have "\<dots> = ?w (drop (length t) t) (e + length t) pv hp (False \<or> 0 < length t) st ends"
    using t unfolding torn_def e by (intro walk_damage) simp_all
  also have "\<dots> = (False, st, ends)" by (simp add: walk_short recordHeaderSize_def)
  finally show ?thesis using d(2) by (simp add: file_records_def walkRecords_def)
qed

lemma view_disk:
  assumes d: "disk_inv J A prs fs"
  shows "spool_view J fs = recs prs"
proof -
  have dist: "distinct (map fst prs)" and up: "rising (recs prs)"
    and names: "{p. map_of fs p \<noteq> None \<and> parseSegmentName p \<noteq> None} = fst ` set prs" using d by (simp_all add: disk_inv_def)
  define f where "f = (\<lambda>p. if parseSegmentName p = None then [] else case map_of fs p of Some bs \<Rightarrow> file_records J bs | None \<Rightarrow> [])"
  define ns where "ns = remdups (map fst fs)"
  define ks where "ks = filter (\<lambda>p. parseSegmentName p \<noteq> None) ns"
  have fr: "f (fst x) = snd x" "parseSegmentName (fst x) \<noteq> None" if "x \<in> set prs" for x
  proof -
    have "fst x \<in> {p. map_of fs p \<noteq> None \<and> parseSegmentName p \<noteq> None}" unfolding names using that by simp
    then have p: "map_of fs (fst x) \<noteq> None" "parseSegmentName (fst x) \<noteq> None" by simp_all
    from run_files [OF d p] run_of_mem [OF dist that] obtain t where "list_all (rec_ok J) (snd x)" "rising (snd x)" "torn (snd x) t"
      "map_of fs (fst x) = Some (encode_all (snd x) @ t)" by (auto simp: run_file_def)
    then show "f (fst x) = snd x" using p(2) file_records_run [OF rec_ok_all] by (auto simp: f_def)
    show "parseSegmentName (fst x) \<noteq> None" by (rule p(2))
  qed
  have ns: "distinct ns" "set ns = {p. map_of fs p \<noteq> None}" by (simp_all add: ns_def map_of_eq_None_iff)
  have "set ks = set (map fst prs)" using names ns(2) by (auto simp: ks_def)
  moreover have "distinct ks" using ns(1) by (simp add: ks_def)
  ultimately have m: "mset ks = mset (map fst prs)" using dist by (simp only: set_eq_iff_mset_eq_distinct)
  have "concat (map f ns) = concat (map f ks)" unfolding ks_def by (induction ns) (auto simp: f_def)
  moreover have "mset (concat (map f ks)) = mset (concat (map f (map fst prs)))"
    unfolding mset_concat map_map [symmetric] by (metis m mset_map sum_mset_sum_list)
  moreover have "map f (map fst prs) = map snd prs" using fr(1) by simp
  ultimately have "mset (concat (map f ns)) = mset (recs prs)" by (simp only:)
  moreover have "sorted (map fst (recs prs))" using up by (simp add: rising_def strict_sorted_imp_sorted)
  moreover have "inj_on fst (set (recs prs))" using up by (simp add: rising_def strict_sorted_iff distinct_map)
  ultimately show ?thesis unfolding spool_view_def f_def [symmetric] ns_def [symmetric]
    by (metis sort_key_inj_key_eq mset_eq_setD)
qed

lemma view_inv: "spool_inv J A rss s \<Longrightarrow> spool_view J (spFiles s) = concat rss"
  using view_disk disk_of_core spool_core by metis

subsection \<open>Runs\<close>

text \<open>
  The life of a spool directory: opened (perhaps in vain), used, closed, and left behind by a crash. A
  crash inside an operation is a run of that operation in which all later system calls fail, followed
  by a crash; a crash inside the write of a record leaves a part \<open>t\<close> of it in the active file. The
  history keeps what was stored, the highest sequence offered to \<open>Append\<close> and the highest one
  acknowledged, the loss ranges handed out by \<open>DrainDropped\<close>, and those a crash (or a failed
  \<open>Open\<close>) forgot.
\<close>

datatype node = Up spool | Down "(string \<times> bytes) list"

record spool_history =
  hStored :: "(nat \<times> bytes) list"
  hOffered :: nat
  hAcked :: nat
  hReported :: "(nat \<times> nat) list"
  hForgotten :: "(nat \<times> nat) list"

definition no_history :: spool_history where
  "no_history = \<lparr> hStored = [], hOffered = 0, hAcked = 0, hReported = [], hForgotten = [] \<rparr>"

definition forget :: "spool \<Rightarrow> spool_history \<Rightarrow> spool_history" where
  "forget s h = h\<lparr> hForgotten := (spDroppedLow s, spDroppedHigh s) # hForgotten h \<rparr>"

definition after_append :: "event_codec \<Rightarrow> event \<Rightarrow> (spool_error, unit) result \<Rightarrow> spool \<Rightarrow> spool_history \<Rightarrow> spool_history" where
  "after_append J e r s' h =
     h\<lparr> hStored := (if r = Inr () \<or> spLastSeq s' = Sequence e then (Sequence e, the (ecMarshal J e)) # hStored h else hStored h),
        hOffered := Sequence e \<rparr>"

definition after_drain :: "(nat \<times> nat \<times> nat) option \<Rightarrow> spool_history \<Rightarrow> spool_history" where
  "after_drain d h = (case d of None \<Rightarrow> h | Some (n, low, high) \<Rightarrow> h\<lparr> hReported := (low, high) # hReported h \<rparr>)"

definition torn_write :: "bytes \<Rightarrow> bytes \<Rightarrow> bool" where
  "torn_write old t \<longleftrightarrow> damaged (length old + length t) (length old) (length t) t"

inductive spool_run :: "event_codec \<Rightarrow> node \<Rightarrow> spool_history \<Rightarrow> bool" for J where
  fresh_dir: "spool_run J (Down []) no_history"
| opened: "spool_run J (Down fs) h \<Longrightarrow> Open J w opts fs tick = (Inr u, s) \<Longrightarrow> spool_run J (Up s) h"
| open_failed: "spool_run J (Down fs) h \<Longrightarrow> Open J w opts fs tick = (Inl e, s) \<Longrightarrow> spool_run J (Down (spFiles s)) (forget s h)"
| append: "spool_run J (Up s) h \<Longrightarrow> whole_writes w \<Longrightarrow> hOffered h < Sequence e \<Longrightarrow> Sequence e \<le> max64 \<Longrightarrow>
    Append J w (Some e) s = (r, s') \<Longrightarrow> spool_run J (Up s') (after_append J e r s' h)"
| ack: "spool_run J (Up s) h \<Longrightarrow> Ack_spool J w n s = (r, s') \<Longrightarrow>
    spool_run J (Up s') (h\<lparr> hAcked := max (hAcked h) (min n (spLastSeq s)) \<rparr>)"
| read: "spool_run J (Up s) h \<Longrightarrow> NextAfter J w through m s = (evs, s') \<Longrightarrow> spool_run J (Up s') h"
| drain: "spool_run J (Up s) h \<Longrightarrow> DrainDropped s = (d, s') \<Longrightarrow> spool_run J (Up s') (after_drain d h)"
| sync: "spool_run J (Up s) h \<Longrightarrow> Sync w s = (r, s') \<Longrightarrow> spool_run J (Up s') h"
| close: "spool_run J (Up s) h \<Longrightarrow> Close_spool w s = (r, s') \<Longrightarrow> spool_run J (Up s') h"
| crash: "spool_run J (Up s) h \<Longrightarrow> spool_run J (Down (spFiles s)) (forget s h)"
| torn_crash: "spool_run J (Up s) h \<Longrightarrow> spW s = Some path \<Longrightarrow> torn_write (file_of path s) t \<Longrightarrow>
    spool_run J (Down (AList.update path (file_of path s @ t) (spFiles s))) (forget s h)"

definition in_ranges :: "nat \<Rightarrow> (nat \<times> nat) list \<Rightarrow> bool" where
  "in_ranges q rs \<longleftrightarrow> list_ex (\<lambda>(low, high). low \<le> q \<and> q \<le> high) rs"

text \<open>Why a record need not be in the spool any more.\<close>

definition excused :: "spool_history \<Rightarrow> nat \<Rightarrow> bool" where
  "excused h q \<longleftrightarrow> q \<le> hAcked h \<or> in_ranges q (hReported h @ hForgotten h)"

definition node_inv :: "event_codec \<Rightarrow> (nat \<times> bytes) list \<Rightarrow> node \<Rightarrow> spool_history \<Rightarrow> bool" where
  "node_inv J xs n h \<longleftrightarrow> set xs \<subseteq> set (hStored h) \<and> (\<forall>x \<in> set (hStored h). fst x \<le> hOffered h) \<and> hAcked h \<le> hOffered h \<and>
     (\<forall>s. n = Up s \<longrightarrow> (\<exists>rss. spool_inv J (hAcked h) rss s \<and> concat rss = xs) \<and> spLastSeq s \<le> hOffered h \<and>
        (\<forall>g \<in> set (spSegs s). sgBase g \<le> hOffered h) \<and>
        (\<forall>x \<in> set (hStored h). excused h (fst x) \<or> x \<in> set xs \<or> covers s (fst x))) \<and>
     (\<forall>fs. n = Down fs \<longrightarrow> (\<exists>prs. disk_inv J (hAcked h) prs fs \<and> recs prs = xs) \<and>
        (\<forall>x \<in> set (hStored h). excused h (fst x) \<or> x \<in> set xs))"

lemma excused_forget: "excused h q \<Longrightarrow> excused (forget s h) q" "covers s q \<Longrightarrow> excused (forget s h) q"
  by (auto simp: excused_def forget_def in_ranges_def covers_def)

lemma forget_fields [simp]: "hStored (forget s h) = hStored h" "hOffered (forget s h) = hOffered h" "hAcked (forget s h) = hAcked h"
  by (simp_all add: forget_def)

lemma acked_le: "core_inv b J A rss s \<Longrightarrow> spAckedThrough s \<le> A"
  unfolding core_inv_def ckpt_inv_def by (metis le0 le_trans not_Some_eq)

lemma node_up:
  "node_inv J xs (Up s) h \<longleftrightarrow> set xs \<subseteq> set (hStored h) \<and> (\<forall>x \<in> set (hStored h). fst x \<le> hOffered h) \<and> hAcked h \<le> hOffered h \<and>
     (\<exists>rss. spool_inv J (hAcked h) rss s \<and> concat rss = xs) \<and> spLastSeq s \<le> hOffered h \<and> (\<forall>g \<in> set (spSegs s). sgBase g \<le> hOffered h) \<and>
     (\<forall>x \<in> set (hStored h). excused h (fst x) \<or> x \<in> set xs \<or> covers s (fst x))"
  by (simp add: node_inv_def)

lemma node_down:
  "node_inv J xs (Down fs) h \<longleftrightarrow> set xs \<subseteq> set (hStored h) \<and> (\<forall>x \<in> set (hStored h). fst x \<le> hOffered h) \<and> hAcked h \<le> hOffered h \<and>
     (\<exists>prs. disk_inv J (hAcked h) prs fs \<and> recs prs = xs) \<and> (\<forall>x \<in> set (hStored h). excused h (fst x) \<or> x \<in> set xs)"
  by (simp add: node_inv_def)

lemma same_node:
  assumes "node_inv J xs (Up s) h" "same_core s s' \<and> same_loss s s'"
  shows "node_inv J xs (Up s') h"
proof -
  obtain rss where rss: "spool_inv J (hAcked h) rss s" "concat rss = xs" using assms(1) by (auto simp: node_up)
  note r = same_result [OF assms(2) rss(1)]
  have "spLastSeq s' = spLastSeq s" using r by (simp add: kept_def)
  then show ?thesis using assms(1) r rss(2) covers_same [of s s'] unfolding node_up by auto
qed

lemma opened_node:
  assumes n: "node_inv J xs (Down fs) h" and o: "Open J w opts fs tick = (r, s)"
  shows "r = Inr () \<longrightarrow> (\<exists>ys. node_inv J ys (Up s) h)" "\<exists>ys. node_inv J ys (Down (spFiles s)) (forget s h)"
proof -
  obtain prs where d: "disk_inv J (hAcked h) prs fs" "recs prs = xs" using n by (auto simp: node_down)
  obtain prs' where e: "open_end J (hAcked h) prs prs' r s" using Open_inv [OF d(1) o] by blast
  note e' = e [unfolded open_end_def d(2)]
  have sub: "set (recs prs') \<subseteq> set (hStored h)" using e' n unfolding node_down by blast
  have acc: "excused h (fst x) \<or> x \<in> set (recs prs') \<or> covers s (fst x)" if "x \<in> set (hStored h)" for x
  proof -
    have "excused h (fst x) \<or> x \<in> set xs" using n that unfolding node_down by blast
    moreover have "x \<in> set xs \<Longrightarrow> x \<in> set (recs prs') \<or> fst x \<le> hAcked h \<or> covers s (fst x)" using e' by blast
    ultimately show ?thesis by (auto simp: excused_def)
  qed
  have "excused (forget s h) (fst x) \<or> x \<in> set (recs prs')" if "x \<in> set (hStored h)" for x
    using acc [OF that] excused_forget by blast
  then have "node_inv J (recs prs') (Down (spFiles s)) (forget s h)"
    using n sub e' unfolding node_down forget_fields by blast
  then show "\<exists>ys. node_inv J ys (Down (spFiles s)) (forget s h)" by blast
  have "node_inv J (recs prs') (Up s) h" if ri: "r = Inr ()"
  proof -
    obtain rss where rss: "spool_inv J (hAcked h) rss s" "concat rss = recs prs'"
      "spLastSeq s = 0 \<or> spLastSeq s \<in> fst ` set xs \<or> spLastSeq s \<le> hAcked h" using e' ri by blast
    have le: "\<forall>x \<in> set xs. fst x \<le> hOffered h" using n unfolding node_down by blast
    have "spLastSeq s \<le> hOffered h" using rss(3) le n by (auto simp: node_down)
    moreover have "\<forall>g \<in> set (spSegs s). sgBase g \<le> hOffered h" using e' ri le by metis
    ultimately show ?thesis using n sub acc rss(1,2) unfolding node_up node_down by blast
  qed
  then show "r = Inr () \<longrightarrow> (\<exists>ys. node_inv J ys (Up s) h)" by blast
qed

lemma crashed_node:
  assumes n: "node_inv J xs (Up s) h"
  shows "node_inv J xs (Down (spFiles s)) (forget s h)"
proof -
  obtain rss where rss: "spool_inv J (hAcked h) rss s" "concat rss = xs" using n by (auto simp: node_up)
  note d = disk_of_core [OF spool_core [OF rss(1)]]
  then have "\<exists>prs. disk_inv J (hAcked h) prs (spFiles s) \<and> recs prs = xs" using rss(2) by metis
  moreover have "\<forall>x \<in> set (hStored h). excused (forget s h) (fst x) \<or> x \<in> set xs" using n excused_forget unfolding node_up by metis
  ultimately show ?thesis using n unfolding node_up node_down forget_fields by blast
qed

lemma torn_node:
  assumes n: "node_inv J xs (Up s) h" and w: "spW s = Some path" and t: "torn_write (file_of path s) t"
  shows "node_inv J xs (Down (AList.update path (file_of path s @ t) (spFiles s))) (forget s h)"
proof -
  let ?fs = "AList.update path (file_of path s @ t) (spFiles s)"
  obtain rss where rss: "spool_inv J (hAcked h) rss s" "concat rss = xs" using n by (auto simp: node_up)
  note c = spool_core [OF rss(1)]
  note d = disk_of_core [OF c]
  let ?prs = "zip (map sgPath (spSegs s)) rss"
  obtain sgs sg rss0 rs where a: "spSegs s = sgs @ [sg]" "rss = rss0 @ [rs]" "path = sgPath sg"
    "list_all2 (seg_ok J (spFiles s)) sgs rss0" "seg_ok J (spFiles s) sg rs" "sgPath sg \<notin> set (map sgPath sgs)"
    by (rule active_split [OF c w])
  have fo: "map_of (spFiles s) path = Some (encode_all rs)" "file_of path s = encode_all rs" using a(3,5) by (simp_all add: seg_ok_def file_of_def)
  have tn: "torn rs t" using t by (simp add: torn_write_def torn_def fo)
  have mem: "(path, rs) \<in> set ?prs" using a list_all2_lengthD [OF a(4)] by simp
  have di: "disk_inv J (hAcked h) ?prs (spFiles s)" by (rule d(1))
  have dist: "distinct (map fst ?prs)" using di by (simp only: disk_inv_def)
  have ps: "parseSegmentName path \<noteq> None"
  proof -
    have "path \<in> fst ` set ?prs" using mem by force
    then have "path \<in> {p. map_of (spFiles s) p \<noteq> None \<and> parseSegmentName p \<noteq> None}" using di unfolding disk_inv_def by metis
    then show ?thesis by simp
  qed
  have "disk_inv J (hAcked h) ?prs ?fs"
    unfolding disk_inv_def
  proof (intro conjI ballI)
    show "distinct (map fst ?prs)" by (rule dist)
    have "{p. map_of ?fs p \<noteq> None \<and> parseSegmentName p \<noteq> None} = {p. map_of (spFiles s) p \<noteq> None \<and> parseSegmentName p \<noteq> None}"
      using fo(1) by (auto simp: update_conv')
    then show "{p. map_of ?fs p \<noteq> None \<and> parseSegmentName p \<noteq> None} = fst ` set ?prs" using di by (simp add: disk_inv_def)
    show "list_all (rec_ok J) (snd x)" if "x \<in> set ?prs" for x using di that unfolding disk_inv_def by blast
    show "\<exists>u. torn (snd x) u \<and> map_of ?fs (fst x) = Some (encode_all (snd x) @ u)" if x: "x \<in> set ?prs" for x
    proof (cases "fst x = path")
      case True
      then have "x = (path, rs)" using x mem dist by (metis eq_key_imp_eq_value prod.collapse)
      then show ?thesis using tn by (auto simp: fo update_conv')
    next
      case False
      then show ?thesis using di x unfolding disk_inv_def by (simp add: update_conv')
    qed
    show "rising (recs ?prs)" using di unfolding disk_inv_def by blast
    have "map_of ?fs checkpointName = map_of (spFiles s) checkpointName" using ps segment_path_names(1) by (auto simp: update_conv')
    then show "ckpt_file (hAcked h) ?fs" using di by (simp add: disk_inv_def ckpt_file_def)
  qed
  moreover have "recs ?prs = xs" using d(2) rss(2) by simp
  moreover have "\<forall>x \<in> set (hStored h). excused (forget s h) (fst x) \<or> x \<in> set xs" using n excused_forget unfolding node_up by metis
  ultimately show ?thesis using n unfolding node_up node_down forget_fields by blast
qed

lemma append_node:
  assumes n: "node_inv J xs (Up s) h" and J: "codec_ok J" "whole_writes w" and e: "hOffered h < Sequence e" "Sequence e \<le> max64"
    and a: "Append J w (Some e) s = (r, s')"
  shows "\<exists>ys. node_inv J ys (Up s') (after_append J e r s' h)"
proof -
  obtain rss where rss: "spool_inv J (hAcked h) rss s" "concat rss = xs" using n by (auto simp: node_up)
  have base: "\<forall>g \<in> set (spSegs s). sgBase g \<le> Sequence e" using n e(1) unfolding node_up by (meson le_trans less_imp_le)
  obtain rss2 new j where ae: "append_end J (hAcked h) rss e s rss2 new j r s'"
    using Append_inv [OF rss(1) J(1) e(2) base J(2) a] by blast
  note ae' = ae [unfolded append_end_def]
  define h' where "h' = after_append J e r s' h"
  have lt: "spLastSeq s < Sequence e" using n e(1) by (auto simp: node_up)
  have st: "hStored h' = new @ hStored h" "hOffered h' = Sequence e" "hAcked h' = hAcked h" "hReported h' = hReported h" "hForgotten h' = hForgotten h"
    using ae' lt by (auto simp: h'_def after_append_def)
  have ex: "excused h' q = excused h q" for q by (simp add: excused_def st)
  have xs2: "concat rss2 = xs @ new" using ae' rss(2) by simp
  have "set (concat (drop j rss2)) \<subseteq> set (xs @ new)" unfolding xs2 [symmetric] using set_drop_subset by fastforce
  then have sub: "set (concat (drop j rss2)) \<subseteq> set (hStored h')" using n unfolding st node_up by auto
  have acked: "spAckedThrough s \<le> hAcked h" using acked_le [OF spool_core [OF rss(1)]] .
  have gone: "x \<in> set (concat (drop j rss2)) \<or> fst x \<le> hAcked h \<or> covers s' (fst x)" if "x \<in> set (xs @ new)" for x
  proof -
    have "x \<in> set (concat (take j rss2)) \<or> x \<in> set (concat (drop j rss2))"
      using that unfolding xs2 [symmetric] by (metis append_take_drop_id concat_append set_append Un_iff)
    then show ?thesis using ae' acked by (meson le_trans)
  qed
  have acc: "\<forall>x \<in> set (hStored h'). excused h' (fst x) \<or> x \<in> set (concat (drop j rss2)) \<or> covers s' (fst x)"
  proof
    fix x assume x: "x \<in> set (hStored h')"
    show "excused h' (fst x) \<or> x \<in> set (concat (drop j rss2)) \<or> covers s' (fst x)"
    proof (cases "x \<in> set (xs @ new)")
      case True
      then show ?thesis using gone unfolding excused_def st by blast
    next
      case False
      then have "x \<in> set (hStored h)" "x \<notin> set xs" using x by (auto simp: st)
      then have "excused h (fst x) \<or> covers s (fst x)" using n unfolding node_up by blast
      then show ?thesis using ae' ex by blast
    qed
  qed
  have le: "\<forall>x \<in> set (hStored h'). fst x \<le> hOffered h'"
  proof
    fix x assume "x \<in> set (hStored h')"
    then consider "x \<in> set new" | "x \<in> set (hStored h)" by (auto simp: st)
    then show "fst x \<le> hOffered h'"
    proof cases
      case 1
      then show ?thesis using ae' by (auto simp: st)
    next
      case 2
      then have "fst x \<le> hOffered h" using n unfolding node_up by blast
      then show ?thesis using e(1) by (simp add: st)
    qed
  qed
  have "spLastSeq s' \<le> hOffered h'" using ae' lt by (auto simp: st)
  moreover have "hAcked h' \<le> hOffered h'" using n e(1) by (simp add: st node_up)
  moreover have "spool_inv J (hAcked h') (drop j rss2) s'" "\<forall>g \<in> set (spSegs s'). sgBase g \<le> hOffered h'" using ae' by (simp_all add: st)
  ultimately have "node_inv J (concat (drop j rss2)) (Up s') h'" using sub acc le unfolding node_up by blast
  then show ?thesis unfolding h'_def by blast
qed

lemma ack_node:
  assumes n: "node_inv J xs (Up s) h" and a: "Ack_spool J w k s = (r, s')"
  shows "\<exists>ys. node_inv J ys (Up s') (h\<lparr> hAcked := max (hAcked h) (min k (spLastSeq s)) \<rparr>)"
proof -
  obtain rss where rss: "spool_inv J (hAcked h) rss s" "concat rss = xs" using n by (auto simp: node_up)
  define h' where "h' = h\<lparr> hAcked := max (hAcked h) (min k (spLastSeq s)) \<rparr>"
  obtain j where j: "spool_inv J (hAcked h') (drop j rss) s'" "\<forall>x \<in> set (concat (take j rss)). fst x \<le> spAckedThrough s'"
    "spLastSeq s' = spLastSeq s" "same_loss s s'" "set (spSegs s') \<subseteq> set (spSegs s)"
    by (rule Ack_spool_inv [OF rss(1) a]) (simp add: h'_def)
  have all: "set xs = set (concat (take j rss)) \<union> set (concat (drop j rss))"
    unfolding rss(2) [symmetric] by (metis append_take_drop_id concat_append set_append)
  have le: "spAckedThrough s' \<le> hAcked h'" using acked_le [OF spool_core [OF j(1)]] .
  have ex: "excused h q \<Longrightarrow> excused h' q" for q by (auto simp: excused_def h'_def)
  have "\<forall>x \<in> set (hStored h'). excused h' (fst x) \<or> x \<in> set (concat (drop j rss)) \<or> covers s' (fst x)"
  proof
    fix x assume "x \<in> set (hStored h')"
    then have "excused h (fst x) \<or> x \<in> set xs \<or> covers s (fst x)" using n unfolding node_up h'_def by simp
    moreover have "x \<in> set (concat (take j rss)) \<Longrightarrow> excused h' (fst x)" using j(2) le le_trans unfolding excused_def by blast
    ultimately show "excused h' (fst x) \<or> x \<in> set (concat (drop j rss)) \<or> covers s' (fst x)"
      using ex covers_same [OF j(4)] all by blast
  qed
  moreover have "hAcked h' \<le> hOffered h'" "hStored h' = hStored h" "hOffered h' = hOffered h" using n by (auto simp: h'_def node_up)
  ultimately have "node_inv J (concat (drop j rss)) (Up s') h'" using n j(1,3,5) all unfolding node_up by auto
  then show ?thesis unfolding h'_def by blast
qed

lemma drain_node:
  assumes n: "node_inv J xs (Up s) h" and d: "DrainDropped s = (d, s')"
  shows "node_inv J xs (Up s') (after_drain d h)"
proof (cases "spDropped s = 0")
  case True
  then show ?thesis using n d by (simp add: DrainDropped_def after_drain_def)
next
  case False
  then have d': "d = Some (spDropped s, spDroppedLow s, spDroppedHigh s)" and s': "s' = s\<lparr> spDropped := 0, spDroppedLow := 0, spDroppedHigh := 0 \<rparr>"
    using d by (simp_all add: DrainDropped_def)
  define h' where "h' = after_drain d h"
  have f: "hStored h' = hStored h" "hOffered h' = hOffered h" "hAcked h' = hAcked h" by (simp_all add: h'_def after_drain_def d')
  have ex: "excused h q \<Longrightarrow> excused h' q" "covers s q \<Longrightarrow> excused h' q" for q
    by (auto simp: excused_def h'_def after_drain_def d' in_ranges_def covers_def)
  have "same_core s s'" by (simp add: s' same_core_def)
  then have "spool_inv J A rss s' = spool_inv J A rss s" for A rss by (rule inv_core(7))
  moreover have "spLastSeq s' = spLastSeq s" "spSegs s' = spSegs s" by (simp_all add: s')
  ultimately have "node_inv J xs (Up s') h'" using n ex unfolding node_up f by metis
  then show ?thesis unfolding h'_def .
qed

lemma close_node:
  assumes n: "node_inv J xs (Up s) h" and c: "Close_spool w s = (r, s')"
  shows "node_inv J xs (Up s') h"
proof (cases "spClosed s")
  case True
  then show ?thesis using n c by (simp add: Close_spool_def)
next
  case False
  obtain rss where rss: "spool_inv J (hAcked h) rss s" "concat rss = xs" using n by (auto simp: node_up)
  define s0 where "s0 = s\<lparr> spClosed := True \<rparr>"
  obtain x s1 where x: "sync w s0 = (x, s1)" by fastforce
  have i0: "spool_inv J (hAcked h) rss s0" using rss(1) by (simp add: s0_def spool_invs)
  note r1 = same_result [OF core_sync [OF x] i0]
  have "s' = s1 \<or> (\<exists>y s2. syscall w CloseSegment s1 = (y, s2) \<and> s' = s2\<lparr> spW := None \<rparr>)"
    using c False x by (auto simp: Close_spool_def s0_def split: if_splits prod.splits)
  then have "spool_inv J (hAcked h) rss s' \<and> spLastSeq s' = spLastSeq s \<and> spSegs s' = spSegs s \<and> same_loss s s'"
  proof (elim disjE exE conjE)
    assume "s' = s1"
    then show ?thesis using r1 by (simp add: s0_def kept_def same_loss_def)
  next
    fix y s2 assume y: "syscall w CloseSegment s1 = (y, s2)" "s' = s2\<lparr> spW := None \<rparr>"
    from same_result [OF core_syscall [OF y(1)]] r1 have "spool_inv J (hAcked h) rss s2" "kept s1 s2" "same_loss s1 s2" "spSegs s2 = spSegs s1" by blast+
    then show ?thesis using r1 inv_close by (simp add: y(2) s0_def kept_def same_loss_def)
  qed
  then show ?thesis using n rss(2) covers_same [of s s'] unfolding node_up by auto
qed

lemma run_node:
  assumes "spool_run J n h" and J: "codec_ok J"
  shows "\<exists>xs. node_inv J xs n h"
  using assms(1)
proof induction
  case fresh_dir
  have "disk_inv J 0 [] []" by (simp add: disk_inv_def ckpt_file_def)
  then have "node_inv J [] (Down []) no_history" by (simp add: node_down no_history_def) (rule exI [of _ "[]"], simp)
  then show ?case by blast
next
  case (opened fs h w opts tick u s)
  then show ?case using opened_node(1) by fastforce
next
  case (open_failed fs h w opts tick e s)
  then show ?case using opened_node(2) by blast
next
  case (append s h w e r s')
  then show ?case using append_node J by blast
next
  case (ack s h w n r s')
  then show ?case using ack_node by blast
next
  case (read s h w through m evs s')
  then obtain xs where n: "node_inv J xs (Up s) h" by blast
  then obtain rss where rss: "spool_inv J (hAcked h) rss s" by (auto simp: node_up)
  from same_node [OF n NextAfter_spec(1) [OF rss read(2)]] show ?case by blast
next
  case (drain s h d s')
  then show ?case using drain_node by blast
next
  case (sync s h w r s')
  then obtain xs where n: "node_inv J xs (Up s) h" by blast
  have "same_core s s' \<and> same_loss s s'" using sync(2) core_sync by (auto simp: Sync_def split: if_splits)
  from same_node [OF n this] show ?case by blast
next
  case (close s h w r s')
  then show ?case using close_node by blast
next
  case (crash s h)
  then show ?case using crashed_node by blast
next
  case (torn_crash s h path t)
  then show ?case using torn_node by blast
qed

definition node_files :: "node \<Rightarrow> (string \<times> bytes) list" where
  "node_files n = (case n of Up s \<Rightarrow> spFiles s | Down fs \<Rightarrow> fs)"

lemma node_view: "node_inv J xs n h \<Longrightarrow> spool_view J (node_files n) = xs"
  by (cases n) (auto simp: node_up node_down node_files_def view_inv view_disk)

text \<open>A small codec and a disk on which everything works, for the concrete runs below.\<close>

definition tiny_codec :: event_codec where
  "tiny_codec = \<lparr> ecMarshal = (\<lambda>e. if Sequence e < 256 then Some [word_of_nat (Sequence e)] else None),
     ecUnmarshal = (\<lambda>p. Some (zero_event\<lparr> Sequence := unat (hd p) \<rparr>)), ecSequence = (\<lambda>p. Some (unat (hd p))) \<rparr>"

definition good_disk :: disk_world where
  "good_disk = \<lparr> dwOk = (\<lambda>_. True), dwWrite = (\<lambda>_. None), dwRead = (\<lambda>_. ReadOk), dwClock = (\<lambda>_. 0) \<rparr>"

definition tiny_options :: spool_options where
  "tiny_options = \<lparr> soDir = ''spool'', soMaxSize = 1000, soSegmentSize = 100, soSyncOnWrite = True, soSyncInterval = 0 \<rparr>"

lemma tiny_codec_ok: "codec_ok tiny_codec"
  by (auto simp: codec_ok_def tiny_codec_def unat_of_nat split: if_splits)

lemma good_disk_whole: "whole_writes good_disk"
  by (simp add: whole_writes_def good_disk_def)

definition tiny_spool :: spool where
  "tiny_spool = snd (Open tiny_codec good_disk tiny_options [] 0)"

definition tiny_event :: "nat \<Rightarrow> event" where
  "tiny_event n = zero_event\<lparr> Sequence := n \<rparr>"

lemmas run_simps = and_then_def syscall_def ask_def syncDir_def sync_def put_file_def file_of_def recount_def publishMetrics_def
  set_active_def Let_def good_disk_def tiny_codec_def tiny_options_def

lemma tiny_open: "Open tiny_codec good_disk tiny_options [] 0 = (Inr (), tiny_spool)"
  "tiny_spool = (zero_spool tiny_options 0 [] 4)"
proof -
  have "Open tiny_codec good_disk tiny_options [] 0 = (Inr (), zero_spool tiny_options 0 [] 4)"
    by (simp add: Open_def recover_def normalize_options_def zero_spool_def readCheckpoint_def use_checkpoint_def sort_segs_def
        dropAckedSegments_def advanceAckCursor_def open_last_def enforceMaxSize_def run_simps)
  then show "Open tiny_codec good_disk tiny_options [] 0 = (Inr (), tiny_spool)" "tiny_spool = zero_spool tiny_options 0 [] 4"
    by (simp_all add: tiny_spool_def)
qed

definition tiny_appended :: spool where
  "tiny_appended = snd (Append tiny_codec good_disk (Some (tiny_event 5)) tiny_spool)"

lemma tiny_append: "Append tiny_codec good_disk (Some (tiny_event 5)) tiny_spool = (Inr (), tiny_appended)"
  "tiny_appended = (zero_spool tiny_options 0 [(segmentName 5, encodeRecord [5])] 9)
    \<lparr> spSegs := [\<lparr> sgPath = segmentName 5, sgBase = 5, sgLast = 5, sgCount = 1, sgSize = 13, sgReported = 0, sgUndecodable = 0 \<rparr>],
      spW := Some (segmentName 5), spLastSeq := 5, spFirstPending := 5, spPending := 1, spBytes := 13, smSpoolBytes := 13, smSpoolEvents := 1 \<rparr>"
proof -
  have e: "Append tiny_codec good_disk (Some (tiny_event 5)) tiny_spool = (Inr (), (zero_spool tiny_options 0 [(segmentName 5, encodeRecord [5])] 9)
    \<lparr> spSegs := [\<lparr> sgPath = segmentName 5, sgBase = 5, sgLast = 5, sgCount = 1, sgSize = 13, sgReported = 0, sgUndecodable = 0 \<rparr>],
      spW := Some (segmentName 5), spLastSeq := 5, spFirstPending := 5, spPending := 1, spBytes := 13, smSpoolBytes := 13, smSpoolEvents := 1 \<rparr>)"
    unfolding tiny_open(2)
    by (simp add: Append_def tiny_event_def needs_roll_def roll_def write_record_def maybeSync_def enforceMaxSize_def zero_spool_def
        maxRecordSize_def recordHeaderSize_def run_simps)
  show "Append tiny_codec good_disk (Some (tiny_event 5)) tiny_spool = (Inr (), tiny_appended)"
    "tiny_appended = (zero_spool tiny_options 0 [(segmentName 5, encodeRecord [5])] 9)
    \<lparr> spSegs := [\<lparr> sgPath = segmentName 5, sgBase = 5, sgLast = 5, sgCount = 1, sgSize = 13, sgReported = 0, sgUndecodable = 0 \<rparr>],
      spW := Some (segmentName 5), spLastSeq := 5, spFirstPending := 5, spPending := 1, spBytes := 13, smSpoolBytes := 13, smSpoolEvents := 1 \<rparr>"
    unfolding tiny_appended_def e by simp_all
qed

definition tiny_history :: spool_history where
  "tiny_history = \<lparr> hStored = [(5, [5])], hOffered = 5, hAcked = 0, hReported = [], hForgotten = [] \<rparr>"

lemma tiny_run: "spool_run tiny_codec (Up tiny_appended) tiny_history"
proof -
  have "spool_run tiny_codec (Up tiny_spool) no_history" by (rule spool_run.opened [OF spool_run.fresh_dir tiny_open(1)])
  from spool_run.append [OF this good_disk_whole _ _ tiny_append(1)]
  have "spool_run tiny_codec (Up tiny_appended) (after_append tiny_codec (tiny_event 5) (Inr ()) tiny_appended no_history)"
    by (simp add: no_history_def tiny_event_def max64_def)
  then show ?thesis by (simp add: after_append_def tiny_event_def no_history_def tiny_history_def tiny_codec_def)
qed

subsection \<open>Properties\<close>




lemma tiny_read: "\<exists>s'. NextAfter tiny_codec good_disk 0 10 tiny_appended = (Inr [tiny_event 5], s')"
proof -
  have "walk (ecSequence tiny_codec) ReadOk (Some (encodeRecord [5])) 0 (next_step tiny_codec 5 0 10) ([], 0, 0, 0) =
      intact_walk (next_step tiny_codec 5 0 10) 0 [(5, [5])] (zero_stats 0) ([], 0, 0, 0)"
    using walk_intact(2) [of "ecSequence tiny_codec" "[(5, [5])]" 0 "next_step tiny_codec 5 0 10" "([], 0, 0, 0)"]
    by (simp add: record_ok_def tiny_codec_def maxRecordSize_def)
  also have "\<dots> = (False, (zero_stats 0)\<lparr> wsCount := 1, wsValidEnd := 13 \<rparr>, [tiny_event 5], 0, 0, 0)"
    by (simp add: intact_walk_def next_step_def tiny_codec_def tiny_event_def zero_stats_def recordHeaderSize_def)
  finally show ?thesis
    by (simp add: NextAfter_def tiny_append(2) zero_spool_def good_disk_def reportNewDamage_def zero_stats_def ask_def)
qed



lemma tiny_ack: "\<exists>s'. Ack_spool tiny_codec good_disk 5 tiny_appended = (Inr (), s') \<and> spAckedThrough s' = 5 \<and> spPending s' = 0"
  unfolding tiny_append(2)
  by (simp add: Ack_spool_def writeCheckpoint_def cleanup_def dropAckedSegments_def advanceAckCursor_def remove_file_def errors_of_def
      zero_spool_def checkpointName_def checkpointTemp_def segmentName_def segmentSuffix_def run_simps)





end
