(* ===== verification/Mem_Backlog.thy ===== *)
theory Mem_Backlog
  imports Events
begin

section \<open>The memory backlog\<close>

text \<open>
  \<^verbatim>\<open>SauronAgent/internal/agent/sender.go\<close>: the list of unacknowledged events an agent without a spool
  delivers from. The channel \<^verbatim>\<open>slots\<close> is the number of tokens in it and its capacity. \<open>Reserve\<close> waits in a
  \<^verbatim>\<open>select\<close>; \<open>pick\<close> says which of two ready cases it takes, and \<open>Blocked\<close> that none is ready. \<open>Search\<close> is
  the binary search of Go's package \<^verbatim>\<open>sort\<close>.
\<close>

record memBacklog =
  mbSlots :: nat
  mbCap :: nat
  mbEvents :: "event list"
  mbLastSeq :: nat

datatype reserve_outcome = Reserved | Cancelled | Blocked

datatype mem_error = MemNilEvent | MemNotGreater nat nat

definition newMemBacklog :: "int \<Rightarrow> memBacklog" where
  "newMemBacklog maxUnacked =
     \<lparr> mbSlots = 0, mbCap = nat (if maxUnacked \<le> 0 then 1 else maxUnacked), mbEvents = [], mbLastSeq = 0 \<rparr>"

definition mb_Reserve :: "bool \<Rightarrow> bool \<Rightarrow> memBacklog \<Rightarrow> reserve_outcome \<times> memBacklog" where
  "mb_Reserve pick ctxDone b =
     (if mbSlots b < mbCap b \<and> (pick \<or> \<not> ctxDone) then (Reserved, b\<lparr> mbSlots := mbSlots b + 1 \<rparr>)
      else if ctxDone then (Cancelled, b)
      else (Blocked, b))"

definition mb_Release :: "memBacklog \<Rightarrow> memBacklog" where
  "mb_Release b = (if mbSlots b > 0 then b\<lparr> mbSlots := mbSlots b - 1 \<rparr> else b)"

definition mb_Append :: "event option \<Rightarrow> memBacklog \<Rightarrow> (mem_error, unit) result \<times> memBacklog" where
  "mb_Append eo b =
     (case eo of
        None \<Rightarrow> (Inl MemNilEvent, b)
      | Some e \<Rightarrow>
          if Sequence e \<le> mbLastSeq b then (Inl (MemNotGreater (Sequence e) (mbLastSeq b)), b)
          else (Inr (), b\<lparr> mbEvents := mbEvents b @ [e], mbLastSeq := Sequence e \<rparr>))"

function search_loop :: "(nat \<Rightarrow> bool) \<Rightarrow> nat \<Rightarrow> nat \<Rightarrow> nat" where
  "search_loop f i j =
     (if i < j
      then let h = (i + j) div 2 in if \<not> f h then search_loop f (h + 1) j else search_loop f i h
      else i)"
  by pat_completeness auto
termination
  by (relation "measure (\<lambda>(f, i, j). j - i)") auto

declare search_loop.simps [simp del]

definition Search :: "nat \<Rightarrow> (nat \<Rightarrow> bool) \<Rightarrow> nat" where
  "Search n f = search_loop f 0 n"

definition mb_NextAfter :: "nat \<Rightarrow> int \<Rightarrow> memBacklog \<Rightarrow> event list" where
  "mb_NextAfter through maxi b =
     (if maxi \<le> 0 then []
      else
        let start = Search (length (mbEvents b)) (\<lambda>i. Sequence (mbEvents b ! i) > through);
            m = (if maxi > int (length (mbEvents b)) - int start then int (length (mbEvents b)) - int start else maxi)
        in take (nat m) (drop start (mbEvents b)))"

definition mb_Next :: "int \<Rightarrow> memBacklog \<Rightarrow> event list" where
  "mb_Next maxi b = mb_NextAfter 0 maxi b"

definition mb_discard :: "nat \<Rightarrow> memBacklog \<Rightarrow> memBacklog" where
  "mb_discard seq b =
     (let i = Search (length (mbEvents b)) (\<lambda>i. Sequence (mbEvents b ! i) \<ge> seq) in
      if i < length (mbEvents b) \<and> Sequence (mbEvents b ! i) = seq
      then mb_Release (b\<lparr> mbEvents := take i (mbEvents b) @ drop (Suc i) (mbEvents b) \<rparr>)
      else b)"

fun acked_prefix :: "nat \<Rightarrow> event list \<Rightarrow> nat" where
  "acked_prefix seq [] = 0"
| "acked_prefix seq (e # es) = (if Sequence e \<le> seq then Suc (acked_prefix seq es) else 0)"

definition mb_Ack :: "nat \<Rightarrow> memBacklog \<Rightarrow> memBacklog" where
  "mb_Ack seq b =
     (let n = acked_prefix seq (mbEvents b) in (mb_Release ^^ n) (b\<lparr> mbEvents := drop n (mbEvents b) \<rparr>))"

definition mb_FirstUnacked :: "memBacklog \<Rightarrow> nat" where
  "mb_FirstUnacked b = (case mbEvents b of [] \<Rightarrow> inc64 (mbLastSeq b) | e # es \<Rightarrow> Sequence e)"

definition mb_LastSequence :: "memBacklog \<Rightarrow> nat" where
  "mb_LastSequence b = mbLastSeq b"

definition mb_PendingCount :: "memBacklog \<Rightarrow> nat" where
  "mb_PendingCount b = length (mbEvents b)"

definition mb_Bytes :: "memBacklog \<Rightarrow> nat" where
  "mb_Bytes b = 0"

subsection \<open>Binary search\<close>

lemma search_loop_spec:
  assumes "i \<le> j" "\<And>a b. i \<le> a \<Longrightarrow> a \<le> b \<Longrightarrow> b < j \<Longrightarrow> f a \<Longrightarrow> f b"
  shows "i \<le> search_loop f i j \<and> search_loop f i j \<le> j \<and> (\<forall>k. i \<le> k \<and> k < search_loop f i j \<longrightarrow> \<not> f k) \<and>
    (\<forall>k. search_loop f i j \<le> k \<and> k < j \<longrightarrow> f k)"
  using assms
proof (induction f i j rule: search_loop.induct)
  case (1 f i j)
  define h where "h = (i + j) div 2"
  note ih = 1(1) [OF _ refl, folded h_def] 1(2) [OF _ refl, folded h_def]
  show ?case
  proof (cases "i < j")
    case lt: True
    then have h: "i \<le> h" "h < j" "h + 1 \<le> j" by (auto simp: h_def)
    note eq = search_loop.simps [of f i j, folded h_def]
    show ?thesis
    proof (cases "f h")
      case True
      have eq: "search_loop f i j = search_loop f i h" using lt True by (simp add: eq h_def [symmetric])
      have "f b" if "i \<le> a" "a \<le> b" "b < h" "f a" for a b by (rule 1(4) [OF that(1,2) less_trans [OF that(3) h(2)] that(4)])
      then have r: "i \<le> search_loop f i h \<and> search_loop f i h \<le> h \<and> (\<forall>k. i \<le> k \<and> k < search_loop f i h \<longrightarrow> \<not> f k) \<and>
          (\<forall>k. search_loop f i h \<le> k \<and> k < h \<longrightarrow> f k)" using ih(2) [OF lt] True h(1) by blast
      have up: "f k" if "h \<le> k" "k < j" for k by (rule 1(4) [OF h(1) that True])
      have "f k" if "search_loop f i h \<le> k" "k < j" for k using r up that by (cases "k < h") simp_all
      then show ?thesis unfolding eq using r h(2) by simp
    next
      case False
      have eq: "search_loop f i j = search_loop f (h + 1) j" using lt False by (simp add: eq h_def [symmetric])
      have "f b" if "h + 1 \<le> a" "a \<le> b" "b < j" "f a" for a b using 1(4) [OF _ that(2-4)] that(1) h(1) by simp
      then have r: "h + 1 \<le> search_loop f (h + 1) j \<and> search_loop f (h + 1) j \<le> j \<and> (\<forall>k. h + 1 \<le> k \<and> k < search_loop f (h + 1) j \<longrightarrow> \<not> f k) \<and>
          (\<forall>k. search_loop f (h + 1) j \<le> k \<and> k < j \<longrightarrow> f k)" using ih(1) [OF lt False h(3)] by blast
      have low: "\<not> f k" if "i \<le> k" "k \<le> h" for k using 1(4) [OF that h(2)] False by blast
      have "\<not> f k" if "i \<le> k" "k < search_loop f (h + 1) j" for k using r low that by (cases "k \<le> h") simp_all
      then show ?thesis unfolding eq using r h(1) by simp
    qed
  next
    case False
    then have "search_loop f i j = i" by (simp only: search_loop.simps [of f i j] if_False)
    then show ?thesis using 1(3) False by auto
  qed
qed

lemma Search_spec:
  assumes "\<forall>a b. a \<le> b \<longrightarrow> b < n \<longrightarrow> f a \<longrightarrow> f b"
  shows "Search n f \<le> n" "k < Search n f \<Longrightarrow> \<not> f k" "Search n f \<le> k \<Longrightarrow> k < n \<Longrightarrow> f k"
proof -
  have "f b" if "0 \<le> a" "a \<le> b" "b < n" "f a" for a b using assms that by blast
  note s = search_loop_spec [of 0 n f, OF le0 this, folded Search_def]
  show "Search n f \<le> n" "k < Search n f \<Longrightarrow> \<not> f k" "Search n f \<le> k \<Longrightarrow> k < n \<Longrightarrow> f k" using s by simp_all
qed

lemma Search_filter:
  assumes mono: "\<forall>a b. a \<le> b \<longrightarrow> b < length xs \<longrightarrow> P (xs ! a) \<longrightarrow> P (xs ! b)"
  shows "drop (Search (length xs) (\<lambda>i. P (xs ! i))) xs = filter P xs"
    "take (Search (length xs) (\<lambda>i. P (xs ! i))) xs = filter (\<lambda>x. \<not> P x) xs"
proof -
  define k where "k = Search (length xs) (\<lambda>i. P (xs ! i))"
  have k: "k \<le> length xs" "\<forall>i. i < k \<longrightarrow> \<not> P (xs ! i)" "\<forall>i. k \<le> i \<longrightarrow> i < length xs \<longrightarrow> P (xs ! i)"
    unfolding k_def using Search_spec [OF mono] by blast+
  have "\<forall>x \<in> set (take k xs). \<not> P x" using k(1,2) by (auto simp: in_set_conv_nth)
  then have t: "filter P (take k xs) = []" "filter (\<lambda>x. \<not> P x) (take k xs) = take k xs" by (simp_all add: filter_empty_conv filter_id_conv)
  have "\<forall>x \<in> set (drop k xs). P x" using k(1,3) by (auto simp: in_set_conv_nth)
  then have d: "filter P (drop k xs) = drop k xs" "filter (\<lambda>x. \<not> P x) (drop k xs) = []" by (simp_all add: filter_empty_conv filter_id_conv)
  have "filter Q xs = filter Q (take k xs) @ filter Q (drop k xs)" for Q by (metis append_take_drop_id filter_append)
  from this [of P] this [of "\<lambda>x. \<not> P x"]
  show "drop (Search (length xs) (\<lambda>i. P (xs ! i))) xs = filter P xs" "take (Search (length xs) (\<lambda>i. P (xs ! i))) xs = filter (\<lambda>x. \<not> P x) xs"
    unfolding k_def [symmetric] t d by simp_all
qed

subsection \<open>The invariant\<close>

definition increasing :: "event list \<Rightarrow> bool" where
  "increasing es \<longleftrightarrow> sorted_wrt (\<lambda>a b. Sequence a < Sequence b) es"

lemma increasing_nth: "increasing es \<Longrightarrow> a \<le> b \<Longrightarrow> b < length es \<Longrightarrow> Sequence (es ! a) \<le> Sequence (es ! b)"
  unfolding increasing_def by (cases "a = b") (auto dest: sorted_wrt_nth_less [of _ _ a b] intro: less_imp_le)

lemma increasing_append:
  "increasing (xs @ ys) \<longleftrightarrow> increasing xs \<and> increasing ys \<and> (\<forall>x \<in> set xs. \<forall>y \<in> set ys. Sequence x < Sequence y)"
  by (simp add: increasing_def sorted_wrt_append)

lemma increasing_inj: "increasing es \<Longrightarrow> x \<in> set es \<Longrightarrow> y \<in> set es \<Longrightarrow> Sequence x = Sequence y \<Longrightarrow> x = y"
  by (induction es) (auto simp: increasing_def)

lemma increasing_filter: "increasing es \<Longrightarrow> increasing (filter P es)"
  by (simp add: increasing_def sorted_wrt_filter)

lemma increasing_drop_take: "increasing es \<Longrightarrow> increasing (drop n es)" "increasing es \<Longrightarrow> increasing (take n es)"
  by (simp_all add: increasing_def sorted_wrt_drop sorted_wrt_take)

lemma drop_acked_prefix: "increasing es \<Longrightarrow> drop (acked_prefix seq es) es = filter (\<lambda>e. seq < Sequence e) es"
proof (induction es)
  case (Cons e es)
  have "\<forall>x \<in> set es. Sequence e < Sequence x" using Cons.prems by (simp add: increasing_def)
  then have "filter (\<lambda>x. seq < Sequence x) es = es" if "seq < Sequence e" using that by (auto simp: filter_id_conv)
  then show ?case using Cons by (cases "Sequence e \<le> seq") (simp_all add: increasing_def)
qed simp

lemma acked_prefix_le: "acked_prefix seq es \<le> length es"
  by (induction es) auto

text \<open>\<open>reserved\<close> is the number of slots taken by \<open>Reserve\<close> for events that are not appended yet.\<close>

definition mem_ok :: "nat \<Rightarrow> nat \<Rightarrow> memBacklog \<Rightarrow> bool" where
  "mem_ok reserved N b \<longleftrightarrow> increasing (mbEvents b) \<and> (\<forall>e \<in> set (mbEvents b). 0 < Sequence e \<and> Sequence e \<le> mbLastSeq b) \<and>
     mbLastSeq b \<le> N \<and> N \<le> max64 \<and> length (mbEvents b) + reserved \<le> mbSlots b \<and> mbSlots b \<le> mbCap b"

lemma release_fields [simp]:
  "mbEvents (mb_Release b) = mbEvents b" "mbLastSeq (mb_Release b) = mbLastSeq b" "mbCap (mb_Release b) = mbCap b"
  "mbSlots (mb_Release b) = mbSlots b - 1"
  by (simp_all add: mb_Release_def)

lemma releases_fields [simp]:
  "mbEvents ((mb_Release ^^ n) b) = mbEvents b" "mbLastSeq ((mb_Release ^^ n) b) = mbLastSeq b"
  "mbCap ((mb_Release ^^ n) b) = mbCap b" "mbSlots ((mb_Release ^^ n) b) = mbSlots b - n"
  by (induction n) simp_all

lemma mem_ok_new: "mem_ok 0 0 (newMemBacklog n)"
  by (simp add: mem_ok_def newMemBacklog_def increasing_def)

lemma mem_ok_reserve: "mem_ok k N b \<Longrightarrow> mb_Reserve pick d b = (r, b') \<Longrightarrow> mem_ok (if r = Reserved then Suc k else k) N b'"
  by (auto simp: mem_ok_def mb_Reserve_def split: if_splits)

lemma mem_ok_release: "mem_ok (Suc k) N b \<Longrightarrow> mem_ok k N (mb_Release b)"
  by (auto simp: mem_ok_def)

lemma mem_ok_append:
  assumes ok: "mem_ok (Suc k) N b" and e: "N < Sequence e" "Sequence e \<le> max64"
  shows "mb_Append (Some e) b = (Inr (), b\<lparr> mbEvents := mbEvents b @ [e], mbLastSeq := Sequence e \<rparr>)"
    "mem_ok k (Sequence e) (snd (mb_Append (Some e) b))"
proof -
  have lt: "\<not> Sequence e \<le> mbLastSeq b" using ok e by (simp add: mem_ok_def)
  then show eq: "mb_Append (Some e) b = (Inr (), b\<lparr> mbEvents := mbEvents b @ [e], mbLastSeq := Sequence e \<rparr>)" by (simp add: mb_Append_def)
  have "\<forall>x \<in> set (mbEvents b). Sequence x < Sequence e" using ok lt by (auto simp: mem_ok_def)
  then show "mem_ok k (Sequence e) (snd (mb_Append (Some e) b))" using ok lt e
    by (auto simp: eq mem_ok_def increasing_append) (auto simp: increasing_def)
qed

lemma mem_ok_ack:
  assumes ok: "mem_ok k N b"
  shows "mbEvents (mb_Ack n b) = filter (\<lambda>e. n < Sequence e) (mbEvents b)" "mem_ok k N (mb_Ack n b)" "mbLastSeq (mb_Ack n b) = mbLastSeq b"
    "mbCap (mb_Ack n b) = mbCap b"
proof -
  let ?n = "acked_prefix n (mbEvents b)"
  show ev: "mbEvents (mb_Ack n b) = filter (\<lambda>e. n < Sequence e) (mbEvents b)"
    using ok by (simp add: mb_Ack_def Let_def mem_ok_def drop_acked_prefix)
  show l: "mbLastSeq (mb_Ack n b) = mbLastSeq b" "mbCap (mb_Ack n b) = mbCap b" by (simp_all add: mb_Ack_def Let_def)
  have "mbEvents (mb_Ack n b) = drop ?n (mbEvents b)" "mbSlots (mb_Ack n b) = mbSlots b - ?n" by (simp_all add: mb_Ack_def Let_def)
  then have "length (mbEvents (mb_Ack n b)) + k \<le> mbSlots (mb_Ack n b)" "mbSlots (mb_Ack n b) \<le> mbSlots b"
    using ok acked_prefix_le [of n "mbEvents b"] by (auto simp: mem_ok_def)
  then show "mem_ok k N (mb_Ack n b)" using ok unfolding mem_ok_def l by (simp add: ev increasing_filter)
qed

lemma mem_ok_discard:
  assumes ok: "mem_ok k N b"
  shows "mbEvents (mb_discard q b) = filter (\<lambda>e. Sequence e \<noteq> q) (mbEvents b)" "mem_ok k N (mb_discard q b)" "mbLastSeq (mb_discard q b) = mbLastSeq b"
    "mbCap (mb_discard q b) = mbCap b"
proof -
  let ?es = "mbEvents b"
  define i where "i = Search (length ?es) (\<lambda>i. Sequence (?es ! i) \<ge> q)"
  have inc: "increasing ?es" using ok by (simp add: mem_ok_def)
  have mono: "\<forall>a c. a \<le> c \<longrightarrow> c < length ?es \<longrightarrow> q \<le> Sequence (?es ! a) \<longrightarrow> q \<le> Sequence (?es ! c)"
    using increasing_nth [OF inc] le_trans by blast
  have s: "drop i ?es = filter (\<lambda>e. q \<le> Sequence e) ?es" "take i ?es = filter (\<lambda>e. \<not> q \<le> Sequence e) ?es"
    using Search_filter [of ?es "\<lambda>e. q \<le> Sequence e", OF mono] by (simp_all only: i_def)
  have split: "filter (\<lambda>e. Sequence e \<noteq> q) ?es = take i ?es @ filter (\<lambda>e. Sequence e \<noteq> q) (drop i ?es)"
  proof -
    have "\<forall>x \<in> set (take i ?es). Sequence x \<noteq> q" using s(2) by auto
    then have "filter (\<lambda>e. Sequence e \<noteq> q) (take i ?es) = take i ?es" by (simp add: filter_id_conv)
    then show ?thesis by (metis append_take_drop_id filter_append)
  qed
  show ev: "mbEvents (mb_discard q b) = filter (\<lambda>e. Sequence e \<noteq> q) ?es"
  proof (cases "i < length ?es \<and> Sequence (?es ! i) = q")
    case True
    then have d: "drop i ?es = ?es ! i # drop (Suc i) ?es" by (simp add: Cons_nth_drop_Suc)
    have "\<forall>x \<in> set (drop (Suc i) ?es). q < Sequence x" using increasing_drop_take(1) [OF inc, of i] True by (simp add: d increasing_def)
    then have "filter (\<lambda>e. Sequence e \<noteq> q) (drop i ?es) = drop (Suc i) ?es" using True by (auto simp: d filter_id_conv)
    then show ?thesis unfolding split using True by (simp add: mb_discard_def Let_def i_def [symmetric])
  next
    case False
    have "\<forall>x \<in> set (drop i ?es). Sequence x \<noteq> q"
    proof
      fix x assume x: "x \<in> set (drop i ?es)"
      then have il: "i < length ?es" using not_less by fastforce
      then have d: "drop i ?es = ?es ! i # drop (Suc i) ?es" by (simp add: Cons_nth_drop_Suc)
      have "?es ! i \<in> set (drop i ?es)" by (simp add: d)
      then have "q \<le> Sequence (?es ! i)" unfolding s(1) by simp
      then have "q < Sequence (?es ! i)" using False il by simp
      moreover have "Sequence (?es ! i) \<le> Sequence x" using x increasing_drop_take(1) [OF inc, of i] by (auto simp: d increasing_def)
      ultimately show "Sequence x \<noteq> q" by simp
    qed
    then have "filter (\<lambda>e. Sequence e \<noteq> q) (drop i ?es) = drop i ?es" by (simp add: filter_id_conv)
    then show ?thesis unfolding split using False by (auto simp: mb_discard_def Let_def i_def [symmetric])
  qed
  show l: "mbLastSeq (mb_discard q b) = mbLastSeq b" "mbCap (mb_discard q b) = mbCap b" by (simp_all add: mb_discard_def Let_def)
  have n: "length (mbEvents (mb_discard q b)) + k \<le> mbSlots (mb_discard q b)" "mbSlots (mb_discard q b) \<le> mbSlots b"
    using ok by (auto simp: mb_discard_def Let_def mem_ok_def)
  then show "mem_ok k N (mb_discard q b)" using ok unfolding mem_ok_def l by (simp add: ev increasing_filter)
qed

lemma mem_next:
  assumes ok: "mem_ok k N b"
  shows "mb_NextAfter through m b = take (nat m) (filter (\<lambda>e. through < Sequence e) (mbEvents b))"
proof -
  let ?es = "mbEvents b"
  have inc: "increasing ?es" using ok by (simp add: mem_ok_def)
  have mono: "\<forall>a c. a \<le> c \<longrightarrow> c < length ?es \<longrightarrow> through < Sequence (?es ! a) \<longrightarrow> through < Sequence (?es ! c)"
    using increasing_nth [OF inc] less_le_trans by blast
  note s = Search_filter(1) [of ?es "\<lambda>e. through < Sequence e", OF mono]
  let ?i = "Search (length ?es) (\<lambda>i. Sequence (?es ! i) > through)"
  have "take (nat m) (drop ?i ?es) = drop ?i ?es" if "int (length ?es) - int ?i < m" using that by simp
  moreover have "?i \<le> length ?es" using Search_spec(1) [of "length ?es" "\<lambda>i. through < Sequence (?es ! i)", OF mono] by simp
  then have "nat (int (length ?es) - int ?i) = length ?es - ?i" by linarith
  ultimately show ?thesis by (auto simp: mb_NextAfter_def Let_def s [symmetric])
qed

end
