(* ===== verification/Backlog.thy ===== *)
theory Backlog
  imports Mem_Backlog Spool_Guarantees
begin

section \<open>The backlog interface\<close>

text \<open>
  \<^verbatim>\<open>SauronAgent/internal/agent/sender.go\<close>: the interface \<^verbatim>\<open>backlog\<close> the sender delivers from. The locale
  states its contract: \<open>inv k N\<close> holds when \<open>k\<close> slots are reserved and no sequence above \<open>N\<close> has been
  offered, \<open>view\<close> is what a read can return, \<open>acked\<close> a bound on what was acknowledged, and \<open>lost\<close> tells the
  sequences the implementation accounts for as lost. It is interpreted on the memory backlog, on the
  disk spool, and on the value of interface type, which is either of them.
\<close>

locale backlog_contract =
  fixes inv :: "nat \<Rightarrow> nat \<Rightarrow> 's \<Rightarrow> bool"
    and view :: "'s \<Rightarrow> event list"
    and acked :: "'s \<Rightarrow> nat"
    and lost :: "'s \<Rightarrow> nat \<Rightarrow> bool"
    and reserve :: "bool \<Rightarrow> bool \<Rightarrow> 's \<Rightarrow> reserve_outcome \<times> 's"
    and release :: "'s \<Rightarrow> 's"
    and append :: "event \<Rightarrow> 's \<Rightarrow> ('e, unit) result \<times> 's"
    and read :: "nat \<Rightarrow> int \<Rightarrow> 's \<Rightarrow> ('e, event list) result \<times> 's"
    and ack :: "nat \<Rightarrow> 's \<Rightarrow> ('e, unit) result \<times> 's"
    and last_seq :: "'s \<Rightarrow> nat"
    and count :: "'s \<Rightarrow> nat"
  assumes view_law: "inv k N s \<Longrightarrow> increasing (view s) \<and> (\<forall>e \<in> set (view s). 0 < Sequence e \<and> Sequence e \<le> last_seq s)"
    and bound_law: "inv k N s \<Longrightarrow> last_seq s \<le> N \<and> N \<le> max64 \<and> acked s \<le> last_seq s"
    and mono_law: "inv k N s \<Longrightarrow> N \<le> M \<Longrightarrow> M \<le> max64 \<Longrightarrow> inv k M s"
    and count_law: "inv k N s \<Longrightarrow> count s = 0 \<Longrightarrow> view s = []"
    and reserve_law: "inv k N s \<Longrightarrow> reserve p d s = (ro, s') \<Longrightarrow> inv (if ro = Reserved then Suc k else k) N s' \<and>
      view s' = view s \<and> acked s' = acked s \<and> lost s' = lost s \<and> last_seq s' = last_seq s"
    and release_law: "inv (Suc k) N s \<Longrightarrow> inv k N (release s) \<and>
      view (release s) = view s \<and> acked (release s) = acked s \<and> lost (release s) = lost s \<and> last_seq (release s) = last_seq s"
    and append_law: "inv (Suc k) N s \<Longrightarrow> N < Sequence e \<Longrightarrow> Sequence e \<le> max64 \<Longrightarrow> append e s = (r, s') \<Longrightarrow>
      inv (if r = Inr () then k else Suc k) (Sequence e) s' \<and> acked s' = acked s \<and> (\<forall>q. lost s q \<longrightarrow> lost s' q) \<and>
      (\<forall>x \<in> set (view s). acked s < Sequence x \<longrightarrow> x \<in> set (view s') \<or> lost s' (Sequence x)) \<and>
      (\<forall>x \<in> set (view s'). x \<in> set (view s) \<or> Sequence x = Sequence e \<or> Sequence x \<le> acked s) \<and>
      (r = Inr () \<longrightarrow> Sequence e \<in> Sequence ` set (view s'))"
    and read_law: "inv k N s \<Longrightarrow> read t m s = (rr, s') \<Longrightarrow> inv k N s' \<and> view s' = view s \<and> acked s' = acked s \<and>
      lost s' = lost s \<and> last_seq s' = last_seq s \<and>
      (\<forall>es. rr = Inr es \<longrightarrow> es = take (nat m) (filter (\<lambda>e. t < Sequence e) (view s)))"
    and ack_law: "inv k N s \<Longrightarrow> ack n s = (r, s') \<Longrightarrow> inv k N s' \<and> last_seq s' = last_seq s \<and> lost s' = lost s \<and>
      acked s \<le> acked s' \<and> acked s' \<le> max (acked s) n \<and> (\<forall>x \<in> set (view s'). x \<in> set (view s) \<or> Sequence x \<le> acked s') \<and>
      (\<forall>x \<in> set (view s). max (acked s) n < Sequence x \<longrightarrow> x \<in> set (view s'))"
begin

text \<open>A read returns events after its cursor, in order, and skips none of them.\<close>

lemma read_sound:
  assumes "inv k N s" "read t m s = (Inr es, s')"
  shows "increasing es" "set es \<subseteq> set (view s)" "\<forall>e \<in> set es. t < Sequence e"
proof -
  have es: "es = take (nat m) (filter (\<lambda>e. t < Sequence e) (view s))" using read_law [OF assms] by simp
  show "increasing es" using view_law [OF assms(1)] by (simp add: es increasing_filter increasing_drop_take)
  have "set es \<subseteq> set (filter (\<lambda>e. t < Sequence e) (view s))" unfolding es by (rule set_take_subset)
  then show "set es \<subseteq> set (view s)" "\<forall>e \<in> set es. t < Sequence e" by auto
qed

lemma read_no_gap:
  assumes i: "inv k N s" and r: "read t m s = (Inr es, s')" and e: "e \<in> set (view s)" "t < Sequence e"
    and x: "x \<in> set es" "Sequence e \<le> Sequence x"
  shows "e \<in> set es"
proof -
  let ?l = "filter (\<lambda>e. t < Sequence e) (view s)"
  have es: "es = take (nat m) ?l" using read_law [OF i r] by simp
  have "increasing ?l" using view_law [OF i] by (simp add: increasing_filter)
  then have "increasing (es @ drop (nat m) ?l)" unfolding es append_take_drop_id .
  then have "\<forall>y \<in> set (drop (nat m) ?l). Sequence x < Sequence y" using x(1) by (simp add: increasing_append)
  moreover have "e \<in> set (es @ drop (nat m) ?l)" unfolding es append_take_drop_id using e by simp
  ultimately show ?thesis using x(2) by fastforce
qed

lemma read_nonempty:
  assumes "inv k N s" "read t m s = (Inr es, s')" "0 < m" "e \<in> set (view s)" "t < Sequence e"
  shows "es \<noteq> []"
proof -
  have "e \<in> set (filter (\<lambda>e. t < Sequence e) (view s))" using assms by simp
  then have "filter (\<lambda>e. t < Sequence e) (view s) \<noteq> []" by (metis empty_iff list.set(1))
  moreover have "nat m \<noteq> 0" using assms(3) by simp
  ultimately show ?thesis using read_law [OF assms(1,2)] by simp
qed

end

subsection \<open>The memory backlog\<close>

interpretation mem: backlog_contract mem_ok mbEvents "\<lambda>b. 0" "\<lambda>b q. False" mb_Reserve mb_Release "\<lambda>e. mb_Append (Some e)"
  "\<lambda>t m b. (Inr (mb_NextAfter t m b), b)" "\<lambda>n b. (Inr (), mb_Ack n b)" mb_LastSequence mb_PendingCount
proof (unfold_locales, goal_cases)
  case (5 k N s p d r s')
  then show ?case using mem_ok_reserve [OF 5(1,2)] by (auto simp: mb_Reserve_def mb_LastSequence_def split: if_splits)
next
  case (6 k N s)
  then show ?case using mem_ok_release by (simp add: mb_LastSequence_def)
next
  case (7 k N s e r s')
  note a = mem_ok_append [OF 7(1-3)]
  have r: "r = Inr ()" "s' = s\<lparr> mbEvents := mbEvents s @ [e], mbLastSeq := Sequence e \<rparr>" using 7(4) a(1) by simp_all
  have "mem_ok k (Sequence e) s'" using a(2) 7(4) by simp
  then show ?case unfolding r by simp
next
  case (8 k N s t m r s')
  then show ?case using mem_next [OF 8(1)] by auto
next
  case (9 k N s n r s')
  then show ?case using mem_ok_ack [OF 9(1), of n] by (auto simp: mb_LastSequence_def)
qed (auto simp: mem_ok_def mb_LastSequence_def mb_PendingCount_def)

subsection \<open>The disk spool\<close>

text \<open>
  The two decoders of the spool agree on the sequence of a record: \<open>ecSequence\<close> reads the field
  \<open>ecUnmarshal\<close> puts into the event.
\<close>

definition codec_agrees :: "event_codec \<Rightarrow> bool" where
  "codec_agrees J \<longleftrightarrow> (\<forall>p e q. ecUnmarshal J p = Some e \<longrightarrow> ecSequence J p = Some q \<longrightarrow> Sequence e = q)"

definition sp_ok :: "event_codec \<Rightarrow> disk_world \<Rightarrow> nat \<Rightarrow> nat \<Rightarrow> spool \<Rightarrow> bool" where
  "sp_ok J w k N s \<longleftrightarrow> codec_ok J \<and> codec_agrees J \<and> whole_writes w \<and> N \<le> max64 \<and> (\<exists>A rss. spool_inv J A rss s) \<and>
     spLastSeq s \<le> N \<and> (\<forall>g \<in> set (spSegs s). sgBase g \<le> N)"

definition sp_records :: "event_codec \<Rightarrow> spool \<Rightarrow> (nat \<times> bytes) list" where
  "sp_records J s = wanted (spFirstPending s) 0 (drop (spAckedInFirst s) (spool_view J (spFiles s)))"

definition sp_view :: "event_codec \<Rightarrow> spool \<Rightarrow> event list" where
  "sp_view J s = map (decoded J) (sp_records J s)"

lemma sp_records_inv: "spool_inv J A rss s \<Longrightarrow> sp_records J s = wanted (spFirstPending s) 0 (drop (spAckedInFirst s) (concat rss))"
  by (simp add: sp_records_def view_inv)

lemma records_ok: "spool_inv J A rss s \<Longrightarrow> x \<in> set (concat rss) \<Longrightarrow> rec_ok J x"
  using seg_runs [OF spool_core]
  by (fastforce simp: list_all2_conv_all_nth seg_ok_def list_all_iff in_set_conv_nth [of _ rss])

lemma sp_records_sub: "spool_inv J A rss s \<Longrightarrow> set (sp_records J s) \<subseteq> set (concat rss)"
  by (auto simp: sp_records_inv wanted_def simp del: set_concat dest: in_set_dropD)

lemma decoded_seq: "codec_agrees J \<Longrightarrow> rec_ok J x \<Longrightarrow> Sequence (decoded J x) = fst x"
  by (auto simp: rec_ok_def record_ok_def decoded_def codec_agrees_def)

lemma sp_records_seq: "codec_agrees J \<Longrightarrow> spool_inv J A rss s \<Longrightarrow> x \<in> set (sp_records J s) \<Longrightarrow> Sequence (decoded J x) = fst x"
  using decoded_seq records_ok sp_records_sub by blast

lemma sp_view_seq:
  assumes "codec_agrees J" "spool_inv J A rss s"
  shows "e \<in> set (sp_view J s) \<longleftrightarrow> (\<exists>x \<in> set (sp_records J s). e = decoded J x \<and> Sequence e = fst x)"
  unfolding sp_view_def set_map image_iff by (rule bex_cong) (auto simp: sp_records_seq [OF assms])

lemma sp_view_pending:
  assumes c: "codec_agrees J" and i: "spool_inv J A rss s" and x: "x \<in> set (concat rss)" "spAckedThrough s < fst x"
  shows "decoded J x \<in> set (sp_view J s)"
proof -
  have "x \<in> set (wanted (spFirstPending s) (spAckedThrough s) (drop (spAckedInFirst s) (concat rss)))"
    unfolding wanted_exact [OF i order_refl] using x by (simp only: set_filter mem_Collect_eq)
  then have "x \<in> set (sp_records J s)" unfolding sp_records_inv [OF i] by (auto simp: wanted_def)
  then show ?thesis by (simp add: sp_view_def)
qed

lemma sp_view_increasing:
  assumes c: "codec_agrees J" and i: "spool_inv J A rss s"
  shows "increasing (sp_view J s)"
proof -
  have "rising (concat rss)" using i by (simp add: spool_invs)
  then have "sorted_wrt (<) (map fst (sp_records J s))"
    unfolding sp_records_inv [OF i] wanted_def rising_def sorted_wrt_map by (intro sorted_wrt_filter sorted_wrt_drop)
  moreover have "map fst (sp_records J s) = map Sequence (sp_view J s)"
    unfolding sp_view_def map_map comp_def by (rule map_cong) (simp_all add: sp_records_seq [OF c i])
  ultimately show ?thesis by (simp add: increasing_def sorted_wrt_map)
qed

lemma sp_same:
  assumes "spool_inv J A rss s" "same_core s s' \<and> same_loss s s'"
  shows "spool_inv J A rss s'" "sp_view J s' = sp_view J s" "covers s' = covers s" "spAckedThrough s' = spAckedThrough s"
    "spLastSeq s' = spLastSeq s" "spSegs s' = spSegs s"
  using same_result [OF assms(2,1)] assms covers_same by (auto simp: sp_view_def sp_records_def same_core_def)

lemma sp_append_law:
  assumes ok: "sp_ok J w (Suc k) N s" and e: "N < Sequence e" "Sequence e \<le> max64" and a: "Append J w (Some e) s = (r, s')"
  shows "sp_ok J w (if r = Inr () then k else Suc k) (Sequence e) s' \<and> spAckedThrough s' = spAckedThrough s \<and> (\<forall>q. covers s q \<longrightarrow> covers s' q) \<and>
      (\<forall>x \<in> set (sp_view J s). spAckedThrough s < Sequence x \<longrightarrow> x \<in> set (sp_view J s') \<or> covers s' (Sequence x)) \<and>
      (\<forall>x \<in> set (sp_view J s'). x \<in> set (sp_view J s) \<or> Sequence x = Sequence e \<or> Sequence x \<le> spAckedThrough s) \<and>
      (r = Inr () \<longrightarrow> Sequence e \<in> Sequence ` set (sp_view J s'))"
proof -
  obtain A rss where i: "spool_inv J A rss s" using ok by (auto simp: sp_ok_def)
  have J: "codec_ok J" "codec_agrees J" "whole_writes w" using ok by (simp_all add: sp_ok_def)
  have "\<forall>g \<in> set (spSegs s). sgBase g \<le> Sequence e" using ok e(1) unfolding sp_ok_def by (meson le_trans less_imp_le)
  then obtain rss2 new j where "append_end J A rss e s rss2 new j r s'" using Append_inv [OF i J(1) e(2) _ J(3) a] by blast
  note ae = this [unfolded append_end_def]
  have i': "spool_inv J A (drop j rss2) s'" using ae by blast
  have last: "spLastSeq s < Sequence e" "spAckedThrough s \<le> spLastSeq s" using ok e(1) i by (auto simp: sp_ok_def spool_invs)
  have keep: "x \<in> set (sp_view J s') \<or> covers s' (Sequence x)" if x: "x \<in> set (sp_view J s)" "spAckedThrough s < Sequence x" for x
  proof -
    obtain y where y: "y \<in> set (sp_records J s)" "x = decoded J y" "Sequence x = fst y" using x(1) sp_view_seq [OF J(2) i] by blast
    then have "y \<in> set (concat rss2)" using ae sp_records_sub [OF i] by auto
    then have "y \<in> set (concat (take j rss2)) \<or> y \<in> set (concat (drop j rss2))"
      by (metis append_take_drop_id concat_append set_append Un_iff)
    then show ?thesis
    proof
      assume "y \<in> set (concat (take j rss2))"
      then show ?thesis using ae x(2) y(3) by fastforce
    next
      assume m: "y \<in> set (concat (drop j rss2))"
      show ?thesis using sp_view_pending [OF J(2) i' m] ae x(2) y by simp
    qed
  qed
  have old: "x \<in> set (sp_view J s) \<or> Sequence x = Sequence e \<or> Sequence x \<le> spAckedThrough s" if x: "x \<in> set (sp_view J s')" for x
  proof -
    obtain y where y: "y \<in> set (sp_records J s')" "x = decoded J y" "Sequence x = fst y" using x sp_view_seq [OF J(2) i'] by blast
    have "y \<in> set (concat (drop j rss2))" using y(1) sp_records_sub [OF i'] by blast
    then have "y \<in> set (concat rss2)" by (metis append_take_drop_id concat_append set_append Un_iff)
    then have "y \<in> set (concat rss) \<or> fst y = Sequence e" using ae by auto
    then show ?thesis using sp_view_pending [OF J(2) i, of y] y(2,3) ae by fastforce
  qed
  have new: "Sequence e \<in> Sequence ` set (sp_view J s')" if ri: "r = Inr ()"
  proof -
    obtain p where p: "new = [(Sequence e, p)]" using ae ri by blast
    then have m: "(Sequence e, p) \<in> set (concat (drop j rss2))" using ae by simp
    have "decoded J (Sequence e, p) \<in> set (sp_view J s')" using sp_view_pending [OF J(2) i' m] ae last by simp
    moreover have "Sequence (decoded J (Sequence e, p)) = Sequence e" using decoded_seq [OF J(2) records_ok [OF i' m]] by simp
    ultimately show ?thesis by (metis image_eqI)
  qed
  have "spLastSeq s' \<le> Sequence e" using ae last by auto
  then have "sp_ok J w k' (Sequence e) s'" for k' using ae i' J e(2) by (auto simp: sp_ok_def)
  then show ?thesis using ae keep old new by auto
qed

lemma sp_read_law:
  assumes ok: "sp_ok J w k N s" and n: "NextAfter J w t m s = (r, s')"
  shows "sp_ok J w k N s' \<and> sp_view J s' = sp_view J s \<and> spAckedThrough s' = spAckedThrough s \<and> covers s' = covers s \<and>
    spLastSeq s' = spLastSeq s \<and> (\<forall>es. r = Inr es \<longrightarrow> es = take (nat m) (filter (\<lambda>e. t < Sequence e) (sp_view J s)))"
proof -
  obtain A rss where i: "spool_inv J A rss s" using ok by (auto simp: sp_ok_def)
  have c: "codec_agrees J" using ok by (simp add: sp_ok_def)
  note sm = sp_same [OF i NextAfter_spec(1) [OF i n]]
  let ?d = "drop (spAckedInFirst s) (concat rss)"
  have "map (decoded J) (wanted (spFirstPending s) t ?d) = filter (\<lambda>e. t < Sequence e) (sp_view J s)"
  proof -
    have "wanted (spFirstPending s) t ?d = filter (\<lambda>x. t < fst x) (sp_records J s)"
      unfolding sp_records_inv [OF i] wanted_def filter_filter by (intro filter_cong) auto
    also have "\<dots> = filter (\<lambda>x. t < Sequence (decoded J x)) (sp_records J s)"
      by (rule filter_cong) (simp_all add: sp_records_seq [OF c i])
    finally show ?thesis by (simp add: sp_view_def filter_map comp_def)
  qed
  then have "es = take (nat m) (filter (\<lambda>e. t < Sequence e) (sp_view J s))" if "r = Inr es" for es
    using NextAfter_spec(2) [OF i n that] by simp
  then show ?thesis using ok sm by (auto simp: sp_ok_def)
qed

lemma sp_ack_law:
  assumes ok: "sp_ok J w k N s" and a: "Ack_spool J w n s = (r, s')"
  shows "sp_ok J w k N s' \<and> spLastSeq s' = spLastSeq s \<and> covers s' = covers s \<and>
      spAckedThrough s \<le> spAckedThrough s' \<and> spAckedThrough s' \<le> max (spAckedThrough s) n \<and>
      (\<forall>x \<in> set (sp_view J s'). x \<in> set (sp_view J s) \<or> Sequence x \<le> spAckedThrough s') \<and>
      (\<forall>x \<in> set (sp_view J s). max (spAckedThrough s) n < Sequence x \<longrightarrow> x \<in> set (sp_view J s'))"
proof -
  obtain A rss where i: "spool_inv J A rss s" using ok by (auto simp: sp_ok_def)
  have c: "codec_agrees J" using ok by (simp add: sp_ok_def)
  obtain j where j: "spool_inv J (max A (min n (spLastSeq s))) (drop j rss) s'" "\<forall>x \<in> set (concat (take j rss)). fst x \<le> spAckedThrough s'"
    "spAckedThrough s' \<le> max (spAckedThrough s) (min n (spLastSeq s))" "spLastSeq s' = spLastSeq s" "same_loss s s'" "set (spSegs s') \<subseteq> set (spSegs s)"
    "spAckedThrough s \<le> spAckedThrough s'"
    by (rule Ack_spool_inv [OF i a])
  have le: "spAckedThrough s' \<le> max (spAckedThrough s) n" using j(3) by simp
  have "x \<in> set (sp_view J s')" if x: "x \<in> set (sp_view J s)" "max (spAckedThrough s) n < Sequence x" for x
  proof -
    obtain y where y: "y \<in> set (sp_records J s)" "x = decoded J y" "Sequence x = fst y" using x(1) sp_view_seq [OF c i] by blast
    then have "y \<in> set (concat rss)" using sp_records_sub [OF i] by blast
    then have "y \<in> set (concat (take j rss)) \<or> y \<in> set (concat (drop j rss))" by (metis append_take_drop_id concat_append set_append Un_iff)
    moreover have "y \<notin> set (concat (take j rss))" using j(2) le x(2) y(3) by fastforce
    ultimately have m: "y \<in> set (concat (drop j rss))" by blast
    show ?thesis using sp_view_pending [OF c j(1) m] le x(2) y by simp
  qed
  moreover have "x \<in> set (sp_view J s) \<or> Sequence x \<le> spAckedThrough s'" if x: "x \<in> set (sp_view J s')" for x
  proof -
    obtain y where y: "y \<in> set (sp_records J s')" "x = decoded J y" "Sequence x = fst y" using x sp_view_seq [OF c j(1)] by blast
    have "y \<in> set (concat (drop j rss))" using y(1) sp_records_sub [OF j(1)] by blast
    then have "y \<in> set (concat rss)" by (metis append_take_drop_id concat_append set_append Un_iff)
    then show ?thesis using sp_view_pending [OF c i, of y] y(2,3) j(7) by fastforce
  qed
  moreover have "sp_ok J w k N s'" using ok j(1,4,6) by (auto simp: sp_ok_def)
  ultimately show ?thesis using j(4,5,7) le covers_same by auto
qed

interpretation disk: backlog_contract "sp_ok J w" "sp_view J" spAckedThrough covers "\<lambda>p d s. (Reserved, s)" "\<lambda>s. s" "\<lambda>e. Append J w (Some e)"
  "NextAfter J w" "Ack_spool J w" LastSequence PendingCount for J w
proof (unfold_locales, goal_cases)
  case (1 k N s)
  then obtain A rss where i: "spool_inv J A rss s" and c: "codec_agrees J" by (auto simp: sp_ok_def)
  have le: "\<forall>x \<in> set (concat rss). fst x \<le> spLastSeq s" using i by (auto simp: spool_invs)
  have "0 < Sequence e \<and> Sequence e \<le> LastSequence s" if e: "e \<in> set (sp_view J s)" for e
  proof -
    obtain x where x: "x \<in> set (sp_records J s)" "Sequence e = fst x" using e sp_view_seq [OF c i] by blast
    have "x \<in> set (concat rss)" using x(1) sp_records_sub [OF i] by blast
    then show ?thesis using x le by (auto simp: LastSequence_def sp_records_def wanted_def)
  qed
  then show ?case using sp_view_increasing [OF c i] by simp
next
  case (4 k N s)
  then obtain A rss where i: "spool_inv J A rss s" by (auto simp: sp_ok_def)
  then have "drop (spAckedInFirst s) (concat rss) = []" using 4(2) by (simp add: PendingCount_def spool_inv_def counts_inv_def)
  then show ?case by (simp add: sp_view_def sp_records_inv [OF i] wanted_def)
next
  case (7 k N s e r s')
  then show ?case by (rule sp_append_law)
next
  case (8 k N s t m r s')
  then show ?case using sp_read_law by (simp add: LastSequence_def)
next
  case (9 k N s n r s')
  then show ?case using sp_ack_law by (simp add: LastSequence_def)
next
  case (2 k N s)
  then show ?case by (auto simp: sp_ok_def LastSequence_def spool_invs)
next
  case (3 k N s M)
  then show ?case unfolding sp_ok_def by (meson le_trans)
qed (auto simp: sp_ok_def)

subsection \<open>A value of the interface\<close>

datatype backlog = SpoolBacklog spool | MemBacklog memBacklog

datatype backlog_error = SpoolError spool_error | MemError mem_error

definition lift_result :: "('e \<Rightarrow> 'f) \<Rightarrow> ('s \<Rightarrow> 't) \<Rightarrow> ('e, 'a) result \<times> 's \<Rightarrow> ('f, 'a) result \<times> 't" where
  "lift_result err state x = ((case fst x of Inl e \<Rightarrow> Inl (err e) | Inr a \<Rightarrow> Inr a), state (snd x))"

definition bl_Reserve :: "bool \<Rightarrow> bool \<Rightarrow> backlog \<Rightarrow> reserve_outcome \<times> backlog" where
  "bl_Reserve pick ctxDone b = (case b of
     SpoolBacklog s \<Rightarrow> (Reserved, b)
   | MemBacklog m \<Rightarrow> let (r, m') = mb_Reserve pick ctxDone m in (r, MemBacklog m'))"

definition bl_Release :: "backlog \<Rightarrow> backlog" where
  "bl_Release b = (case b of SpoolBacklog s \<Rightarrow> b | MemBacklog m \<Rightarrow> MemBacklog (mb_Release m))"

definition bl_Append :: "event_codec \<Rightarrow> disk_world \<Rightarrow> event \<Rightarrow> backlog \<Rightarrow> (backlog_error, unit) result \<times> backlog" where
  "bl_Append J w e b = (case b of
     SpoolBacklog s \<Rightarrow> lift_result SpoolError SpoolBacklog (Append J w (Some e) s)
   | MemBacklog m \<Rightarrow> lift_result MemError MemBacklog (mb_Append (Some e) m))"

definition bl_NextAfter :: "event_codec \<Rightarrow> disk_world \<Rightarrow> nat \<Rightarrow> int \<Rightarrow> backlog \<Rightarrow> (backlog_error, event list) result \<times> backlog" where
  "bl_NextAfter J w through maxi b = (case b of
     SpoolBacklog s \<Rightarrow> lift_result SpoolError SpoolBacklog (NextAfter J w through maxi s)
   | MemBacklog m \<Rightarrow> (Inr (mb_NextAfter through maxi m), b))"

definition bl_Ack :: "event_codec \<Rightarrow> disk_world \<Rightarrow> nat \<Rightarrow> backlog \<Rightarrow> (backlog_error, unit) result \<times> backlog" where
  "bl_Ack J w seq b = (case b of
     SpoolBacklog s \<Rightarrow> lift_result SpoolError SpoolBacklog (Ack_spool J w seq s)
   | MemBacklog m \<Rightarrow> (Inr (), MemBacklog (mb_Ack seq m)))"

definition bl_FirstUnacked :: "backlog \<Rightarrow> nat" where
  "bl_FirstUnacked b = (case b of SpoolBacklog s \<Rightarrow> FirstUnacked s | MemBacklog m \<Rightarrow> mb_FirstUnacked m)"

definition bl_LastSequence :: "backlog \<Rightarrow> nat" where
  "bl_LastSequence b = (case b of SpoolBacklog s \<Rightarrow> LastSequence s | MemBacklog m \<Rightarrow> mb_LastSequence m)"

definition bl_PendingCount :: "backlog \<Rightarrow> nat" where
  "bl_PendingCount b = (case b of SpoolBacklog s \<Rightarrow> PendingCount s | MemBacklog m \<Rightarrow> mb_PendingCount m)"

definition bl_Bytes :: "backlog \<Rightarrow> nat" where
  "bl_Bytes b = (case b of SpoolBacklog s \<Rightarrow> Bytes s | MemBacklog m \<Rightarrow> mb_Bytes m)"

definition bl_ok :: "event_codec \<Rightarrow> disk_world \<Rightarrow> nat \<Rightarrow> nat \<Rightarrow> backlog \<Rightarrow> bool" where
  "bl_ok J w k N b = (case b of SpoolBacklog s \<Rightarrow> sp_ok J w k N s | MemBacklog m \<Rightarrow> mem_ok k N m)"

definition bl_view :: "event_codec \<Rightarrow> backlog \<Rightarrow> event list" where
  "bl_view J b = (case b of SpoolBacklog s \<Rightarrow> sp_view J s | MemBacklog m \<Rightarrow> mbEvents m)"

definition bl_acked :: "backlog \<Rightarrow> nat" where
  "bl_acked b = (case b of SpoolBacklog s \<Rightarrow> spAckedThrough s | MemBacklog m \<Rightarrow> 0)"

definition bl_lost :: "backlog \<Rightarrow> nat \<Rightarrow> bool" where
  "bl_lost b = (case b of SpoolBacklog s \<Rightarrow> covers s | MemBacklog m \<Rightarrow> (\<lambda>q. False))"

lemmas bl_defs = bl_Reserve_def bl_Release_def bl_Append_def bl_NextAfter_def bl_Ack_def bl_LastSequence_def bl_PendingCount_def
  bl_ok_def bl_view_def bl_acked_def bl_lost_def

interpretation blg: backlog_contract "bl_ok J w" "bl_view J" bl_acked bl_lost bl_Reserve bl_Release "bl_Append J w" "bl_NextAfter J w"
  "bl_Ack J w" bl_LastSequence bl_PendingCount for J w
proof (unfold_locales, goal_cases)
  case (1 k N s)
  then show ?case using disk.view_law mem.view_law by (cases s) (auto simp: bl_defs)
next
  case (2 k N s)
  then show ?case using disk.bound_law mem.bound_law by (cases s) (auto simp: bl_defs)
next
  case (3 k N s M)
  then show ?case using disk.mono_law mem.mono_law by (cases s) (auto simp: bl_defs)
next
  case (4 k N s)
  then show ?case using disk.count_law mem.count_law by (cases s) (auto simp: bl_defs)
next
  case (5 k N s p d ro s')
  show ?case
  proof (cases s)
    case (SpoolBacklog x)
    then show ?thesis using 5 disk.reserve_law by (auto simp: bl_defs)
  next
    case (MemBacklog x)
    obtain m' where m: "mb_Reserve p d x = (ro, m')" "s' = MemBacklog m'" using 5(2) MemBacklog by (auto simp: bl_defs split: prod.splits)
    then show ?thesis using 5(1) mem.reserve_law [OF _ m(1)] MemBacklog by (auto simp: bl_defs)
  qed
next
  case (6 k N s)
  then show ?case using disk.release_law mem.release_law by (cases s) (auto simp: bl_defs)
next
  case (7 k N s e r s')
  show ?case
  proof (cases s)
    case (SpoolBacklog x)
    obtain r0 x' where a: "Append J w (Some e) x = (r0, x')" by fastforce
    then have x': "s' = SpoolBacklog x'" "r = Inr () \<longleftrightarrow> r0 = Inr ()"
      using 7(4) SpoolBacklog by (auto simp: bl_defs lift_result_def split: sum.splits)
    have "sp_ok J w (Suc k) N x" using 7(1) SpoolBacklog by (simp add: bl_defs)
    from disk.append_law [OF this 7(2,3) a] show ?thesis using x' SpoolBacklog by (simp add: bl_defs)
  next
    case (MemBacklog x)
    obtain r0 x' where a: "mb_Append (Some e) x = (r0, x')" by fastforce
    then have x': "s' = MemBacklog x'" "r = Inr () \<longleftrightarrow> r0 = Inr ()"
      using 7(4) MemBacklog by (auto simp: bl_defs lift_result_def split: sum.splits)
    have "mem_ok (Suc k) N x" using 7(1) MemBacklog by (simp add: bl_defs)
    from mem.append_law [OF this 7(2,3) a] show ?thesis using x' MemBacklog by (simp add: bl_defs)
  qed
next
  case (8 k N s t m rr s')
  show ?case
  proof (cases s)
    case (SpoolBacklog x)
    obtain r0 x' where a: "NextAfter J w t m x = (r0, x')" by fastforce
    then have x': "s' = SpoolBacklog x'" "\<forall>es. rr = Inr es \<longleftrightarrow> r0 = Inr es"
      using 8(2) SpoolBacklog by (auto simp: bl_defs lift_result_def split: sum.splits)
    have "sp_ok J w k N x" using 8(1) SpoolBacklog by (simp add: bl_defs)
    from disk.read_law [OF this a] show ?thesis using x' SpoolBacklog by (simp add: bl_defs)
  next
    case (MemBacklog x)
    then have "mem_ok k N x" "rr = Inr (mb_NextAfter t m x)" "s' = s" using 8 by (simp_all add: bl_defs)
    then show ?thesis using 8(1) mem.read_law [OF _ refl, of k N x t m] MemBacklog by (simp add: bl_defs)
  qed
next
  case (9 k N s n r s')
  show ?case
  proof (cases s)
    case (SpoolBacklog x)
    obtain r0 x' where a: "Ack_spool J w n x = (r0, x')" by fastforce
    then have x': "s' = SpoolBacklog x'" using 9(2) SpoolBacklog by (simp add: bl_defs lift_result_def)
    have "sp_ok J w k N x" using 9(1) SpoolBacklog by (simp add: bl_defs)
    from disk.ack_law [OF this a] show ?thesis using x' SpoolBacklog by (simp add: bl_defs)
  next
    case (MemBacklog x)
    then have "mem_ok k N x" "s' = MemBacklog (mb_Ack n x)" using 9 by (simp_all add: bl_defs)
    then show ?thesis using mem.ack_law [OF _ refl, of k N x n] MemBacklog by (simp add: bl_defs)
  qed
qed

end
