(* ===== verification/Agent_Config.thy ===== *)
theory Agent_Config
  imports Host_Config Complex_Main
begin

section \<open>The agent's configuration\<close>

text \<open>
  \<^verbatim>\<open>SauronAgent/internal/config/agent.go\<close>: the sections of the guest-side configuration, the values
  compiled into the agent, and the checks \<open>Validate\<close> applies, one error per check in the order of
  the code. Durations are nanoseconds and sizes bytes. A \<^verbatim>\<open>float64\<close> is one of the special values or
  the rational number it stands for, and \<open>fl_less\<close> is Go's \<^verbatim>\<open><\<close>, which is false as soon as one side is
  not a number.
\<close>

datatype float64 = NaN | NegInf | PosInf | Finite rat

fun fl_less :: "float64 \<Rightarrow> float64 \<Rightarrow> bool" where
  "fl_less NaN y = False"
| "fl_less x NaN = False"
| "fl_less NegInf y = (y \<noteq> NegInf)"
| "fl_less x NegInf = False"
| "fl_less PosInf y = False"
| "fl_less x PosInf = True"
| "fl_less (Finite a) (Finite b) = (a < b)"

definition fl_le :: "float64 \<Rightarrow> float64 \<Rightarrow> bool" where
  "fl_le x y \<longleftrightarrow> fl_less x y \<or> (x = y \<and> x \<noteq> NaN)"

definition VMADDR_CID_HOST :: nat where
  "VMADDR_CID_HOST = 2"

record AuditSection =
  auEnabled :: bool
  auManageRules :: bool
  auPreserveRaw :: bool
  auCorrelationTimeout :: int
  auMaxPendingEvents :: int
  auSocketReceiveBuffer :: int
  auExcludeTypes :: "string list"

record TransportSection =
  trKind :: string
  trTCPAddress :: string
  trMaxPayloadSize :: int
  trWriteTimeout :: int
  trAckTimeout :: int
  trMaxUnacked :: int

record VSOCKSection =
  vsCID :: nat
  vsPort :: nat

record SpoolSection =
  splEnabled :: bool
  splPath :: string
  splMaxSize :: int
  splSegmentSize :: int
  splSyncOnWrite :: bool
  splSyncInterval :: int

record HeartbeatSection =
  hbInterval :: int
  hbTimeout :: int

record ReconnectSection =
  rcInitialDelay :: int
  rcMaxDelay :: int
  rcMultiplier :: float64
  rcJitter :: float64

record agent_config =
  acName :: string
  acAudit :: AuditSection
  acTransport :: TransportSection
  acVSOCK :: VSOCKSection
  acQueueCapacity :: int
  acSpool :: SpoolSection
  acHeartbeat :: HeartbeatSection
  acReconnect :: ReconnectSection
  acLogging :: LoggingSection

text \<open>The literal \<^verbatim>\<open>0.2\<close> is the closest binary fraction.\<close>

definition DefaultAgent :: agent_config where
  "DefaultAgent = \<lparr>
     acName = ''sauronagent'',
     acAudit = \<lparr> auEnabled = True, auManageRules = True, auPreserveRaw = True, auCorrelationTimeout = 2000000000,
       auMaxPendingEvents = 4096, auSocketReceiveBuffer = 8 * 2 ^ 20, auExcludeTypes = [] \<rparr>,
     acTransport = \<lparr> trKind = TransportVSOCK, trTCPAddress = [], trMaxPayloadSize = 2 ^ 20,
       trWriteTimeout = 10000000000, trAckTimeout = 60000000000, trMaxUnacked = 1024 \<rparr>,
     acVSOCK = \<lparr> vsCID = VMADDR_CID_HOST, vsPort = 9000 \<rparr>,
     acQueueCapacity = 10000,
     acSpool = \<lparr> splEnabled = True, splPath = ''/var/lib/sauronagent/spool'', splMaxSize = 2 ^ 30,
       splSegmentSize = 16 * 2 ^ 20, splSyncOnWrite = False, splSyncInterval = 1000000000 \<rparr>,
     acHeartbeat = \<lparr> hbInterval = 30000000000, hbTimeout = 90000000000 \<rparr>,
     acReconnect = \<lparr> rcInitialDelay = 100000000, rcMaxDelay = 10000000000, rcMultiplier = Finite 2,
       rcJitter = Finite (3602879701896397 / 18014398509481984) \<rparr>,
     acLogging = \<lparr> logLevel = ''info'', logFormat = ''text'', logOutput = ''stderr'' \<rparr> \<rparr>"

datatype agent_config_error =
    BadQueueCapacity | BadMaxPendingEvents | BadCorrelationTimeout
  | VsockPortUnset | AgentTCPAddressUnset | BadTransportKind string
  | BadTransportPayloadSize | BadMaxUnacked
  | SpoolPathUnset | SpoolPathRelative string | BadSpoolMaxSize | BadSegmentSize | SegmentExceedsMax int int
  | BadHeartbeatInterval | BadInitialDelay | BadMaxDelay | BadMultiplier | BadJitter
  | BadLogging config_error

definition IsAbs :: "string \<Rightarrow> bool" where
  "IsAbs p \<longleftrightarrow> take 1 p = ''/''"

definition validate_transport :: "TransportSection \<Rightarrow> VSOCKSection \<Rightarrow> (agent_config_error, unit) result" where
  "validate_transport t v =
     (if trKind t = TransportVSOCK then (if vsPort v = 0 then Inl VsockPortUnset else Inr ())
      else if trKind t = TransportTCP then (if trTCPAddress t = [] then Inl AgentTCPAddressUnset else Inr ())
      else Inl (BadTransportKind (trKind t)))"

definition validate_spool :: "SpoolSection \<Rightarrow> (agent_config_error, unit) result" where
  "validate_spool s =
     (if \<not> splEnabled s then Inr ()
      else if splPath s = [] then Inl SpoolPathUnset
      else if \<not> IsAbs (splPath s) then Inl (SpoolPathRelative (splPath s))
      else if splMaxSize s \<le> 0 then Inl BadSpoolMaxSize
      else if splSegmentSize s \<le> 0 then Inl BadSegmentSize
      else if splSegmentSize s > splMaxSize s then Inl (SegmentExceedsMax (splSegmentSize s) (splMaxSize s))
      else Inr ())"

definition Validate_agent :: "agent_config \<Rightarrow> (agent_config_error, unit) result" where
  "Validate_agent c =
     (if acQueueCapacity c \<le> 0 then Inl BadQueueCapacity
      else if auMaxPendingEvents (acAudit c) \<le> 0 then Inl BadMaxPendingEvents
      else if auCorrelationTimeout (acAudit c) \<le> 0 then Inl BadCorrelationTimeout
      else case validate_transport (acTransport c) (acVSOCK c) of Inl e \<Rightarrow> Inl e | Inr _ \<Rightarrow>
      if trMaxPayloadSize (acTransport c) \<le> 0 then Inl BadTransportPayloadSize
      else if trMaxUnacked (acTransport c) \<le> 0 then Inl BadMaxUnacked
      else case validate_spool (acSpool c) of Inl e \<Rightarrow> Inl e | Inr _ \<Rightarrow>
      if hbInterval (acHeartbeat c) \<le> 0 then Inl BadHeartbeatInterval
      else if rcInitialDelay (acReconnect c) \<le> 0 then Inl BadInitialDelay
      else if rcMaxDelay (acReconnect c) < rcInitialDelay (acReconnect c) then Inl BadMaxDelay
      else if fl_less (rcMultiplier (acReconnect c)) (Finite 1) then Inl BadMultiplier
      else if fl_less (rcJitter (acReconnect c)) (Finite 0) \<or> fl_le (Finite 1) (rcJitter (acReconnect c)) then Inl BadJitter
      else case validateLogging (acLogging c) of Inl e \<Rightarrow> Inl (BadLogging e) | Inr _ \<Rightarrow> Inr ())"

lemma valid_agent_facts:
  assumes "Validate_agent c = Inr ()"
  shows "0 < acQueueCapacity c" "0 < trMaxUnacked (acTransport c)" "0 < trMaxPayloadSize (acTransport c)" "0 < hbInterval (acHeartbeat c)"
    "splEnabled (acSpool c) \<Longrightarrow> 0 < splSegmentSize (acSpool c) \<and> splSegmentSize (acSpool c) \<le> splMaxSize (acSpool c)"
  using assms by (auto simp: Validate_agent_def validate_spool_def split: sum.splits if_splits)

text \<open>The configuration compiled into the agent passes its own validation.\<close>

lemma default_agent_valid: "Validate_agent DefaultAgent = Inr ()"
  by (simp add: Validate_agent_def DefaultAgent_def validate_transport_def validate_spool_def validateLogging_def
      IsAbs_def fl_le_def TransportVSOCK_def)

end
