(* ===== verification/Sender.thy ===== *)
theory Sender
  imports Backlog Frame Messages Event_Queue Agent_Config
begin

section \<open>The sender\<close>

text \<open>
  \<^verbatim>\<open>SauronAgent/internal/agent/sender.go\<close>: the loop that connects to the collector, delivers the
  backlog and applies acknowledgements. The goroutines of a session share the record \<open>sender\<close>; every
  locked or atomic section is a function on it, and the theory \<^verbatim>\<open>Agent\<close> interleaves them. The
  connection is the one of theory \<^verbatim>\<open>Frame\<close>. What the link and the clock answer is a function of the number
  of the question (\<open>net_world\<close>), as what the disk answers is in theory \<^verbatim>\<open>Spool\<close>; the JSON texts are the
  parameters \<open>mar\<close> and \<open>J\<close>, error texts the parameter \<open>errText\<close>. Calls into the agent (\<open>emit\<close>, \<open>resume\<close>)
  are collected in \<open>sdCalls\<close> in the order they are made; the agent runs them when the section ends. Log
  lines are not modelled.
\<close>

record identity =
  idHostname :: string
  idMachineID :: string
  idBootID :: string
  idKernel :: string
  idVersion :: string

definition maxSendBatch :: int where "maxSendBatch = 256"
definition idleWait :: int where "idleWait = 1000000000"
definition maxShutdownFlush :: int where "maxShutdownFlush = 5000000000"
definition oversizedEventReason :: string where
  "oversizedEventReason = ''event exceeds the maximum payload size and cannot be delivered''"

datatype agent_message = AgHello Hello | AgEvent EventMessage | AgPing Ping | AgShutdown Shutdown | AgError ErrorMessage

datatype sender_call = Emit event | Resume nat

datatype sender_error =
    ProtoError proto_error | HostFatal ErrorCode string | HostShutdown string | AckTimeout nat int | NoPong int
  | BacklogRead backlog_error | DialFailed | SenderClosed

record net_world =
  nwDeadline :: "nat \<Rightarrow> bool"
  nwWrite :: "nat \<Rightarrow> write_outcome"
  nwClock :: "nat \<Rightarrow> int"

record host_codec =
  hcReady :: "bytes \<Rightarrow> (Ready \<times> bytes) option"
  hcAck :: "bytes \<Rightarrow> (Ack \<times> bytes) option"
  hcPong :: "bytes \<Rightarrow> (Pong \<times> bytes) option"
  hcError :: "bytes \<Rightarrow> (ErrorMessage \<times> bytes) option"
  hcShutdown :: "bytes \<Rightarrow> (Shutdown \<times> bytes) option"

record sender =
  sdCfg :: agent_config
  sdId :: identity
  sdPeer :: string
  sdAuditEnabled :: bool
  sdStarted :: int
  sdBacklog :: backlog
  sdWake :: bool
  sdAcked :: nat
  sdHighestSent :: nat
  sdHostAhead :: nat
  sdLastPong :: int
  sdOversized :: "nat list"
  sdPruned :: nat
  sdFailed :: nat
  sdFailedLow :: nat
  sdFailedHigh :: nat
  sdConn :: "nat option"
  sdClosed :: bool
  smSent :: nat
  smResent :: nat
  smAcknowledged :: nat
  smDropped :: nat
  smSendErrors :: nat
  smReconnects :: nat
  sdCalls :: "sender_call list"

text \<open>
  What belongs to one session: the in-flight list, the cursor \<open>sentThrough\<close>, the connection, the number of
  questions put to the link so far, and, as history, the events whose \<open>Send\<close> succeeded and the sequences
  given up as too large.
\<close>

record delivery =
  dlInflight :: "nat list"
  dlSentThrough :: nat
  dlConn :: conn
  dlTick :: nat
  dlSent :: "event list"
  dlGivenUp :: "nat list"

definition newSender :: "agent_config \<Rightarrow> identity \<Rightarrow> string \<Rightarrow> bool \<Rightarrow> spool option \<Rightarrow> int \<Rightarrow> sender" where
  "newSender cfg ident peer audit sp now =
     \<lparr> sdCfg = cfg, sdId = ident, sdPeer = peer, sdAuditEnabled = audit, sdStarted = now,
       sdBacklog = (case sp of Some s \<Rightarrow> SpoolBacklog s | None \<Rightarrow> MemBacklog (newMemBacklog (trMaxUnacked (acTransport cfg)))),
       sdWake = False, sdAcked = 0, sdHighestSent = 0, sdHostAhead = 0, sdLastPong = 0, sdOversized = [], sdPruned = 0,
       sdFailed = 0, sdFailedLow = 0, sdFailedHigh = 0, sdConn = None, sdClosed = False,
       smSent = 0, smResent = 0, smAcknowledged = 0, smDropped = 0, smSendErrors = 0, smReconnects = 0, sdCalls = [] \<rparr>"

definition emit :: "event \<Rightarrow> sender \<Rightarrow> sender" where
  "emit e s = s\<lparr> sdCalls := sdCalls s @ [Emit e] \<rparr>"

definition signal :: "sender \<Rightarrow> sender" where
  "signal s = s\<lparr> sdWake := True \<rparr>"

definition payloadLimit :: "int \<Rightarrow> 32 word" where
  "payloadLimit n = (if n \<le> 0 then DefaultMaxPayloadSize else if n > uint MaxPayloadCeiling then MaxPayloadCeiling else word_of_int n)"

definition flushTimeout :: "sender \<Rightarrow> int" where
  "flushTimeout s = (let d = trAckTimeout (acTransport (sdCfg s)) in if d \<le> 0 \<or> d > maxShutdownFlush then maxShutdownFlush else d)"

subsection \<open>Connections\<close>

definition adoptConn :: "nat \<Rightarrow> sender \<Rightarrow> bool \<times> sender" where
  "adoptConn c s = (if sdClosed s then (False, s) else (True, s\<lparr> sdConn := Some c \<rparr>))"

definition dropConn :: "nat \<Rightarrow> sender \<Rightarrow> sender" where
  "dropConn c s = (if sdConn s = Some c then s\<lparr> sdConn := None \<rparr> else s)"

definition close_sender :: "sender \<Rightarrow> sender" where
  "close_sender s = s\<lparr> sdClosed := True, sdConn := None \<rparr>"

definition send_on :: "(agent_message \<Rightarrow> bytes option) \<Rightarrow> net_world \<Rightarrow> byte \<Rightarrow> nat \<Rightarrow> agent_message \<Rightarrow> delivery \<Rightarrow>
    (proto_error, unit) result \<times> delivery" where
  "send_on mar nw t seq v d =
     (let (r, c) = Send mar (nwDeadline nw (dlTick d)) (nwWrite nw (dlTick d)) t (word_of_nat seq) v (dlConn d)
      in (r, d\<lparr> dlConn := c, dlTick := dlTick d + 1 \<rparr>))"

text \<open>
  The handshake. \<open>dialed\<close> is what \<^verbatim>\<open>Dial\<close> returned: nothing, or a fresh connection, which is numbered
  \<open>c\<close> (\<open>c'\<close> when the codec is rebuilt), with the bytes the host is going to send; \<open>closing\<close> tells that
  \<open>close\<close> ran before the second \<open>adoptConn\<close>.
\<close>

definition hello_of :: "sender \<Rightarrow> Hello" where
  "hello_of s = \<lparr> hlProtocolVersion = unat Frame.Version, hlAgentVersion = idVersion (sdId s), hlHostname = idHostname (sdId s),
     hlBootID = idBootID (sdId s), hlMachineID = idMachineID (sdId s), hlKernel = idKernel (sdId s),
     hlFirstSequence = bl_FirstUnacked (sdBacklog s) \<rparr>"

definition fresh_delivery :: "reader \<Rightarrow> 32 word \<Rightarrow> nat \<Rightarrow> delivery" where
  "fresh_delivery r limit tick =
     \<lparr> dlInflight = [], dlSentThrough = 0, dlConn = NewConn r limit, dlTick = tick, dlSent = [], dlGivenUp = [] \<rparr>"

definition read_ready :: "host_codec \<Rightarrow> frame \<Rightarrow> (sender_error, Ready) result" where
  "read_ready hc f =
     (if hType (fHeader f) = MsgReady then
        (case DecodePayload (hcReady hc) (Some f) of
           Inl e \<Rightarrow> Inl (ProtoError e)
         | Inr ready \<Rightarrow>
             if rdProtocolVersion ready \<noteq> unat Frame.Version then Inl (ProtoError ErrBadVersion) else Inr ready)
      else if hType (fHeader f) = MsgError then
        (case DecodePayload (hcError hc) (Some f) of
           Inl e \<Rightarrow> Inl (ProtoError e)
         | Inr em \<Rightarrow> Inl (HostFatal (erCode em) (erMessage em)))
      else Inl (ProtoError ErrBadType))"

definition connect :: "(agent_message \<Rightarrow> bytes option) \<Rightarrow> host_codec \<Rightarrow> net_world \<Rightarrow> nat \<Rightarrow> reader option \<Rightarrow> nat \<Rightarrow> nat \<Rightarrow> bool \<Rightarrow>
    sender \<Rightarrow> (sender_error, delivery \<times> Ready) result \<times> sender" where
  "connect mar hc nw tick dialed c c' closing s =
     (case dialed of
        None \<Rightarrow> (Inl DialFailed, s)
      | Some nc \<Rightarrow>
          let limit = payloadLimit (trMaxPayloadSize (acTransport (sdCfg s)));
              d0 = fresh_delivery nc limit tick;
              (ok, s1) = adoptConn c s
          in if \<not> ok then (Inl SenderClosed, s1)
             else case send_on mar nw MsgHello 0 (AgHello (hello_of s1)) d0 of
               (Inl e, d1) \<Rightarrow> (Inl (ProtoError e), dropConn c s1)
             | (Inr _, d1) \<Rightarrow>
                 (case Receive (nwDeadline nw (dlTick d1)) (dlConn d1) of
                    (Inl e, k) \<Rightarrow> (Inl (ProtoError e), dropConn c s1)
                  | (Inr f, k) \<Rightarrow>
                      (case read_ready hc f of
                         Inl e \<Rightarrow> (Inl e, dropConn c s1)
                       | Inr ready \<Rightarrow>
                           let d2 = d1\<lparr> dlConn := k, dlTick := dlTick d1 + 1 \<rparr> in
                           if rdMaxPayloadSize ready > 0 \<and> rdMaxPayloadSize ready < unat limit
                           then let (ok', s2) = adoptConn c' (if closing then close_sender s1 else s1)
                                in if \<not> ok' then (Inl SenderClosed, s2)
                                   else (Inr (d2\<lparr> dlConn := NewConn (dR (cDec k)) (word_of_nat (rdMaxPayloadSize ready)) \<rparr>, ready), s2)
                           else (Inr (d2, ready), s1))))"

text \<open>\<open>errors.Is\<close> finds a protocol error through every wrapping; the other errors are not of that kind.\<close>

definition host_at_fault :: "sender_error option \<Rightarrow> bool" where
  "host_at_fault err = (case err of Some (ProtoError e) \<Rightarrow> IsProtocolError (Some e) | _ \<Rightarrow> False)"

definition reportFailure :: "(sender_error \<Rightarrow> string) \<Rightarrow> int \<Rightarrow> sender_error option \<Rightarrow> int \<Rightarrow> sender \<Rightarrow> bool \<times> sender" where
  "reportFailure errText now err attempt s =
     (let reason = (case err of None \<Rightarrow> ''connection closed by the host'' | Some e \<Rightarrow> errText e);
          s1 = s\<lparr> smSendErrors := inc64 (smSendErrors s) \<rparr>;
          violation = host_at_fault err;
          s2 = (if violation
                then emit (NewInternal now TypeProtocolViolation [] [(''reason'', FStr reason), (''peer'', FStr (sdPeer s))]) s1
                else s1);
          s3 = emit (NewTransportDisconnected now reason attempt) s2
      in (violation \<or> (\<exists>code msg. err = Some (HostFatal code msg)), s3))"

subsection \<open>Losses\<close>

definition pruneOversized :: "nat \<Rightarrow> sender \<Rightarrow> sender" where
  "pruneOversized through s =
     (if through \<le> sdPruned s then s
      else s\<lparr> sdOversized := filter (\<lambda>q. \<not> q \<le> through) (sdOversized s), sdPruned := through \<rparr>)"

definition isOversized :: "nat \<Rightarrow> sender \<Rightarrow> bool" where
  "isOversized seq s \<longleftrightarrow> seq \<in> set (sdOversized s)"

definition oversized_report :: "int \<Rightarrow> event \<Rightarrow> event" where
  "oversized_report now e =
     NewInternal now TypeProtocolViolation SeverityCritical
       [(''reason'', FStr oversizedEventReason), (''events_dropped'', FUint 1), (''first_missing_sequence'', FUint (Sequence e)),
        (''last_missing_sequence'', FUint (Sequence e)), (''event_type'', FStr (Type e))]"

definition is_oversized_report :: "event \<Rightarrow> bool" where
  "is_oversized_report e \<longleftrightarrow> Type e = TypeProtocolViolation \<and> map_of (Fields e) ''reason'' = Some (FStr oversizedEventReason)"

definition reportOversized :: "int \<Rightarrow> event \<Rightarrow> sender \<Rightarrow> sender" where
  "reportOversized now e s =
     (let already = isOversized (Sequence e) s;
          s1 = s\<lparr> sdOversized := List.insert (Sequence e) (sdOversized s) \<rparr>
      in if already then s1
         else let s2 = s1\<lparr> smDropped := inc64 (smDropped s1) \<rparr>
              in if is_oversized_report e then s2 else emit (oversized_report now e) s2)"

definition releaseOversized :: "nat \<Rightarrow> sender \<Rightarrow> sender" where
  "releaseOversized seq s =
     (case sdBacklog s of
        SpoolBacklog _ \<Rightarrow> s
      | MemBacklog m \<Rightarrow> s\<lparr> sdBacklog := MemBacklog (mb_discard seq m), sdOversized := removeAll seq (sdOversized s) \<rparr>)"

definition recordAppendFailure :: "event \<Rightarrow> sender \<Rightarrow> sender" where
  "recordAppendFailure e s =
     s\<lparr> smDropped := inc64 (smDropped s), sdFailed := inc64 (sdFailed s),
        sdFailedLow := (if sdFailedLow s = 0 \<or> Sequence e < sdFailedLow s then Sequence e else sdFailedLow s),
        sdFailedHigh := (if Sequence e > sdFailedHigh s then Sequence e else sdFailedHigh s) \<rparr>"

definition drainAppendFailures :: "sender \<Rightarrow> (nat \<times> nat \<times> nat) option \<times> sender" where
  "drainAppendFailures s =
     (if sdFailed s = 0 then (None, s)
      else (Some (sdFailed s, sdFailedLow s, sdFailedHigh s), s\<lparr> sdFailed := 0, sdFailedLow := 0, sdFailedHigh := 0 \<rparr>))"

subsection \<open>Acknowledgements\<close>

definition adoptHostPosition :: "nat \<Rightarrow> sender \<Rightarrow> sender" where
  "adoptHostPosition seq s =
     (if seq \<le> bl_LastSequence (sdBacklog s) then s
      else if seq \<le> sdHostAhead s then s
      else let s1 = s\<lparr> sdHostAhead := seq \<rparr> in
        if seq < max64 then s1\<lparr> sdCalls := sdCalls s1 @ [Resume seq] \<rparr> else s1)"

definition release_through :: "event_codec \<Rightarrow> disk_world \<Rightarrow> nat \<Rightarrow> sender \<Rightarrow> sender" where
  "release_through J w seq s = s\<lparr> sdBacklog := snd (bl_Ack J w seq (sdBacklog s)) \<rparr>"

definition applyAck :: "event_codec \<Rightarrow> disk_world \<Rightarrow> nat \<Rightarrow> sender \<Rightarrow> sender" where
  "applyAck J w seq s =
     (if seq = 0 then s
      else
        let s1 = release_through J w seq (adoptHostPosition seq s);
            s2 = (if seq \<le> sdAcked s1 then s1 else s1\<lparr> sdAcked := seq \<rparr>)
        in pruneOversized seq s2)"

definition reconcile :: "event_codec \<Rightarrow> disk_world \<Rightarrow> sender \<Rightarrow> sender" where
  "reconcile J w s =
     (let first = bl_FirstUnacked (sdBacklog s);
          s1 = (if first > 0 then pruneOversized (first - 1) s else s);
          through = sdAcked s1
      in if through = 0 \<or> bl_PendingCount (sdBacklog s1) = 0 \<or> first > through then s1
         else release_through J w through s1)"

definition unsent :: "nat \<Rightarrow> sender \<Rightarrow> bool" where
  "unsent sentThrough s \<longleftrightarrow> bl_PendingCount (sdBacklog s) > 0 \<and> bl_LastSequence (sdBacklog s) > sentThrough"

definition trimInflight :: "nat list \<Rightarrow> nat \<Rightarrow> nat \<times> nat list" where
  "trimInflight inflight through =
     (if through = 0 \<or> inflight = [] then (0, inflight)
      else let n = length (takeWhile (\<lambda>q. q \<le> through) inflight) in if n = 0 then (0, inflight) else (n, drop n inflight))"

subsection \<open>Dispatch\<close>

definition dispatch_read :: "event_codec \<Rightarrow> disk_world \<Rightarrow> sender \<Rightarrow> delivery \<Rightarrow> (backlog_error, event list) result \<times> sender" where
  "dispatch_read J w s d =
     (let room = trMaxUnacked (acTransport (sdCfg s)) - int (length (dlInflight d)) in
      if room \<le> 0 then (Inr [], s)
      else if \<not> unsent (dlSentThrough d) s then (Inr [], s)
      else let (r, b) = bl_NextAfter J w (dlSentThrough d) (if room > maxSendBatch then maxSendBatch else room) (sdBacklog s)
           in (r, s\<lparr> sdBacklog := b \<rparr>))"

datatype dispatch_outcome = Next | Stop | Fail proto_error

text \<open>One turn of the loop over the events read; \<open>acked\<close> is the position loaded before the loop.\<close>

definition dispatch_event :: "(agent_message \<Rightarrow> bytes option) \<Rightarrow> net_world \<Rightarrow> nat \<Rightarrow> event \<Rightarrow> sender \<Rightarrow> delivery \<Rightarrow>
    dispatch_outcome \<times> nat \<times> sender \<times> delivery" where
  "dispatch_event mar nw acked e s d =
     (if Sequence e \<le> dlSentThrough d then (Next, 0, s, d)
      else if Sequence e \<le> acked then (Next, 0, s, d\<lparr> dlSentThrough := Sequence e \<rparr>)
      else if isOversized (Sequence e) s
      then (Next, 0, releaseOversized (Sequence e) s,
            d\<lparr> dlSentThrough := Sequence e, dlGivenUp := Sequence e # dlGivenUp d \<rparr>)
      else case send_on mar nw MsgEvent (Sequence e) (AgEvent \<lparr> emEvent = Some e \<rparr>) d of
        (Inl err, d1) \<Rightarrow>
          if err = ErrPayloadTooLarge
          then (Next, 0, releaseOversized (Sequence e) (reportOversized (nwClock nw (dlTick d1)) e s),
                d1\<lparr> dlSentThrough := Sequence e, dlGivenUp := Sequence e # dlGivenUp d1 \<rparr>)
          else (Fail err, 0, s, d1)
      | (Inr _, d1) \<Rightarrow>
          let d2 = d1\<lparr> dlInflight := dlInflight d1 @ [Sequence e], dlSentThrough := Sequence e, dlSent := dlSent d1 @ [e] \<rparr>;
              s1 = s\<lparr> smSent := inc64 (smSent s) \<rparr>;
              s2 = (if Sequence e \<le> sdHighestSent s1 then s1\<lparr> smResent := inc64 (smResent s1) \<rparr>
                    else s1\<lparr> sdHighestSent := Sequence e \<rparr>)
          in (if int (length (dlInflight d2)) \<ge> trMaxUnacked (acTransport (sdCfg s)) then Stop else Next, 1, s2, d2))"

fun dispatch_loop :: "(agent_message \<Rightarrow> bytes option) \<Rightarrow> net_world \<Rightarrow> nat \<Rightarrow> event list \<Rightarrow> nat \<Rightarrow> sender \<Rightarrow> delivery \<Rightarrow>
    (sender_error, nat) result \<times> sender \<times> delivery" where
  "dispatch_loop mar nw acked [] sent s d = (Inr sent, s, d)"
| "dispatch_loop mar nw acked (e # es) sent s d =
     (case dispatch_event mar nw acked e s d of
        (Next, n, s1, d1) \<Rightarrow> dispatch_loop mar nw acked es (sent + n) s1 d1
      | (Stop, n, s1, d1) \<Rightarrow> (Inr (sent + n), s1, d1)
      | (Fail err, n, s1, d1) \<Rightarrow> (Inl (ProtoError err), s1, d1))"

definition dispatch :: "event_codec \<Rightarrow> disk_world \<Rightarrow> (agent_message \<Rightarrow> bytes option) \<Rightarrow> net_world \<Rightarrow> sender \<Rightarrow> delivery \<Rightarrow>
    (sender_error, nat) result \<times> sender \<times> delivery" where
  "dispatch J w mar nw s d =
     (case dispatch_read J w s d of
        (Inl e, s1) \<Rightarrow> (Inl (BacklogRead e), s1, d)
      | (Inr es, s1) \<Rightarrow> dispatch_loop mar nw (sdAcked s1) es 0 s1 d)"

subsection \<open>The send loop\<close>

datatype pass_outcome = PassError sender_error | PassAgain | PassWait int

definition trim_session :: "delivery \<Rightarrow> sender \<Rightarrow> nat \<times> delivery" where
  "trim_session d s = (let (n, inflight) = trimInflight (dlInflight d) (sdAcked s) in (n, d\<lparr> dlInflight := inflight \<rparr>))"

text \<open>One pass of \<open>sendLoop\<close> with the contexts alive: the outcome, the time of the last progress, and the state.\<close>

definition send_pass :: "event_codec \<Rightarrow> disk_world \<Rightarrow> (agent_message \<Rightarrow> bytes option) \<Rightarrow> net_world \<Rightarrow> int \<Rightarrow> int \<Rightarrow> sender \<Rightarrow> delivery \<Rightarrow>
    pass_outcome \<times> int \<times> sender \<times> delivery" where
  "send_pass J w mar nw now lastProgress s d =
     (let s1 = reconcile J w s;
          (n, d1) = trim_session d s1;
          s2 = (if n > 0 then s1\<lparr> smAcknowledged := add64 (smAcknowledged s1) n \<rparr> else s1);
          progress = (if n > 0 then now else lastProgress);
          timeout = trAckTimeout (acTransport (sdCfg s2));
          remaining = timeout - (now - progress);
          guarded = (dlInflight d1 \<noteq> [] \<and> timeout > 0);
          wait = (if guarded \<and> remaining < idleWait then remaining else idleWait)
      in if guarded \<and> remaining \<le> 0
         then (PassError (AckTimeout (length (dlInflight d1)) timeout), progress, s2, d1)
         else case dispatch J w mar nw s2 d1 of
           (Inl e, s3, d2) \<Rightarrow> (PassError e, progress, s3, d2)
         | (Inr sent, s3, d2) \<Rightarrow>
             (if sent > 0 \<or> dlSentThrough d2 > dlSentThrough d1 then PassAgain else PassWait wait, progress, s3, d2))"

datatype flush_outcome = FlushError sender_error | FlushAgain | FlushDone | FlushPoll

definition flush_pass :: "event_codec \<Rightarrow> disk_world \<Rightarrow> (agent_message \<Rightarrow> bytes option) \<Rightarrow> net_world \<Rightarrow> sender \<Rightarrow> delivery \<Rightarrow>
    flush_outcome \<times> sender \<times> delivery" where
  "flush_pass J w mar nw s d =
     (let s1 = reconcile J w s;
          (n, d1) = trim_session d s1
      in case dispatch J w mar nw s1 d1 of
           (Inl e, s2, d2) \<Rightarrow> (FlushError e, s2, d2)
         | (Inr sent, s2, d2) \<Rightarrow>
             (if sent > 0 \<or> dlSentThrough d2 > dlSentThrough d1 then FlushAgain
              else if dlInflight d2 = [] \<and> \<not> unsent (dlSentThrough d2) s2 then FlushDone
              else FlushPoll, s2, d2))"

definition flush_end :: "(agent_message \<Rightarrow> bytes option) \<Rightarrow> net_world \<Rightarrow> sender \<Rightarrow> delivery \<Rightarrow> delivery" where
  "flush_end mar nw s d =
     snd (send_on mar nw MsgShutdown 0 (AgShutdown \<lparr> sdReason = ''agent shutting down'', sdLastSequence = sdHighestSent s \<rparr>) d)"

subsection \<open>The receive loop and the heartbeat\<close>

definition session_start :: "event_codec \<Rightarrow> disk_world \<Rightarrow> int \<Rightarrow> Ready \<Rightarrow> sender \<Rightarrow> sender" where
  "session_start J w now ready s =
     (let s1 = (if rdResumeFrom ready > 0 then applyAck J w (rdResumeFrom ready) s else s) in s1\<lparr> sdLastPong := now \<rparr>)"

definition sendError :: "(agent_message \<Rightarrow> bytes option) \<Rightarrow> net_world \<Rightarrow> ErrorCode \<Rightarrow> string \<Rightarrow> delivery \<Rightarrow> delivery" where
  "sendError mar nw code msg d =
     snd (send_on mar nw MsgError 0 (AgError \<lparr> erCode = code, erMessage = msg, erFatal = True \<rparr>) d)"

definition recv_step :: "event_codec \<Rightarrow> disk_world \<Rightarrow> (agent_message \<Rightarrow> bytes option) \<Rightarrow> net_world \<Rightarrow> host_codec \<Rightarrow> int \<Rightarrow>
    (proto_error, frame) result \<Rightarrow> sender \<Rightarrow> delivery \<Rightarrow> sender_error option \<times> sender \<times> delivery" where
  "recv_step J w mar nw hc now received s d =
     (case received of
        Inl e \<Rightarrow> (Some (ProtoError e), s, d)
      | Inr f \<Rightarrow>
          let t = hType (fHeader f) in
          if t = MsgAck then
            (case DecodePayload (hcAck hc) (Some f) of
               Inl e \<Rightarrow> (Some (ProtoError e), s, d)
             | Inr ack \<Rightarrow> (None, signal (applyAck J w (ackSequence ack) s), d))
          else if t = MsgPong then
            (case DecodePayload (hcPong hc) (Some f) of
               Inl e \<Rightarrow> (Some (ProtoError e), s, d)
             | Inr pong \<Rightarrow> (None, s\<lparr> sdLastPong := now \<rparr>, d))
          else if t = MsgError then
            (case DecodePayload (hcError hc) (Some f) of
               Inl e \<Rightarrow> (Some (ProtoError e), s, d)
             | Inr em \<Rightarrow> (if erFatal em then Some (HostFatal (erCode em) (erMessage em)) else None, s, d))
          else if t = MsgShutdown then
            (case DecodePayload (hcShutdown hc) (Some f) of
               Inl e \<Rightarrow> (Some (ProtoError e), s, d)
             | Inr sd \<Rightarrow> (Some (HostShutdown (sdReason sd)), s, d))
          else (Some (ProtoError ErrBadType), s,
                sendError mar nw ErrCodeUnexpectedType (MessageType_String t @ '' is not a message the host may send'') d))"

text \<open>The counters of the whole agent, queue and spool included, as a snapshot shows them.\<close>

record agent_snapshot =
  asCreated :: nat
  asSent :: nat
  asDropped :: nat

definition ping :: "agent_snapshot \<Rightarrow> int \<Rightarrow> nat \<Rightarrow> sender \<Rightarrow> Ping" where
  "ping m now queueLen s =
     \<lparr> pgUptimeSeconds = nat ((now - sdStarted s) div 1000000000), pgEventsReceived = asCreated m, pgEventsSent = asSent m,
       pgEventsSpooled = bl_PendingCount (sdBacklog s), pgEventsDropped = asDropped m, pgAuditEnabled = sdAuditEnabled s,
       pgQueueDepth = queueLen, pgSpoolBytes = bl_Bytes (sdBacklog s) \<rparr>"

definition heartbeat_step :: "(agent_message \<Rightarrow> bytes option) \<Rightarrow> net_world \<Rightarrow> agent_snapshot \<Rightarrow> int \<Rightarrow> nat \<Rightarrow> sender \<Rightarrow> delivery \<Rightarrow>
    sender_error option \<times> delivery" where
  "heartbeat_step mar nw m now queueLen s d =
     (case send_on mar nw MsgPing 0 (AgPing (ping m now queueLen s)) d of
        (Inl e, d1) \<Rightarrow> (Some (ProtoError e), d1)
      | (Inr _, d1) \<Rightarrow>
          let silent = now - sdLastPong s in
          (if hbTimeout (acHeartbeat (sdCfg s)) > 0 \<and> silent > hbTimeout (acHeartbeat (sdCfg s)) then Some (NoPong silent) else None, d1))"

subsection \<open>The pump\<close>

text \<open>
  The pump goroutine between its waits: \<open>Reserving\<close> waits for a slot, \<open>Getting\<close> holds one and waits for
  an event, \<open>Holding\<close> has taken an event from the queue.
\<close>

datatype pump = Reserving | Getting | Holding event | Stopped

definition pump_reserve :: "bool \<Rightarrow> bool \<Rightarrow> nat \<Rightarrow> sender \<Rightarrow> pump \<times> sender" where
  "pump_reserve pick ctxDone queueLen s =
     (case bl_Reserve pick ctxDone (sdBacklog s) of
        (Reserved, b) \<Rightarrow> (Getting, s\<lparr> sdBacklog := b \<rparr>)
      | (Cancelled, b) \<Rightarrow> (Stopped, s\<lparr> sdBacklog := b, smDropped := add64 (smDropped s) queueLen \<rparr>)
      | (Blocked, b) \<Rightarrow> (Reserving, s\<lparr> sdBacklog := b \<rparr>))"

definition pump_append :: "event_codec \<Rightarrow> disk_world \<Rightarrow> event \<Rightarrow> sender \<Rightarrow> pump \<times> sender" where
  "pump_append J w e s =
     (case bl_Append J w e (sdBacklog s) of
        (Inl err, b) \<Rightarrow> (Reserving, recordAppendFailure e (s\<lparr> sdBacklog := bl_Release b \<rparr>))
      | (Inr _, b) \<Rightarrow> (Reserving, signal (s\<lparr> sdBacklog := b \<rparr>)))"

end
