(* ===== verification/Agent.thy ===== *)
theory Agent
  imports Sender Sequencer
begin

section \<open>The agent\<close>

text \<open>
  \<^verbatim>\<open>SauronAgent/internal/agent/agent.go\<close>, together with the loop \<open>run\<close> of \<^verbatim>\<open>sender.go\<close>: numbering and queueing of
  events, loss reports, and the composition of sequencer, queue, pump, backlog and sender. The fields
  from \<open>agSubmitted\<close> on are history: the events numbered so far, the loss ranges taken out of the
  accounting (submitted as an event or, with a full queue, logged), the calls the sender made, the
  events it gave up as too large, the positions the host stated, and whether the 64-bit counter ran out.
\<close>

record agent =
  agSeq :: sequencer
  agQueue :: queue
  agStreamClosed :: bool
  agSend :: sender
  agPump :: pump
  agCreated :: nat
  agSession :: "delivery option"
  agBatch :: "(event list \<times> nat) option"
  agSubmitted :: "event list"
  agReports :: "(nat \<times> nat) list"
  agCalls :: "sender_call list"
  agGivenUp :: "event list"
  agHostSaid :: "nat list"
  agExhausted :: bool

definition submit :: "event \<Rightarrow> agent \<Rightarrow> agent" where
  "submit e a =
     (case assign (Some e) (agSeq a) of (q, eo, sq) \<Rightarrow>
        a\<lparr> agSeq := sq, agCreated := inc64 (agCreated a), agQueue := snd (Put eo (agQueue a)),
           agSubmitted := agSubmitted a @ [the eo], agExhausted := (agExhausted a \<or> next_seq (agSeq a) \<ge> max64) \<rparr>)"

definition resumeNumbering :: "nat \<Rightarrow> agent \<Rightarrow> agent" where
  "resumeNumbering hostThrough a = a\<lparr> agSeq := snd (advanceTo (inc64 hostThrough) (agSeq a)) \<rparr>"

definition run_call :: "sender_call \<Rightarrow> agent \<Rightarrow> agent" where
  "run_call c a = (case c of Emit e \<Rightarrow> submit e a | Resume h \<Rightarrow> resumeNumbering h a)"

text \<open>The sender's section ends: its calls run, in order.\<close>

definition run_calls :: "agent \<Rightarrow> agent" where
  "run_calls a =
     fold run_call (sdCalls (agSend a))
       (a\<lparr> agSend := (agSend a)\<lparr> sdCalls := [] \<rparr>, agCalls := agCalls a @ sdCalls (agSend a) \<rparr>)"

definition reportLoss :: "event \<Rightarrow> nat \<Rightarrow> nat \<Rightarrow> agent \<Rightarrow> agent" where
  "reportLoss e low high a =
     (let a1 = a\<lparr> agReports := (low, high) # agReports a \<rparr> in
      if Len (agQueue a) \<ge> Cap (agQueue a) then a1 else submit e a1)"

definition drain_queue :: "int \<Rightarrow> agent \<Rightarrow> agent" where
  "drain_queue now a =
     (case DrainOverflow (agQueue a) of
        (None, q) \<Rightarrow> a\<lparr> agQueue := q \<rparr>
      | (Some (n, f, l), q) \<Rightarrow> reportLoss (NewQueueOverflow now n f l) f l (a\<lparr> agQueue := q \<rparr>))"

definition drain_spool :: "int \<Rightarrow> agent \<Rightarrow> agent" where
  "drain_spool now a =
     (case sdBacklog (agSend a) of
        MemBacklog _ \<Rightarrow> a
      | SpoolBacklog sp \<Rightarrow>
          (case DrainDropped sp of
             (None, sp') \<Rightarrow> a\<lparr> agSend := (agSend a)\<lparr> sdBacklog := SpoolBacklog sp' \<rparr> \<rparr>
           | (Some (n, f, l), sp') \<Rightarrow>
               reportLoss (NewSpoolFull now n f l) f l (a\<lparr> agSend := (agSend a)\<lparr> sdBacklog := SpoolBacklog sp' \<rparr> \<rparr>)))"

definition drain_failures :: "int \<Rightarrow> agent \<Rightarrow> agent" where
  "drain_failures now a =
     (case drainAppendFailures (agSend a) of
        (None, s) \<Rightarrow> a\<lparr> agSend := s \<rparr>
      | (Some (n, f, l), s) \<Rightarrow>
          reportLoss
            (NewInternal now TypeSpoolError []
               [(''events_dropped'', FUint n), (''first_missing_sequence'', FUint f), (''last_missing_sequence'', FUint l),
                (''reason'', FStr ''the spool refused the event'')])
            f l (a\<lparr> agSend := s \<rparr>))"

definition drainLosses :: "int \<Rightarrow> bool \<Rightarrow> agent \<Rightarrow> agent" where
  "drainLosses now final a =
     (if \<not> final \<and> Len (agQueue a) \<ge> Cap (agQueue a) then a
      else drain_failures now (drain_spool now (drain_queue now a)))"

definition spoolPending :: "agent \<Rightarrow> nat" where
  "spoolPending a = (case sdBacklog (agSend a) of MemBacklog _ \<Rightarrow> 0 | SpoolBacklog sp \<Rightarrow> PendingCount sp)"

definition started_event :: "int \<Rightarrow> agent \<Rightarrow> event" where
  "started_event now a =
     NewInternal now TypeAgentStarted []
       [(''agent_version'', FStr (idVersion (sdId (agSend a)))), (''hostname'', FStr (idHostname (sdId (agSend a)))),
        (''kernel'', FStr (idKernel (sdId (agSend a)))), (''audit_enabled'', FBool (auEnabled (acAudit (sdCfg (agSend a))))),
        (''spool_enabled'', FBool (splEnabled (acSpool (sdCfg (agSend a))))), (''first_sequence'', FUint (peek (agSeq a)))]"

text \<open>The last turn of \<open>pollLosses\<close>; \<open>m\<close> is the snapshot of the counters.\<close>

definition stopping_event :: "int \<Rightarrow> agent_snapshot \<Rightarrow> agent \<Rightarrow> event" where
  "stopping_event now m a =
     NewInternal now TypeAgentStopping []
       [(''uptime_seconds'', FUint (nat ((now - sdStarted (agSend a)) div 1000000000))), (''events_created'', FUint (asCreated m)),
        (''events_sent'', FUint (asSent m)), (''events_dropped'', FUint (asDropped m)), (''queue_depth'', FInt (int (Len (agQueue a)))),
        (''last_sequence'', FUint (peek (agSeq a) - 1)), (''spool_remaining'', FInt (int (spoolPending a)))]"

definition stop_stream :: "int \<Rightarrow> agent_snapshot \<Rightarrow> agent \<Rightarrow> agent" where
  "stop_stream now m a =
     (let a1 = drainLosses now True a;
          a2 = submit (stopping_event now m a1) a1
      in a2\<lparr> agStreamClosed := True, agQueue := Close (agQueue a2) \<rparr>)"

definition closeResources :: "disk_world \<Rightarrow> agent \<Rightarrow> agent" where
  "closeResources w a =
     (let s1 = close_sender (agSend a) in
      a\<lparr> agSend := (case sdBacklog s1 of
             MemBacklog _ \<Rightarrow> s1
           | SpoolBacklog sp \<Rightarrow> s1\<lparr> sdBacklog := SpoolBacklog (snd (Close_spool w sp)) \<rparr>),
         agQueue := Close (agQueue a) \<rparr>)"

definition New_agent :: "agent_config \<Rightarrow> identity \<Rightarrow> string \<Rightarrow> spool option \<Rightarrow> int \<Rightarrow> (agent_config_error, agent) result" where
  "New_agent cfg ident peer sp now =
     (case Validate_agent cfg of
        Inl e \<Rightarrow> Inl e
      | Inr _ \<Rightarrow>
          Inr \<lparr> agSeq = newSequencer (case sp of None \<Rightarrow> 1 | Some s \<Rightarrow> inc64 (LastSequence s)) (idBootID ident),
                agQueue = New (acQueueCapacity cfg) (Some \<lparr> EventsDropped = 0, QueueDepth = 0 \<rparr>), agStreamClosed = False,
                agSend = newSender cfg ident peer (auEnabled (acAudit cfg)) sp now, agPump = Reserving, agCreated = 0,
                agSession = None, agBatch = None, agSubmitted = [], agReports = [], agCalls = [], agGivenUp = [],
                agHostSaid = [case sp of None \<Rightarrow> 0 | Some s \<Rightarrow> spAckedThrough s],
                agExhausted = (case sp of None \<Rightarrow> False | Some s \<Rightarrow> max64 \<le> LastSequence s) \<rparr>)"

subsection \<open>The reconnect loop\<close>

text \<open>
  The variables of \<open>run\<close>: whether a session was ever established, whether the last failure was the host's
  fault, and the consecutive failures the backoff counts. A wait counts one failure.
\<close>

record run_state =
  rnEver :: bool
  rnMisbehaved :: bool
  rnAttempts :: int

definition run_failed :: "(sender_error \<Rightarrow> string) \<Rightarrow> int \<Rightarrow> sender_error option \<Rightarrow> run_state \<Rightarrow> sender \<Rightarrow> run_state \<times> sender" where
  "run_failed errText now err r s =
     (let (bad, s1) = reportFailure errText now err (rnAttempts r + 1) s
      in (r\<lparr> rnMisbehaved := bad, rnAttempts := rnAttempts r + 1 \<rparr>, s1))"

definition run_connected :: "int \<Rightarrow> run_state \<Rightarrow> sender \<Rightarrow> run_state \<times> sender" where
  "run_connected now r s =
     (let s1 = (if rnEver r then s\<lparr> smReconnects := inc64 (smReconnects s) \<rparr> else s);
          s2 = emit (NewTransportConnected now (sdPeer s) (rnAttempts r + 1)) s1
      in (r\<lparr> rnAttempts := (if rnMisbehaved r then rnAttempts r else 0), rnMisbehaved := False, rnEver := True \<rparr>, s2))"

subsection \<open>Steps\<close>

text \<open>The position an incoming frame states.\<close>

definition stated :: "host_codec \<Rightarrow> (proto_error, frame) result \<Rightarrow> nat list" where
  "stated hc received =
     (case received of
        Inl _ \<Rightarrow> []
      | Inr f \<Rightarrow>
          if hType (fHeader f) = MsgAck
          then (case DecodePayload (hcAck hc) (Some f) of Inl _ \<Rightarrow> [] | Inr ack \<Rightarrow> [ackSequence ack])
          else [])"

text \<open>
  A session ends: its connection is dropped, and unless the agent is shutting down the failure is reported.
\<close>

definition drop_session :: "sender \<Rightarrow> sender" where
  "drop_session s = (case sdConn s of None \<Rightarrow> s | Some c \<Rightarrow> dropConn c s)"

definition end_session :: "(sender_error \<Rightarrow> string) \<Rightarrow> int \<Rightarrow> sender_error option \<Rightarrow> run_state \<Rightarrow> agent \<Rightarrow> agent" where
  "end_session errText now err r a = run_calls (a\<lparr> agSend := snd (run_failed errText now err r (drop_session (agSend a))), agSession := None, agBatch := None \<rparr>)"

inductive agent_step :: "event_codec \<Rightarrow> disk_world \<Rightarrow> (agent_message \<Rightarrow> bytes option) \<Rightarrow> net_world \<Rightarrow> host_codec \<Rightarrow>
    (sender_error \<Rightarrow> string) \<Rightarrow> agent \<Rightarrow> agent \<Rightarrow> bool" for J w mar nw hc errText where
  produce: "Sequence e = 0 \<Longrightarrow> agent_step J w mar nw hc errText a (submit e a)"
| reserve: "agPump a = Reserving \<Longrightarrow> pump_reserve pick ctxDone (Len (agQueue a)) (agSend a) = (p, s) \<Longrightarrow>
    agent_step J w mar nw hc errText a (a\<lparr> agPump := p, agSend := s \<rparr>)"
| get: "agPump a = Getting \<Longrightarrow> TryGet (agQueue a) = (Some e, q) \<Longrightarrow>
    agent_step J w mar nw hc errText a (a\<lparr> agPump := Holding e, agQueue := q \<rparr>)"
| get_closed: "agPump a = Getting \<Longrightarrow> TryGet (agQueue a) = (None, q) \<Longrightarrow> qClosed q \<Longrightarrow>
    agent_step J w mar nw hc errText a (a\<lparr> agPump := Stopped, agQueue := q \<rparr>)"
| append: "agPump a = Holding e \<Longrightarrow> pump_append J w e (agSend a) = (p, s) \<Longrightarrow>
    agent_step J w mar nw hc errText a (a\<lparr> agPump := p, agSend := s \<rparr>)"
| connected: "agSession a = None \<Longrightarrow> connect mar hc nw tick dialed c c' closing (agSend a) = (Inr (d, ready), s) \<Longrightarrow>
    agent_step J w mar nw hc errText a
      (run_calls (a\<lparr> agSend := session_start J w now ready (snd (run_connected now r s)), agSession := Some d, agBatch := None,
        agHostSaid := rdResumeFrom ready # agHostSaid a \<rparr>))"
| not_connected: "agSession a = None \<Longrightarrow> connect mar hc nw tick dialed c c' closing (agSend a) = (Inl err, s) \<Longrightarrow>
    agent_step J w mar nw hc errText a (end_session errText now (Some err) r (a\<lparr> agSend := s \<rparr>))"
| abandoned: "agSession a = None \<Longrightarrow> connect mar hc nw tick dialed c c' closing (agSend a) = (Inl err, s) \<Longrightarrow>
    agent_step J w mar nw hc errText a (a\<lparr> agSend := s \<rparr>)"
| pass: "agSession a = Some d \<Longrightarrow> agBatch a = None \<Longrightarrow> s1 = reconcile J w (agSend a) \<Longrightarrow> trim_session d s1 = (n, d1) \<Longrightarrow>
    dispatch_read J w (s1\<lparr> smAcknowledged := add64 (smAcknowledged s1) n \<rparr>) d1 = (Inr es, s2) \<Longrightarrow>
    agent_step J w mar nw hc errText a (a\<lparr> agSend := s2, agSession := Some d1, agBatch := Some (es, sdAcked s2) \<rparr>)"
| pass_failed: "agSession a = Some d \<Longrightarrow> agBatch a = None \<Longrightarrow> s1 = reconcile J w (agSend a) \<Longrightarrow> trim_session d s1 = (n, d1) \<Longrightarrow>
    dispatch_read J w (s1\<lparr> smAcknowledged := add64 (smAcknowledged s1) n \<rparr>) d1 = (Inl e, s2) \<Longrightarrow>
    agent_step J w mar nw hc errText a (end_session errText now (Some (BacklogRead e)) r (a\<lparr> agSend := s2 \<rparr>))"
| turn: "agSession a = Some d \<Longrightarrow> agBatch a = Some (e # es, acked) \<Longrightarrow> dispatch_event mar nw acked e (agSend a) d = (out, n, s, d1) \<Longrightarrow>
    agent_step J w mar nw hc errText a
      (run_calls (a\<lparr> agSend := s, agSession := Some d1, agBatch := (if out = Next then Some (es, acked) else None),
        agGivenUp := (if dlGivenUp d1 = dlGivenUp d then agGivenUp a else e # agGivenUp a) \<rparr>))"
| pass_end: "agBatch a = Some ([], acked) \<Longrightarrow> agent_step J w mar nw hc errText a (a\<lparr> agBatch := None \<rparr>)"
| receive: "agSession a = Some d \<Longrightarrow> recv_step J w mar nw hc now received (agSend a) d = (err, s, d1) \<Longrightarrow>
    agent_step J w mar nw hc errText a
      (run_calls (a\<lparr> agSend := s, agSession := Some d1, agHostSaid := stated hc received @ agHostSaid a \<rparr>))"
| heartbeat: "agSession a = Some d \<Longrightarrow> heartbeat_step mar nw m now (Len (agQueue a)) (agSend a) d = (err, d1) \<Longrightarrow>
    agent_step J w mar nw hc errText a (a\<lparr> agSession := Some d1 \<rparr>)"
| goodbye: "agSession a = Some d \<Longrightarrow> agent_step J w mar nw hc errText a (a\<lparr> agSession := Some (flush_end mar nw (agSend a) d) \<rparr>)"
| ended: "agSession a \<noteq> None \<Longrightarrow> agent_step J w mar nw hc errText a (end_session errText now err r a)"
| cancelled: "agSession a \<noteq> None \<Longrightarrow>
    agent_step J w mar nw hc errText a (a\<lparr> agSend := drop_session (agSend a), agSession := None, agBatch := None \<rparr>)"
| poll: "agent_step J w mar nw hc errText a (drainLosses now final a)"
| sync: "sdBacklog (agSend a) = SpoolBacklog sp \<Longrightarrow> Sync w sp = (r', sp') \<Longrightarrow>
    agent_step J w mar nw hc errText a (a\<lparr> agSend := (agSend a)\<lparr> sdBacklog := SpoolBacklog sp' \<rparr> \<rparr>)"
| stop: "agent_step J w mar nw hc errText a (stop_stream now m a)"
| close: "agent_step J w mar nw hc errText a (closeResources w a)"

text \<open>An agent starts on a spool directory left behind by any earlier run, or without a spool.\<close>

inductive agent_run :: "event_codec \<Rightarrow> disk_world \<Rightarrow> (agent_message \<Rightarrow> bytes option) \<Rightarrow> net_world \<Rightarrow> host_codec \<Rightarrow>
    (sender_error \<Rightarrow> string) \<Rightarrow> agent \<Rightarrow> bool" for J w mar nw hc errText where
  with_spool: "spool_run J (Down fs) h \<Longrightarrow> Open J w opts fs tick = (Inr u, sp) \<Longrightarrow> New_agent cfg ident peer (Some sp) now = Inr a \<Longrightarrow>
    agent_run J w mar nw hc errText (submit (started_event now a) a)"
| without_spool: "New_agent cfg ident peer None now = Inr a \<Longrightarrow> agent_run J w mar nw hc errText (submit (started_event now a) a)"
| agent_steps: "agent_run J w mar nw hc errText a \<Longrightarrow> agent_step J w mar nw hc errText a a' \<Longrightarrow> agent_run J w mar nw hc errText a'"

end
