(* ===== verification/Agent_Flow.thy ===== *)
theory Agent_Flow
  imports Agent
begin

section \<open>The flow of events through the agent\<close>

text \<open>
  Two predicates, one on what the producers, the queue, the pump and the backlog hold (\<open>flow\<close>), one on a session
  (\<open>sess\<close>), with a lemma for every primitive step. They take the components as arguments, so that a step of
  the agent only has to name what it changes.
\<close>

subsection \<open>The queue\<close>

definition queue_ok :: "queue \<Rightarrow> bool" where
  "queue_ok q \<longleftrightarrow> (\<exists>s. queue_rel q s)"

definition queue_lost :: "queue \<Rightarrow> nat \<Rightarrow> bool" where
  "queue_lost q n \<longleftrightarrow> 0 < qFirstMissing q \<and> qFirstMissing q \<le> n \<and> n \<le> qLastMissing q"

lemma queue_lost_rel: "queue_rel q s \<Longrightarrow> e \<in> set (sLost s) \<Longrightarrow> 0 < Sequence e \<Longrightarrow> queue_lost q (Sequence e)"
proof -
  assume q: "queue_rel q s" and e: "e \<in> set (sLost s)" "0 < Sequence e"
  have m: "Sequence e \<in> set (lost_seqs (sLost s))" using e by (simp add: lost_seqs_def)
  then have ne: "lost_seqs (sLost s) \<noteq> []" by auto
  have "lost_first (sLost s) \<noteq> 0" using ne by (simp add: lost_first_0)
  then have "0 < lost_first (sLost s)" by simp
  moreover have "lost_first (sLost s) \<le> Sequence e" "Sequence e \<le> lost_last (sLost s)" using m ne by (simp_all add: lost_first_def lost_last_def)
  ultimately show ?thesis using q by (simp add: queue_lost_def queue_rel_def)
qed

lemma put_ok:
  assumes "queue_ok q"
  shows "queue_ok (snd (Put (Some e) q))" "subseq (held (snd (Put (Some e) q))) (held q @ [e])"
    "\<forall>x \<in> set (held q @ [e]). 0 < Sequence x \<longrightarrow> x \<in> set (held (snd (Put (Some e) q))) \<or> queue_lost (snd (Put (Some e) q)) (Sequence x)"
    "\<forall>n. queue_lost q n \<longrightarrow> queue_lost (snd (Put (Some e) q)) n"
proof -
  obtain s where s: "queue_rel q s" using assms by (auto simp: queue_ok_def)
  define q' where "q' = snd (Put (Some e) q)"
  define s' where "s' = snd (spec_step (OpPut (Some e)) s)"
  have r: "queue_rel q' s'" using Put_refines [OF s, of "Some e"] by (simp add: q'_def s'_def)
  then show "queue_ok (snd (Put (Some e) q))" unfolding q'_def by (auto simp: queue_ok_def)
  have h: "held q = sItems s" "held q' = sItems s'" using held_rel s r by simp_all
  have cap: "sCap s > 0" using s by (auto simp: queue_rel_def queue_inv_def)
  have cases: "s' = s\<lparr> sLost := sLost s @ [e] \<rparr> \<or> s' = s\<lparr> sItems := tl (sItems s) @ [e], sLost := sLost s @ [hd (sItems s)] \<rparr> \<and> sItems s \<noteq> [] \<or>
      s' = s\<lparr> sItems := sItems s @ [e] \<rparr>" using cap by (auto simp: s'_def spec_step_def)
  have tl: "sItems s \<noteq> [] \<Longrightarrow> subseq (tl (sItems s)) (sItems s)" by (metis list.collapse subseq_Cons' subseq_order.order_refl)
  show "subseq (held (snd (Put (Some e) q))) (held q @ [e])" unfolding q'_def [symmetric] h
    using cases tl by (elim disjE) (auto intro: list_emb_append_mono prefix_imp_subseq)
  show "\<forall>x \<in> set (held q @ [e]). 0 < Sequence x \<longrightarrow> x \<in> set (held (snd (Put (Some e) q))) \<or> queue_lost (snd (Put (Some e) q)) (Sequence x)"
  proof (intro ballI impI)
    fix x assume x: "x \<in> set (held q @ [e])" "0 < Sequence x"
    have "x \<in> set (sItems s') \<or> x \<in> set (sLost s')" using cases x(1) unfolding h by (cases "sItems s") auto
    then show "x \<in> set (held (snd (Put (Some e) q))) \<or> queue_lost (snd (Put (Some e) q)) (Sequence x)"
      unfolding q'_def [symmetric] h using queue_lost_rel [OF r _ x(2)] by blast
  qed
  have "0 < lost_first ls \<Longrightarrow> 0 < lost_first (ls @ [x]) \<and> lost_first (ls @ [x]) \<le> lost_first ls \<and> lost_last ls \<le> lost_last (ls @ [x])" for ls x
    by (auto simp: lost_first_snoc lost_last_snoc)
  then have "0 < qFirstMissing q \<Longrightarrow> 0 < qFirstMissing q' \<and> qFirstMissing q' \<le> qFirstMissing q \<and> qLastMissing q \<le> qLastMissing q'"
    using s r cases by (auto simp: queue_rel_def)
  then show "\<forall>n. queue_lost q n \<longrightarrow> queue_lost (snd (Put (Some e) q)) n" unfolding q'_def [symmetric] queue_lost_def by auto
qed

lemma tryget_ok:
  assumes "queue_ok q" "TryGet q = (r, q')"
  shows "queue_ok q'" "queue_lost q' = queue_lost q" "held q = (case r of None \<Rightarrow> [] | Some e \<Rightarrow> [e]) @ held q'"
proof -
  obtain s where s: "queue_rel q s" using assms(1) by (auto simp: queue_ok_def)
  define s' where "s' = snd (spec_step OpTryGet s)"
  have "RGet r = fst (spec_step OpTryGet s)" and r: "queue_rel q' s'"
    using popLocked_refines [OF s] assms(2) by (simp_all add: TryGet_def s'_def)
  then have c: "r = None \<and> sItems s = [] \<and> s' = s \<or> (\<exists>e es. r = Some e \<and> sItems s = e # es \<and> s' = s\<lparr> sItems := es \<rparr>)"
    by (auto simp: spec_step_def s'_def split: list.splits)
  show "queue_ok q'" using r by (auto simp: queue_ok_def)
  have "qFirstMissing q' = qFirstMissing q" "qLastMissing q' = qLastMissing q" using s r c by (auto simp: queue_rel_def)
  then show "queue_lost q' = queue_lost q" by (simp add: queue_lost_def fun_eq_iff)
  show "held q = (case r of None \<Rightarrow> [] | Some e \<Rightarrow> [e]) @ held q'" unfolding held_rel [OF s] held_rel [OF r] using c by auto
qed

lemma held_same: "contents q' = contents q \<Longrightarrow> held q' = held q"
  by (simp add: held_def)

lemma drain_ok:
  assumes "queue_ok q" "DrainOverflow q = (r, q')"
  shows "queue_ok q'" "held q' = held q"
    "\<forall>n. queue_lost q n \<longrightarrow> queue_lost q' n \<or> (\<exists>k f l. r = Some (k, f, l) \<and> f \<le> n \<and> n \<le> l)"
proof -
  obtain s where s: "queue_rel q s" using assms(1) by (auto simp: queue_ok_def)
  have e: "queue_step OpDrain q = (RDrain r, q')" using assms(2) by (simp add: queue_step_def)
  show "queue_ok q'" using ring.step_related [OF s, of OpDrain] unfolding e by (auto simp: queue_ok_def)
  have "contents q' = contents q" using assms(2) by (intro contents_cong) (auto simp: DrainOverflow_def split: if_splits)
  then show "held q' = held q" by (rule held_same)
  show "\<forall>n. queue_lost q n \<longrightarrow> queue_lost q' n \<or> (\<exists>k f l. r = Some (k, f, l) \<and> f \<le> n \<and> n \<le> l)"
    using assms(2) by (auto simp: DrainOverflow_def queue_lost_def split: if_splits)
qed

lemma close_ok:
  assumes "queue_ok q"
  shows "queue_ok (Close q)" "held (Close q) = held q" "queue_lost (Close q) = queue_lost q"
proof -
  obtain s where s: "queue_rel q s" using assms(1) by (auto simp: queue_ok_def)
  have "queue_step OpClose q = (RUnit, Close q)" by (simp add: queue_step_def)
  then show "queue_ok (Close q)" using ring.step_related [OF s, of OpClose] by (auto simp: queue_ok_def)
  have "contents (Close q) = contents q" by (rule contents_cong) (simp_all add: Close_def)
  then show "held (Close q) = held q" by (rule held_same)
  show "queue_lost (Close q) = queue_lost q" by (simp add: Close_def queue_lost_def fun_eq_iff)
qed

subsection \<open>Events in flight through the agent\<close>

definition pump_held :: "pump \<Rightarrow> event list" where
  "pump_held p = (case p of Holding e \<Rightarrow> [e] | _ \<Rightarrow> [])"

definition slots :: "pump \<Rightarrow> nat" where
  "slots p = (case p of Getting \<Rightarrow> 1 | Holding _ \<Rightarrow> 1 | _ \<Rightarrow> 0)"

lemma pump_simps [simp]:
  "pump_held Reserving = []" "pump_held Getting = []" "pump_held Stopped = []" "pump_held (Holding e) = [e]"
  "slots Reserving = 0" "slots Getting = Suc 0" "slots Stopped = 0" "slots (Holding e) = Suc 0"
  by (simp_all add: pump_held_def slots_def)

text \<open>
  \<open>N\<close> is the highest sequence offered to the backlog, \<open>nx\<close> the next one to be issued, \<open>sub\<close> what was
  submitted, \<open>H\<close> the highest position the host stated, and \<open>X\<close> the sequences excused by a loss report
  made, logged or still to be made by the sender.
\<close>

definition accounted :: "event_codec \<Rightarrow> queue \<Rightarrow> pump \<Rightarrow> backlog \<Rightarrow> nat \<Rightarrow> (nat \<Rightarrow> bool) \<Rightarrow> nat \<Rightarrow> bool" where
  "accounted J q p b H X n \<longleftrightarrow> n \<in> Sequence ` set (pump_held p @ held q) \<or> queue_lost q n \<or> n \<in> Sequence ` set (bl_view J b) \<or>
     n \<le> H \<or> bl_lost b n \<or> X n"

definition flow :: "event_codec \<Rightarrow> disk_world \<Rightarrow> nat \<Rightarrow> nat \<Rightarrow> event list \<Rightarrow> queue \<Rightarrow> pump \<Rightarrow> backlog \<Rightarrow> nat \<Rightarrow> (nat \<Rightarrow> bool) \<Rightarrow> bool" where
  "flow J w N nx sub q p b H X \<longleftrightarrow> queue_ok q \<and> bl_ok J w (slots p) N b \<and> increasing sub \<and>
     (\<forall>e \<in> set sub. 0 < Sequence e \<and> Sequence e < nx) \<and> increasing (pump_held p @ held q) \<and>
     (\<forall>e \<in> set (pump_held p @ held q). N < Sequence e \<and> Sequence e < nx) \<and> N < nx \<and> nx \<le> max64 \<and> bl_acked b \<le> H \<and>
     (\<forall>e \<in> set sub. accounted J q p b H X (Sequence e))"

lemma bl_ok_weaken: "bl_ok J w (Suc k) N b \<Longrightarrow> bl_ok J w k N b"
  by (cases b) (auto simp: bl_ok_def sp_ok_def mem_ok_def)

lemma subseq_set: "subseq xs ys \<Longrightarrow> set xs \<subseteq> set ys"
  by (metis notin_set_nthsI subseq_conv_nths subsetI)

lemma increasing_sub: "subseq xs ys \<Longrightarrow> increasing ys \<Longrightarrow> increasing xs"
proof (induction rule: list_emb.induct)
  case (list_emb_Cons2 x y xs ys)
  then have "set xs \<subseteq> set ys" using subseq_set by blast
  then show ?case using list_emb_Cons2 by (auto simp: increasing_def)
qed (auto simp: increasing_def)

lemma increasing_snoc: "increasing (xs @ [x]) \<longleftrightarrow> increasing xs \<and> (\<forall>y \<in> set xs. Sequence y < Sequence x)"
  by (simp add: increasing_def sorted_wrt_append)

lemma flow_mono: "flow J w N nx sub q p b H X \<Longrightarrow> H \<le> H' \<Longrightarrow> (\<And>n. X n \<Longrightarrow> X' n) \<Longrightarrow> flow J w N nx sub q p b H' X'"
  unfolding flow_def accounted_def by (meson le_trans)

lemma flow_next: "flow J w N nx sub q p b H X \<Longrightarrow> nx \<le> nx' \<Longrightarrow> nx' \<le> max64 \<Longrightarrow> flow J w N nx' sub q p b H X"
  unfolding flow_def by (meson less_le_trans)

lemma flow_submit:
  assumes f: "flow J w N nx sub q p b H X" and nx: "nx < max64" and e: "Sequence e = nx"
  shows "flow J w N (Suc nx) (sub @ [e]) (snd (Put (Some e) q)) p b H X"
proof -
  have ok: "queue_ok q" using f by (simp add: flow_def)
  note pu = put_ok [OF ok, of e]
  let ?q = "snd (Put (Some e) q)"
  have old: "\<forall>x \<in> set (pump_held p @ held q). N < Sequence x \<and> Sequence x < nx" "N < nx" "increasing (pump_held p @ held q)" using f by (simp_all add: flow_def)
  have "increasing ((pump_held p @ held q) @ [e])" unfolding increasing_snoc using old e by blast
  then have inc: "increasing (pump_held p @ held q @ [e])" by simp
  have sub: "subseq (pump_held p @ held ?q) (pump_held p @ held q @ [e])" using pu(2) by (intro list_emb_append_mono) simp_all
  have "increasing (pump_held p @ held ?q)" by (rule increasing_sub [OF sub inc])
  moreover have "\<forall>x \<in> set (pump_held p @ held ?q). N < Sequence x \<and> Sequence x < Suc nx"
    using subseq_set [OF sub] old e by (auto simp: less_Suc_eq)
  moreover have "increasing (sub @ [e])" "\<forall>x \<in> set (sub @ [e]). 0 < Sequence x \<and> Sequence x < Suc nx"
    using f e unfolding flow_def increasing_snoc by (blast, fastforce)
  moreover have "accounted J ?q p b H X (Sequence x)" if x: "x \<in> set (sub @ [e])" for x
  proof -
    have pos: "0 < Sequence x" using x f e by (auto simp: flow_def)
    have "x = e \<or> accounted J q p b H X (Sequence x)" using x f by (auto simp: flow_def)
    then have "Sequence x \<in> Sequence ` set (pump_held p) \<or> Sequence x \<in> Sequence ` set (held q @ [e]) \<or> queue_lost q (Sequence x) \<or>
        Sequence x \<in> Sequence ` set (bl_view J b) \<or> Sequence x \<le> H \<or> bl_lost b (Sequence x) \<or> X (Sequence x)"
      unfolding accounted_def by auto
    moreover have "Sequence x \<in> Sequence ` set (held ?q) \<or> queue_lost ?q (Sequence x)" if m: "Sequence x \<in> Sequence ` set (held q @ [e])"
    proof -
      obtain y where y: "y \<in> set (held q @ [e])" "Sequence y = Sequence x" using m by force
      then have "y \<in> set (held ?q) \<or> queue_lost ?q (Sequence y)" using pu(3) pos by auto
      then show ?thesis unfolding y(2) [symmetric] by blast
    qed
    ultimately show ?thesis unfolding accounted_def set_append image_Un using pu(4) by blast
  qed
  ultimately show ?thesis using f nx pu(1) old(2) unfolding flow_def by auto
qed

lemma flow_drain_queue:
  assumes f: "flow J w N nx sub q p b H X" and d: "DrainOverflow q = (r, q')"
    and X: "\<And>n. X n \<Longrightarrow> X' n" "\<And>n k f l. r = Some (k, f, l) \<Longrightarrow> f \<le> n \<Longrightarrow> n \<le> l \<Longrightarrow> X' n"
  shows "flow J w N nx sub q' p b H X'"
proof -
  have ok: "queue_ok q" using f by (simp add: flow_def)
  note dr = drain_ok [OF ok d]
  have "accounted J q' p b H X' n" if "accounted J q p b H X n" for n using that dr(2,3) X unfolding accounted_def by metis
  then show ?thesis using f dr(1,2) unfolding flow_def by simp
qed

lemma flow_close: "flow J w N nx sub q p b H X \<Longrightarrow> flow J w N nx sub (Close q) p b H X"
  unfolding flow_def accounted_def using close_ok by metis

lemma flow_pump:
  assumes "flow J w N nx sub q p b H X" "pump_held p' = pump_held p" "bl_ok J w (slots p') N b"
  shows "flow J w N nx sub q p' b H X"
  using assms unfolding flow_def accounted_def by simp

lemma flow_get:
  assumes f: "flow J w N nx sub q Getting b H X" and g: "TryGet q = (Some e, q')"
  shows "flow J w N nx sub q' (Holding e) b H X"
proof -
  have ok: "queue_ok q" using f by (simp add: flow_def)
  note t = tryget_ok [OF ok g]
  show ?thesis using f t unfolding flow_def accounted_def by simp
qed

lemma flow_get_closed:
  assumes f: "flow J w N nx sub q Getting b H X" and g: "TryGet q = (None, q')"
  shows "flow J w N nx sub q' Stopped b H X"
proof -
  have ok: "queue_ok q" using f by (simp add: flow_def)
  note t = tryget_ok [OF ok g]
  have "bl_ok J w 0 N b" using f bl_ok_weaken by (auto simp: flow_def)
  then show ?thesis using f t unfolding flow_def accounted_def by simp
qed

text \<open>The backlog changes, and keeps what it held or accounts for it.\<close>

lemma flow_backlog:
  assumes f: "flow J w N nx sub q p b H X" and ok: "bl_ok J w (slots p) N b'" and a: "bl_acked b' \<le> H'" "H \<le> H'"
    and v: "\<And>x. x \<in> set (bl_view J b) \<Longrightarrow> Sequence x \<in> Sequence ` set (bl_view J b') \<or> Sequence x \<le> H' \<or> bl_lost b' (Sequence x) \<or> X' (Sequence x)"
    and l: "\<And>n. bl_lost b n \<Longrightarrow> bl_lost b' n \<or> X' n" and X: "\<And>n. X n \<Longrightarrow> X' n"
  shows "flow J w N nx sub q p b' H' X'"
proof -
  have "accounted J q p b' H' X' n" if n: "accounted J q p b H X n" for n
  proof -
    consider "n \<in> Sequence ` set (pump_held p @ held q) \<or> queue_lost q n" | x where "x \<in> set (bl_view J b)" "Sequence x = n" | "n \<le> H" | "bl_lost b n" | "X n"
      using n unfolding accounted_def by blast
    then show ?thesis
    proof cases
      case 1
      then show ?thesis by (auto simp: accounted_def)
    next
      case (2 x)
      then show ?thesis using v [of x] by (auto simp: accounted_def)
    next
      case 3
      then show ?thesis using a by (simp add: accounted_def)
    next
      case 4
      then show ?thesis using l by (auto simp: accounted_def)
    next
      case 5
      then show ?thesis using X by (auto simp: accounted_def)
    qed
  qed
  then show ?thesis using f ok a unfolding flow_def by simp
qed

lemma flow_reserve:
  assumes f: "flow J w N nx sub q Reserving b H X" and r: "bl_Reserve pick d b = (ro, b')" and p: "p = (if ro = Reserved then Getting else p)" "p \<in> {Reserving, Getting, Stopped}"
    "ro \<noteq> Reserved \<Longrightarrow> p \<noteq> Getting"
  shows "flow J w N nx sub q p b' H X" "bl_view J b' = bl_view J b"
proof -
  have i: "bl_ok J w 0 N b" using f by (simp add: flow_def)
  note l = blg.reserve_law [OF i r]
  show "bl_view J b' = bl_view J b" using l by simp
  have "bl_ok J w 0 N b'" using l bl_ok_weaken by (auto split: if_splits)
  moreover have "bl_acked b' \<le> H" using l f by (simp add: flow_def)
  ultimately have g: "flow J w N nx sub q Reserving b' H X" using l by (intro flow_backlog [OF f]) auto
  show "flow J w N nx sub q p b' H X" using l p by (intro flow_pump [OF g]) (auto split: if_splits)
qed

lemma flow_append:
  assumes f: "flow J w N nx sub q (Holding e) b H X" and a: "bl_Append J w e b = (r, b')"
    and X: "\<And>n. X n \<Longrightarrow> X' n" "r \<noteq> Inr () \<Longrightarrow> X' (Sequence e)" and b: "b2 = (if r = Inr () then b' else bl_Release b')"
  shows "flow J w (Sequence e) nx sub q Reserving b2 H X'" "N \<le> Sequence e"
    "\<forall>x \<in> set (bl_view J b2). x \<in> set (bl_view J b) \<or> Sequence x = Sequence e \<or> Sequence x \<le> H"
proof -
  have i: "bl_ok J w (Suc 0) N b" and e: "N < Sequence e" "Sequence e < nx" "nx \<le> max64" and ak: "bl_acked b \<le> H" using f by (auto simp: flow_def)
  show "N \<le> Sequence e" using e by simp
  have le: "Sequence e \<le> max64" using e by simp
  note l = blg.append_law [OF i e(1) le a]
  have b2: "bl_ok J w 0 (Sequence e) b2" "bl_view J b2 = bl_view J b'" "bl_acked b2 = bl_acked b'" "bl_lost b2 = bl_lost b'"
    using l blg.release_law [of J w 0 "Sequence e" b'] unfolding b by (auto split: if_splits)
  show "\<forall>x \<in> set (bl_view J b2). x \<in> set (bl_view J b) \<or> Sequence x = Sequence e \<or> Sequence x \<le> H"
    unfolding b2(2) using l ak by (meson le_trans)
  have acc: "accounted J q Reserving b2 H X' n" if n: "accounted J q (Holding e) b H X n" for n
  proof -
    consider "n = Sequence e" | "n \<in> Sequence ` set (held q) \<or> queue_lost q n" | x where "x \<in> set (bl_view J b)" "Sequence x = n" | "n \<le> H" | "bl_lost b n" | "X n"
      using n unfolding accounted_def by auto
    then show ?thesis
    proof cases
      case 1
      then show ?thesis using l X(2) b2 by (cases "r = Inr ()") (auto simp: accounted_def)
    next
      case 2
      then show ?thesis by (auto simp: accounted_def)
    next
      case (3 x)
      then have "x \<in> set (bl_view J b') \<or> bl_lost b' n \<or> n \<le> bl_acked b" using l not_le by blast
      then have "n \<in> Sequence ` set (bl_view J b2) \<or> bl_lost b2 n \<or> n \<le> H" unfolding b2 using 3(2) ak le_trans by blast
      then show ?thesis unfolding accounted_def by blast
    next
      case 4
      then show ?thesis by (simp add: accounted_def)
    next
      case 5
      then show ?thesis using l b2 by (auto simp: accounted_def)
    next
      case 6
      then show ?thesis using X(1) by (auto simp: accounted_def)
    qed
  qed
  have up: "increasing (pump_held (Holding e) @ held q)" "\<forall>x \<in> set (pump_held (Holding e) @ held q). N < Sequence x \<and> Sequence x < nx" using f by (simp_all add: flow_def)
  have "increasing (held q)" "\<forall>x \<in> set (held q). Sequence e < Sequence x \<and> Sequence x < nx" using up by (auto simp: increasing_def)
  then show "flow J w (Sequence e) nx sub q Reserving b2 H X'" using f acc b2 e l ak unfolding flow_def by auto
qed

lemma flow_ack:
  assumes f: "flow J w N nx sub q p b H X" and a: "bl_Ack J w n b = (r, b')" and n: "n \<le> H"
  shows "flow J w N nx sub q p b' H X" "\<forall>x \<in> set (bl_view J b'). x \<in> set (bl_view J b) \<or> Sequence x \<le> H"
proof -
  have i: "bl_ok J w (slots p) N b" and ak: "bl_acked b \<le> H" using f by (simp_all add: flow_def)
  note l = blg.ack_law [OF i a]
  have le: "bl_acked b' \<le> H" "max (bl_acked b) n \<le> H" using l ak n by auto
  show "\<forall>x \<in> set (bl_view J b'). x \<in> set (bl_view J b) \<or> Sequence x \<le> H" using l le(1) by (meson le_trans)
  show "flow J w N nx sub q p b' H X"
  proof (rule flow_backlog [OF f])
    fix x assume "x \<in> set (bl_view J b)"
    then have "x \<in> set (bl_view J b') \<or> Sequence x \<le> max (bl_acked b) n" using l not_le by blast
    then show "Sequence x \<in> Sequence ` set (bl_view J b') \<or> Sequence x \<le> H \<or> bl_lost b' (Sequence x) \<or> X (Sequence x)" using le(2) le_trans by blast
  qed (use l le in auto)
qed

lemma flow_read:
  assumes f: "flow J w N nx sub q p b H X" and a: "bl_NextAfter J w t m b = (r, b')"
  shows "flow J w N nx sub q p b' H X" "bl_view J b' = bl_view J b"
proof -
  have i: "bl_ok J w (slots p) N b" and ak: "bl_acked b \<le> H" using f by (simp_all add: flow_def)
  note l = blg.read_law [OF i a]
  show "bl_view J b' = bl_view J b" using l by simp
  show "flow J w N nx sub q p b' H X" using l ak by (intro flow_backlog [OF f]) auto
qed

lemma flow_discard:
  assumes f: "flow J w N nx sub q p (MemBacklog m) H X" and X: "X k"
  shows "flow J w N nx sub q p (MemBacklog (mb_discard k m)) H X"
    "set (bl_view J (MemBacklog (mb_discard k m))) \<subseteq> set (bl_view J (MemBacklog m))"
proof -
  have i: "mem_ok (slots p) N m" using f by (simp add: flow_def bl_ok_def)
  note d = mem_ok_discard [OF i, of k]
  show "set (bl_view J (MemBacklog (mb_discard k m))) \<subseteq> set (bl_view J (MemBacklog m))" using d(1) by (auto simp: bl_view_def)
  show "flow J w N nx sub q p (MemBacklog (mb_discard k m)) H X"
  proof (rule flow_backlog [OF f])
    fix x assume "x \<in> set (bl_view J (MemBacklog m))"
    then show "Sequence x \<in> Sequence ` set (bl_view J (MemBacklog (mb_discard k m))) \<or> Sequence x \<le> H \<or>
        bl_lost (MemBacklog (mb_discard k m)) (Sequence x) \<or> X (Sequence x)" using d(1) X by (cases "Sequence x = k") (auto simp: bl_view_def)
  qed (use d in \<open>auto simp: bl_ok_def bl_acked_def bl_lost_def\<close>)
qed

lemma flow_spool:
  assumes f: "flow J w N nx sub q p (SpoolBacklog s) H X" and s: "sp_ok J w (slots p) N s'" "sp_view J s' = sp_view J s" "spAckedThrough s' = spAckedThrough s"
    and l: "\<And>n. covers s n \<Longrightarrow> covers s' n \<or> X' n" and X: "\<And>n. X n \<Longrightarrow> X' n"
  shows "flow J w N nx sub q p (SpoolBacklog s') H X'"
proof (rule flow_backlog [OF f])
  show "bl_acked (SpoolBacklog s') \<le> H" using f s(3) by (simp add: flow_def bl_acked_def)
qed (use assms in \<open>auto simp: bl_ok_def bl_view_def bl_lost_def\<close>)

lemma sp_ok_drain:
  assumes "sp_ok J w k N s" "DrainDropped s = (r, s')"
  shows "sp_ok J w k N s'" "sp_view J s' = sp_view J s" "spAckedThrough s' = spAckedThrough s"
    "covers s n \<Longrightarrow> covers s' n \<or> (\<exists>c f l. r = Some (c, f, l) \<and> f \<le> n \<and> n \<le> l)"
proof -
  have c: "same_core s s'" using assms(2) by (auto simp: DrainDropped_def same_core_def split: if_splits)
  show "sp_ok J w k N s'" "sp_view J s' = sp_view J s" "spAckedThrough s' = spAckedThrough s"
    using assms(1) c unfolding sp_ok_def sp_view_def sp_records_def inv_core(7) [OF c] by (simp_all add: same_core_def)
  show "covers s n \<Longrightarrow> covers s' n \<or> (\<exists>c f l. r = Some (c, f, l) \<and> f \<le> n \<and> n \<le> l)"
    using assms(2) by (auto simp: DrainDropped_def covers_def split: if_splits)
qed

subsection \<open>A session\<close>

definition batch_len :: "(event list \<times> nat) option \<Rightarrow> nat" where
  "batch_len batch = (case batch of None \<Rightarrow> 0 | Some (es, ac) \<Rightarrow> length es)"

text \<open>\<open>V\<close> is the backlog's view, \<open>R\<close> the sequences reported as too large, \<open>U\<close> the limit on unacknowledged events.\<close>

definition sess :: "event list \<Rightarrow> nat \<Rightarrow> nat \<Rightarrow> (nat \<Rightarrow> bool) \<Rightarrow> int \<Rightarrow> delivery \<Rightarrow> (event list \<times> nat) option \<Rightarrow> bool" where
  "sess V N H R U d batch \<longleftrightarrow> increasing (dlSent d) \<and> (\<forall>e \<in> set (dlSent d). Sequence e \<le> dlSentThrough d) \<and> dlSentThrough d \<le> N \<and>
     set (dlInflight d) \<subseteq> Sequence ` set (dlSent d) \<and> int (length (dlInflight d) + batch_len batch) \<le> U \<and> (\<forall>q \<in> set (dlGivenUp d). R q) \<and>
     (\<forall>x \<in> set V. Sequence x \<le> dlSentThrough d \<longrightarrow> x \<in> set (dlSent d) \<or> Sequence x \<in> set (dlGivenUp d) \<or> Sequence x \<le> H) \<and>
     (\<forall>es ac. batch = Some (es, ac) \<longrightarrow> increasing es \<and> (\<forall>e \<in> set es. dlSentThrough d < Sequence e \<and> Sequence e \<le> N) \<and> ac \<le> H \<and>
        (\<forall>x \<in> set V. dlSentThrough d < Sequence x \<longrightarrow> x \<in> set es \<or> Sequence x \<le> H \<or> (\<forall>y \<in> set es. Sequence y < Sequence x)))"

lemma sess_mono:
  assumes s: "sess V N H R U d batch" and le: "N \<le> N'" "H \<le> H'" and R: "\<And>n. R n \<Longrightarrow> R' n"
    and V: "\<And>x. x \<in> set V' \<Longrightarrow> x \<in> set V \<or> N < Sequence x \<or> Sequence x \<le> H'"
  shows "sess V' N' H' R' U d batch"
proof -
  have st: "dlSentThrough d \<le> N" and old: "\<forall>x \<in> set V. Sequence x \<le> dlSentThrough d \<longrightarrow> x \<in> set (dlSent d) \<or> Sequence x \<in> set (dlGivenUp d) \<or> Sequence x \<le> H"
    using s by (simp_all add: sess_def)
  have 1: "x \<in> set (dlSent d) \<or> Sequence x \<in> set (dlGivenUp d) \<or> Sequence x \<le> H'" if x: "x \<in> set V'" "Sequence x \<le> dlSentThrough d" for x
    using V [OF x(1)] old x(2) st le(2) by (auto dest: le_trans)
  have 2: "increasing es \<and> (\<forall>e \<in> set es. dlSentThrough d < Sequence e \<and> Sequence e \<le> N') \<and> ac \<le> H' \<and>
        (\<forall>x \<in> set V'. dlSentThrough d < Sequence x \<longrightarrow> x \<in> set es \<or> Sequence x \<le> H' \<or> (\<forall>y \<in> set es. Sequence y < Sequence x))"
    if b: "batch = Some (es, ac)" for es ac
  proof -
    have o: "increasing es" "\<forall>e \<in> set es. dlSentThrough d < Sequence e \<and> Sequence e \<le> N" "ac \<le> H"
        "\<forall>x \<in> set V. dlSentThrough d < Sequence x \<longrightarrow> x \<in> set es \<or> Sequence x \<le> H \<or> (\<forall>y \<in> set es. Sequence y < Sequence x)"
      using s b unfolding sess_def by blast+
    have "x \<in> set es \<or> Sequence x \<le> H' \<or> (\<forall>y \<in> set es. Sequence y < Sequence x)" if x: "x \<in> set V'" "dlSentThrough d < Sequence x" for x
      using V [OF x(1)] o(2,4) x(2) le(2) by (meson le_less_trans le_trans)
    then show ?thesis using o le by (meson le_trans)
  qed
  have st': "dlSentThrough d \<le> N'" by (rule le_trans [OF st le(1)])
  have p: "increasing (dlSent d)" "\<forall>e \<in> set (dlSent d). Sequence e \<le> dlSentThrough d" "set (dlInflight d) \<subseteq> Sequence ` set (dlSent d)"
    "int (length (dlInflight d) + batch_len batch) \<le> U" "\<forall>q \<in> set (dlGivenUp d). R q" using s unfolding sess_def by blast+
  have r: "\<forall>q \<in> set (dlGivenUp d). R' q" using p(5) R by blast
  show ?thesis unfolding sess_def
    by (rule conjI [OF p(1) conjI [OF p(2) conjI [OF st' conjI [OF p(3) conjI [OF p(4) conjI [OF r conjI]]]]]]) (use 1 2 in blast)+
qed

lemma sess_drop_batch: "sess V N H R U d batch \<Longrightarrow> sess V N H R U d None"
  by (auto simp: sess_def batch_len_def)

lemma sess_link: "sess V N H R U d batch \<Longrightarrow> sess V N H R U (d\<lparr> dlConn := c, dlTick := t \<rparr>) batch"
  by (simp add: sess_def)

lemma sess_fresh: "0 \<le> U \<Longrightarrow> \<forall>x \<in> set V. 0 < Sequence x \<Longrightarrow> dlInflight d = [] \<Longrightarrow> dlSentThrough d = 0 \<Longrightarrow> dlSent d = [] \<Longrightarrow> dlGivenUp d = [] \<Longrightarrow>
    sess V N H R U d None"
  by (auto simp: sess_def batch_len_def increasing_def)

lemma trim_sub: "trimInflight xs n = (k, ys) \<Longrightarrow> set ys \<subseteq> set xs \<and> length ys \<le> length xs"
  by (auto simp: trimInflight_def Let_def dest: in_set_dropD split: if_splits)

lemma sess_trim: "sess V N H R U d None \<Longrightarrow> trimInflight (dlInflight d) n = (k, xs) \<Longrightarrow> sess V N H R U (d\<lparr> dlInflight := xs \<rparr>) None"
  using trim_sub [of "dlInflight d" n k xs] by (auto simp: sess_def batch_len_def)

text \<open>A turn of the dispatch loop: the event is sent, given up, or stepped over because the host holds it.\<close>

lemma sess_turn:
  assumes s: "sess V N H R U d (Some (e # es, ac))" and V: "set V' \<subseteq> set V"
    and d: "dlSentThrough d' = Sequence e" "dlGivenUp d' = gs @ dlGivenUp d" "\<forall>q \<in> set gs. R q"
      "dlSent d' = dlSent d @ xs" "dlInflight d' = dlInflight d @ map Sequence xs" "xs = [] \<or> xs = [e]"
    and disp: "xs = [e] \<or> Sequence e \<in> set gs \<or> Sequence e \<le> H"
  shows "sess V' N H R U d' (Some (es, ac))" "sess V' N H R U d' None"
proof -
  have o: "increasing (e # es)" "\<forall>x \<in> set (e # es). dlSentThrough d < Sequence x \<and> Sequence x \<le> N" "ac \<le> H"
      "\<forall>x \<in> set V. dlSentThrough d < Sequence x \<longrightarrow> x \<in> set (e # es) \<or> Sequence x \<le> H \<or> (\<forall>y \<in> set (e # es). Sequence y < Sequence x)"
    using s unfolding sess_def by blast+
  have p: "increasing (dlSent d)" "\<forall>x \<in> set (dlSent d). Sequence x \<le> dlSentThrough d" "set (dlInflight d) \<subseteq> Sequence ` set (dlSent d)"
      "int (length (dlInflight d) + length (e # es)) \<le> U" "\<forall>q \<in> set (dlGivenUp d). R q"
      "\<forall>x \<in> set V. Sequence x \<le> dlSentThrough d \<longrightarrow> x \<in> set (dlSent d) \<or> Sequence x \<in> set (dlGivenUp d) \<or> Sequence x \<le> H"
    using s unfolding sess_def batch_len_def by simp_all
  have es: "increasing es" "\<forall>y \<in> set es. Sequence e < Sequence y" using o(1) by (simp_all add: increasing_def)
  have lt: "dlSentThrough d < Sequence e" using o(2) by simp
  have below: "\<forall>x \<in> set (dlSent d). Sequence x < Sequence e" using p(2) lt le_less_trans by blast
  have inc: "increasing (dlSent d')" using p(1) below d(4,6) by (auto simp: increasing_snoc)
  have le: "\<forall>x \<in> set (dlSent d'). Sequence x \<le> Sequence e" using below d(4,6) by (auto intro: less_imp_le)
  have new: "x \<in> set (dlSent d') \<or> Sequence x \<in> set (dlGivenUp d') \<or> Sequence x \<le> H" if x: "x \<in> set V'" "Sequence x \<le> Sequence e" for x
  proof (cases "Sequence x \<le> dlSentThrough d")
    case True
    then show ?thesis using p(6) V x(1) d(2,4) by auto
  next
    case False
    then have "x \<in> set (e # es) \<or> Sequence x \<le> H \<or> (\<forall>y \<in> set (e # es). Sequence y < Sequence x)" using o(4) V x(1) by (meson not_le subsetD)
    then have "x = e \<or> Sequence x \<le> H" using es(2) x(2) by fastforce
    then show ?thesis using disp d(2,4) by auto
  qed
  have rest: "x \<in> set es \<or> Sequence x \<le> H \<or> (\<forall>y \<in> set es. Sequence y < Sequence x)" if x: "x \<in> set V'" "Sequence e < Sequence x" for x
    using o(4) V x lt by fastforce
  have len: "int (length (dlInflight d') + length es) \<le> U" using p(4) d(5,6) by auto
  have inf: "set (dlInflight d') \<subseteq> Sequence ` set (dlSent d')" using p(3) d(4,5) by auto
  have gu: "\<forall>q \<in> set (dlGivenUp d'). R q" using p(5) d(2,3) by auto
  show "sess V' N H R U d' (Some (es, ac))" unfolding sess_def d(1) batch_len_def using inc le inf len gu new rest o es by auto
  then show "sess V' N H R U d' None" by (rule sess_drop_batch)
qed

end
