(* ===== verification/Agent_Safety.thy ===== *)
theory Agent_Safety
  imports Agent_Flow
begin

section \<open>The invariant of the agent\<close>

definition host_pos :: "agent \<Rightarrow> nat" where
  "host_pos a = foldr max (agHostSaid a) 0"

definition failed_range :: "sender \<Rightarrow> nat \<Rightarrow> bool" where
  "failed_range s n \<longleftrightarrow> 0 < sdFailedLow s \<and> sdFailedLow s \<le> n \<and> n \<le> sdFailedHigh s"

text \<open>A sequence given up as too large: a report names it, or it is such a report itself (which is logged).\<close>

definition too_large_reported :: "event list \<Rightarrow> sender_call list \<Rightarrow> nat \<Rightarrow> bool" where
  "too_large_reported gs cs n \<longleftrightarrow> (\<exists>e \<in> set gs. Sequence e = n \<and> (is_oversized_report e \<or> (\<exists>now. Emit (oversized_report now e) \<in> set cs)))"

definition sender_call_ok :: "sender_call \<Rightarrow> bool" where
  "sender_call_ok c = (case c of Emit e \<Rightarrow> Sequence e = 0 | Resume h \<Rightarrow> h < max64)"

text \<open>
  \<open>core\<close> is the invariant with everything but the sender as arguments: \<open>F\<close> the sequences in a loss report,
  \<open>gs\<close> the events given up, \<open>cs\<close> the calls already executed.
\<close>

definition core :: "event_codec \<Rightarrow> disk_world \<Rightarrow> nat \<Rightarrow> nat \<Rightarrow> event list \<Rightarrow> queue \<Rightarrow> pump \<Rightarrow> nat \<Rightarrow> (nat \<Rightarrow> bool) \<Rightarrow> event list \<Rightarrow> sender_call list \<Rightarrow>
    delivery option \<Rightarrow> (event list \<times> nat) option \<Rightarrow> sender \<Rightarrow> bool" where
  "core J w N nx sub q p H F gs cs ses batch s \<longleftrightarrow>
     flow J w N nx sub q p (sdBacklog s) H (\<lambda>n. failed_range s n \<or> F n \<or> too_large_reported gs (cs @ sdCalls s) n) \<and>
     (\<forall>d. ses = Some d \<longrightarrow> sess (bl_view J (sdBacklog s)) N H (too_large_reported gs (cs @ sdCalls s)) (trMaxUnacked (acTransport (sdCfg s))) d batch) \<and>
     (ses = None \<longrightarrow> batch = None) \<and> (\<forall>n \<in> set (sdOversized s). too_large_reported gs (cs @ sdCalls s) n) \<and> sdAcked s \<le> H \<and>
     (\<forall>c \<in> set (sdCalls s). sender_call_ok c) \<and> 0 < trMaxUnacked (acTransport (sdCfg s))"

definition agent_inv :: "event_codec \<Rightarrow> disk_world \<Rightarrow> nat \<Rightarrow> agent \<Rightarrow> bool" where
  "agent_inv J w N a \<longleftrightarrow> core J w N (next_seq (agSeq a)) (agSubmitted a) (agQueue a) (agPump a) (host_pos a) (\<lambda>n. in_ranges n (agReports a))
     (agGivenUp a) (agCalls a) (agSession a) (agBatch a) (agSend a)"

subsection \<open>Updates of the sender\<close>

lemma too_large_reported_mono: "too_large_reported gs cs n \<Longrightarrow> set gs \<subseteq> set gs' \<Longrightarrow> set cs \<subseteq> set cs' \<Longrightarrow> too_large_reported gs' cs' n"
  unfolding too_large_reported_def by blast

lemma core_irrelevant [simp]:
  "core J w N nx sub q p H F gs cs ses batch (s\<lparr> smSent := x \<rparr>) = core J w N nx sub q p H F gs cs ses batch s"
  "core J w N nx sub q p H F gs cs ses batch (s\<lparr> smResent := x \<rparr>) = core J w N nx sub q p H F gs cs ses batch s"
  "core J w N nx sub q p H F gs cs ses batch (s\<lparr> smAcknowledged := x \<rparr>) = core J w N nx sub q p H F gs cs ses batch s"
  "core J w N nx sub q p H F gs cs ses batch (s\<lparr> smDropped := x \<rparr>) = core J w N nx sub q p H F gs cs ses batch s"
  "core J w N nx sub q p H F gs cs ses batch (s\<lparr> smSendErrors := x \<rparr>) = core J w N nx sub q p H F gs cs ses batch s"
  "core J w N nx sub q p H F gs cs ses batch (s\<lparr> smReconnects := x \<rparr>) = core J w N nx sub q p H F gs cs ses batch s"
  "core J w N nx sub q p H F gs cs ses batch (s\<lparr> sdWake := b \<rparr>) = core J w N nx sub q p H F gs cs ses batch s"
  "core J w N nx sub q p H F gs cs ses batch (s\<lparr> sdHighestSent := x \<rparr>) = core J w N nx sub q p H F gs cs ses batch s"
  "core J w N nx sub q p H F gs cs ses batch (s\<lparr> sdHostAhead := x \<rparr>) = core J w N nx sub q p H F gs cs ses batch s"
  "core J w N nx sub q p H F gs cs ses batch (s\<lparr> sdLastPong := t \<rparr>) = core J w N nx sub q p H F gs cs ses batch s"
  "core J w N nx sub q p H F gs cs ses batch (s\<lparr> sdPruned := x \<rparr>) = core J w N nx sub q p H F gs cs ses batch s"
  "core J w N nx sub q p H F gs cs ses batch (s\<lparr> sdConn := co \<rparr>) = core J w N nx sub q p H F gs cs ses batch s"
  "core J w N nx sub q p H F gs cs ses batch (s\<lparr> sdClosed := b \<rparr>) = core J w N nx sub q p H F gs cs ses batch s"
  by (simp_all add: core_def failed_range_def)

lemma core_change:
  assumes c: "core J w N nx sub q p H F gs cs ses batch s"
    and f: "flow J w N nx sub q p (sdBacklog s) H (\<lambda>n. failed_range s n \<or> F n \<or> too_large_reported gs (cs @ sdCalls s) n) \<Longrightarrow>
      flow J w N' nx' sub' q' p' (sdBacklog s') H' (\<lambda>n. failed_range s' n \<or> F' n \<or> too_large_reported gs' (cs' @ sdCalls s') n)"
    and le: "N \<le> N'" "H \<le> H'" and R: "set gs \<subseteq> set gs'" "set (cs @ sdCalls s) \<subseteq> set (cs' @ sdCalls s')"
    and V: "\<And>x. x \<in> set (bl_view J (sdBacklog s')) \<Longrightarrow> x \<in> set (bl_view J (sdBacklog s)) \<or> N < Sequence x \<or> Sequence x \<le> H'"
    and ov: "set (sdOversized s') \<subseteq> set (sdOversized s)" and ak: "sdAcked s' \<le> H'" and co: "\<forall>c \<in> set (sdCalls s'). sender_call_ok c" and cfg: "sdCfg s' = sdCfg s"
  shows "core J w N' nx' sub' q' p' H' F' gs' cs' ses batch s'"
proof -
  have rm: "too_large_reported gs' (cs' @ sdCalls s') n" if "too_large_reported gs (cs @ sdCalls s) n" for n by (rule too_large_reported_mono [OF that R])
  have "sess (bl_view J (sdBacklog s')) N' H' (too_large_reported gs' (cs' @ sdCalls s')) (trMaxUnacked (acTransport (sdCfg s'))) d batch" if d: "ses = Some d" for d
  proof -
    have "sess (bl_view J (sdBacklog s)) N H (too_large_reported gs (cs @ sdCalls s)) (trMaxUnacked (acTransport (sdCfg s))) d batch" using c d by (simp add: core_def)
    then show ?thesis unfolding cfg by (rule sess_mono [OF _ le rm V])
  qed
  moreover have "\<forall>n \<in> set (sdOversized s'). too_large_reported gs' (cs' @ sdCalls s') n" using c ov rm unfolding core_def by blast
  ultimately show ?thesis using c f ak co cfg unfolding core_def by simp
qed

lemma core_calls:
  assumes c: "core J w N nx sub q p H F gs cs ses batch s" and k: "\<forall>c \<in> set ks. sender_call_ok c"
  shows "core J w N nx sub q p H F gs cs ses batch (s\<lparr> sdCalls := sdCalls s @ ks \<rparr>)"
proof (rule core_change [OF c])
  assume "flow J w N nx sub q p (sdBacklog s) H (\<lambda>n. failed_range s n \<or> F n \<or> too_large_reported gs (cs @ sdCalls s) n)"
  then have "flow J w N nx sub q p (sdBacklog s) H (\<lambda>n. failed_range s n \<or> F n \<or> too_large_reported gs (cs @ sdCalls s @ ks) n)"
    by (rule flow_mono) (auto intro: too_large_reported_mono)
  then show "flow J w N nx sub q p (sdBacklog (s\<lparr> sdCalls := sdCalls s @ ks \<rparr>)) H
      (\<lambda>n. failed_range (s\<lparr> sdCalls := sdCalls s @ ks \<rparr>) n \<or> F n \<or> too_large_reported gs (cs @ sdCalls (s\<lparr> sdCalls := sdCalls s @ ks \<rparr>)) n)"
    by (simp add: failed_range_def)
qed (use c k in \<open>auto simp: core_def\<close>)

lemma core_oversized:
  assumes c: "core J w N nx sub q p H F gs cs ses batch s" and x: "set xs \<subseteq> set (sdOversized s)"
  shows "core J w N nx sub q p H F gs cs ses batch (s\<lparr> sdOversized := xs \<rparr>)"
  using c x unfolding core_def by (auto simp: failed_range_def)

lemma core_acked: "core J w N nx sub q p H F gs cs ses batch s \<Longrightarrow> n \<le> H \<Longrightarrow> core J w N nx sub q p H F gs cs ses batch (s\<lparr> sdAcked := n \<rparr>)"
  unfolding core_def by (simp add: failed_range_def)

lemma core_host:
  assumes c: "core J w N nx sub q p H F gs cs ses batch s" and H: "H \<le> H'"
  shows "core J w N nx sub q p H' F gs cs ses batch s"
proof (rule core_change [OF c])
  assume "flow J w N nx sub q p (sdBacklog s) H (\<lambda>n. failed_range s n \<or> F n \<or> too_large_reported gs (cs @ sdCalls s) n)"
  then show "flow J w N nx sub q p (sdBacklog s) H' (\<lambda>n. failed_range s n \<or> F n \<or> too_large_reported gs (cs @ sdCalls s) n)" by (rule flow_mono [OF _ H])
qed (use c H in \<open>auto simp: core_def\<close>)

lemma core_session: "core J w N nx sub q p H F gs cs ses batch s \<Longrightarrow> core J w N nx sub q p H F gs cs None None s"
  by (simp add: core_def)

lemma core_no_batch: "core J w N nx sub q p H F gs cs ses batch s \<Longrightarrow> core J w N nx sub q p H F gs cs ses None s"
  unfolding core_def using sess_drop_batch by blast

lemma core_link: "core J w N nx sub q p H F gs cs (Some d) batch s \<Longrightarrow> core J w N nx sub q p H F gs cs (Some (d\<lparr> dlConn := c, dlTick := t \<rparr>)) batch s"
  unfolding core_def using sess_link by blast

lemma core_release:
  assumes c: "core J w N nx sub q p H F gs cs ses batch s" and n: "n \<le> H"
  shows "core J w N nx sub q p H F gs cs ses batch (release_through J w n s)"
proof -
  obtain r b where a: "bl_Ack J w n (sdBacklog s) = (r, b)" by fastforce
  have s: "release_through J w n s = s\<lparr> sdBacklog := b \<rparr>" by (simp add: release_through_def a)
  have f: "flow J w N nx sub q p (sdBacklog s) H (\<lambda>n. failed_range s n \<or> F n \<or> too_large_reported gs (cs @ sdCalls s) n)" using c by (simp add: core_def)
  note l = flow_ack [OF f a n]
  show ?thesis unfolding s by (rule core_change [OF c]) (use l c in \<open>auto simp: failed_range_def core_def\<close>)
qed

lemma core_prune: "core J w N nx sub q p H F gs cs ses batch s \<Longrightarrow> core J w N nx sub q p H F gs cs ses batch (pruneOversized n s)"
proof -
  assume c: "core J w N nx sub q p H F gs cs ses batch s"
  have "core J w N nx sub q p H F gs cs ses batch (s\<lparr> sdOversized := filter (\<lambda>q. \<not> q \<le> n) (sdOversized s) \<rparr>)" by (rule core_oversized [OF c]) auto
  then have "core J w N nx sub q p H F gs cs ses batch (s\<lparr> sdOversized := filter (\<lambda>q. \<not> q \<le> n) (sdOversized s), sdPruned := n \<rparr>)" by simp
  then show ?thesis using c by (simp add: pruneOversized_def)
qed

lemma core_adopt: "core J w N nx sub q p H F gs cs ses batch s \<Longrightarrow> core J w N nx sub q p H F gs cs ses batch (adoptHostPosition n s)"
proof -
  assume c: "core J w N nx sub q p H F gs cs ses batch s"
  then have h: "core J w N nx sub q p H F gs cs ses batch (s\<lparr> sdHostAhead := n \<rparr>)" by simp
  have "core J w N nx sub q p H F gs cs ses batch ((s\<lparr> sdHostAhead := n \<rparr>)\<lparr> sdCalls := sdCalls (s\<lparr> sdHostAhead := n \<rparr>) @ [Resume n] \<rparr>)" if "n < max64"
    by (rule core_calls [OF h]) (simp add: sender_call_ok_def that)
  then show ?thesis using c h by (simp add: adoptHostPosition_def Let_def)
qed

lemma core_applyAck:
  assumes c: "core J w N nx sub q p H F gs cs ses batch s" and n: "n \<le> H"
  shows "core J w N nx sub q p H F gs cs ses batch (applyAck J w n s)"
proof -
  let ?s = "release_through J w n (adoptHostPosition n s)"
  have 1: "core J w N nx sub q p H F gs cs ses batch ?s" by (rule core_release [OF core_adopt [OF c] n])
  have 2: "core J w N nx sub q p H F gs cs ses batch (?s\<lparr> sdAcked := n \<rparr>)" by (rule core_acked [OF 1 n])
  show ?thesis using c core_prune [OF 1, of n] core_prune [OF 2, of n] by (simp add: applyAck_def Let_def)
qed

lemma core_reconcile: "core J w N nx sub q p H F gs cs ses batch s \<Longrightarrow> core J w N nx sub q p H F gs cs ses batch (reconcile J w s)"
proof -
  assume c: "core J w N nx sub q p H F gs cs ses batch s"
  let ?s = "if bl_FirstUnacked (sdBacklog s) > 0 then pruneOversized (bl_FirstUnacked (sdBacklog s) - 1) s else s"
  have p: "core J w N nx sub q p H F gs cs ses batch ?s" using c core_prune by simp
  have "sdAcked ?s \<le> H" using p unfolding core_def by blast
  then show ?thesis using p core_release [OF p] by (simp add: reconcile_def Let_def)
qed

subsection \<open>Internal events are unnumbered\<close>

lemma NewInternal_seq [simp]: "Sequence (NewInternal now t v fs) = 0"
proof -
  have "Sequence (fold (\<lambda>(k, v). SetField k v) fs e) = Sequence e" for e by (induction fs arbitrary: e) (auto simp: SetField_def)
  then show ?thesis by (simp add: NewInternal_def zero_event_def)
qed

lemma event_seqs [simp]:
  "Sequence (NewTransportConnected now pr n) = 0" "Sequence (NewTransportDisconnected now rs n) = 0" "Sequence (oversized_report now e) = 0"
  "Sequence (NewQueueOverflow now i j k) = 0" "Sequence (NewSpoolFull now i j k) = 0"
  "Sequence (started_event now a) = 0" "Sequence (stopping_event now m a) = 0"
  by (simp_all add: NewTransportConnected_def NewTransportDisconnected_def oversized_report_def NewQueueOverflow_def NewSpoolFull_def
      started_event_def stopping_event_def)

lemma core_emit: "core J w N nx sub q p H F gs cs ses batch s \<Longrightarrow> Sequence e = 0 \<Longrightarrow> core J w N nx sub q p H F gs cs ses batch (emit e s)"
  unfolding emit_def by (rule core_calls) (simp_all add: sender_call_ok_def)

lemma core_reportFailure: "core J w N nx sub q p H F gs cs ses batch s \<Longrightarrow> core J w N nx sub q p H F gs cs ses batch (snd (reportFailure errText now err n s))"
  by (simp add: reportFailure_def Let_def core_emit)

lemma core_run:
  "core J w N nx sub q p H F gs cs ses batch s \<Longrightarrow> core J w N nx sub q p H F gs cs ses batch (snd (run_failed errText now err r s))"
  "core J w N nx sub q p H F gs cs ses batch s \<Longrightarrow> core J w N nx sub q p H F gs cs ses batch (snd (run_connected now r s))"
  using core_reportFailure [of J w N nx sub q p H F gs cs ses batch s errText now err "rnAttempts r + 1"]
  by (simp_all add: run_failed_def run_connected_def case_prod_beta Let_def core_emit)

subsection \<open>Numbering and calls\<close>

lemma core_submit:
  assumes c: "core J w N nx sub q p H F gs cs ses batch s" and nx: "nx < max64" and e: "Sequence e = nx"
  shows "core J w N (Suc nx) (sub @ [e]) (snd (Put (Some e) q)) p H F gs cs ses batch s"
  by (rule core_change [OF c]) (use c flow_submit [OF _ nx e] in \<open>auto simp: core_def\<close>)

lemma core_next: "core J w N nx sub q p H F gs cs ses batch s \<Longrightarrow> nx \<le> nx' \<Longrightarrow> nx' \<le> max64 \<Longrightarrow> core J w N nx' sub q p H F gs cs ses batch s"
  unfolding core_def using flow_next by blast

lemma submit_eq:
  assumes "Sequence e = 0"
  obtains e2 where "Sequence e2 = next_seq (agSeq a)"
    "submit e a = a\<lparr> agSeq := (agSeq a)\<lparr> next_seq := inc64 (next_seq (agSeq a)) \<rparr>, agCreated := inc64 (agCreated a),
       agQueue := snd (Put (Some e2) (agQueue a)), agSubmitted := agSubmitted a @ [e2],
       agExhausted := (agExhausted a \<or> next_seq (agSeq a) \<ge> max64) \<rparr>"
proof -
  let ?e = "e\<lparr> Sequence := next_seq (agSeq a) \<rparr>"
  let ?e2 = "if BootID ?e = [] then ?e\<lparr> BootID := bootID (agSeq a) \<rparr> else ?e"
  have "Sequence ?e2 = next_seq (agSeq a)" by simp
  moreover have "assign (Some e) (agSeq a) = (Sequence ?e2, Some ?e2, (agSeq a)\<lparr> next_seq := inc64 (next_seq (agSeq a)) \<rparr>)"
    using assms by (simp add: assign_def Let_def)
  ultimately show thesis by (intro that [of ?e2]) (simp_all add: submit_def)
qed

lemma submit_inv:
  assumes i: "agent_inv J w N a" and e: "Sequence e = 0" and x: "\<not> agExhausted (submit e a)"
  shows "agent_inv J w N (submit e a)"
proof -
  obtain e2 where e2: "Sequence e2 = next_seq (agSeq a)"
    "submit e a = a\<lparr> agSeq := (agSeq a)\<lparr> next_seq := inc64 (next_seq (agSeq a)) \<rparr>, agCreated := inc64 (agCreated a),
       agQueue := snd (Put (Some e2) (agQueue a)), agSubmitted := agSubmitted a @ [e2],
       agExhausted := (agExhausted a \<or> next_seq (agSeq a) \<ge> max64) \<rparr>" by (rule submit_eq [OF e])
  have lt: "next_seq (agSeq a) < max64" using x by (simp add: e2(2))
  then have "inc64 (next_seq (agSeq a)) = Suc (next_seq (agSeq a))" by (simp add: inc64_def)
  then show ?thesis using core_submit [OF i [unfolded agent_inv_def] lt e2(1)] by (simp add: agent_inv_def e2(2) host_pos_def)
qed

lemma submit_fields [simp]:
  "agSend (submit e a) = agSend a" "agSession (submit e a) = agSession a" "agBatch (submit e a) = agBatch a" "agPump (submit e a) = agPump a"
  "agReports (submit e a) = agReports a" "agCalls (submit e a) = agCalls a" "agGivenUp (submit e a) = agGivenUp a" "agHostSaid (submit e a) = agHostSaid a"
  "agExhausted (submit e a) = (agExhausted a \<or> next_seq (agSeq a) \<ge> max64)"
  by (simp_all add: submit_def split: prod.split)

lemma resume_inv:
  assumes i: "agent_inv J w N a" and h: "h < max64"
  shows "agent_inv J w N (resumeNumbering h a)"
proof -
  have c: "core J w N (next_seq (agSeq a)) (agSubmitted a) (agQueue a) (agPump a) (host_pos a) (\<lambda>n. in_ranges n (agReports a))
     (agGivenUp a) (agCalls a) (agSession a) (agBatch a) (agSend a)" using i by (simp add: agent_inv_def)
  then have "next_seq (agSeq a) \<le> max64" by (simp add: core_def flow_def)
  moreover have "inc64 h = Suc h" using h by (simp add: inc64_def)
  ultimately have "next_seq (agSeq a) \<le> next_seq (snd (advanceTo (inc64 h) (agSeq a)))" "next_seq (snd (advanceTo (inc64 h) (agSeq a))) \<le> max64"
    using h by (auto simp: advanceTo_def Let_def)
  from core_next [OF c this] show ?thesis by (simp add: agent_inv_def resumeNumbering_def host_pos_def)
qed

lemma run_call_inv: "agent_inv J w N a \<Longrightarrow> sender_call_ok c \<Longrightarrow> \<not> agExhausted (run_call c a) \<Longrightarrow> agent_inv J w N (run_call c a)"
  by (cases c) (auto simp: run_call_def sender_call_ok_def submit_inv resume_inv simp del: submit_fields)

lemma run_call_fields [simp]:
  "agSend (run_call c a) = agSend a" "agExhausted a \<Longrightarrow> agExhausted (run_call c a)"
  by (cases c; simp add: run_call_def resumeNumbering_def)+

lemma fold_calls:
  "agSend (fold run_call ks a) = agSend a" "agExhausted a \<Longrightarrow> agExhausted (fold run_call ks a)"
  "agent_inv J w N a \<Longrightarrow> \<forall>c \<in> set ks. sender_call_ok c \<Longrightarrow> \<not> agExhausted (fold run_call ks a) \<Longrightarrow> agent_inv J w N (fold run_call ks a)"
proof (induction ks arbitrary: a)
  case (Cons k ks)
  {
    case 1
    then show ?case using Cons.IH(1) by simp
  next
    case 2
    then show ?case using Cons.IH(2) by simp
  next
    case 3
    then have "\<not> agExhausted (run_call k a)" using Cons.IH(2) by auto
    then show ?case using 3 run_call_inv Cons.IH(3) by simp
  }
qed simp_all

lemma run_calls_inv:
  assumes i: "agent_inv J w N a" and x: "\<not> agExhausted (run_calls a)"
  shows "agent_inv J w N (run_calls a)" "sdCalls (agSend (run_calls a)) = []"
proof -
  let ?a = "a\<lparr> agSend := (agSend a)\<lparr> sdCalls := [] \<rparr>, agCalls := agCalls a @ sdCalls (agSend a) \<rparr>"
  have c: "core J w N (next_seq (agSeq a)) (agSubmitted a) (agQueue a) (agPump a) (host_pos a) (\<lambda>n. in_ranges n (agReports a))
     (agGivenUp a) (agCalls a) (agSession a) (agBatch a) (agSend a)" using i by (simp add: agent_inv_def)
  have k: "\<forall>c \<in> set (sdCalls (agSend a)). sender_call_ok c" using c unfolding core_def by blast
  have "agent_inv J w N ?a" using c unfolding agent_inv_def core_def by (simp add: failed_range_def host_pos_def)
  then show "agent_inv J w N (run_calls a)" using fold_calls(3) [OF _ k] x unfolding run_calls_def by blast
  show "sdCalls (agSend (run_calls a)) = []" by (simp add: run_calls_def fold_calls(1))
qed

lemma run_calls_exhausted: "agExhausted a \<Longrightarrow> agExhausted (run_calls a)"
  by (simp add: run_calls_def fold_calls(2))

subsection \<open>The pump\<close>

lemma core_reserve:
  assumes c: "core J w N nx sub q Reserving H F gs cs ses batch s" and r: "pump_reserve pick d n s = (p, s')"
  shows "core J w N nx sub q p H F gs cs ses batch s'"
proof -
  obtain ro b where b: "bl_Reserve pick d (sdBacklog s) = (ro, b)" by fastforce
  have p: "p = (if ro = Reserved then Getting else p)" "p \<in> {Reserving, Getting, Stopped}" "ro \<noteq> Reserved \<Longrightarrow> p \<noteq> Getting"
    and s': "core J w N nx sub q p H F gs cs ses batch s' = core J w N nx sub q p H F gs cs ses batch (s\<lparr> sdBacklog := b \<rparr>)"
    using r by (auto simp: pump_reserve_def b split: reserve_outcome.splits)
  have f: "flow J w N nx sub q Reserving (sdBacklog s) H (\<lambda>n. failed_range s n \<or> F n \<or> too_large_reported gs (cs @ sdCalls s) n)" using c by (simp add: core_def)
  note l = flow_reserve [OF f b p]
  show ?thesis unfolding s' by (rule core_change [OF c]) (use l c in \<open>auto simp: core_def failed_range_def\<close>)
qed

lemma core_append:
  assumes c: "core J w N nx sub q (Holding e) H F gs cs ses batch s" and r: "pump_append J w e s = (p, s')"
  shows "core J w (Sequence e) nx sub q p H F gs cs ses batch s'"
proof -
  obtain r0 b where b: "bl_Append J w e (sdBacklog s) = (r0, b)" by fastforce
  let ?b = "if r0 = Inr () then b else bl_Release b"
  let ?X = "\<lambda>n. failed_range s n \<or> F n \<or> too_large_reported gs (cs @ sdCalls s) n"
  let ?X' = "\<lambda>n. failed_range s' n \<or> F n \<or> too_large_reported gs (cs @ sdCalls s) n"
  have f: "flow J w N nx sub q (Holding e) (sdBacklog s) H ?X" using c by (simp add: core_def)
  have pos: "0 < Sequence e" using f by (simp add: flow_def)
  have s': "p = Reserving" "sdBacklog s' = ?b" "sdCalls s' = sdCalls s" "sdOversized s' = sdOversized s" "sdAcked s' = sdAcked s" "sdCfg s' = sdCfg s"
    using r by (auto simp: pump_append_def b recordAppendFailure_def signal_def split: sum.splits)
  have fr: "failed_range s n \<Longrightarrow> failed_range s' n" for n
    using r pos by (auto simp: pump_append_def b recordAppendFailure_def signal_def failed_range_def split: sum.splits)
  have fe: "r0 \<noteq> Inr () \<Longrightarrow> failed_range s' (Sequence e)"
    using r pos by (auto simp: pump_append_def b recordAppendFailure_def signal_def failed_range_def split: sum.splits)
  have "flow J w (Sequence e) nx sub q Reserving ?b H ?X' \<and> N \<le> Sequence e \<and>
      (\<forall>x \<in> set (bl_view J ?b). x \<in> set (bl_view J (sdBacklog s)) \<or> Sequence x = Sequence e \<or> Sequence x \<le> H)"
    using flow_append [OF f b, of ?X' ?b] fr fe by blast
  moreover have "N < Sequence e" using f by (simp add: flow_def)
  ultimately show ?thesis using c unfolding s'(1) by (intro core_change [OF c]) (auto simp: s' core_def)
qed

subsection \<open>Dispatch\<close>

lemma sess_batch:
  assumes "sess V N H R U d None" "increasing es" "\<forall>e \<in> set es. dlSentThrough d < Sequence e \<and> Sequence e \<le> N" "ac \<le> H"
    "int (length (dlInflight d) + length es) \<le> U"
    "\<forall>x \<in> set V. dlSentThrough d < Sequence x \<longrightarrow> x \<in> set es \<or> Sequence x \<le> H \<or> (\<forall>y \<in> set es. Sequence y < Sequence x)"
  shows "sess V N H R U d (Some (es, ac))"
  using assms unfolding sess_def batch_len_def by simp

lemma core_read:
  assumes c: "core J w N nx sub q p H F gs cs (Some d) None s" and r: "dispatch_read J w s d = (rr, s')"
  shows "core J w N nx sub q p H F gs cs (Some d) None s'" "rr = Inr es \<Longrightarrow> core J w N nx sub q p H F gs cs (Some d) (Some (es, sdAcked s')) s'"
proof -
  let ?U = "trMaxUnacked (acTransport (sdCfg s))"
  let ?V = "bl_view J (sdBacklog s)"
  have f: "flow J w N nx sub q p (sdBacklog s) H (\<lambda>n. failed_range s n \<or> F n \<or> too_large_reported gs (cs @ sdCalls s) n)"
    and se: "sess ?V N H (too_large_reported gs (cs @ sdCalls s)) ?U d None" and ak: "sdAcked s \<le> H" using c by (simp_all add: core_def)
  define room where "room = ?U - int (length (dlInflight d))"
  define m where "m = (if room > maxSendBatch then maxSendBatch else room)"
  obtain r0 b0 where nx: "bl_NextAfter J w (dlSentThrough d) m (sdBacklog s) = (r0, b0)" by fastforce
  have "dispatch_read J w s d = (if room \<le> 0 \<or> \<not> unsent (dlSentThrough d) s then (Inr [], s) else (r0, s\<lparr> sdBacklog := b0 \<rparr>))"
    unfolding dispatch_read_def Let_def room_def [symmetric] m_def [symmetric] nx by simp
  then consider (idle) "rr = Inr []" "s' = s" | (read) b where "0 < room" "bl_NextAfter J w (dlSentThrough d) m (sdBacklog s) = (rr, b)" "s' = s\<lparr> sdBacklog := b \<rparr>"
    using r nx by (cases "room \<le> 0 \<or> \<not> unsent (dlSentThrough d) s") auto
  then have "core J w N nx sub q p H F gs cs (Some d) None s' \<and> (\<forall>es. rr = Inr es \<longrightarrow> core J w N nx sub q p H F gs cs (Some d) (Some (es, sdAcked s')) s')"
  proof cases
    case idle
    have "sess ?V N H (too_large_reported gs (cs @ sdCalls s)) ?U d (Some ([], sdAcked s))" using se ak by (auto simp: sess_def batch_len_def increasing_def)
    then show ?thesis using c idle by (simp add: core_def)
  next
    case read
    note l = flow_read [OF f read(2)]
    have i: "bl_ok J w (slots p) N (sdBacklog s)" using f by (simp add: flow_def)
    have 1: "core J w N nx sub q p H F gs cs (Some d) None s'" unfolding read(3)
      by (rule core_change [OF c]) (use l c in \<open>auto simp: core_def failed_range_def\<close>)
    have "sess ?V N H (too_large_reported gs (cs @ sdCalls s)) ?U d (Some (es, sdAcked s))" if es: "rr = Inr es" for es
    proof -
      note rd = read(2) [unfolded es]
      note so = blg.read_sound [OF i rd]
      have m: "0 < m" "m \<le> room" using read(1) by (auto simp: m_def maxSendBatch_def)
      have "es = take (nat m) (filter (\<lambda>e. dlSentThrough d < Sequence e) ?V)" using blg.read_law [OF i rd] by blast
      then have "length es \<le> nat m" by simp
      then have len: "int (length (dlInflight d) + length es) \<le> ?U" using m by (simp add: room_def)
      have le: "\<forall>e \<in> set es. Sequence e \<le> N" using so(2) blg.view_law [OF i] blg.bound_law [OF i] by (meson le_trans subsetD)
      have gap: "x \<in> set es \<or> (\<forall>y \<in> set es. Sequence y < Sequence x)" if x: "x \<in> set ?V" "dlSentThrough d < Sequence x" for x
        using blg.read_no_gap [OF i rd x] by (meson not_le)
      show ?thesis by (rule sess_batch [OF se so(1) _ ak len]) (use so(3) le gap in blast)+
    qed
    then show ?thesis using 1 l(2) unfolding core_def read(3) by simp
  qed
  then show "core J w N nx sub q p H F gs cs (Some d) None s'" "rr = Inr es \<Longrightarrow> core J w N nx sub q p H F gs cs (Some d) (Some (es, sdAcked s')) s'" by blast+
qed

lemma core_trim:
  assumes c: "core J w N nx sub q p H F gs cs (Some d) None s" and t: "trim_session d s1 = (n, d1)"
  shows "core J w N nx sub q p H F gs cs (Some d1) None s"
proof -
  obtain xs where x: "trimInflight (dlInflight d) (sdAcked s1) = (n, xs)" "d1 = d\<lparr> dlInflight := xs \<rparr>" using t by (auto simp: trim_session_def split: prod.splits)
  show ?thesis using c sess_trim [OF _ x(1)] unfolding core_def x(2) by blast
qed

lemma core_discard:
  assumes c: "core J w N nx sub q p H F gs cs ses batch s" and r: "too_large_reported gs (cs @ sdCalls s) k"
  shows "core J w N nx sub q p H F gs cs ses batch (releaseOversized k s)"
proof (cases "sdBacklog s")
  case (SpoolBacklog x)
  then show ?thesis using c by (simp add: releaseOversized_def)
next
  case (MemBacklog m)
  have f: "flow J w N nx sub q p (MemBacklog m) H (\<lambda>n. failed_range s n \<or> F n \<or> too_large_reported gs (cs @ sdCalls s) n)" using c MemBacklog by (simp add: core_def)
  note d = flow_discard [OF f, of k]
  have "core J w N nx sub q p H F gs cs ses batch (s\<lparr> sdBacklog := MemBacklog (mb_discard k m) \<rparr>)"
    by (rule core_change [OF c]) (use d r c MemBacklog in \<open>auto simp: core_def failed_range_def\<close>)
  then have "core J w N nx sub q p H F gs cs ses batch ((s\<lparr> sdBacklog := MemBacklog (mb_discard k m) \<rparr>)\<lparr> sdOversized := removeAll k (sdOversized s) \<rparr>)"
    by (rule core_oversized) auto
  then show ?thesis by (simp add: releaseOversized_def MemBacklog)
qed

lemma core_deliver:
  assumes c: "core J w N nx sub q p H F gs cs (Some d) (Some (e # es, ac)) s"
    and d: "dlSentThrough d' = Sequence e" "dlGivenUp d' = us @ dlGivenUp d" "\<forall>n \<in> set us. too_large_reported gs (cs @ sdCalls s) n"
      "dlSent d' = dlSent d @ xs" "dlInflight d' = dlInflight d @ map Sequence xs" "xs = [] \<or> xs = [e]"
    and disp: "xs = [e] \<or> Sequence e \<in> set us \<or> Sequence e \<le> H"
  shows "core J w N nx sub q p H F gs cs (Some d') (if b then Some (es, ac) else None) s"
proof -
  have "sess (bl_view J (sdBacklog s)) N H (too_large_reported gs (cs @ sdCalls s)) (trMaxUnacked (acTransport (sdCfg s))) d (Some (e # es, ac))" using c by (simp add: core_def)
  from sess_turn [OF this subset_refl d disp] show ?thesis using c by (simp add: core_def)
qed

lemma core_given: "core J w N nx sub q p H F gs cs ses batch s \<Longrightarrow> core J w N nx sub q p H F (e # gs) cs ses batch s"
proof -
  assume c: "core J w N nx sub q p H F gs cs ses batch s"
  show ?thesis
  proof (rule core_change [OF c])
    assume "flow J w N nx sub q p (sdBacklog s) H (\<lambda>n. failed_range s n \<or> F n \<or> too_large_reported gs (cs @ sdCalls s) n)"
    then show "flow J w N nx sub q p (sdBacklog s) H (\<lambda>n. failed_range s n \<or> F n \<or> too_large_reported (e # gs) (cs @ sdCalls s) n)"
      by (rule flow_mono) (auto intro: too_large_reported_mono)
  qed (use c in \<open>auto simp: core_def\<close>)
qed

lemma core_mark:
  assumes c: "core J w N nx sub q p H F gs cs ses batch s" and e: "e \<in> set gs" and n: "\<not> isOversized (Sequence e) s"
  shows "core J w N nx sub q p H F gs cs ses batch (reportOversized now e s)" "too_large_reported gs (cs @ sdCalls (reportOversized now e s)) (Sequence e)"
proof -
  let ?s = "if is_oversized_report e then s else emit (oversized_report now e) s"
  have 1: "core J w N nx sub q p H F gs cs ses batch ?s" using c by (simp add: core_emit)
  have r: "too_large_reported gs (cs @ sdCalls ?s) (Sequence e)" using e by (auto simp: too_large_reported_def emit_def)
  have "core J w N nx sub q p H F gs cs ses batch (?s\<lparr> sdOversized := List.insert (Sequence e) (sdOversized ?s) \<rparr>)"
    using 1 r unfolding core_def by (auto simp: failed_range_def)
  then have "core J w N nx sub q p H F gs cs ses batch (?s\<lparr> sdOversized := List.insert (Sequence e) (sdOversized ?s), smDropped := inc64 (smDropped ?s) \<rparr>)" by simp
  moreover have "reportOversized now e s = ?s\<lparr> sdOversized := List.insert (Sequence e) (sdOversized ?s), smDropped := inc64 (smDropped ?s) \<rparr>"
    using n by (simp add: reportOversized_def Let_def emit_def)
  ultimately show "core J w N nx sub q p H F gs cs ses batch (reportOversized now e s)" "too_large_reported gs (cs @ sdCalls (reportOversized now e s)) (Sequence e)"
    using r by simp_all
qed

lemma core_turn:
  assumes c: "core J w N nx sub q p H F gs cs (Some d) (Some (e # es, ac)) s" and t: "dispatch_event mar nw ac e s d = (out, n, s', d')"
  shows "core J w N nx sub q p H F (if dlGivenUp d' = dlGivenUp d then gs else e # gs) cs (Some d') (if out = Next then Some (es, ac) else None) s'"
proof -
  have st: "dlSentThrough d < Sequence e" "ac \<le> H" using c by (auto simp: core_def sess_def)
  obtain r d1 where sd: "send_on mar nw MsgEvent (Sequence e) (AgEvent \<lparr> emEvent = Some e \<rparr>) d = (r, d1)" by fastforce
  obtain k t where d1: "d1 = d\<lparr> dlConn := k, dlTick := t \<rparr>" using sd by (auto simp: send_on_def split: prod.splits)
  have c1: "core J w N nx sub q p H F gs cs (Some d1) (Some (e # es, ac)) s" unfolding d1 by (rule core_link [OF c])
  consider (held) "Sequence e \<le> ac" | (known) "\<not> Sequence e \<le> ac" "isOversized (Sequence e) s"
    | (sent) "\<not> Sequence e \<le> ac" "\<not> isOversized (Sequence e) s" "r = Inr ()"
    | (big) "\<not> Sequence e \<le> ac" "\<not> isOversized (Sequence e) s" "r = Inl ErrPayloadTooLarge"
    | (failed) err where "\<not> Sequence e \<le> ac" "\<not> isOversized (Sequence e) s" "r = Inl err" "err \<noteq> ErrPayloadTooLarge" by (cases r) auto
  then show ?thesis
  proof cases
    case held
    then have o: "out = Next" "s' = s" "d' = d\<lparr> dlSentThrough := Sequence e \<rparr>" using t st by (auto simp: dispatch_event_def)
    show ?thesis using core_deliver [OF c, of d' "[]" "[]" True] held st(2) by (simp add: o)
  next
    case known
    have o: "out = Next" "s' = releaseOversized (Sequence e) s" "d' = d\<lparr> dlSentThrough := Sequence e, dlGivenUp := Sequence e # dlGivenUp d \<rparr>"
      using t st known by (auto simp: dispatch_event_def)
    have rp: "too_large_reported gs (cs @ sdCalls s) (Sequence e)" using c known(2) unfolding core_def isOversized_def by blast
    have "core J w N nx sub q p H F (e # gs) cs (Some d) (Some (e # es, ac)) s'" unfolding o by (rule core_given [OF core_discard [OF c rp]])
    moreover have "sdCalls s' = sdCalls s" by (simp add: o releaseOversized_def split: backlog.split)
    then have "too_large_reported (e # gs) (cs @ sdCalls s') (Sequence e)" using rp by (auto intro: too_large_reported_mono)
    ultimately show ?thesis using core_deliver [of J w N nx sub q p H F "e # gs" cs d e es ac s' d' "[Sequence e]" "[]" True] by (simp add: o(1,3))
  next
    case sent
    let ?d = "d1\<lparr> dlInflight := dlInflight d1 @ [Sequence e], dlSentThrough := Sequence e, dlSent := dlSent d1 @ [e] \<rparr>"
    have o: "d' = ?d" "core J w N nx sub q p H F gs cs x y s' = core J w N nx sub q p H F gs cs x y s" for x y
      using t st sent by (auto simp: dispatch_event_def sd Let_def split: if_splits)
    have g: "dlGivenUp d' = dlGivenUp d" by (simp add: o(1) d1)
    show ?thesis using core_deliver [OF c1, of ?d "[]" "[e]" "out = Next"] g by (simp add: o)
  next
    case big
    have o: "out = Next" "s' = releaseOversized (Sequence e) (reportOversized (nwClock nw (dlTick d1)) e s)"
        "d' = d1\<lparr> dlSentThrough := Sequence e, dlGivenUp := Sequence e # dlGivenUp d1 \<rparr>"
      using t st big by (auto simp: dispatch_event_def sd)
    let ?s = "reportOversized (nwClock nw (dlTick d1)) e s"
    note m = core_mark [OF core_given [OF c1], of e e "nwClock nw (dlTick d1)", OF _ big(2), simplified]
    have "core J w N nx sub q p H F (e # gs) cs (Some d1) (Some (e # es, ac)) s'" unfolding o(2) by (rule core_discard [OF m])
    moreover have "sdCalls s' = sdCalls ?s" by (simp add: o(2) releaseOversized_def split: backlog.split)
    then have "too_large_reported (e # gs) (cs @ sdCalls s') (Sequence e)" using m(2) by simp
    ultimately show ?thesis
      using core_deliver [of J w N nx sub q p H F "e # gs" cs d1 e es ac s' d' "[Sequence e]" "[]" True] by (simp add: o(1,3) d1)
  next
    case failed
    then have o: "out = Fail err" "s' = s" "d' = d1" using t st by (auto simp: dispatch_event_def sd)
    show ?thesis using core_no_batch [OF c1] by (simp add: o d1)
  qed
qed

subsection \<open>Connecting and receiving\<close>

lemma send_on_link: "send_on mar nw t n v d = (r, d') \<Longrightarrow> \<exists>k i. d' = d\<lparr> dlConn := k, dlTick := i \<rparr>"
  by (auto simp: send_on_def split: prod.splits)

definition no_link :: "sender \<Rightarrow> sender" where
  "no_link s = s\<lparr> sdConn := None, sdClosed := False \<rparr>"

lemma no_link_conn [simp]: "no_link (s\<lparr> sdConn := x \<rparr>) = no_link s" "no_link (s\<lparr> sdClosed := y \<rparr>) = no_link s"
    "no_link (dropConn c s) = no_link s" "no_link (snd (adoptConn c s)) = no_link s" "no_link (close_sender s) = no_link s"
  by (simp_all add: no_link_def dropConn_def adoptConn_def close_sender_def)

lemma core_no_link: "no_link s' = no_link s \<Longrightarrow> core J w N nx sub q p H F gs cs ses batch s' = core J w N nx sub q p H F gs cs ses batch s"
proof -
  have "core J w N nx sub q p H F gs cs ses batch t = core J w N nx sub q p H F gs cs ses batch (no_link t)" for t by (simp add: no_link_def)
  then show "no_link s' = no_link s \<Longrightarrow> ?thesis" by metis
qed

lemma adopt_link: "adoptConn c s = (ok, s') \<Longrightarrow> no_link s' = no_link s"
  using no_link_conn(4) [of c s] by simp

lemma connect_link: "no_link (snd (connect mar hc nw tick dialed c c' closing s)) = no_link s"
  by (auto simp: connect_def Let_def dest!: adopt_link split: option.split prod.split sum.split)

lemma connect_fresh:
  assumes "fst (connect mar hc nw tick dialed c c' closing s) = Inr (d, ready)"
  shows "dlInflight d = []" "dlSentThrough d = 0" "dlSent d = []" "dlGivenUp d = []"
proof -
  obtain nc where nc: "dialed = Some nc" using assms by (cases dialed) (auto simp: connect_def)
  let ?l = "payloadLimit (trMaxPayloadSize (acTransport (sdCfg s)))"
  obtain ok s1 where s1: "adoptConn c s = (ok, s1)" by fastforce
  obtain r d1 where d1: "send_on mar nw MsgHello 0 (AgHello (hello_of s1)) (fresh_delivery nc ?l tick) = (r, d1)" by fastforce
  have "dlInflight d = dlInflight d1 \<and> dlSentThrough d = dlSentThrough d1 \<and> dlSent d = dlSent d1 \<and> dlGivenUp d = dlGivenUp d1"
    using assms by (auto simp: connect_def nc s1 d1 Let_def split: prod.splits sum.splits if_splits)
  then show "dlInflight d = []" "dlSentThrough d = 0" "dlSent d = []" "dlGivenUp d = []"
    using send_on_link [OF d1] by (auto simp: fresh_delivery_def)
qed

lemma core_connect:
  assumes "core J w N nx sub q p H F gs cs ses batch s" "connect mar hc nw tick dialed c c' closing s = (r, s')"
  shows "core J w N nx sub q p H F gs cs ses batch s'"
  using assms core_no_link [of s' s] connect_link [of mar hc nw tick dialed c c' closing s] by simp

lemma core_open:
  assumes c: "core J w N nx sub q p H F gs cs None None s"
    and d: "dlInflight d = []" "dlSentThrough d = 0" "dlSent d = []" "dlGivenUp d = []"
  shows "core J w N nx sub q p H F gs cs (Some d) None s"
proof -
  have "bl_ok J w (slots p) N (sdBacklog s)" "0 < trMaxUnacked (acTransport (sdCfg s))" using c by (auto simp: core_def flow_def)
  then have "sess (bl_view J (sdBacklog s)) N H (too_large_reported gs (cs @ sdCalls s)) (trMaxUnacked (acTransport (sdCfg s))) d None"
    using blg.view_law d by (intro sess_fresh) auto
  then show ?thesis using c by (simp add: core_def)
qed

lemma core_start: "core J w N nx sub q p H F gs cs ses batch s \<Longrightarrow> rdResumeFrom ready \<le> H \<Longrightarrow>
    core J w N nx sub q p H F gs cs ses batch (session_start J w now ready s)"
  by (simp add: session_start_def Let_def core_applyAck)

lemma core_receive:
  assumes c: "core J w N nx sub q p H F gs cs (Some d) batch s" and r: "recv_step J w mar nw hc now rx s d = (err, s', d')"
    and H: "\<forall>n \<in> set (stated hc rx). n \<le> H"
  shows "core J w N nx sub q p H F gs cs (Some d') batch s'"
proof -
  have 1: "\<exists>k i. d' = d\<lparr> dlConn := k, dlTick := i \<rparr>"
  proof -
    have a: "d' = d \<or> (\<exists>m. d' = sendError mar nw ErrCodeUnexpectedType m d)" using r by (auto simp: recv_step_def Let_def split: sum.splits if_splits)
    have b: "\<exists>k i. sendError mar nw ErrCodeUnexpectedType m d = d\<lparr> dlConn := k, dlTick := i \<rparr>" for m
      unfolding sendError_def by (rule send_on_link) (rule prod.collapse [symmetric])
    have "\<exists>k i. d = d\<lparr> dlConn := k, dlTick := i \<rparr>" by (rule exI [of _ "dlConn d"], rule exI [of _ "dlTick d"]) simp
    then show ?thesis using a b by blast
  qed
  have 2: "s' = s \<or> (\<exists>t. s' = s\<lparr> sdLastPong := t \<rparr>) \<or> (\<exists>n. stated hc rx = [n] \<and> s' = signal (applyAck J w n s))"
    using r by (auto simp: recv_step_def stated_def Let_def split: sum.splits if_splits)
  then have "core J w N nx sub q p H F gs cs (Some d) batch s'"
  proof (elim disjE exE conjE)
    fix n
    assume n: "stated hc rx = [n]" "s' = signal (applyAck J w n s)"
    then have "n \<le> H" using H by simp
    then show ?thesis unfolding n(2) signal_def using core_applyAck [OF c] by simp
  qed (use c in simp_all)
  then show ?thesis using 1 core_link by blast
qed

subsection \<open>Loss reports\<close>

lemma in_ranges_Cons: "in_ranges n ((f, l) # rs) \<longleftrightarrow> f \<le> n \<and> n \<le> l \<or> in_ranges n rs"
  by (simp add: in_ranges_def)

lemma report_inv:
  assumes "agent_inv J w N (a\<lparr> agReports := (f, l) # agReports a \<rparr>)" "Sequence e = 0" "\<not> agExhausted (reportLoss e f l a)"
  shows "agent_inv J w N (reportLoss e f l a)"
  using assms submit_inv [OF assms(1,2)] unfolding reportLoss_def Let_def by (auto split: if_splits)

lemma drain_queue_inv:
  assumes i: "agent_inv J w N a" and x: "\<not> agExhausted (drain_queue now a)"
  shows "agent_inv J w N (drain_queue now a)"
proof -
  obtain r q where q: "DrainOverflow (agQueue a) = (r, q)" by fastforce
  note c = i [unfolded agent_inv_def]
  have new: "core J w N (next_seq (agSeq a)) (agSubmitted a) q (agPump a) (host_pos a) F' (agGivenUp a) (agCalls a) (agSession a) (agBatch a) (agSend a)"
    if F': "\<And>n. in_ranges n (agReports a) \<Longrightarrow> F' n" "\<And>n k f l. r = Some (k, f, l) \<Longrightarrow> f \<le> n \<Longrightarrow> n \<le> l \<Longrightarrow> F' n" for F'
  proof (rule core_change [OF c])
    let ?X = "\<lambda>n. failed_range (agSend a) n \<or> in_ranges n (agReports a) \<or> too_large_reported (agGivenUp a) (agCalls a @ sdCalls (agSend a)) n"
    assume f: "flow J w N (next_seq (agSeq a)) (agSubmitted a) (agQueue a) (agPump a) (sdBacklog (agSend a)) (host_pos a) ?X"
    show "flow J w N (next_seq (agSeq a)) (agSubmitted a) q (agPump a) (sdBacklog (agSend a)) (host_pos a)
        (\<lambda>n. failed_range (agSend a) n \<or> F' n \<or> too_large_reported (agGivenUp a) (agCalls a @ sdCalls (agSend a)) n)"
      by (rule flow_drain_queue [OF f q]) (use F' in blast)+
  qed (use c in \<open>auto simp: core_def\<close>)
  show ?thesis
  proof (cases r)
    case None
    then show ?thesis using new [of "\<lambda>n. in_ranges n (agReports a)"] by (simp add: drain_queue_def q agent_inv_def host_pos_def)
  next
    case (Some y)
    then obtain k f l where y: "r = Some (k, f, l)" by (metis prod.exhaust)
    have d: "drain_queue now a = reportLoss (NewQueueOverflow now k f l) f l (a\<lparr> agQueue := q \<rparr>)" by (simp add: drain_queue_def q y)
    have "agent_inv J w N ((a\<lparr> agQueue := q \<rparr>)\<lparr> agReports := (f, l) # agReports (a\<lparr> agQueue := q \<rparr>) \<rparr>)"
      using new [of "\<lambda>n. in_ranges n ((f, l) # agReports a)"] y by (simp add: agent_inv_def host_pos_def in_ranges_Cons)
    then show ?thesis using x unfolding d by (intro report_inv) simp_all
  qed
qed

lemma core_spool:
  assumes c: "core J w N nx sub q p H F gs cs ses batch s" and b: "sdBacklog s = SpoolBacklog sp"
    and sp: "sp_ok J w (slots p) N sp \<Longrightarrow> sp_ok J w (slots p) N sp'" "sp_view J sp' = sp_view J sp" "spAckedThrough sp' = spAckedThrough sp"
    and l: "\<And>n. covers sp n \<Longrightarrow> covers sp' n \<or> F' n" and F: "\<And>n. F n \<Longrightarrow> F' n"
  shows "core J w N nx sub q p H F' gs cs ses batch (s\<lparr> sdBacklog := SpoolBacklog sp' \<rparr>)"
proof (rule core_change [OF c])
  assume f: "flow J w N nx sub q p (sdBacklog s) H (\<lambda>n. failed_range s n \<or> F n \<or> too_large_reported gs (cs @ sdCalls s) n)"
  have "sp_ok J w (slots p) N sp" using f by (simp add: flow_def b bl_ok_def)
  then have "flow J w N nx sub q p (SpoolBacklog sp') H (\<lambda>n. failed_range s n \<or> F' n \<or> too_large_reported gs (cs @ sdCalls s) n)"
    using l F by (intro flow_spool [OF f [unfolded b] sp(1) sp(2,3)]) blast+
  then show "flow J w N nx sub q p (sdBacklog (s\<lparr> sdBacklog := SpoolBacklog sp' \<rparr>)) H
      (\<lambda>n. failed_range (s\<lparr> sdBacklog := SpoolBacklog sp' \<rparr>) n \<or> F' n \<or> too_large_reported gs (cs @ sdCalls (s\<lparr> sdBacklog := SpoolBacklog sp' \<rparr>)) n)"
    by (simp add: failed_range_def)
qed (use c b sp(2) in \<open>auto simp: core_def bl_view_def\<close>)

lemma drain_spool_inv:
  assumes i: "agent_inv J w N a" and x: "\<not> agExhausted (drain_spool now a)"
  shows "agent_inv J w N (drain_spool now a)"
proof (cases "sdBacklog (agSend a)")
  case (MemBacklog m)
  then show ?thesis using i by (simp add: drain_spool_def)
next
  case (SpoolBacklog sp)
  obtain r sp' where d: "DrainDropped sp = (r, sp')" by fastforce
  note c = i [unfolded agent_inv_def]
  have "sp_ok J w (slots (agPump a)) N sp" using c by (simp add: core_def flow_def SpoolBacklog bl_ok_def)
  note dr = sp_ok_drain [OF this d]
  have new: "core J w N (next_seq (agSeq a)) (agSubmitted a) (agQueue a) (agPump a) (host_pos a) F' (agGivenUp a) (agCalls a) (agSession a) (agBatch a)
      ((agSend a)\<lparr> sdBacklog := SpoolBacklog sp' \<rparr>)"
    if F': "\<And>n. in_ranges n (agReports a) \<Longrightarrow> F' n" "\<And>n k f l. r = Some (k, f, l) \<Longrightarrow> f \<le> n \<Longrightarrow> n \<le> l \<Longrightarrow> F' n" for F'
    by (rule core_spool [OF c SpoolBacklog dr(1-3)]) (use dr(4) F' in blast)+
  show ?thesis
  proof (cases r)
    case None
    then show ?thesis using new [of "\<lambda>n. in_ranges n (agReports a)"] by (simp add: drain_spool_def d SpoolBacklog agent_inv_def host_pos_def)
  next
    case (Some y)
    then obtain k f l where y: "r = Some (k, f, l)" by (metis prod.exhaust)
    let ?a = "a\<lparr> agSend := (agSend a)\<lparr> sdBacklog := SpoolBacklog sp' \<rparr> \<rparr>"
    have e: "drain_spool now a = reportLoss (NewSpoolFull now k f l) f l ?a" by (simp add: drain_spool_def d y SpoolBacklog)
    have "agent_inv J w N (?a\<lparr> agReports := (f, l) # agReports ?a \<rparr>)"
      using new [of "\<lambda>n. in_ranges n ((f, l) # agReports a)"] y by (simp add: agent_inv_def host_pos_def in_ranges_Cons)
    then show ?thesis using x unfolding e by (intro report_inv) simp_all
  qed
qed

lemma drain_failures_inv:
  assumes i: "agent_inv J w N a" and x: "\<not> agExhausted (drain_failures now a)"
  shows "agent_inv J w N (drain_failures now a)"
proof (cases "sdFailed (agSend a) = 0")
  case True
  then show ?thesis using i by (simp add: drain_failures_def drainAppendFailures_def)
next
  case False
  define k where "k = sdFailed (agSend a)"
  define f where "f = sdFailedLow (agSend a)"
  define l where "l = sdFailedHigh (agSend a)"
  let ?s = "(agSend a)\<lparr> sdFailed := 0, sdFailedLow := 0, sdFailedHigh := 0 \<rparr>"
  let ?a = "a\<lparr> agSend := ?s \<rparr>"
  note c = i [unfolded agent_inv_def]
  obtain e where e: "drain_failures now a = reportLoss e f l ?a" "Sequence e = 0" using False by (simp add: drain_failures_def drainAppendFailures_def f_def l_def)
  have "core J w N (next_seq (agSeq a)) (agSubmitted a) (agQueue a) (agPump a) (host_pos a) (\<lambda>n. in_ranges n ((f, l) # agReports a))
      (agGivenUp a) (agCalls a) (agSession a) (agBatch a) ?s"
  proof (rule core_change [OF c])
    assume fl: "flow J w N (next_seq (agSeq a)) (agSubmitted a) (agQueue a) (agPump a) (sdBacklog (agSend a)) (host_pos a)
      (\<lambda>n. failed_range (agSend a) n \<or> in_ranges n (agReports a) \<or> too_large_reported (agGivenUp a) (agCalls a @ sdCalls (agSend a)) n)"
    have "flow J w N (next_seq (agSeq a)) (agSubmitted a) (agQueue a) (agPump a) (sdBacklog (agSend a)) (host_pos a)
      (\<lambda>n. failed_range ?s n \<or> in_ranges n ((f, l) # agReports a) \<or> too_large_reported (agGivenUp a) (agCalls a @ sdCalls ?s) n)"
      by (rule flow_mono [OF fl order_refl]) (auto simp: failed_range_def in_ranges_Cons f_def l_def)
    then show "flow J w N (next_seq (agSeq a)) (agSubmitted a) (agQueue a) (agPump a) (sdBacklog ?s) (host_pos a)
      (\<lambda>n. failed_range ?s n \<or> in_ranges n ((f, l) # agReports a) \<or> too_large_reported (agGivenUp a) (agCalls a @ sdCalls ?s) n)" by simp
  qed (use c in \<open>auto simp: core_def\<close>)
  then have "agent_inv J w N (?a\<lparr> agReports := (f, l) # agReports ?a \<rparr>)" by (simp add: agent_inv_def host_pos_def)
  then show ?thesis using x e(2) unfolding e(1) by (intro report_inv)
qed

lemma exhausted_drains:
  "agExhausted a \<Longrightarrow> agExhausted (reportLoss e f l a)" "agExhausted a \<Longrightarrow> agExhausted (drain_queue now a)"
  "agExhausted a \<Longrightarrow> agExhausted (drain_spool now a)" "agExhausted a \<Longrightarrow> agExhausted (drain_failures now a)"
  "agExhausted a \<Longrightarrow> agExhausted (drainLosses now final a)"
proof -
  show 1: "agExhausted a \<Longrightarrow> agExhausted (reportLoss e f l a)" for e f l a by (simp add: reportLoss_def Let_def)
  show 2: "agExhausted a \<Longrightarrow> agExhausted (drain_queue now a)" for a by (auto simp: drain_queue_def 1 split: prod.split option.split)
  show 3: "agExhausted a \<Longrightarrow> agExhausted (drain_spool now a)" for a by (auto simp: drain_spool_def 1 split: prod.split option.split backlog.split)
  show 4: "agExhausted a \<Longrightarrow> agExhausted (drain_failures now a)" for a by (auto simp: drain_failures_def 1 split: prod.split option.split)
  show "agExhausted a \<Longrightarrow> agExhausted (drainLosses now final a)" by (simp add: drainLosses_def 2 3 4)
qed

lemma drainLosses_inv:
  assumes i: "agent_inv J w N a" and x: "\<not> agExhausted (drainLosses now final a)"
  shows "agent_inv J w N (drainLosses now final a)"
proof (cases "\<not> final \<and> Len (agQueue a) \<ge> Cap (agQueue a)")
  case False
  have d: "drainLosses now final a = drain_failures now (drain_spool now (drain_queue now a))" using False by (auto simp: drainLosses_def)
  have "\<not> agExhausted (drain_spool now (drain_queue now a))" "\<not> agExhausted (drain_queue now a)" using x exhausted_drains unfolding d by blast+
  then show ?thesis using x unfolding d by (intro drain_failures_inv drain_spool_inv drain_queue_inv i)
qed (use i in \<open>simp add: drainLosses_def\<close>)

subsection \<open>Syncing and closing the spool\<close>

lemma sp_ok_core:
  assumes "sp_ok J w k N s" "same_core s s'"
  shows "sp_ok J w k N s'" "sp_view J s' = sp_view J s" "spAckedThrough s' = spAckedThrough s"
  using assms unfolding sp_ok_def sp_view_def sp_records_def inv_core(7) [OF assms(2)] by (simp_all add: same_core_def)

lemma sync_spool:
  assumes "sp_ok J w k N s" "Sync w s = (r, s')"
  shows "sp_ok J w k N s'" "sp_view J s' = sp_view J s" "spAckedThrough s' = spAckedThrough s" "covers s' = covers s"
proof -
  have c: "same_core s s' \<and> same_loss s s'"
  proof (cases "spClosed s")
    case True
    then show ?thesis using assms(2) by (simp add: Sync_def same_core_def same_loss_def)
  next
    case False
    then show ?thesis using assms(2) by (intro core_sync) (simp add: Sync_def)
  qed
  show "sp_ok J w k N s'" "sp_view J s' = sp_view J s" "spAckedThrough s' = spAckedThrough s" by (rule sp_ok_core [OF assms(1) conjunct1 [OF c]])+
  show "covers s' = covers s" using c by (simp add: covers_def same_loss_def fun_eq_iff)
qed

lemma sp_ok_fields:
  assumes "sp_ok J w k N s"
  shows "sp_ok J w k N (s\<lparr> spClosed := True \<rparr>)" "sp_ok J w k N (s\<lparr> spW := None \<rparr>)"
proof -
  obtain A rss where "spool_inv J A rss s" using assms unfolding sp_ok_def by blast
  then have "spool_inv J A rss (s\<lparr> spClosed := True \<rparr>)" "spool_inv J A rss (s\<lparr> spW := None \<rparr>)" using inv_close by (simp_all add: spool_invs)
  then have "\<exists>A rss. spool_inv J A rss (s\<lparr> spClosed := True \<rparr>)" "\<exists>A rss. spool_inv J A rss (s\<lparr> spW := None \<rparr>)" by blast+
  then show "sp_ok J w k N (s\<lparr> spClosed := True \<rparr>)" "sp_ok J w k N (s\<lparr> spW := None \<rparr>)" using assms unfolding sp_ok_def by simp_all
qed

lemma view_fields: "sp_view J (s\<lparr> spClosed := True \<rparr>) = sp_view J s" "sp_view J (s\<lparr> spW := None \<rparr>) = sp_view J s"
  by (simp_all add: sp_view_def sp_records_def)

lemma close_spool:
  assumes ok: "sp_ok J w k N s" and c: "Close_spool w s = (r, s')"
  shows "sp_ok J w k N s' \<and> sp_view J s' = sp_view J s \<and> spAckedThrough s' = spAckedThrough s \<and> covers s' = covers s"
proof (cases "spClosed s")
  case True
  then show ?thesis using ok c by (simp add: Close_spool_def)
next
  case False
  define s0 where "s0 = s\<lparr> spClosed := True \<rparr>"
  obtain x s1 where x: "sync w s0 = (x, s1)" by fastforce
  have c1: "same_core s0 s1" "same_loss s0 s1" using core_sync [OF x] by blast+
  have ok0: "sp_ok J w k N s0" unfolding s0_def by (rule sp_ok_fields [OF ok])
  have v0: "sp_view J s0 = sp_view J s" "spAckedThrough s0 = spAckedThrough s" by (simp_all add: s0_def view_fields)
  note r1 = sp_ok_core [OF ok0 c1(1)]
  have cv: "covers s1 = covers s" using c1(2) by (simp add: covers_def same_loss_def s0_def fun_eq_iff)
  have "s' = s1 \<or> (\<exists>y s2. syscall w CloseSegment s1 = (y, s2) \<and> s' = s2\<lparr> spW := None \<rparr>)"
    using c False x by (auto simp: Close_spool_def s0_def split: if_splits prod.splits)
  then show ?thesis
  proof (elim disjE exE conjE)
    assume "s' = s1"
    then show ?thesis using r1 v0 cv by simp
  next
    fix y s2 assume y: "syscall w CloseSegment s1 = (y, s2)" "s' = s2\<lparr> spW := None \<rparr>"
    have c2: "same_core s1 s2" "same_loss s1 s2" using core_syscall [OF y(1)] by blast+
    note r2 = sp_ok_core [OF r1(1) c2(1)]
    have "covers s2 = covers s1" using c2(2) by (simp add: covers_def same_loss_def fun_eq_iff)
    then have "covers s' = covers s" using cv by (simp add: y(2) covers_def fun_eq_iff)
    then show ?thesis using r1 r2 v0 sp_ok_fields(2) [OF r2(1)] by (simp add: y(2) view_fields)
  qed
qed

subsection \<open>Every step keeps the invariant\<close>

lemma host_pos_app: "host_pos (a\<lparr> agHostSaid := ns @ agHostSaid a \<rparr>) = foldr max ns (host_pos a)" "host_pos a \<le> foldr max ns (host_pos a)"
    "n \<in> set ns \<Longrightarrow> n \<le> foldr max ns (host_pos a)"
proof -
  show "host_pos (a\<lparr> agHostSaid := ns @ agHostSaid a \<rparr>) = foldr max ns (host_pos a)" by (simp add: host_pos_def)
  show "host_pos a \<le> foldr max ns (host_pos a)" by (induction ns) auto
  show "n \<in> set ns \<Longrightarrow> n \<le> foldr max ns (host_pos a)" by (induction ns) auto
qed

lemma core_drop: "core J w N nx sub q p H F gs cs ses batch s \<Longrightarrow> core J w N nx sub q p H F gs cs ses batch (drop_session s)"
  using core_no_link [of "drop_session s" s] by (simp add: drop_session_def split: option.split)

lemma end_session_inv:
  assumes i: "agent_inv J w N a" and s: "core J w N (next_seq (agSeq a)) (agSubmitted a) (agQueue a) (agPump a) (host_pos a) (\<lambda>n. in_ranges n (agReports a))
      (agGivenUp a) (agCalls a) None None s" and x: "\<not> agExhausted (end_session errText now err r (a\<lparr> agSend := s \<rparr>))"
  shows "agent_inv J w N (end_session errText now err r (a\<lparr> agSend := s \<rparr>))"
proof -
  have "agent_inv J w N (a\<lparr> agSend := snd (run_failed errText now err r (drop_session s)), agSession := None, agBatch := None \<rparr>)"
    using core_run(1) [OF core_drop [OF s]] by (simp add: agent_inv_def host_pos_def)
  then show ?thesis using x run_calls_inv by (simp add: end_session_def)
qed

lemma core_flush:
  assumes "core J w N nx sub q p H F gs cs (Some d) batch s"
  shows "core J w N nx sub q p H F gs cs (Some (flush_end mar nw s d)) batch s"
proof -
  have "\<exists>k i. flush_end mar nw s d = d\<lparr> dlConn := k, dlTick := i \<rparr>"
    unfolding flush_end_def by (rule send_on_link) (rule prod.collapse [symmetric])
  then show ?thesis using core_link [OF assms] by auto
qed

lemma core_heartbeat:
  assumes "core J w N nx sub q p H F gs cs (Some d) batch s" "heartbeat_step mar nw m now n s d = (err, d')"
  shows "core J w N nx sub q p H F gs cs (Some d') batch s"
proof -
  obtain r d1 where d1: "send_on mar nw MsgPing 0 (AgPing (ping m now n s)) d = (r, d1)" by fastforce
  then have "d' = d1" using assms(2) by (auto simp: heartbeat_step_def Let_def split: sum.splits)
  then show ?thesis using core_link [OF assms(1)] send_on_link [OF d1] by auto
qed

lemma core_flow:
  assumes c: "core J w N nx sub q p H F gs cs ses batch s"
    and f: "\<And>X. flow J w N nx sub q p (sdBacklog s) H X \<Longrightarrow> flow J w N nx sub q' p' (sdBacklog s) H X"
  shows "core J w N nx sub q' p' H F gs cs ses batch s"
  using c f unfolding core_def by blast

lemma close_inv_agent: "agent_inv J w N a \<Longrightarrow> agent_inv J w N (a\<lparr> agStreamClosed := b, agQueue := Close (agQueue a) \<rparr>)"
  unfolding agent_inv_def using flow_close by (auto simp: host_pos_def intro: core_flow)

lemma stop_inv:
  assumes i: "agent_inv J w N a" and x: "\<not> agExhausted (stop_stream now m a)"
  shows "agent_inv J w N (stop_stream now m a)"
proof -
  let ?a1 = "drainLosses now True a"
  let ?a2 = "submit (stopping_event now m ?a1) ?a1"
  have s: "stop_stream now m a = ?a2\<lparr> agStreamClosed := True, agQueue := Close (agQueue ?a2) \<rparr>" by (simp add: stop_stream_def Let_def)
  have x2: "\<not> agExhausted ?a2" using x by (simp add: s)
  then have "\<not> agExhausted ?a1" using submit_fields(9) by blast
  then have "agent_inv J w N ?a1" by (rule drainLosses_inv [OF i])
  moreover have "Sequence (stopping_event now m ?a1) = 0" by (simp add: stopping_event_def)
  ultimately have "agent_inv J w N ?a2" using x2 by (intro submit_inv)
  then show ?thesis unfolding s by (rule close_inv_agent)
qed

lemma closeResources_inv:
  assumes i: "agent_inv J w N a"
  shows "agent_inv J w N (closeResources w a)"
proof -
  let ?s = "close_sender (agSend a)"
  note c = i [unfolded agent_inv_def]
  have c1: "core J w N (next_seq (agSeq a)) (agSubmitted a) (agQueue a) (agPump a) (host_pos a) (\<lambda>n. in_ranges n (agReports a))
     (agGivenUp a) (agCalls a) (agSession a) (agBatch a) ?s" using c by (simp add: close_sender_def)
  have "agent_inv J w N (a\<lparr> agSend := (case sdBacklog ?s of MemBacklog _ \<Rightarrow> ?s | SpoolBacklog sp \<Rightarrow> ?s\<lparr> sdBacklog := SpoolBacklog (snd (Close_spool w sp)) \<rparr>) \<rparr>)"
  proof (cases "sdBacklog ?s")
    case (SpoolBacklog sp)
    have ok: "sp_ok J w (slots (agPump a)) N sp" using c1 by (simp add: core_def flow_def SpoolBacklog bl_ok_def)
    have k: "Close_spool w sp = (fst (Close_spool w sp), snd (Close_spool w sp))" by simp
    note z = close_spool [OF ok k]
    have cv: "covers (snd (Close_spool w sp)) n" if "covers sp n" for n using z that by metis
    have "core J w N (next_seq (agSeq a)) (agSubmitted a) (agQueue a) (agPump a) (host_pos a) (\<lambda>n. in_ranges n (agReports a))
       (agGivenUp a) (agCalls a) (agSession a) (agBatch a) (?s\<lparr> sdBacklog := SpoolBacklog (snd (Close_spool w sp)) \<rparr>)"
      by (rule core_spool [OF c1 SpoolBacklog]) (use z cv in blast)+
    then show ?thesis by (simp add: SpoolBacklog agent_inv_def host_pos_def)
  qed (use c1 in \<open>simp add: agent_inv_def host_pos_def\<close>)
  from close_inv_agent [OF this, of "agStreamClosed a"] show ?thesis by (simp add: closeResources_def Let_def)
qed

lemma step_exhausted: "agent_step J w mar nw hc errText a a' \<Longrightarrow> agExhausted a \<Longrightarrow> agExhausted a'"
proof (induction rule: agent_step.induct)
  case (stop a now m)
  then show ?case by (simp add: stop_stream_def Let_def exhausted_drains)
qed (simp_all add: exhausted_drains end_session_def run_calls_exhausted closeResources_def Let_def)

end
