(* ===== verification/Send_Loop.thy ===== *)
theory Send_Loop
  imports Agent_Safety
begin

section \<open>The send loop between two waits\<close>

text \<open>
  The loop of \<open>sendLoop\<close> (\<^verbatim>\<open>agent/sender.go\<close>) goes round without waiting as long as a pass sends or skips
  something. \<open>send_busy\<close> is that part of the loop, from one wait to the next, with the number of rounds
  as fuel; the clock is read once per round. The lemmas show that every round but the last moves the
  session's high-water mark forward over sequences the backlog holds, so the rounds are bounded, and that
  the loop only waits once everything the window allows is on the wire.
\<close>

fun send_busy :: "nat \<Rightarrow> event_codec \<Rightarrow> disk_world \<Rightarrow> (agent_message \<Rightarrow> bytes option) \<Rightarrow> net_world \<Rightarrow> (nat \<Rightarrow> int) \<Rightarrow> int \<Rightarrow> sender \<Rightarrow> delivery \<Rightarrow>
    (pass_outcome \<times> sender \<times> delivery) option" where
  "send_busy 0 J w mar nw clock lastProgress s d = None"
| "send_busy (Suc k) J w mar nw clock lastProgress s d =
     (case send_pass J w mar nw (clock k) lastProgress s d of
        (PassAgain, progress, s1, d1) \<Rightarrow> send_busy k J w mar nw clock progress s1 d1
      | (out, progress, s1, d1) \<Rightarrow> Some (out, s1, d1))"

definition last_of :: "sender \<Rightarrow> nat" where
  "last_of s = bl_LastSequence (sdBacklog s)"

lemma discard_last: "mbLastSeq (mb_discard n m) = mbLastSeq m"
  by (simp add: mb_discard_def mb_Release_def Let_def)

lemma release_last [simp]: "last_of (releaseOversized n s) = last_of s" "sdCfg (releaseOversized n s) = sdCfg s"
  by (simp_all add: last_of_def releaseOversized_def bl_LastSequence_def mb_LastSequence_def discard_last split: backlog.split)

lemma report_last [simp]: "last_of (reportOversized now e s) = last_of s" "sdCfg (reportOversized now e s) = sdCfg s"
  by (simp_all add: last_of_def reportOversized_def emit_def Let_def)

lemma event_progress:
  assumes t: "dispatch_event mar nw ac e s d = (out, n, s', d')" and e: "dlSentThrough d < Sequence e"
  shows "last_of s' = last_of s" "sdCfg s' = sdCfg s" "dlSentThrough d' = (if out = Next \<or> out = Stop then Sequence e else dlSentThrough d)"
    "out = Stop \<Longrightarrow> trMaxUnacked (acTransport (sdCfg s)) \<le> int (length (dlInflight d'))"
proof -
  obtain r d1 where sd: "send_on mar nw MsgEvent (Sequence e) (AgEvent \<lparr> emEvent = Some e \<rparr>) d = (r, d1)" by fastforce
  obtain k i where d1: "d1 = d\<lparr> dlConn := k, dlTick := i \<rparr>" using send_on_link [OF sd] by blast
  note dv = t [unfolded dispatch_event_def sd Let_def]
  show "last_of s' = last_of s" "sdCfg s' = sdCfg s" "dlSentThrough d' = (if out = Next \<or> out = Stop then Sequence e else dlSentThrough d)"
    "out = Stop \<Longrightarrow> trMaxUnacked (acTransport (sdCfg s)) \<le> int (length (dlInflight d'))"
    using dv e by (auto simp: last_of_def [symmetric] d1 split: if_splits sum.splits) (auto simp: last_of_def)
qed

lemma loop_progress:
  assumes "core J w N nx sub q p H F gs cs (Some d) (Some (es, ac)) s" "dispatch_loop mar nw ac es k s d = (r, s', d')"
  shows "(\<exists>gs'. core J w N nx sub q p H F gs' cs (Some d') None s') \<and> last_of s' = last_of s \<and> sdCfg s' = sdCfg s \<and>
    dlSentThrough d \<le> dlSentThrough d' \<and> (dlSentThrough d' = dlSentThrough d \<or> dlSentThrough d' \<in> Sequence ` set es) \<and>
    (\<forall>n. r = Inr n \<longrightarrow> k \<le> n \<and> (es \<noteq> [] \<longrightarrow> dlSentThrough d < dlSentThrough d') \<and> (es = [] \<longrightarrow> n = k \<and> s' = s \<and> d' = d))"
  using assms
proof (induction es arbitrary: gs k s d)
  case Nil
  then have "core J w N nx sub q p H F gs cs (Some d') None s'" using core_no_batch by auto
  then show ?case using Nil by auto
next
  case (Cons e es)
  obtain out n s1 d1 where ev: "dispatch_event mar nw ac e s d = (out, n, s1, d1)" by (metis prod_cases4)
  have e: "dlSentThrough d < Sequence e" using Cons.prems(1) by (simp add: core_def sess_def)
  note c = core_turn [OF Cons.prems(1) ev]
  note pr = event_progress [OF ev e]
  show ?case
  proof (cases out)
    case Next
    have l: "dispatch_loop mar nw ac es (k + n) s1 d1 = (r, s', d')" using Cons.prems(2) by (simp add: ev Next)
    note ih = Cons.IH [OF c [unfolded Next, simplified] l]
    then show ?thesis using pr e by (auto simp: Next)
  next
    case Stop
    then show ?thesis using Cons.prems(2) pr e c by (auto simp: ev)
  next
    case (Fail err)
    then show ?thesis using Cons.prems(2) pr e c by (auto simp: ev)
  qed
qed

lemma core_ok: "core J w N nx sub q p H F gs cs ses batch s \<Longrightarrow> bl_ok J w (slots p) N (sdBacklog s)"
  by (simp add: core_def flow_def)

lemma read_progress:
  assumes c: "core J w N nx sub q p H F gs cs (Some d) None s" and r: "dispatch_read J w s d = (rr, s')"
  shows "last_of s' = last_of s" "sdCfg s' = sdCfg s" "bl_view J (sdBacklog s') = bl_view J (sdBacklog s)"
    "rr = Inr es \<Longrightarrow> set es \<subseteq> set (bl_view J (sdBacklog s))"
    "rr = Inr [] \<Longrightarrow> trMaxUnacked (acTransport (sdCfg s)) \<le> int (length (dlInflight d)) \<or> (\<forall>x \<in> set (bl_view J (sdBacklog s)). Sequence x \<le> dlSentThrough d)"
proof -
  let ?V = "bl_view J (sdBacklog s)"
  note i = core_ok [OF c]
  define room where "room = trMaxUnacked (acTransport (sdCfg s)) - int (length (dlInflight d))"
  define m where "m = (if room > maxSendBatch then maxSendBatch else room)"
  obtain r0 b0 where nx: "bl_NextAfter J w (dlSentThrough d) m (sdBacklog s) = (r0, b0)" by fastforce
  have eq: "(rr, s') = (if room \<le> 0 \<or> \<not> unsent (dlSentThrough d) s then (Inr [], s) else (r0, s\<lparr> sdBacklog := b0 \<rparr>))"
    using r unfolding dispatch_read_def Let_def room_def [symmetric] m_def [symmetric] nx by (auto split: if_splits)
  note l = blg.read_law [OF i nx]
  show "last_of s' = last_of s" "sdCfg s' = sdCfg s" "bl_view J (sdBacklog s') = ?V" using eq l by (auto simp: last_of_def split: if_splits)
  show "set es \<subseteq> set ?V" if "rr = Inr es"
  proof (cases "room \<le> 0 \<or> \<not> unsent (dlSentThrough d) s")
    case False
    then have "bl_NextAfter J w (dlSentThrough d) m (sdBacklog s) = (Inr es, b0)" using eq that nx by simp
    then show ?thesis by (rule blg.read_sound(2) [OF i])
  qed (use eq that in auto)
  show "trMaxUnacked (acTransport (sdCfg s)) \<le> int (length (dlInflight d)) \<or> (\<forall>x \<in> set ?V. Sequence x \<le> dlSentThrough d)" if e: "rr = Inr []"
  proof (cases "room \<le> 0")
    case False
    then have m: "0 < m" by (simp add: m_def maxSendBatch_def)
    have "Sequence x \<le> dlSentThrough d" if x: "x \<in> set ?V" for x
    proof (rule ccontr)
      assume "\<not> Sequence x \<le> dlSentThrough d"
      then have t: "dlSentThrough d < Sequence x" by simp
      have "Sequence x \<le> bl_LastSequence (sdBacklog s)" using blg.view_law [OF i] x by blast
      moreover have "bl_PendingCount (sdBacklog s) \<noteq> 0" using blg.count_law [OF i] x by (cases "bl_PendingCount (sdBacklog s) = 0") auto
      ultimately have "unsent (dlSentThrough d) s" using t by (simp add: unsent_def)
      then have "bl_NextAfter J w (dlSentThrough d) m (sdBacklog s) = (Inr [], b0)" using eq e nx False by simp
      from blg.read_nonempty [OF i this m x t] show False by simp
    qed
    then show ?thesis by blast
  qed (simp add: room_def)
qed

lemma trim_progress: "trim_session d s = (n, d1) \<Longrightarrow> dlSentThrough d1 = dlSentThrough d"
  by (auto simp: trim_session_def Let_def split: prod.splits)

lemma reconcile_progress:
  assumes c: "core J w N nx sub q p H F gs cs ses batch s"
  shows "last_of (reconcile J w s) = last_of s" "sdCfg (reconcile J w s) = sdCfg s"
proof -
  define s1 where "s1 = (if bl_FirstUnacked (sdBacklog s) > 0 then pruneOversized (bl_FirstUnacked (sdBacklog s) - 1) s else s)"
  obtain r b where a: "bl_Ack J w (sdAcked s) (sdBacklog s) = (r, b)" by fastforce
  have l: "bl_LastSequence b = bl_LastSequence (sdBacklog s)" using blg.ack_law [OF core_ok [OF c] a] by blast
  have p: "sdBacklog s1 = sdBacklog s" "sdAcked s1 = sdAcked s" "sdCfg s1 = sdCfg s" by (simp_all add: s1_def pruneOversized_def)
  have "reconcile J w s = s1 \<or> reconcile J w s = release_through J w (sdAcked s1) s1" by (simp add: reconcile_def Let_def s1_def)
  then show "last_of (reconcile J w s) = last_of s" "sdCfg (reconcile J w s) = sdCfg s"
    using p a l by (auto simp: last_of_def release_through_def)
qed

lemma pass_progress:
  assumes c: "core J w N nx sub q p H F gs cs (Some d) None s" and t: "send_pass J w mar nw now lp s d = (out, lp', s', d')"
  shows "(\<exists>gs'. core J w N nx sub q p H F gs' cs (Some d') None s') \<and> last_of s' = last_of s \<and> sdCfg s' = sdCfg s \<and>
    (out = PassAgain \<longrightarrow> dlSentThrough d < dlSentThrough d' \<and> dlSentThrough d' \<le> last_of s) \<and>
    (\<forall>wait. out = PassWait wait \<longrightarrow> trMaxUnacked (acTransport (sdCfg s)) \<le> int (length (dlInflight d')) \<or>
      (\<forall>x \<in> set (bl_view J (sdBacklog s')). Sequence x \<le> dlSentThrough d'))"
proof -
  define s1 where "s1 = reconcile J w s"
  obtain n d1 where tr: "trim_session d s1 = (n, d1)" by fastforce
  define s2 where "s2 = (if n > 0 then s1\<lparr> smAcknowledged := add64 (smAcknowledged s1) n \<rparr> else s1)"
  have c2: "core J w N nx sub q p H F gs cs (Some d1) None s2"
    using core_trim [OF core_reconcile [OF c] tr] by (simp add: s2_def s1_def)
  have k2: "last_of s2 = last_of s" "sdCfg s2 = sdCfg s" using reconcile_progress [OF c] by (simp_all add: s2_def s1_def last_of_def)
  have st: "dlSentThrough d1 = dlSentThrough d" by (rule trim_progress [OF tr])
  obtain rr s3 where rd: "dispatch_read J w s2 d1 = (rr, s3)" by fastforce
  note rp = read_progress [OF c2 rd]
  define r3 where "r3 = (case rr of Inl e \<Rightarrow> (Inl (BacklogRead e), s3, d1) | Inr es \<Rightarrow> dispatch_loop mar nw (sdAcked s3) es 0 s3 d1)"
  have ds: "dispatch J w mar nw s2 d1 = r3" by (simp add: dispatch_def rd r3_def split: sum.split)
  have sp: "(\<exists>e. out = PassError e) \<and> s' = s2 \<and> d' = d1 \<or> (\<exists>r. r3 = (r, s', d') \<and>
      (\<forall>m. r = Inr m \<longrightarrow> out = PassAgain \<and> (0 < m \<or> dlSentThrough d1 < dlSentThrough d') \<or> (\<exists>t. out = PassWait t) \<and> m = 0 \<and> dlSentThrough d' \<le> dlSentThrough d1) \<and>
      (\<forall>e. r = Inl e \<longrightarrow> out = PassError e))"
    using t unfolding send_pass_def Let_def s1_def [symmetric] tr prod.case s2_def [symmetric] ds
    by (cases r3) (auto split: if_splits sum.splits)
  then show ?thesis
  proof (elim disjE exE conjE)
    fix e assume "out = PassError e" "s' = s2" "d' = d1"
    then show ?thesis using c2 k2 by auto
  next
    fix r assume r: "r3 = (r, s', d')" and m: "\<forall>m. r = Inr m \<longrightarrow> out = PassAgain \<and> (0 < m \<or> dlSentThrough d1 < dlSentThrough d') \<or> (\<exists>t. out = PassWait t) \<and> m = 0 \<and> dlSentThrough d' \<le> dlSentThrough d1"
      and f: "\<forall>e. r = Inl e \<longrightarrow> out = PassError e"
    show ?thesis
    proof (cases rr)
      case (Inl e)
      then show ?thesis using r f core_read(1) [OF c2 rd] rp k2 by (auto simp: r3_def)
    next
      case (Inr es)
      have l: "dispatch_loop mar nw (sdAcked s3) es 0 s3 d1 = (r, s', d')" using r by (simp add: r3_def Inr)
      note lp = loop_progress [OF core_read(2) [OF c2 rd Inr] l]
      show ?thesis
      proof (cases "es = []")
        case True
        then have e: "r = Inr 0" "s' = s3" "d' = d1" using l by simp_all
        then show ?thesis using m lp rp(1-3) rp(5) k2 Inr True by auto
      next
        case False
        have up: "Sequence e \<le> last_of s" if "e \<in> set es" for e
          using that rp(4) [OF Inr] blg.view_law [OF core_ok [OF c2]] k2(1) by (auto simp: last_of_def)
        have "out \<noteq> PassWait t" for t using m f lp False by (cases r) auto
        moreover have "dlSentThrough d < dlSentThrough d' \<and> dlSentThrough d' \<le> last_of s" if again: "out = PassAgain"
        proof -
          obtain n where "r = Inr n" using f again by (cases r) auto
          then have "dlSentThrough d1 < dlSentThrough d'" using lp False by blast
          then show ?thesis using lp up st by auto
        qed
        ultimately show ?thesis using lp rp k2 by auto
      qed
    qed
  qed
qed

lemma busy_settles:
  assumes "core J w N nx sub q p H F gs cs (Some d) None s" "last_of s - dlSentThrough d < k"
  shows "\<exists>out s' d'. send_busy k J w mar nw clock lp s d = Some (out, s', d') \<and> (\<exists>gs'. core J w N nx sub q p H F gs' cs (Some d') None s') \<and>
    ((\<exists>e. out = PassError e) \<or> trMaxUnacked (acTransport (sdCfg s')) \<le> int (length (dlInflight d')) \<or>
      (\<forall>x \<in> set (bl_view J (sdBacklog s')). Sequence x \<le> dlSentThrough d'))"
  using assms
proof (induction k arbitrary: gs lp s d)
  case (Suc k)
  obtain out lp1 s1 d1 where t: "send_pass J w mar nw (clock k) lp s d = (out, lp1, s1, d1)" by (metis prod_cases4)
  note pr = pass_progress [OF Suc.prems(1) t]
  show ?case
  proof (cases "out = PassAgain")
    case True
    obtain gs1 where c1: "core J w N nx sub q p H F gs1 cs (Some d1) None s1" using pr by blast
    have "last_of s1 - dlSentThrough d1 < k" using pr True Suc.prems(2) by auto
    from Suc.IH [OF c1 this] show ?thesis by (simp add: t True)
  next
    case False
    then show ?thesis using pr t by (cases out) auto
  qed
qed simp

end
