(* ===== verification/Agent_Guarantees.thy ===== *)
theory Agent_Guarantees
  imports Send_Loop
begin

section \<open>What a running agent guarantees\<close>

subsection \<open>Every step keeps the invariant\<close>

lemma run_calls_empty: "sdCalls (agSend (run_calls a)) = []"
  by (simp add: run_calls_def fold_calls(1))

lemma ran_inv: "agent_inv J w N a \<Longrightarrow> \<not> agExhausted (run_calls a) \<Longrightarrow> \<exists>N. agent_inv J w N (run_calls a)"
  using run_calls_inv(1) by blast

lemmas inv_simps = agent_inv_def host_pos_def

lemma connected_inv:
  assumes i: "agent_inv J w N a" and s: "agSession a = None" "connect mar hc nw tick dialed c c' closing (agSend a) = (Inr (d, ready), s)"
  shows "agent_inv J w N (a\<lparr> agSend := session_start J w now ready (snd (run_connected now r s)), agSession := Some d, agBatch := None,
    agHostSaid := rdResumeFrom ready # agHostSaid a \<rparr>)"
proof -
  let ?H = "max (rdResumeFrom ready) (host_pos a)"
  let ?core = "\<lambda>H ses batch. core J w N (next_seq (agSeq a)) (agSubmitted a) (agQueue a) (agPump a) H (\<lambda>n. in_ranges n (agReports a))
     (agGivenUp a) (agCalls a) ses batch"
  have "agBatch a = None" using i s(1) by (simp add: agent_inv_def core_def)
  then have "?core (host_pos a) None None (agSend a)" using i s(1) by (simp add: agent_inv_def)
  then have "?core (host_pos a) None None s" using s(2) by (rule core_connect)
  moreover have fr: "fst (connect mar hc nw tick dialed c c' closing (agSend a)) = Inr (d, ready)" by (simp add: s(2))
  ultimately have "?core (host_pos a) (Some d) None s" using connect_fresh [OF fr] by (intro core_open)
  then have "?core (host_pos a) (Some d) None (snd (run_connected now r s))" by (rule core_run(2))
  then have "?core ?H (Some d) None (snd (run_connected now r s))" by (rule core_host) simp
  then have "?core ?H (Some d) None (session_start J w now ready (snd (run_connected now r s)))" by (rule core_start) simp
  then show ?thesis by (simp add: inv_simps)
qed

lemma pass_inv:
  assumes i: "agent_inv J w N a" and s: "agSession a = Some d" "agBatch a = None" "s1 = reconcile J w (agSend a)" "trim_session d s1 = (n, d1)"
    and r: "dispatch_read J w (s1\<lparr> smAcknowledged := add64 (smAcknowledged s1) n \<rparr>) d1 = (rr, s2)"
  shows "core J w N (next_seq (agSeq a)) (agSubmitted a) (agQueue a) (agPump a) (host_pos a) (\<lambda>n. in_ranges n (agReports a))
      (agGivenUp a) (agCalls a) (Some d1) None s2"
    "rr = Inr es \<Longrightarrow> agent_inv J w N (a\<lparr> agSend := s2, agSession := Some d1, agBatch := Some (es, sdAcked s2) \<rparr>)"
proof -
  let ?core = "\<lambda>ses batch. core J w N (next_seq (agSeq a)) (agSubmitted a) (agQueue a) (agPump a) (host_pos a) (\<lambda>n. in_ranges n (agReports a))
     (agGivenUp a) (agCalls a) ses batch"
  have "?core (Some d) None (agSend a)" using i s(1,2) by (simp add: agent_inv_def)
  then have "?core (Some d) None s1" unfolding s(3) by (rule core_reconcile)
  then have "?core (Some d1) None s1" using s(4) by (rule core_trim)
  then have c: "?core (Some d1) None (s1\<lparr> smAcknowledged := add64 (smAcknowledged s1) n \<rparr>)" by simp
  show "?core (Some d1) None s2" by (rule core_read [OF c r])
  show "agent_inv J w N (a\<lparr> agSend := s2, agSession := Some d1, agBatch := Some (es, sdAcked s2) \<rparr>)" if "rr = Inr es"
    using core_read(2) [OF c r that] by (simp add: inv_simps)
qed

lemma turn_inv:
  assumes i: "agent_inv J w N a" and s: "agSession a = Some d" "agBatch a = Some (e # es, acked)" "dispatch_event mar nw acked e (agSend a) d = (out, n, s, d1)"
  shows "agent_inv J w N (a\<lparr> agSend := s, agSession := Some d1, agBatch := (if out = Next then Some (es, acked) else None),
        agGivenUp := (if dlGivenUp d1 = dlGivenUp d then agGivenUp a else e # agGivenUp a) \<rparr>)"
  using core_turn [OF _ s(3)] i by (simp add: inv_simps s(1,2))

lemma receive_inv:
  assumes i: "agent_inv J w N a" and s: "agSession a = Some d" "recv_step J w mar nw hc now rx (agSend a) d = (err, s, d1)"
  shows "agent_inv J w N (a\<lparr> agSend := s, agSession := Some d1, agHostSaid := stated hc rx @ agHostSaid a \<rparr>)"
proof -
  let ?H = "foldr max (stated hc rx) (host_pos a)"
  let ?core = "\<lambda>H ses. core J w N (next_seq (agSeq a)) (agSubmitted a) (agQueue a) (agPump a) H (\<lambda>n. in_ranges n (agReports a))
     (agGivenUp a) (agCalls a) ses (agBatch a)"
  have "?core (host_pos a) (Some d) (agSend a)" using i s(1) by (simp add: agent_inv_def)
  then have "?core ?H (Some d) (agSend a)" using host_pos_app(2) by (rule core_host)
  then have "?core ?H (Some d1) s" using s(2) by (rule core_receive) (use host_pos_app(3) in blast)
  then show ?thesis by (simp add: inv_simps)
qed

lemma step_inv:
  assumes "agent_step J w mar nw hc errText a a'" "agent_inv J w N a" "\<not> agExhausted a'"
  shows "\<exists>N'. agent_inv J w N' a'"
  using assms
proof (induction rule: agent_step.induct)
  case (produce e a)
  then show ?case using submit_inv by blast
next
  case (reserve a pick ctxDone p s)
  then have "agent_inv J w N (a\<lparr> agPump := p, agSend := s \<rparr>)" using core_reserve [OF _ reserve(2)] by (simp add: inv_simps)
  then show ?case by blast
next
  case (get a e q)
  then have "agent_inv J w N (a\<lparr> agPump := Holding e, agQueue := q \<rparr>)" using flow_get by (auto simp: inv_simps intro: core_flow)
  then show ?case by blast
next
  case (get_closed a q)
  then have "agent_inv J w N (a\<lparr> agPump := Stopped, agQueue := q \<rparr>)" using flow_get_closed by (auto simp: inv_simps intro: core_flow)
  then show ?case by blast
next
  case (append a e p s)
  then have "agent_inv J w (Sequence e) (a\<lparr> agPump := p, agSend := s \<rparr>)" using core_append [OF _ append(2)] by (simp add: inv_simps)
  then show ?case by blast
next
  case (connected a tick dialed c c' closing d ready s now r)
  then show ?case by (intro ran_inv connected_inv)
next
  case (not_connected a tick dialed c c' closing err s now r)
  note c = core_session [OF core_connect [OF not_connected(3) [unfolded agent_inv_def] not_connected(2)]]
  show ?case using end_session_inv [OF not_connected(3) c not_connected(4)] by blast
next
  case (abandoned a tick dialed c c' closing err s)
  then have "agent_inv J w N (a\<lparr> agSend := s \<rparr>)" using core_connect [OF _ abandoned(2)] by (simp add: inv_simps)
  then show ?case by blast
next
  case (pass a d s1 n d1 es s2)
  then show ?case using pass_inv(2) by blast
next
  case (pass_failed a d s1 n d1 e s2 now r)
  note c = core_session [OF pass_inv(1) [OF pass_failed(6,1-5)]]
  show ?case using end_session_inv [OF pass_failed(6) c pass_failed(7)] by blast
next
  case (turn a d e es acked out n s d1)
  then show ?case by (intro ran_inv turn_inv)
next
  case (pass_end a acked)
  then have "agent_inv J w N (a\<lparr> agBatch := None \<rparr>)" using core_no_batch by (auto simp: inv_simps)
  then show ?case by blast
next
  case (receive a d now received err s d1)
  then show ?case by (intro ran_inv receive_inv)
next
  case (heartbeat a d m now err d1)
  then have "agent_inv J w N (a\<lparr> agSession := Some d1 \<rparr>)" using core_heartbeat [OF _ heartbeat(2)] by (simp add: inv_simps)
  then show ?case by blast
next
  case (goodbye a d)
  then have "agent_inv J w N (a\<lparr> agSession := Some (flush_end mar nw (agSend a) d) \<rparr>)" using core_flush by (simp add: inv_simps)
  then show ?case by blast
next
  case (ended a now err r)
  then have "agent_inv J w N (end_session errText now err r (a\<lparr> agSend := agSend a \<rparr>))"
    using core_session by (intro end_session_inv) (simp_all add: agent_inv_def)
  then show ?case by auto
next
  case (cancelled a)
  then have "agent_inv J w N (a\<lparr> agSend := drop_session (agSend a), agSession := None, agBatch := None \<rparr>)"
    using core_drop [OF core_session] by (simp add: inv_simps)
  then show ?case by blast
next
  case (poll a now final)
  then show ?case using drainLosses_inv by blast
next
  case (sync a sp r' sp')
  have "sp_ok J w (slots (agPump a)) N sp" using sync(1,3) by (simp add: agent_inv_def core_def flow_def bl_ok_def)
  note z = sync_spool [OF this sync(2)]
  have "agent_inv J w N (a\<lparr> agSend := (agSend a)\<lparr> sdBacklog := SpoolBacklog sp' \<rparr> \<rparr>)"
    using core_spool [OF sync(3) [unfolded agent_inv_def] sync(1) z(1-3)] z(4) by (simp add: inv_simps)
  then show ?case by blast
next
  case (stop a now m)
  then show ?case using stop_inv by blast
next
  case (close a)
  then show ?case using closeResources_inv by blast
qed

lemma reconcile_calls: "sdCalls (reconcile J w s) = sdCalls s"
  by (auto simp: reconcile_def pruneOversized_def release_through_def Let_def split: prod.splits backlog.splits)

lemma drain_calls: "sdCalls (agSend (drainLosses now final a)) = sdCalls (agSend a)"
proof -
  have 1: "agSend (reportLoss e f l a) = agSend a" for e f l a by (simp add: reportLoss_def Let_def)
  have 2: "agSend (drain_queue now a) = agSend a" for a by (simp add: drain_queue_def 1 split: prod.split option.split)
  have 3: "sdCalls (agSend (drain_spool now a)) = sdCalls (agSend a)" for a by (simp add: drain_spool_def 1 split: prod.split option.split backlog.split)
  have 4: "sdCalls (agSend (drain_failures now a)) = sdCalls (agSend a)" for a
    by (simp add: drain_failures_def drainAppendFailures_def 1 split: prod.split option.split)
  show ?thesis by (simp add: drainLosses_def 2 3 4)
qed

lemma connect_calls: "connect mar hc nw tick dialed c c' closing s = (r, s') \<Longrightarrow> sdCalls s' = sdCalls s"
  using connect_link [of mar hc nw tick dialed c c' closing s] by (auto simp: no_link_def dest!: arg_cong [where f = sdCalls])

lemma drop_calls: "sdCalls (drop_session s) = sdCalls s"
  by (simp add: drop_session_def dropConn_def split: option.split)

lemma step_calls: "agent_step J w mar nw hc errText a a' \<Longrightarrow> sdCalls (agSend a) = [] \<Longrightarrow> sdCalls (agSend a') = []"
proof (induction rule: agent_step.induct)
  case (reserve a pick ctxDone p s)
  then show ?case by (auto simp: pump_reserve_def split: prod.splits reserve_outcome.splits)
next
  case (append a e p s)
  then show ?case by (auto simp: pump_append_def recordAppendFailure_def signal_def Let_def split: prod.splits sum.splits)
next
  case (pass a d s1 n d1 es s2)
  then show ?case by (auto simp: dispatch_read_def reconcile_calls Let_def split: prod.splits sum.splits if_splits)
qed (auto simp: run_calls_empty drain_calls drop_calls dest: connect_calls simp: end_session_def closeResources_def stop_stream_def Let_def close_sender_def split: backlog.splits)

subsection \<open>Every run has the invariant\<close>

lemma opened_ok:
  assumes r: "spool_run J (Down fs) h" and op: "Open J w opts fs tick = (Inr u, sp)" and J: "codec_ok J" "codec_agrees J" "whole_writes w"
    and m: "spLastSeq sp \<le> max64"
  shows "sp_ok J w 0 (spLastSeq sp) sp"
proof -
  obtain xs where "node_inv J xs (Down fs) h" using run_node [OF r J(1)] by blast
  then obtain prs where d: "disk_inv J (hAcked h) prs fs" by (auto simp: node_down)
  obtain prs' where e: "open_end J (hAcked h) prs prs' (Inr ()) sp" using Open_inv [OF d op] by (auto simp: unit_eq)
  then obtain rss where s: "spool_inv J (hAcked h) rss sp" "\<forall>x \<in> set (recs prs). fst x \<le> spLastSeq sp" unfolding open_end_def by blast
  have "\<forall>g \<in> set (spSegs sp). sgBase g \<le> spLastSeq sp" using e s(2) unfolding open_end_def by metis
  then show ?thesis using J m s(1) unfolding sp_ok_def by blast
qed

lemma new_inv:
  assumes n: "New_agent cfg ident peer sp now = Inr a" and sp: "\<And>s. sp = Some s \<Longrightarrow> spLastSeq s \<le> max64 \<Longrightarrow> sp_ok J w 0 (spLastSeq s) s"
    and x: "\<not> agExhausted a"
  shows "\<exists>N. agent_inv J w N a"
proof -
  have v: "Validate_agent cfg = Inr ()" using n by (auto simp: New_agent_def split: sum.splits)
  note a = n [unfolded New_agent_def, simplified v, simplified, symmetric]
  have u: "0 < trMaxUnacked (acTransport (sdCfg (agSend a)))" using valid_agent_facts(2) [OF v] by (simp add: a newSender_def)
  define N where "N = (case sp of None \<Rightarrow> 0 | Some s \<Rightarrow> spLastSeq s)"
  have last: "\<And>s. sp = Some s \<Longrightarrow> spLastSeq s < max64" using x by (auto simp: a LastSequence_def)
  have nx: "next_seq (agSeq a) = Suc N" using last by (auto simp: a newSequencer_def N_def LastSequence_def inc64_def split: option.splits)
  have b: "bl_ok J w 0 N (sdBacklog (agSend a))" "bl_acked (sdBacklog (agSend a)) \<le> host_pos a"
    using sp last mem_ok_new by (auto simp: a newSender_def bl_ok_def bl_acked_def N_def host_pos_def less_imp_le split: option.splits)
  have "N < max64" using last by (auto simp: N_def max64_def split: option.splits)
  moreover have "queue_ok (agQueue a)" using queue_rel_New by (auto simp: a queue_ok_def)
  moreover have "held (agQueue a) = []" by (simp add: a held_def New_def contents_def)
  moreover have o: "agPump a = Reserving" "agSubmitted a = []" "agSession a = None" "agBatch a = None" "sdOversized (agSend a) = []" "sdAcked (agSend a) = 0" "sdCalls (agSend a) = []"
    by (simp_all add: a newSender_def)
  ultimately have "flow J w N (next_seq (agSeq a)) (agSubmitted a) (agQueue a) (agPump a) (sdBacklog (agSend a)) (host_pos a) X" for X
    using b by (simp add: flow_def nx increasing_def slots_def pump_held_def)
  then have "agent_inv J w N a" using u by (simp add: agent_inv_def core_def o)
  then show ?thesis by blast
qed

lemma started_inv:
  assumes n: "New_agent cfg ident peer sp now = Inr a" and sp: "\<And>s. sp = Some s \<Longrightarrow> spLastSeq s \<le> max64 \<Longrightarrow> sp_ok J w 0 (spLastSeq s) s"
    and x: "\<not> agExhausted (submit (started_event now a) a)"
  shows "\<exists>N. agent_inv J w N (submit (started_event now a) a)"
proof -
  have "\<not> agExhausted a" using x by simp
  then obtain N where "agent_inv J w N a" using new_inv [OF n sp] by blast
  moreover have "Sequence (started_event now a) = 0" by (simp add: started_event_def)
  ultimately show ?thesis using submit_inv x by blast
qed

lemma run_inv:
  assumes "agent_run J w mar nw hc errText a" "codec_ok J" "codec_agrees J" "whole_writes w" "\<not> agExhausted a"
  shows "\<exists>N. agent_inv J w N a"
  using assms
proof (induction rule: agent_run.induct)
  case (with_spool fs h opts tick u sp cfg ident peer now a)
  then show ?case using opened_ok by (intro started_inv) auto
next
  case (without_spool cfg ident peer now a)
  then show ?case by (intro started_inv) auto
next
  case (agent_steps a a')
  then show ?case using step_inv step_exhausted by blast
qed

lemma run_no_calls: "agent_run J w mar nw hc errText a \<Longrightarrow> sdCalls (agSend a) = []"
proof (induction rule: agent_run.induct)
  case (agent_steps a a')
  then show ?case using step_calls by blast
qed (auto simp: New_agent_def newSender_def split: sum.splits)

subsection \<open>A concrete run\<close>

text \<open>An agent with the compiled-in configuration but small buffers and no spool, a network on which everything works, and a host that answers every HELLO.\<close>

definition guest_identity :: identity where
  "guest_identity = \<lparr> idHostname = ''guest'', idMachineID = ''m'', idBootID = ''boot'', idKernel = ''linux'', idVersion = ''v1'' \<rparr>"

definition guest_net :: net_world where
  "guest_net = \<lparr> nwDeadline = (\<lambda>_. True), nwWrite = (\<lambda>_. WriteOk), nwClock = (\<lambda>_. 0) \<rparr>"

definition guest_ready :: Ready where
  "guest_ready = \<lparr> rdProtocolVersion = 1, rdHostVersion = ''h'', rdSessionID = ''s'', rdResumeFrom = 0, rdMaxPayloadSize = 0 \<rparr>"

definition guest_host :: host_codec where
  "guest_host = \<lparr> hcReady = (\<lambda>_. Some (guest_ready, [])), hcAck = (\<lambda>_. Some (\<lparr> ackSequence = 1 \<rparr>, [])), hcPong = (\<lambda>_. None),
     hcError = (\<lambda>_. None), hcShutdown = (\<lambda>_. None) \<rparr>"

definition guest_json :: "agent_message \<Rightarrow> bytes option" where "guest_json m = Some [1]"

definition guest_text :: "sender_error \<Rightarrow> string" where "guest_text e = []"

abbreviation "guest_run \<equiv> agent_run tiny_codec good_disk guest_json guest_net guest_host guest_text"
abbreviation "guest_step \<equiv> agent_step tiny_codec good_disk guest_json guest_net guest_host guest_text"

definition guest_config :: agent_config where
  "guest_config = DefaultAgent\<lparr> acQueueCapacity := 2, acTransport := (acTransport DefaultAgent)\<lparr> trMaxUnacked := 2 \<rparr> \<rparr>"

definition guest_new :: agent where
  "guest_new = projr (New_agent guest_config guest_identity ''host'' None 0)"

definition guest_started :: agent where
  "guest_started = submit (started_event 0 guest_new) guest_new"

lemma tiny_codec_agrees: "codec_agrees tiny_codec"
  by (auto simp: codec_agrees_def tiny_codec_def)

lemma guest_config_valid: "Validate_agent guest_config = Inr ()"
  by (simp add: guest_config_def Validate_agent_def DefaultAgent_def validate_transport_def validate_spool_def validateLogging_def
      IsAbs_def fl_le_def TransportVSOCK_def)

lemma guest_config_fields: "acQueueCapacity guest_config = 2" "auEnabled (acAudit guest_config)" "trMaxUnacked (acTransport guest_config) = 2"
    "trMaxPayloadSize (acTransport guest_config) = 2 ^ 20" "trAckTimeout (acTransport guest_config) = 60000000000"
  by (simp_all add: guest_config_def DefaultAgent_def)

lemma guest_new_agent: "New_agent guest_config guest_identity ''host'' None 0 = Inr guest_new"
  by (simp add: guest_new_def New_agent_def guest_config_valid)

lemma guest_started_run: "guest_run guest_started"
  unfolding guest_started_def by (rule agent_run.without_spool [OF guest_new_agent])

definition guest_event :: event where
  "guest_event = the (fst (snd (assign (Some (started_event 0 guest_new)) (agSeq guest_new))))"

definition guest_sender :: sender where
  "guest_sender = (agSend guest_new)\<lparr> sdBacklog := MemBacklog \<lparr> mbSlots = 1, mbCap = 2, mbEvents = [guest_event], mbLastSeq = 1 \<rparr>, sdWake := True \<rparr>"

lemma guest_new_fields:
  "agSend guest_new = newSender guest_config guest_identity ''host'' True None 0" "agSeq guest_new = newSequencer 1 ''boot''" "agPump guest_new = Reserving"
  "agQueue guest_new = New 2 (Some \<lparr> EventsDropped = 0, QueueDepth = 0 \<rparr>)" "agHostSaid guest_new = [0]" "agSession guest_new = None" "agSubmitted guest_new = []"
  "\<not> agExhausted guest_new" "agBatch guest_new = None" "agReports guest_new = []" "agGivenUp guest_new = []" "agCalls guest_new = []"
  by (simp_all add: guest_new_def New_agent_def guest_config_valid guest_config_fields guest_identity_def)

lemma guest_started_fields:
  "agSend guest_started = agSend guest_new" "agPump guest_started = Reserving" "agSession guest_started = None" "agBatch guest_started = None"
  "agSubmitted guest_started = [guest_event]" "Sequence guest_event = 1" "\<not> agExhausted guest_started" "agHostSaid guest_started = [0]"
  "\<exists>q. TryGet (agQueue guest_started) = (Some guest_event, q)" "next_seq (agSeq guest_started) = 2"
proof -
  have a: "assign (Some (started_event 0 guest_new)) (agSeq guest_new) = (1, Some guest_event, \<lparr> next_seq = 2, bootID = ''boot'' \<rparr>)"
    by (simp add: guest_event_def assign_def started_event_def guest_new_fields newSequencer_def inc64_def max64_def Let_def split: if_split)
  show "agSend guest_started = agSend guest_new" "agPump guest_started = Reserving" "agSession guest_started = None" "agBatch guest_started = None"
    "agSubmitted guest_started = [guest_event]" "\<not> agExhausted guest_started" "agHostSaid guest_started = [0]" "next_seq (agSeq guest_started) = 2"
    unfolding guest_started_def submit_def a prod.case by (simp_all add: guest_new_fields newSequencer_def max64_def)
  show "Sequence guest_event = 1"
    by (simp add: guest_event_def assign_def started_event_def guest_new_fields newSequencer_def Let_def split: if_split)
  show "\<exists>q. TryGet (agQueue guest_started) = (Some guest_event, q)"
    unfolding guest_started_def submit_def a prod.case by (simp add: guest_new_fields New_def Put_def TryGet_def popLocked_def queue_fields Let_def)
qed

text \<open>The first event reaches the memory backlog.\<close>

lemma guest_backlog:
  "\<exists>a. guest_run a \<and> agSend a = guest_sender \<and> agSubmitted a = [guest_event] \<and> \<not> agExhausted a \<and> agSession a = None \<and> agBatch a = None \<and>
    agHostSaid a = [0] \<and> next_seq (agSeq a) = 2"
proof -
  note f = guest_started_fields guest_new_fields
  obtain q where q: "TryGet (agQueue guest_started) = (Some guest_event, q)" using f by blast
  let ?s1 = "(agSend guest_new)\<lparr> sdBacklog := MemBacklog \<lparr> mbSlots = 1, mbCap = 2, mbEvents = [], mbLastSeq = 0 \<rparr> \<rparr>"
  let ?a1 = "guest_started\<lparr> agPump := Getting, agSend := ?s1 \<rparr>"
  let ?a2 = "?a1\<lparr> agPump := Holding guest_event, agQueue := q \<rparr>"
  let ?a3 = "?a2\<lparr> agPump := Reserving, agSend := guest_sender \<rparr>"
  have b: "sdBacklog (agSend guest_new) = MemBacklog \<lparr> mbSlots = 0, mbCap = 2, mbEvents = [], mbLastSeq = 0 \<rparr>"
    by (simp add: f newSender_def newMemBacklog_def guest_config_fields)
  have "pump_reserve True False (Len (agQueue guest_started)) (agSend guest_started) = (Getting, ?s1)"
    by (simp add: f(1) pump_reserve_def bl_Reserve_def mb_Reserve_def b)
  then have "guest_step guest_started ?a1" by (rule agent_step.reserve [rotated]) (simp add: f)
  then have 1: "guest_run ?a1" by (rule agent_run.agent_steps [OF guest_started_run])
  have "guest_step ?a1 ?a2" by (rule agent_step.get) (simp_all add: q)
  then have 2: "guest_run ?a2" by (rule agent_run.agent_steps [OF 1])
  have "pump_append tiny_codec good_disk guest_event ?s1 = (Reserving, guest_sender)"
    by (simp add: pump_append_def bl_Append_def mb_Append_def lift_result_def signal_def guest_sender_def f(6))
  then have "guest_step ?a2 ?a3" by (intro agent_step.append) simp_all
  then have "guest_run ?a3" by (rule agent_run.agent_steps [OF 2])
  then show ?thesis by (intro exI [of _ ?a3]) (simp add: f)
qed

text \<open>The host answers, and a session starts with that event unsent.\<close>

lemma guest_connect:
  "\<exists>d s. connect guest_json guest_host guest_net 0 (Some \<lparr> rData = frame_bytes (mk_frame MsgReady 0 [7]), rEnd = IoEOF \<rparr>) 0 1 False guest_sender =
     (Inr (d, guest_ready), guest_sender\<lparr> sdConn := Some 0 \<rparr>)"
proof -
  let ?r = "\<lparr> rData = frame_bytes (mk_frame MsgReady 0 [7]), rEnd = IoEOF \<rparr>"
  let ?l = "payloadLimit (2 ^ 20)"
  have cfg: "trMaxPayloadSize (acTransport (sdCfg guest_sender)) = 2 ^ 20" "sdClosed guest_sender = False"
    by (simp_all add: guest_sender_def guest_new_fields newSender_def guest_config_fields)
  have l: "?l = 1048576" "normalizeMaxPayload ?l = 1048576"
    by (simp_all add: payloadLimit_def normalizeMaxPayload_def MaxPayloadCeiling_def DefaultMaxPayloadSize_def)
  let ?d0 = "fresh_delivery ?r 1048576 0"
  have n: "normalizeMaxPayload 1048576 = 1048576" using l by simp
  obtain d1 where s: "send_on guest_json guest_net MsgHello 0 (AgHello (hello_of (guest_sender\<lparr> sdConn := Some 0 \<rparr>))) ?d0 = (Inr (), d1)" and
      d1: "dR (cDec (dlConn d1)) = ?r" "dMaxPayload (cDec (dlConn d1)) = 1048576"
    by (simp add: send_on_def fresh_delivery_def guest_net_def guest_json_def Send_cases NewConn_def NewEncoder_def NewDecoder_def n Valid_def MsgHello_def MsgShutdown_def)
  have "frame_ok 1048576 (mk_frame MsgReady 0 [7])" by (rule mk_frame_ok) (simp_all add: Valid_def MsgReady_def MsgHello_def MsgShutdown_def)
  then obtain k where k: "Receive True (dlConn d1) = (Inr (mk_frame MsgReady 0 [7]), k)"
    using ReadFrameInto_frame [of "cDec (dlConn d1)" "mk_frame MsgReady 0 [7]" "[]"] d1 by (simp add: Receive_def)
  have "read_ready guest_host (mk_frame MsgReady 0 [7]) = Inr guest_ready"
    by (simp add: read_ready_def DecodePayload_def guest_host_def guest_ready_def mk_frame_def Version_def)
  moreover have "nwDeadline guest_net t" for t by (simp add: guest_net_def)
  moreover have "rdMaxPayloadSize guest_ready = 0" by (simp add: guest_ready_def)
  moreover have "trMaxPayloadSize (acTransport (sdCfg guest_sender)) = 1048576" "payloadLimit 1048576 = 1048576" using cfg(1) l(1) by simp_all
  ultimately show ?thesis by (simp add: connect_def Let_def adoptConn_def cfg(2) s k)
qed

lemma guest_session:
  "\<exists>a d. guest_run a \<and> agSession a = Some d \<and> agBatch a = None \<and> \<not> agExhausted a \<and> dlSentThrough d = 0 \<and> dlInflight d = [] \<and> dlSent d = [] \<and>
    sdCfg (agSend a) = guest_config \<and> sdBacklog (agSend a) = sdBacklog guest_sender \<and> guest_event \<in> set (agSubmitted a) \<and>
    agHostSaid a = [0, 0] \<and> sdCalls (agSend a) = []"
proof -
  obtain a where a: "guest_run a" "agSend a = guest_sender" "agSubmitted a = [guest_event]" "\<not> agExhausted a" "agSession a = None" "agBatch a = None"
    "next_seq (agSeq a) = 2" "agHostSaid a = [0]" using guest_backlog by blast
  let ?r = "\<lparr> rData = frame_bytes (mk_frame MsgReady 0 [7]), rEnd = IoEOF \<rparr>"
  let ?s0 = "guest_sender\<lparr> sdConn := Some 0 \<rparr>"
  let ?n = "\<lparr> rnEver = False, rnMisbehaved = False, rnAttempts = 0 \<rparr>"
  obtain d where c: "connect guest_json guest_host guest_net 0 (Some ?r) 0 1 False (agSend a) = (Inr (d, guest_ready), ?s0)" using guest_connect a(2) by auto
  have fr: "fst (connect guest_json guest_host guest_net 0 (Some ?r) 0 1 False (agSend a)) = Inr (d, guest_ready)" unfolding c by simp
  let ?s = "session_start tiny_codec good_disk 0 guest_ready (snd (run_connected 0 ?n ?s0))"
  let ?b = "a\<lparr> agSend := ?s, agSession := Some d, agBatch := None, agHostSaid := rdResumeFrom guest_ready # agHostSaid a \<rparr>"
  have "guest_run (run_calls ?b)" by (rule agent_run.agent_steps [OF a(1) agent_step.connected [OF a(5) c]])
  moreover have s: "sdCalls ?s = [Emit (NewTransportConnected 0 (sdPeer ?s0) 1)]" "sdCfg ?s = sdCfg guest_sender" "sdBacklog ?s = sdBacklog guest_sender"
    by (simp_all add: session_start_def guest_ready_def run_connected_def emit_def guest_sender_def guest_new_fields newSender_def Let_def)
  moreover have "sdCfg guest_sender = guest_config" by (simp add: guest_sender_def guest_new_fields newSender_def)
  moreover have "guest_event \<in> set (agSubmitted (run_calls ?b))" "agSession (run_calls ?b) = Some d" "agBatch (run_calls ?b) = None" "\<not> agExhausted (run_calls ?b)" "agHostSaid (run_calls ?b) = [0, 0]"
    using a by (simp_all add: run_calls_def s(1) run_call_def) (simp_all add: submit_def max64_def guest_ready_def split: prod.split)
  ultimately show ?thesis using connect_fresh [OF fr] by (intro exI [of _ "run_calls ?b"] exI [of _ d]) (simp add: run_calls_def fold_calls(1))
qed

text \<open>The host acknowledges that event.\<close>

lemma guest_acked: "\<exists>a. guest_run a \<and> \<not> agExhausted a \<and> guest_event \<in> set (agSubmitted a) \<and> agHostSaid a = [1, 0, 0]"
proof -
  obtain a d where a: "guest_run a" "agSession a = Some d" "\<not> agExhausted a" "sdBacklog (agSend a) = sdBacklog guest_sender"
    "guest_event \<in> set (agSubmitted a)" "agHostSaid a = [0, 0]" "sdCalls (agSend a) = []" using guest_session by blast
  let ?f = "Inr (mk_frame MsgAck 0 [])"
  let ?s = "signal (applyAck tiny_codec good_disk 1 (agSend a))"
  have st: "stated guest_host ?f = [1]" by (simp add: stated_def mk_frame_def DecodePayload_def guest_host_def)
  have r: "recv_step tiny_codec good_disk guest_json guest_net guest_host 0 ?f (agSend a) d = (None, ?s, d)"
    by (simp add: recv_step_def mk_frame_def DecodePayload_def guest_host_def Let_def)
  let ?b = "a\<lparr> agSend := ?s, agSession := Some d, agHostSaid := stated guest_host ?f @ agHostSaid a \<rparr>"
  have "guest_run (run_calls ?b)" by (rule agent_run.agent_steps [OF a(1) agent_step.receive [OF a(2) r]])
  moreover have "adoptHostPosition 1 (agSend a) = agSend a"
    by (simp add: adoptHostPosition_def a(4) guest_sender_def bl_LastSequence_def mb_LastSequence_def)
  then have "sdCalls ?s = []" by (simp add: applyAck_def a(7) signal_def release_through_def pruneOversized_def Let_def)
  ultimately show ?thesis using a st by (intro exI [of _ "run_calls ?b"]) (simp add: run_calls_def)
qed

subsection \<open>Guarantees\<close>

definition waiting :: "event_codec \<Rightarrow> agent \<Rightarrow> event list" where
  "waiting J a = bl_view J (sdBacklog (agSend a)) @ pump_held (agPump a) @ held (agQueue a)"

definition loss_pending :: "agent \<Rightarrow> nat \<Rightarrow> bool" where
  "loss_pending a n \<longleftrightarrow> queue_lost (agQueue a) n \<or> bl_lost (sdBacklog (agSend a)) n \<or> failed_range (agSend a) n"

lemma run_accounted:
  assumes run: "agent_run J w mar nw hc errText a" and J: "codec_ok J" "codec_agrees J" "whole_writes w"
    and x: "\<not> agExhausted a" and e: "e \<in> set (agSubmitted a)"
  shows "accounted J (agQueue a) (agPump a) (sdBacklog (agSend a)) (host_pos a)
    (\<lambda>n. failed_range (agSend a) n \<or> in_ranges n (agReports a) \<or> too_large_reported (agGivenUp a) (agCalls a) n) (Sequence e)"
    "0 < Sequence e"
proof -
  obtain N where "agent_inv J w N a" using run_inv [OF run J x] by blast
  then show "accounted J (agQueue a) (agPump a) (sdBacklog (agSend a)) (host_pos a)
      (\<lambda>n. failed_range (agSend a) n \<or> in_ranges n (agReports a) \<or> too_large_reported (agGivenUp a) (agCalls a) n) (Sequence e)" "0 < Sequence e"
    using e run_no_calls [OF run] by (simp_all add: agent_inv_def core_def flow_def)
qed











end
